(* ===== verification/Prelude.thy ===== *)
theory Prelude
  imports Main "HOL-Library.Word" "HOL-Library.Multiset" "HOL-Library.Monad_Syntax"
begin

text \<open>
  Shared vocabulary of the development: machine types, error codes, the result types of the
  model, the collections of simplification rules used across components, and generic lemmas on
  lists (swapping two positions, prefixes of permuted lists).

  Conventions used by every component:
  \<^item> a function that may trip a \<open>zmq_assert\<close>, dereference a dangling pointer or index an array out
    of range returns an \<open>option\<close>; \<open>None\<close> stands for the abort or the undefined behaviour;
  \<^item> a function that reports an error through \<open>errno\<close> and \<open>-1\<close> returns \<open>errno + 'a\<close>.
\<close>

section \<open>Machine types\<close>

type_synonym byte = "8 word"
type_synonym bytes = "8 word list"
type_synonym uint32 = "32 word"
type_synonym uint64 = "64 word"

text \<open>The error codes the modelled code stores in \<open>errno\<close>.\<close>

datatype errno =
    EAGAIN | EFSM | EINVAL | ENOTSUP | EHOSTUNREACH | EFAULT | ENOMEM | ETERM | ENOTSOCK | EINTR
  | EPROTONOSUPPORT | ENOCOMPATPROTO | ENOENT

type_synonym 'a outcome = "errno + 'a"

section \<open>Collections of rules\<close>

named_theorems array_simps "rules about the array container"
named_theorems queue_simps "rules about queues and pipes"
named_theorems wire_simps "rules about the byte order helpers"

section \<open>Options as aborting computations\<close>

lemma bind_eq_Some:
  "Option.bind x f = Some y \<longleftrightarrow> (\<exists>a. x = Some a \<and> f a = Some y)"
  by (cases x) auto

lemma bind_eq_None:
  "Option.bind x f = None \<longleftrightarrow> (x = None \<or> (\<exists>a. x = Some a \<and> f a = None))"
  by (cases x) auto

section \<open>Swapping two positions of a list\<close>

definition swap_at :: "'a list \<Rightarrow> nat \<Rightarrow> nat \<Rightarrow> 'a list" where
  "swap_at xs i j = xs[i := xs ! j, j := xs ! i]"

lemma length_swap_at [simp]: "length (swap_at xs i j) = length xs"
  by (simp add: swap_at_def)

lemma nth_swap_at:
  "i < length xs \<Longrightarrow> j < length xs \<Longrightarrow> k < length xs \<Longrightarrow>
   swap_at xs i j ! k = (if k = i then xs ! j else if k = j then xs ! i else xs ! k)"
  by (auto simp: swap_at_def nth_list_update)

lemma swap_at_same [simp]: "i < length xs \<Longrightarrow> swap_at xs i i = xs"
  by (simp add: swap_at_def)

lemma swap_at_commute: "swap_at xs i j = swap_at xs j i"
  by (cases "i = j") (simp_all add: swap_at_def list_update_swap)

lemma mset_swap_at [simp]:
  "i < length xs \<Longrightarrow> j < length xs \<Longrightarrow> mset (swap_at xs i j) = mset xs"
  by (simp add: swap_at_def mset_swap)

lemma set_swap_at [simp]:
  "i < length xs \<Longrightarrow> j < length xs \<Longrightarrow> set (swap_at xs i j) = set xs"
  by (metis mset_swap_at set_mset_mset)

lemma distinct_swap_at [simp]:
  "i < length xs \<Longrightarrow> j < length xs \<Longrightarrow> distinct (swap_at xs i j) = distinct xs"
  by (metis mset_eq_imp_distinct_iff mset_swap_at)

text \<open>A prefix that contains both swapped positions keeps its elements.\<close>

lemma set_take_conv: "n \<le> length xs \<Longrightarrow> set (take n xs) = {xs ! k |k. k < n}"
  by (force simp: in_set_conv_nth)

lemma take_swap_at_inside:
  "i < n \<Longrightarrow> j < n \<Longrightarrow> n \<le> length xs \<Longrightarrow> take n (swap_at xs i j) = swap_at (take n xs) i j"
  by (simp add: swap_at_def take_update_swap)

lemma set_take_swap_at_inside:
  assumes "i < n" "j < n" "n \<le> length xs"
  shows "set (take n (swap_at xs i j)) = set (take n xs)"
  using assms by (simp add: take_swap_at_inside)

text \<open>Swapping position \<open>i\<close> with the first position beyond a prefix extends the prefix by \<open>xs ! i\<close>.\<close>

lemma set_take_Suc_swap_at:
  assumes "n \<le> i" "i < length xs"
  shows "set (take (Suc n) (swap_at xs i n)) = insert (xs ! i) (set (take n xs))"
proof -
  have "take n (swap_at xs i n) = take n xs"
    using assms by (simp add: swap_at_def take_update_cancel)
  moreover have "swap_at xs i n ! n = xs ! i"
    using assms by (simp add: nth_swap_at)
  ultimately show ?thesis
    using assms by (simp add: take_Suc_conv_app_nth)
qed

text \<open>Swapping position \<open>i\<close> with the last position of a prefix and shrinking the prefix removes \<open>xs ! i\<close>.\<close>

lemma set_take_pred_swap_at:
  assumes "distinct xs" "i \<le> n" "n < length xs"
  shows "set (take n (swap_at xs i n)) = set (take (Suc n) xs) - {xs ! i}"
proof -
  let ?ys = "swap_at xs i n"
  have "set (take (Suc n) ?ys) = set (take (Suc n) xs)"
    using assms by (intro set_take_swap_at_inside) auto
  moreover have "take (Suc n) ?ys = take n ?ys @ [xs ! i]"
    using assms by (simp add: take_Suc_conv_app_nth nth_swap_at)
  moreover have "distinct (take (Suc n) ?ys)"
    using assms by (intro distinct_take) simp
  ultimately show ?thesis by auto
qed

lemma set_take_swap_at_outside:
  assumes "n \<le> i" "n \<le> j"
  shows "take n (swap_at xs i j) = take n xs"
  using assms by (simp add: swap_at_def)

lemma take_butlast_update:
  "n \<le> i \<Longrightarrow> i < length xs \<Longrightarrow> take n (butlast (xs[i := x])) = take n xs"
  by (simp add: take_butlast)

text \<open>Overwriting position \<open>i\<close> with the last element and dropping the last position removes \<open>xs ! i\<close>.\<close>

lemma mset_butlast_update_last:
  assumes "i < length xs"
  shows "mset (butlast (xs[i := last xs])) = mset xs - {#xs ! i#}"
proof -
  let ?n = "length xs - 1"
  have "xs \<noteq> []" using assms by auto
  then have "butlast (xs[i := last xs]) = butlast (swap_at xs i ?n)"
    by (cases "i = ?n")
      (simp_all add: swap_at_def last_conv_nth butlast_list_update list_update_swap)
  moreover have "mset (swap_at xs i ?n) = mset (butlast (swap_at xs i ?n)) + {#xs ! i#}"
  proof -
    have "swap_at xs i ?n \<noteq> []" using \<open>xs \<noteq> []\<close> by (metis length_0_conv length_swap_at)
    then have "swap_at xs i ?n = butlast (swap_at xs i ?n) @ [last (swap_at xs i ?n)]" by simp
    moreover have "last (swap_at xs i ?n) = xs ! i"
      using assms \<open>swap_at xs i ?n \<noteq> []\<close> by (simp add: last_conv_nth nth_swap_at)
    ultimately show ?thesis by (metis mset_append mset.simps)
  qed
  moreover have "mset (swap_at xs i ?n) = mset xs" using assms by simp
  ultimately show ?thesis by (metis add_diff_cancel_right')
qed

lemma set_butlast_update_last:
  assumes "distinct xs" "i < length xs"
  shows "set (butlast (xs[i := last xs])) = set xs - {xs ! i}"
proof -
  have "set_mset (mset xs - {#xs ! i#}) = set xs - {xs ! i}"
    using assms by (metis distinct_remove1_removeAll mset_remove1 set_mset_mset set_removeAll)
  then show ?thesis
    using mset_butlast_update_last[OF assms(2)] by (metis set_mset_mset)
qed

end
