(* ===== verification/Yqueue.thy ===== *)
theory Yqueue
  imports Prelude
begin

text \<open>
  The chunked queue \<open>yqueue_t\<close> of \<open>yqueue.hpp\<close>: a doubly linked list of chunks of \<open>N\<close> elements. The
  chunks live in an explicit heap; following a dangling, null or uninitialised pointer and freeing a
  chunk twice are \<open>None\<close>. The address that \<open>malloc\<close> would return is an argument of the operations that
  may allocate; it has to be unused, so reuse of freed addresses is covered. Every operation is one
  atomic step here: the only member both threads use is \<open>spare_chunk\<close>, which the code accesses by
  atomic exchange.

  The queue is related to the list of its element addresses: \<open>push\<close> appends a fresh address, \<open>unpush\<close>
  removes the last and \<open>pop\<close> the first one, and all of them leave the stored elements in place.
\<close>

section \<open>Chunks and the heap\<close>

datatype link = Undef | Null | To nat

record 'a chunk_t =
  ch_values :: "nat \<Rightarrow> 'a option"
  ch_prev :: link
  ch_next :: link

record 'a yqueue_t =
  heap :: "nat \<rightharpoonup> 'a chunk_t"
  begin_chunk :: nat
  begin_pos :: nat
  back_chunk :: link
  back_pos :: nat
  end_chunk :: nat
  end_pos :: nat
  spare_chunk :: "nat option"

type_synonym slot = "nat \<times> nat"

text \<open>Memory freshly obtained from \<open>malloc\<close> holds nothing defined.\<close>

definition raw_chunk :: "'a chunk_t" where
  "raw_chunk = \<lparr>ch_values = (\<lambda>_. None), ch_prev = Undef, ch_next = Undef\<rparr>"

text \<open>
  The atomic operations of \<open>atomic_ptr_t\<close> on a pointer that may be null: the old value and the new
  content of the pointer.
\<close>

definition ptr_xchg :: "'p option \<Rightarrow> 'p option \<Rightarrow> 'p option \<times> 'p option" where
  "ptr_xchg val ptr = (ptr, val)"

definition ptr_cas :: "'p option \<Rightarrow> 'p option \<Rightarrow> 'p option \<Rightarrow> 'p option \<times> 'p option" where
  "ptr_cas cmp val ptr = (ptr, if ptr = cmp then val else ptr)"

definition chunk_malloc :: "nat \<Rightarrow> 'a yqueue_t \<Rightarrow> 'a yqueue_t option" where
  "chunk_malloc a q =
     (if heap q a = None then Some (q\<lparr>heap := (heap q)(a \<mapsto> raw_chunk)\<rparr>) else None)"

definition chunk_free :: "nat \<Rightarrow> 'a yqueue_t \<Rightarrow> 'a yqueue_t option" where
  "chunk_free a q =
     (if heap q a = None then None else Some (q\<lparr>heap := (heap q)(a := None)\<rparr>))"

definition deref :: "link \<Rightarrow> nat option" where
  "deref l = (case l of To a \<Rightarrow> Some a | _ \<Rightarrow> None)"

definition set_next :: "nat \<Rightarrow> link \<Rightarrow> 'a yqueue_t \<Rightarrow> 'a yqueue_t option" where
  "set_next a l q = do {
     ch \<leftarrow> heap q a; Some (q\<lparr>heap := (heap q)(a \<mapsto> ch\<lparr>ch_next := l\<rparr>)\<rparr>) }"

definition set_prev :: "nat \<Rightarrow> link \<Rightarrow> 'a yqueue_t \<Rightarrow> 'a yqueue_t option" where
  "set_prev a l q = do {
     ch \<leftarrow> heap q a; Some (q\<lparr>heap := (heap q)(a \<mapsto> ch\<lparr>ch_prev := l\<rparr>)\<rparr>) }"

definition next_of :: "'a yqueue_t \<Rightarrow> nat \<Rightarrow> link option" where
  "next_of q a = map_option ch_next (heap q a)"

definition prev_of :: "'a yqueue_t \<Rightarrow> nat \<Rightarrow> link option" where
  "prev_of q a = map_option ch_prev (heap q a)"

definition slot_value :: "'a yqueue_t \<Rightarrow> slot \<Rightarrow> 'a option" where
  "slot_value q s = do { ch \<leftarrow> heap q (fst s); ch_values ch (snd s) }"

definition slot_store :: "slot \<Rightarrow> 'a \<Rightarrow> 'a yqueue_t \<Rightarrow> 'a yqueue_t option" where
  "slot_store s v q = do {
     ch \<leftarrow> heap q (fst s);
     Some (q\<lparr>heap := (heap q)(fst s \<mapsto> ch\<lparr>ch_values := (ch_values ch)(snd s \<mapsto> v)\<rparr>)\<rparr>) }"

section \<open>Operations\<close>

definition yq_init :: "nat \<Rightarrow> 'a yqueue_t" where
  "yq_init a = \<lparr>heap = [a \<mapsto> raw_chunk], begin_chunk = a, begin_pos = 0, back_chunk = Null,
     back_pos = 0, end_chunk = a, end_pos = 0, spare_chunk = None\<rparr>"

text \<open>\<open>front\<close> and \<open>back\<close> return references, that is, addresses of elements.\<close>

definition yq_front :: "'a yqueue_t \<Rightarrow> slot option" where
  "yq_front q = do { _ \<leftarrow> heap q (begin_chunk q); Some (begin_chunk q, begin_pos q) }"

definition yq_back :: "'a yqueue_t \<Rightarrow> slot option" where
  "yq_back q = do { a \<leftarrow> deref (back_chunk q); _ \<leftarrow> heap q a; Some (a, back_pos q) }"

definition yq_push :: "nat \<Rightarrow> nat \<Rightarrow> 'a yqueue_t \<Rightarrow> 'a yqueue_t option" where
  "yq_push N new q =
     (let q = q\<lparr>back_chunk := To (end_chunk q), back_pos := end_pos q, end_pos := end_pos q + 1\<rparr> in
      if end_pos q \<noteq> N then Some q
      else do {
        let (sc, sp) = ptr_xchg None (spare_chunk q);
        let q = q\<lparr>spare_chunk := sp\<rparr>;
        q \<leftarrow> (case sc of
           Some c \<Rightarrow> do {
             q \<leftarrow> set_next (end_chunk q) (To c) q;
             set_prev c (To (end_chunk q)) q }
         | None \<Rightarrow> do {
             q \<leftarrow> chunk_malloc new q;
             q \<leftarrow> set_next (end_chunk q) (To new) q;
             set_prev new (To (end_chunk q)) q });
        l \<leftarrow> next_of q (end_chunk q);
        e \<leftarrow> deref l;
        Some (q\<lparr>end_chunk := e, end_pos := 0\<rparr>) })"

definition yq_unpush :: "nat \<Rightarrow> 'a yqueue_t \<Rightarrow> 'a yqueue_t option" where
  "yq_unpush N q = do {
     q \<leftarrow> (if back_pos q \<noteq> 0 then Some (q\<lparr>back_pos := back_pos q - 1\<rparr>)
          else do {
            a \<leftarrow> deref (back_chunk q);
            l \<leftarrow> prev_of q a;
            Some (q\<lparr>back_pos := N - 1, back_chunk := l\<rparr>) });
     if end_pos q \<noteq> 0 then Some (q\<lparr>end_pos := end_pos q - 1\<rparr>)
     else do {
       l \<leftarrow> prev_of q (end_chunk q);
       e \<leftarrow> deref l;
       let q = q\<lparr>end_pos := N - 1, end_chunk := e\<rparr>;
       l \<leftarrow> next_of q e;
       obsolete \<leftarrow> deref l;
       q \<leftarrow> chunk_free obsolete q;
       set_next e Null q } }"

definition yq_pop :: "nat \<Rightarrow> 'a yqueue_t \<Rightarrow> 'a yqueue_t option" where
  "yq_pop N q =
     (let q = q\<lparr>begin_pos := begin_pos q + 1\<rparr> in
      if begin_pos q = N then do {
        let old = begin_chunk q;
        l \<leftarrow> next_of q old;
        b \<leftarrow> deref l;
        q \<leftarrow> set_prev b Null (q\<lparr>begin_chunk := b\<rparr>);
        let q = q\<lparr>begin_pos := 0\<rparr>;
        let (cs, sp) = ptr_xchg (Some old) (spare_chunk q);
        let q = q\<lparr>spare_chunk := sp\<rparr>;
        (case cs of Some c \<Rightarrow> chunk_free c q | None \<Rightarrow> Some q) }
      else Some q)"

text \<open>
  The destructor walks the chain of chunks; on a cyclic chain it would not end, so it is a partial
  function, and that it returns is part of what is proved about it.
\<close>

partial_function (option) yq_free_chain :: "'a yqueue_t \<Rightarrow> 'a yqueue_t option" where
  "yq_free_chain q =
     (if begin_chunk q = end_chunk q then chunk_free (begin_chunk q) q
      else Option.bind (Option.bind (next_of q (begin_chunk q)) deref) (\<lambda>b.
        Option.bind (chunk_free (begin_chunk q) (q\<lparr>begin_chunk := b\<rparr>)) yq_free_chain))"

definition yq_destroy :: "'a yqueue_t \<Rightarrow> 'a yqueue_t option" where
  "yq_destroy q = do {
     q \<leftarrow> yq_free_chain q;
     let (sc, sp) = ptr_xchg None (spare_chunk q);
     let q = q\<lparr>spare_chunk := sp\<rparr>;
     (case sc of Some c \<Rightarrow> chunk_free c q | None \<Rightarrow> Some q) }"


section \<open>The invariant\<close>

text \<open>
  \<open>cs\<close> is the chain of chunks from \<open>begin_chunk\<close> to \<open>end_chunk\<close>. Element number \<open>k\<close>, counted from the
  start of the first chunk, is at position \<open>k mod N\<close> of chunk number \<open>k div N\<close>; the elements of the
  queue are those from \<open>begin_pos\<close> up to the end.
\<close>

definition linked :: "'a yqueue_t \<Rightarrow> nat list \<Rightarrow> bool" where
  "linked q cs \<longleftrightarrow> (\<forall>i. Suc i < length cs \<longrightarrow>
     next_of q (cs ! i) = Some (To (cs ! Suc i)) \<and> prev_of q (cs ! Suc i) = Some (To (cs ! i)))"

definition slot_no :: "nat \<Rightarrow> nat list \<Rightarrow> nat \<Rightarrow> slot" where
  "slot_no N cs k = (cs ! (k div N), k mod N)"

definition end_no :: "nat \<Rightarrow> nat list \<Rightarrow> 'a yqueue_t \<Rightarrow> nat" where
  "end_no N cs q = N * (length cs - 1) + end_pos q"

definition yq_slots :: "nat \<Rightarrow> nat list \<Rightarrow> 'a yqueue_t \<Rightarrow> slot list" where
  "yq_slots N cs q = map (slot_no N cs) [begin_pos q ..< end_no N cs q]"

definition yq_inv :: "nat \<Rightarrow> nat list \<Rightarrow> 'a yqueue_t \<Rightarrow> bool" where
  "yq_inv N cs q \<longleftrightarrow> 0 < N \<and> cs \<noteq> [] \<and> distinct cs \<and> cs ! 0 = begin_chunk q \<and>
     cs ! (length cs - 1) = end_chunk q \<and> begin_pos q < N \<and> end_pos q < N \<and>
     begin_pos q \<le> end_no N cs q \<and> linked q cs \<and>
     dom (heap q) = set cs \<union> set_option (spare_chunk q) \<and>
     set cs \<inter> set_option (spare_chunk q) = {} \<and>
     (begin_pos q < end_no N cs q \<longrightarrow>
        (\<exists>a. back_chunk q = To a \<and> (a, back_pos q) = slot_no N cs (end_no N cs q - 1)))"

text \<open>The relation between a queue and the list of the addresses of its elements.\<close>

definition yq_rel :: "nat \<Rightarrow> 'a yqueue_t \<Rightarrow> slot list \<Rightarrow> bool" where
  "yq_rel N q sl \<longleftrightarrow> (\<exists>cs. yq_inv N cs q \<and> sl = yq_slots N cs q)"

lemma deref_To [simp]: "deref (To a) = Some a"
  by (simp add: deref_def)

lemma slot_no_last:
  assumes "0 < N" "e < N" "cs \<noteq> []"
  shows "slot_no N cs (N * (length cs - 1) + e) = (cs ! (length cs - 1), e)"
  using assms by (simp add: slot_no_def)

lemma slot_no_app:
  assumes "0 < N" "k < N * length cs"
  shows "slot_no N (cs @ ds) k = slot_no N cs k"
  using assms by (simp add: slot_no_def nth_append less_mult_imp_div_less mult.commute)

lemma slot_no_Cons:
  assumes "0 < N"
  shows "slot_no N (c # cs) (k + N) = slot_no N cs k"
proof -
  have "(k + N) div N = Suc (k div N)" "(k + N) mod N = k mod N"
    using assms div_add_self2[of N k] by simp_all
  then show ?thesis by (simp add: slot_no_def)
qed

lemma slot_no_pred:
  assumes "0 < N" "0 < k"
  shows "slot_no N cs (k - 1) =
    (if k mod N = 0 then (cs ! (k div N - 1), N - 1) else (cs ! (k div N), k mod N - 1))"
proof (cases "k mod N = 0")
  case True
  then obtain m where m: "k = N * m" by (auto simp: mod_eq_0_iff_dvd)
  with assms obtain n where "m = Suc n" by (cases m) auto
  with m assms have "k - 1 = N * n + (N - 1)" "k div N = Suc n" by (auto simp: algebra_simps)
  moreover have "(N * n + (N - 1)) div N = n" "(N * n + (N - 1)) mod N = N - 1"
    using assms by (simp_all only: div_mult_self4 mod_mult_self4) simp_all
  ultimately show ?thesis using True assms by (simp only: slot_no_def) simp
next
  case False
  then have "k - 1 = N * (k div N) + (k mod N - 1)"
    by (metis Suc_pred add_Suc_right diff_Suc_1 mult_div_mod_eq not_gr_zero)
  moreover have "k mod N - 1 < N" using assms by (simp add: less_imp_diff_less)
  ultimately have "(k - 1) div N = k div N" "(k - 1) mod N = k mod N - 1"
    using assms by (simp_all add: div_mult_self4)
  with False show ?thesis by (simp add: slot_no_def)
qed

lemma slot_no_inj:
  assumes "distinct cs" "0 < N" "j < N * length cs" "k < N * length cs"
    "slot_no N cs j = slot_no N cs k"
  shows "j = k"
proof -
  have "j div N < length cs" "k div N < length cs"
    using assms by (simp_all add: less_mult_imp_div_less mult.commute)
  then have "j div N = k div N" "j mod N = k mod N"
    using assms by (auto simp: slot_no_def nth_eq_iff_index_eq)
  then show ?thesis by (metis div_mult_mod_eq)
qed

lemma end_no_bound:
  assumes "yq_inv N cs q"
  shows "end_no N cs q < N * length cs"
proof -
  have "cs \<noteq> []" "end_pos q < N" using assms by (auto simp: yq_inv_def)
  then obtain n where "length cs = Suc n" by (cases cs) auto
  then show ?thesis using \<open>end_pos q < N\<close> by (simp add: end_no_def)
qed

lemma yq_rel_distinct:
  assumes "yq_rel N q sl"
  shows "distinct sl"
proof -
  obtain cs where cs: "yq_inv N cs q" "sl = yq_slots N cs q" using assms by (auto simp: yq_rel_def)
  have "inj_on (slot_no N cs) (set [begin_pos q ..< end_no N cs q])"
    using slot_no_inj[of cs N] end_no_bound[OF cs(1)] cs(1)
    by (intro inj_onI) (auto simp: yq_inv_def)
  then show ?thesis by (simp add: cs(2) yq_slots_def distinct_map)
qed

lemma slot_no_live:
  assumes "yq_inv N cs q" "k < N * length cs"
  shows "fst (slot_no N cs k) \<in> set cs"
proof -
  have "k div N < length cs" using assms by (simp add: less_mult_imp_div_less mult.commute)
  then show ?thesis by (simp add: slot_no_def)
qed

lemma slots_live:
  assumes "yq_inv N cs q" "t \<in> set (yq_slots N cs q)"
  shows "fst t \<in> set cs"
  using assms(2) slot_no_live[OF assms(1)] end_no_bound[OF assms(1)] by (auto simp: yq_slots_def)

lemma heap_dom:
  assumes "yq_inv N cs q" "a \<in> set cs \<or> spare_chunk q = Some a"
  obtains ch where "heap q a = Some ch"
proof -
  have "a \<in> dom (heap q)" using assms by (auto simp: yq_inv_def)
  then show ?thesis using that by blast
qed

lemma yq_rel_init:
  assumes "0 < N"
  shows "yq_rel N (yq_init a :: 'a yqueue_t) []"
  unfolding yq_rel_def
proof (intro exI conjI)
  show "yq_inv N [a] (yq_init a :: 'a yqueue_t)"
    using assms by (simp add: yq_inv_def yq_init_def linked_def end_no_def)
  show "[] = yq_slots N [a] (yq_init a :: 'a yqueue_t)"
    by (simp add: yq_slots_def yq_init_def end_no_def)
qed

lemma yq_front_rel:
  assumes "yq_rel N q (s # sl)"
  shows "yq_front q = Some s"
proof -
  obtain cs where cs: "yq_inv N cs q" "s # sl = yq_slots N cs q"
    using assms by (auto simp: yq_rel_def)
  have "begin_pos q < end_no N cs q" using cs(2) by (auto simp: yq_slots_def intro: ccontr)
  then have "s = slot_no N cs (begin_pos q)" using cs(2) by (simp add: yq_slots_def upt_conv_Cons)
  moreover have "begin_pos q < N" "cs ! 0 = begin_chunk q" "cs \<noteq> []"
    using cs(1) by (auto simp: yq_inv_def)
  moreover from this have "begin_chunk q \<in> set cs" by (metis length_greater_0_conv nth_mem)
  ultimately have "s = (begin_chunk q, begin_pos q)" "begin_chunk q \<in> set cs"
    by (simp_all add: slot_no_def)
  moreover from this obtain ch where "heap q (begin_chunk q) = Some ch"
    using heap_dom[OF cs(1)] by blast
  ultimately show ?thesis by (simp add: yq_front_def)
qed

lemma yq_back_rel:
  assumes "yq_rel N q (sl @ [s])"
  shows "yq_back q = Some s"
proof -
  obtain cs where cs: "yq_inv N cs q" "sl @ [s] = yq_slots N cs q"
    using assms by (auto simp: yq_rel_def)
  let ?e = "end_no N cs q"
  have lt: "begin_pos q < ?e" using cs(2) by (auto simp: yq_slots_def intro: ccontr)
  then have "s = slot_no N cs (?e - 1)"
    using cs(2) by (cases "?e") (auto simp: yq_slots_def)
  moreover obtain a where a: "back_chunk q = To a" "(a, back_pos q) = slot_no N cs (?e - 1)"
    using cs(1) lt by (auto simp: yq_inv_def)
  moreover have "a \<in> set cs"
    using slot_no_live[OF cs(1), of "?e - 1"] end_no_bound[OF cs(1)] a(2)[symmetric] by simp
  moreover from this obtain ch where "heap q a = Some ch" using heap_dom[OF cs(1)] by blast
  ultimately show ?thesis by (simp add: yq_back_def)
qed

section \<open>Effect of the operations\<close>

text \<open>Pointers of other chunks and all stored elements survive an update of one pointer.\<close>

lemma set_next_Some:
  "set_next a l q = Some q' \<longleftrightarrow>
   (\<exists>ch. heap q a = Some ch \<and> q' = q\<lparr>heap := (heap q)(a \<mapsto> ch\<lparr>ch_next := l\<rparr>)\<rparr>)"
  by (auto simp: set_next_def bind_eq_Some)

lemma set_prev_Some:
  "set_prev a l q = Some q' \<longleftrightarrow>
   (\<exists>ch. heap q a = Some ch \<and> q' = q\<lparr>heap := (heap q)(a \<mapsto> ch\<lparr>ch_prev := l\<rparr>)\<rparr>)"
  by (auto simp: set_prev_def bind_eq_Some)

lemmas heap_simps = next_of_def prev_of_def set_next_def set_prev_def chunk_malloc_def
  chunk_free_def slot_value_def slot_store_def ptr_xchg_def

text \<open>What the two ways of appending a chunk to the chain have in common.\<close>

definition grown :: "nat \<Rightarrow> 'a yqueue_t \<Rightarrow> 'a yqueue_t \<Rightarrow> bool" where
  "grown n q q' \<longleftrightarrow> (\<exists>h ch cn. heap q (end_chunk q) = Some ch \<and> n \<noteq> end_chunk q \<and>
     (heap q n = Some cn \<or> heap q n = None \<and> cn = raw_chunk) \<and>
     h = (heap q)(end_chunk q \<mapsto> ch\<lparr>ch_next := To n\<rparr>, n \<mapsto> cn\<lparr>ch_prev := To (end_chunk q)\<rparr>) \<and>
     q' = q\<lparr>heap := h, back_chunk := To (end_chunk q), back_pos := end_pos q, end_chunk := n,
            end_pos := 0, spare_chunk := None\<rparr>)"

lemma yq_push_grow:
  assumes inv: "yq_inv N cs q" and full: "Suc (end_pos q) = N" and new: "heap q new = None"
  obtains n q' where "yq_push N new q = Some q'" "grown n q q'"
    "spare_chunk q = Some n \<or> spare_chunk q = None \<and> n = new"
proof -
  have "end_chunk q \<in> set cs"
    using inv by (metis diff_less length_greater_0_conv nth_mem yq_inv_def zero_less_one)
  then obtain ch where ch: "heap q (end_chunk q) = Some ch" using heap_dom[OF inv] by blast
  show ?thesis
  proof (cases "spare_chunk q")
    case None
    have "new \<noteq> end_chunk q" using ch new by auto
    with None ch new full show ?thesis
      by (intro that[of _ new])
        (auto simp: yq_push_def Let_def heap_simps grown_def)
  next
    case (Some c)
    obtain cc where cc: "heap q c = Some cc" using heap_dom[OF inv] Some by blast
    have "c \<noteq> end_chunk q" using \<open>end_chunk q \<in> set cs\<close> Some inv by (auto simp: yq_inv_def)
    with Some ch cc full show ?thesis
      by (intro that[of _ c])
        (auto simp: yq_push_def Let_def heap_simps grown_def)
  qed
qed

lemma yq_inv_grown:
  assumes inv: "yq_inv N cs q" and full: "Suc (end_pos q) = N" and g: "grown n q q'"
    and n: "spare_chunk q = Some n \<or> spare_chunk q = None \<and> heap q n = None"
  shows "yq_inv N (cs @ [n]) q'" "yq_slots N (cs @ [n]) q' = yq_slots N cs q @ [slot_no N cs (end_no N cs q)]"
proof -
  have c: "0 < N" "cs \<noteq> []" "distinct cs" "cs ! (length cs - 1) = end_chunk q" "linked q cs"
    "cs ! 0 = begin_chunk q" "begin_pos q \<le> end_no N cs q"
    "dom (heap q) = set cs \<union> set_option (spare_chunk q)" using inv by (auto simp: yq_inv_def)
  have nin: "n \<notin> set cs" using n inv by (auto simp: yq_inv_def)
  obtain ch cn where g': "heap q (end_chunk q) = Some ch" "n \<noteq> end_chunk q"
    "q' = q\<lparr>heap := (heap q)(end_chunk q \<mapsto> ch\<lparr>ch_next := To n\<rparr>,
        n \<mapsto> cn\<lparr>ch_prev := To (end_chunk q)\<rparr>), back_chunk := To (end_chunk q),
        back_pos := end_pos q, end_chunk := n, end_pos := 0, spare_chunk := None\<rparr>"
    using g by (auto simp: grown_def)
  have e: "end_no N (cs @ [n]) q' = Suc (end_no N cs q)"
    using full c(1,2) by (cases cs) (auto simp: end_no_def g'(3))
  have lt: "end_no N cs q < N * length cs" using inv by (rule end_no_bound)
  have sl: "slot_no N cs (end_no N cs q) = (end_chunk q, end_pos q)"
    using slot_no_last[of N "end_pos q" cs] c full by (simp add: end_no_def)
  have last: "cs ! i = end_chunk q \<longleftrightarrow> i = length cs - 1" if "i < length cs" for i
    using that c(2,3,4) by (metis diff_less length_greater_0_conv nth_eq_iff_index_eq zero_less_one)
  have nn: "cs ! i \<noteq> n" if "i < length cs" for i using that nin nth_mem by metis
  have "linked q' (cs @ [n])"
    unfolding linked_def
  proof (intro allI impI)
    fix i assume i: "Suc i < length (cs @ [n])"
    show "next_of q' ((cs @ [n]) ! i) = Some (To ((cs @ [n]) ! Suc i)) \<and>
      prev_of q' ((cs @ [n]) ! Suc i) = Some (To ((cs @ [n]) ! i))"
    proof (cases "Suc i < length cs")
      case True
      then have "next_of q (cs ! i) = Some (To (cs ! Suc i))" "prev_of q (cs ! Suc i) = Some (To (cs ! i))"
        using c(5) by (auto simp: linked_def)
      then show ?thesis using True nn[of i] nn[of "Suc i"] last[of i] g'
        by (auto simp: nth_append next_of_def prev_of_def)
    next
      case False
      then have "i = length cs - 1" "i < length cs" "Suc i = length cs" using i c(2) by auto
      then show ?thesis using c(4) g' by (auto simp: nth_append next_of_def prev_of_def)
    qed
  qed
  moreover have "dom (heap q') = set (cs @ [n])"
    using c(8) n g' by auto
  moreover have "(cs @ [n]) ! 0 = begin_chunk q'" using c(2,6) g'(3) by (simp add: nth_append)
  ultimately show "yq_inv N (cs @ [n]) q'"
    using inv e sl lt nin c(1,3,7) slot_no_app[OF c(1) lt, of "[n]"] g'(3)
    by (simp add: yq_inv_def)
  show "yq_slots N (cs @ [n]) q' = yq_slots N cs q @ [slot_no N cs (end_no N cs q)]"
    using c(1,7) lt e slot_no_app[OF c(1)] g'(3) by (simp add: yq_slots_def)
qed

lemma slot_value_grown:
  assumes "grown n q q'" "heap q (fst s) \<noteq> None"
  shows "slot_value q' s = slot_value q s"
  using assms by (auto simp: grown_def slot_value_def)

theorem yq_push_rel:
  assumes rel: "yq_rel N q sl" and new: "heap q new = None"
  obtains q' s where "yq_push N new q = Some q'" "yq_rel N q' (sl @ [s])"
    "\<forall>t \<in> set sl. slot_value q' t = slot_value q t"
proof -
  obtain cs where cs: "yq_inv N cs q" "sl = yq_slots N cs q" using rel by (auto simp: yq_rel_def)
  show ?thesis
  proof (cases "Suc (end_pos q) = N")
    case True
    obtain n q' where q': "yq_push N new q = Some q'" "grown n q q'"
      "spare_chunk q = Some n \<or> spare_chunk q = None \<and> n = new"
      using cs(1) True new by (rule yq_push_grow)
    have n: "spare_chunk q = Some n \<or> spare_chunk q = None \<and> heap q n = None" using q'(3) new by auto
    have "slot_value q' t = slot_value q t" if t: "t \<in> set sl" for t
    proof -
      have "fst t \<in> set cs" using t slots_live[OF cs(1)] cs(2) by blast
      then obtain ch where "heap q (fst t) = Some ch" using heap_dom[OF cs(1)] by blast
      then show ?thesis using slot_value_grown[OF q'(2)] by simp
    qed
    then show ?thesis using that[OF q'(1)] yq_inv_grown[OF cs(1) True q'(2) n] cs(2)
      by (metis yq_rel_def)
  next
    case False
    let ?q = "q\<lparr>back_chunk := To (end_chunk q), back_pos := end_pos q, end_pos := end_pos q + 1\<rparr>"
    have c: "0 < N" "cs \<noteq> []" "cs ! (length cs - 1) = end_chunk q" "end_pos q < N"
      "begin_pos q \<le> end_no N cs q" using cs(1) by (auto simp: yq_inv_def)
    have e: "end_no N cs ?q = Suc (end_no N cs q)" by (simp add: end_no_def)
    have sl: "slot_no N cs (end_no N cs q) = (end_chunk q, end_pos q)"
      using slot_no_last[OF c(1,4,2)] c(3) by (simp add: end_no_def)
    have "yq_inv N cs ?q" using cs(1) e sl False
      by (simp add: yq_inv_def linked_def next_of_def prev_of_def)
    moreover have "yq_slots N cs ?q = sl @ [slot_no N cs (end_no N cs q)]"
      using e c(5) by (simp add: cs(2) yq_slots_def)
    moreover have "yq_push N new q = Some ?q" using False by (simp add: yq_push_def)
    ultimately show ?thesis
      by (intro that[of ?q "slot_no N cs (end_no N cs q)"])
        (auto simp: slot_value_def yq_rel_def intro: exI[of _ cs])
  qed
qed

text \<open>The element before the last one, as the code finds it by the \<open>prev\<close> pointers.\<close>

lemma back_step:
  assumes inv: "yq_inv N cs q" and k: "0 < k" "k < N * length cs"
    and a: "(a, p) = slot_no N cs k"
  shows "if p \<noteq> 0 then slot_no N cs (k - 1) = (a, p - 1)
    else \<exists>b. prev_of q a = Some (To b) \<and> slot_no N cs (k - 1) = (b, N - 1)"
proof (cases "p = 0")
  case False
  then show ?thesis using slot_no_pred[of N k cs] inv k a by (simp add: slot_no_def yq_inv_def)
next
  case True
  have N: "0 < N" "linked q cs" using inv by (auto simp: yq_inv_def)
  have m: "k mod N = 0" "a = cs ! (k div N)" using a True by (simp_all add: slot_no_def)
  have "k div N \<noteq> 0" using m(1) k(1) N(1) by (metis div_mult_mod_eq add.right_neutral mult_0 not_gr_zero)
  moreover have "k div N < length cs" using k N by (simp add: less_mult_imp_div_less mult.commute)
  ultimately have "prev_of q a = Some (To (cs ! (k div N - 1)))"
    using N(2) m(2) by (auto simp: linked_def dest: spec[of _ "k div N - 1"])
  then show ?thesis using True slot_no_pred[OF N(1) k(1), of cs] m(1) by simp
qed

lemma yq_inv_unpush_same:
  assumes inv: "yq_inv N cs q" and ne: "begin_pos q < end_no N cs q" and e: "end_pos q \<noteq> 0"
    and bk: "begin_pos q < end_no N cs q - 1 \<Longrightarrow>
      \<exists>a. bl = To a \<and> (a, bp) = slot_no N cs (end_no N cs q - 2)"
  defines "q' \<equiv> q\<lparr>back_chunk := bl, back_pos := bp, end_pos := end_pos q - 1\<rparr>"
  shows "yq_inv N cs q'" "yq_slots N cs q' = butlast (yq_slots N cs q)"
proof -
  have e': "end_no N cs q' = end_no N cs q - 1" using e by (simp add: end_no_def q'_def)
  show "yq_inv N cs q'"
    using inv ne e' bk by (auto simp: yq_inv_def q'_def linked_def next_of_def prev_of_def
        numeral_2_eq_2 simp del: One_nat_def)
  show "yq_slots N cs q' = butlast (yq_slots N cs q)"
    using e' ne by (cases "end_no N cs q") (auto simp: yq_slots_def q'_def butlast_append)
qed

lemma yq_inv_unpush_free:
  assumes inv: "yq_inv N (ds @ [z]) q" and d: "ds \<noteq> []" and e: "end_pos q = 0"
    and ch: "heap q (last ds) = Some ch"
    and bk: "begin_pos q < end_no N (ds @ [z]) q - 1 \<Longrightarrow>
      \<exists>a. bl = To a \<and> (a, bp) = slot_no N (ds @ [z]) (end_no N (ds @ [z]) q - 2)"
  defines "q' \<equiv> q\<lparr>heap := (heap q)(z := None, last ds \<mapsto> ch\<lparr>ch_next := Null\<rparr>), back_chunk := bl,
    back_pos := bp, end_pos := N - 1, end_chunk := last ds\<rparr>"
  shows "yq_inv N ds q'" "yq_slots N ds q' = butlast (yq_slots N (ds @ [z]) q)"
proof -
  have c: "0 < N" "distinct (ds @ [z])" "linked q (ds @ [z])" "begin_pos q < N"
    "dom (heap q) = insert z (set ds) \<union> set_option (spare_chunk q)"
    "ds ! 0 = begin_chunk q" using inv d by (auto simp: yq_inv_def nth_append)
  have e': "Suc (end_no N ds q') = end_no N (ds @ [z]) q"
    using e c(1) d by (cases "length ds") (auto simp: end_no_def q'_def)
  have lt: "end_no N ds q' < N * length ds" using e e' by (simp add: end_no_def)
  have sl: "slot_no N (ds @ [z]) k = slot_no N ds k" if "k \<le> end_no N ds q'" for k
    using slot_no_app[OF c(1)] that lt by simp
  have last: "ds ! i = last ds \<longleftrightarrow> Suc i = length ds" if "i < length ds" for i
    using that c(2) d nth_eq_iff_index_eq[of ds i "length ds - 1"] by (auto simp: last_conv_nth)
  have "linked q' ds"
    unfolding linked_def
  proof (intro allI impI)
    fix i assume i: "Suc i < length ds"
    then have "next_of q (ds ! i) = Some (To (ds ! Suc i))" "prev_of q (ds ! Suc i) = Some (To (ds ! i))"
      using c(3) by (auto simp: linked_def nth_append dest: spec[of _ i])
    moreover have "ds ! i \<noteq> z" "ds ! Suc i \<noteq> z" using c(2) i by (auto simp: in_set_conv_nth)
    ultimately show "next_of q' (ds ! i) = Some (To (ds ! Suc i)) \<and> prev_of q' (ds ! Suc i) = Some (To (ds ! i))"
      using last[of i] last[of "Suc i"] i ch by (auto simp: next_of_def prev_of_def q'_def)
  qed
  moreover have "dom (heap q') = set ds \<union> set_option (spare_chunk q)"
    using c(2,5) ch d inv by (auto simp: q'_def yq_inv_def)
  moreover have "begin_pos q \<le> end_no N ds q'"
    using c(1,4) d by (cases "length ds") (auto simp: end_no_def q'_def)
  ultimately show "yq_inv N ds q'"
    using inv d c(1,2,6) bk sl[of "end_no N ds q' - 1"] unfolding e'[symmetric]
    by (auto simp: yq_inv_def q'_def last_conv_nth numeral_2_eq_2)
  show "yq_slots N ds q' = butlast (yq_slots N (ds @ [z]) q)"
    using \<open>begin_pos q \<le> end_no N ds q'\<close> sl unfolding yq_slots_def e'[symmetric]
    by (simp add: q'_def butlast_append)
qed

theorem yq_unpush_rel:
  assumes rel: "yq_rel N q (sl @ [x])"
  obtains q' where "yq_unpush N q = Some q'" "yq_rel N q' sl"
    "\<forall>t \<in> set sl. slot_value q' t = slot_value q t"
proof -
  obtain cs where cs: "yq_inv N cs q" "sl @ [x] = yq_slots N cs q"
    using rel by (auto simp: yq_rel_def)
  let ?E = "end_no N cs q"
  have ne: "begin_pos q < ?E" using cs(2) by (auto simp: yq_slots_def intro: ccontr)
  obtain a where a: "back_chunk q = To a" "(a, back_pos q) = slot_no N cs (?E - 1)"
    using cs(1) ne by (auto simp: yq_inv_def)
  have lt: "?E < N * length cs" using cs(1) by (rule end_no_bound)
  have "a \<in> set cs" using slot_no_live[OF cs(1), of "?E - 1"] lt a(2)[symmetric] by simp
  then obtain ca where ca: "heap q a = Some ca" using heap_dom[OF cs(1)] by blast
  define bl where "bl = (if back_pos q \<noteq> 0 then back_chunk q else ch_prev ca)"
  define bp where "bp = (if back_pos q \<noteq> 0 then back_pos q - 1 else N - 1)"
  have bk: "\<exists>b. bl = To b \<and> (b, bp) = slot_no N cs (?E - 2)" if "begin_pos q < ?E - 1"
  proof -
    have k: "0 < ?E - 1" "?E - 1 < N * length cs" "?E - 1 - 1 = ?E - 2" using that lt by auto
    from back_step[OF cs(1) k(1,2) a(2), unfolded k(3)] show ?thesis
      using a(1) ca by (cases "back_pos q = 0") (auto simp: bl_def bp_def prev_of_def)
  qed
  have st: "(if back_pos q \<noteq> 0 then Some (q\<lparr>back_pos := back_pos q - 1\<rparr>)
      else do { a \<leftarrow> deref (back_chunk q); l \<leftarrow> prev_of q a;
        Some (q\<lparr>back_pos := N - 1, back_chunk := l\<rparr>) }) = Some (q\<lparr>back_chunk := bl, back_pos := bp\<rparr>)"
    using a(1) ca by (cases q) (auto simp: bl_def bp_def prev_of_def)
  have un: "yq_unpush N q = (let q = q\<lparr>back_chunk := bl, back_pos := bp\<rparr> in
     if end_pos q \<noteq> 0 then Some (q\<lparr>end_pos := end_pos q - 1\<rparr>)
     else do {
       l \<leftarrow> prev_of q (end_chunk q);
       e \<leftarrow> deref l;
       let q = q\<lparr>end_pos := N - 1, end_chunk := e\<rparr>;
       l \<leftarrow> next_of q e;
       obsolete \<leftarrow> deref l;
       q \<leftarrow> chunk_free obsolete q;
       set_next e Null q })"
    by (simp only: yq_unpush_def st bind.bind_lunit Let_def)
  have sl: "butlast (yq_slots N cs q) = sl" unfolding cs(2)[symmetric] by simp
  show ?thesis
  proof (cases "end_pos q = 0")
    case False
    note r = yq_inv_unpush_same[OF cs(1) ne False, of bl bp, OF bk]
    from False show ?thesis
      by (intro that[of "q\<lparr>back_chunk := bl, back_pos := bp, end_pos := end_pos q - 1\<rparr>"])
        (use r sl in \<open>auto simp: un Let_def yq_rel_def slot_value_def\<close>)
  next
    case True
    have "length cs \<noteq> 1" using ne True by (auto simp: end_no_def)
    moreover have "cs \<noteq> []" using cs(1) by (simp add: yq_inv_def)
    ultimately have "cs = butlast cs @ [last cs]" "butlast cs \<noteq> []" by (auto simp: length_Suc_conv neq_Nil_conv)
    then obtain ds z where ds: "cs = ds @ [z]" "ds \<noteq> []" by blast
    have z: "z = end_chunk q" "linked q (ds @ [z])" "z \<notin> set ds" using cs(1) ds by (auto simp: yq_inv_def)
    have lk: "next_of q (last ds) = Some (To z)" "prev_of q z = Some (To (last ds))"
      using z(2) ds(2) spec[OF z(2)[unfolded linked_def], of "length ds - 1"]
      by (auto simp: last_conv_nth nth_append)
    then obtain ch cz where ch: "heap q (last ds) = Some ch" "ch_next ch = To z"
      and cz: "heap q z = Some cz" "ch_prev cz = To (last ds)"
      by (auto simp: next_of_def prev_of_def)
    have nz: "last ds \<noteq> z" using z(3) ds(2) by auto
    note r = yq_inv_unpush_free[OF cs(1)[unfolded ds(1)] ds(2) True ch(1), of bl bp,
        OF bk[unfolded ds(1)]]
    let ?q = "q\<lparr>heap := (heap q)(z := None, last ds \<mapsto> ch\<lparr>ch_next := Null\<rparr>), back_chunk := bl,
      back_pos := bp, end_pos := N - 1, end_chunk := last ds\<rparr>"
    have "yq_unpush N q = Some ?q"
      using True ch cz nz z(1) by (simp add: un Let_def heap_simps)
    moreover have "yq_rel N ?q sl" using r sl ds(1) by (auto simp: yq_rel_def)
    moreover have "slot_value ?q t = slot_value q t" if t: "t \<in> set sl" for t
    proof -
      have "sl = yq_slots N ds ?q" using r(2) sl ds(1) by simp
      then have "fst t \<in> set ds" using t slots_live[OF r(1)] by blast
      then show ?thesis using z(3) ch(1) by (auto simp: slot_value_def)
    qed
    ultimately show ?thesis by (intro that[of ?q]) auto
  qed
qed

lemma yq_inv_pop_chunk:
  assumes inv: "yq_inv N (c # cs) q" and ne: "cs \<noteq> []" and b: "Suc (begin_pos q) = N"
    and ch: "heap q (cs ! 0) = Some ch" and E: "begin_pos q < end_no N (c # cs) q"
    and h: "h = (case spare_chunk q of None \<Rightarrow> heap q | Some o' \<Rightarrow> (heap q)(o' := None))"
  defines "q' \<equiv> q\<lparr>heap := h(cs ! 0 \<mapsto> ch\<lparr>ch_prev := Null\<rparr>), begin_chunk := cs ! 0,
    begin_pos := 0, spare_chunk := Some c\<rparr>"
  shows "yq_inv N cs q'" "yq_slots N cs q' = tl (yq_slots N (c # cs) q)"
proof -
  have c: "0 < N" "distinct (c # cs)" "linked q (c # cs)" "end_pos q < N"
    "dom (heap q) = insert c (set cs) \<union> set_option (spare_chunk q)"
    "insert c (set cs) \<inter> set_option (spare_chunk q) = {}" using inv by (auto simp: yq_inv_def)
  have cs0: "cs ! 0 \<in> set cs" using ne by simp
  have e': "end_no N (c # cs) q = end_no N cs q' + N"
    using ne by (cases cs) (auto simp: end_no_def q'_def)
  have sl: "slot_no N (c # cs) (k + N) = slot_no N cs k" for k using c(1) by (rule slot_no_Cons)
  have dh: "dom h = insert c (set cs)" using c(5,6) h by (auto split: option.splits)
  have same: "h a = heap q a" if "a \<in> set cs" for a
    using that h c(6) by (auto split: option.splits)
  have "linked q' cs"
    unfolding linked_def
  proof (intro allI impI)
    fix i assume i: "Suc i < length cs"
    then have "next_of q (cs ! i) = Some (To (cs ! Suc i))" "prev_of q (cs ! Suc i) = Some (To (cs ! i))"
      using c(3) by (auto simp: linked_def dest: spec[of _ "Suc i"])
    moreover have "cs ! Suc i \<noteq> cs ! 0" using c(2) i ne nth_eq_iff_index_eq[of cs "Suc i" 0] by auto
    ultimately show "next_of q' (cs ! i) = Some (To (cs ! Suc i)) \<and> prev_of q' (cs ! Suc i) = Some (To (cs ! i))"
      using i ch same[of "cs ! i"] same[of "cs ! Suc i"] by (auto simp: next_of_def prev_of_def q'_def)
  qed
  moreover have "dom (heap q') = set cs \<union> set_option (spare_chunk q')"
    using dh cs0 by (auto simp: q'_def)
  moreover have "\<exists>a. back_chunk q = To a \<and> (a, back_pos q) = slot_no N cs (end_no N cs q' - 1)"
    if "0 < end_no N cs q'"
    using inv E sl[of "end_no N cs q' - 1"] that by (auto simp: yq_inv_def e')
  ultimately show "yq_inv N cs q'"
    using inv ne c(1,2) by (auto simp: yq_inv_def q'_def nth_Cons')
  have "map (slot_no N (c # cs)) [N ..< end_no N (c # cs) q] = map (slot_no N cs) [0 ..< end_no N cs q']"
    using e' sl by (intro nth_equalityI) (auto simp: add.commute)
  moreover have "begin_pos q' = 0" "N = Suc (begin_pos q)" using b by (simp_all add: q'_def)
  ultimately show "yq_slots N cs q' = tl (yq_slots N (c # cs) q)"
    using E by (simp add: yq_slots_def tl_upt map_tl[symmetric])
qed

theorem yq_pop_rel:
  assumes rel: "yq_rel N q (x # sl)"
  obtains q' where "yq_pop N q = Some q'" "yq_rel N q' sl"
    "\<forall>t \<in> set sl. slot_value q' t = slot_value q t"
proof -
  obtain cs where cs: "yq_inv N cs q" "x # sl = yq_slots N cs q"
    using rel by (auto simp: yq_rel_def)
  have ne: "begin_pos q < end_no N cs q" using cs(2) by (auto simp: yq_slots_def intro: ccontr)
  have sl: "sl = tl (yq_slots N cs q)" unfolding cs(2)[symmetric] by simp
  show ?thesis
  proof (cases "Suc (begin_pos q) = N")
    case False
    let ?q = "q\<lparr>begin_pos := begin_pos q + 1\<rparr>"
    have "yq_inv N cs ?q" using cs(1) ne False
      by (auto simp: yq_inv_def end_no_def linked_def next_of_def prev_of_def)
    moreover have "sl = yq_slots N cs ?q"
      using ne by (simp add: sl yq_slots_def end_no_def tl_upt map_tl[symmetric])
    ultimately show ?thesis using False
      by (intro that[of ?q]) (auto simp: yq_pop_def yq_rel_def slot_value_def)
  next
    case True
    have "length cs \<noteq> 1" using ne True cs(1) by (auto simp: end_no_def yq_inv_def)
    moreover have "cs \<noteq> []" using cs(1) by (simp add: yq_inv_def)
    ultimately obtain c ds where ds: "cs = c # ds" "ds \<noteq> []" by (cases cs) auto
    note inv = cs(1)[unfolded ds(1)]
    have c: "c = begin_chunk q" "linked q (c # ds)" "distinct (c # ds)"
      using inv by (auto simp: yq_inv_def)
    have nx: "next_of q c = Some (To (ds ! 0))"
      using c(2) ds(2) by (auto simp: linked_def dest: spec[of _ 0])
    obtain ch where ch: "heap q (ds ! 0) = Some ch"
      using heap_dom[OF inv, of "ds ! 0"] ds(2) by auto
    let ?h = "case spare_chunk q of None \<Rightarrow> heap q | Some o' \<Rightarrow> (heap q)(o' := None)"
    let ?q = "q\<lparr>heap := ?h(ds ! 0 \<mapsto> ch\<lparr>ch_prev := Null\<rparr>), begin_chunk := ds ! 0,
      begin_pos := 0, spare_chunk := Some c\<rparr>"
    note r = yq_inv_pop_chunk[OF inv ds(2) True ch ne[unfolded ds(1)] refl]
    have sp: "heap q s \<noteq> None \<and> s \<noteq> ds ! 0 \<and> s \<notin> set ds" if "spare_chunk q = Some s" for s
    proof -
      have "set (c # ds) \<inter> set_option (spare_chunk q) = {}" using inv unfolding yq_inv_def by blast
      then have "s \<notin> set ds" using that by auto
      moreover have "ds ! 0 \<in> set ds" using ds(2) by simp
      moreover have "heap q s \<noteq> None" by (rule heap_dom[OF inv disjI2[OF that]]) simp
      ultimately show ?thesis by auto
    qed
    obtain cb where cb: "heap q (begin_chunk q) = Some cb" "ch_next cb = To (ds ! 0)"
      using nx c(1) by (auto simp: next_of_def)
    have "yq_pop N q = Some ?q"
    proof (cases "spare_chunk q")
      case None
      then show ?thesis using True ch c(1) cb by (simp add: yq_pop_def Let_def heap_simps)
    next
      case (Some s)
      then have "heap q s \<noteq> None" "ds ! 0 \<noteq> s" using sp by auto
      then show ?thesis using True ch c(1) cb Some
        by (simp add: yq_pop_def Let_def heap_simps fun_upd_twist[of "ds ! 0" s])
    qed
    moreover have "yq_rel N ?q sl" using r sl ds(1) by (auto simp: yq_rel_def)
    moreover have "slot_value ?q t = slot_value q t" if t: "t \<in> set sl" for t
    proof -
      have "sl = yq_slots N ds ?q" using r(2) sl ds(1) by simp
      then have "fst t \<in> set ds" using t slots_live[OF r(1)] by blast
      then show ?thesis using ch sp by (auto simp: slot_value_def split: option.splits)
    qed
    ultimately show ?thesis by (intro that[of ?q]) auto
  qed
qed

text \<open>Storing an element changes nothing but that element.\<close>

lemma slot_store_rel:
  assumes rel: "yq_rel N q sl" and s: "s \<in> set sl"
  obtains q' where "slot_store s v q = Some q'" "yq_rel N q' sl"
    "slot_value q' s = Some v" "\<forall>t. t \<noteq> s \<longrightarrow> slot_value q' t = slot_value q t"
    "dom (heap q') = dom (heap q)"
proof -
  obtain cs where cs: "yq_inv N cs q" "sl = yq_slots N cs q" using rel by (auto simp: yq_rel_def)
  have "fst s \<in> set cs" using s slots_live[OF cs(1)] cs(2) by blast
  then obtain ch where ch: "heap q (fst s) = Some ch" using heap_dom[OF cs(1)] by blast
  let ?q = "q\<lparr>heap := (heap q)(fst s \<mapsto> ch\<lparr>ch_values := (ch_values ch)(snd s \<mapsto> v)\<rparr>)\<rparr>"
  have d: "dom (heap ?q) = dom (heap q)" using ch by auto
  have lk: "next_of ?q = next_of q" "prev_of ?q = prev_of q"
    using ch by (auto simp: next_of_def prev_of_def)
  have "yq_inv N cs ?q" using cs(1) lk d by (simp add: yq_inv_def linked_def end_no_def)
  then have "yq_rel N ?q sl" using cs(2) by (auto simp: yq_rel_def yq_slots_def end_no_def)
  then show ?thesis using ch d
    by (intro that[of ?q]) (auto simp: slot_store_def slot_value_def prod_eq_iff)
qed

section \<open>Destruction\<close>

lemma linked_free_head:
  assumes "linked q (c # d # cs)" "distinct (c # d # cs)"
  shows "next_of q c = Some (To d)" "linked (q\<lparr>begin_chunk := d, heap := (heap q)(c := None)\<rparr>) (d # cs)"
proof -
  show "next_of q c = Some (To d)" using assms(1) by (auto simp: linked_def dest: spec[of _ 0])
  have "(d # cs) ! i \<noteq> c" if "i < length (d # cs)" for i
    using that assms(2) nth_mem[of i "d # cs"] by auto
  then show "linked (q\<lparr>begin_chunk := d, heap := (heap q)(c := None)\<rparr>) (d # cs)"
    using assms(1) by (fastforce simp: linked_def next_of_def prev_of_def dest: spec[of _ "Suc _"])
qed

lemma yq_free_chain_all:
  assumes "linked q cs" "distinct cs" "cs \<noteq> []" "hd cs = begin_chunk q" "last cs = end_chunk q"
    "set cs \<subseteq> dom (heap q)"
  shows "\<exists>q'. yq_free_chain q = Some q' \<and> dom (heap q') = dom (heap q) - set cs \<and>
    spare_chunk q' = spare_chunk q"
  using assms
proof (induction cs arbitrary: q)
  case (Cons c cs)
  show ?case
  proof (cases cs)
    case Nil
    then show ?thesis using Cons.prems
      by (subst yq_free_chain.simps) (auto simp: chunk_free_def)
  next
    case (Cons d ds)
    let ?q = "q\<lparr>begin_chunk := d, heap := (heap q)(c := None)\<rparr>"
    have lk: "next_of q c = Some (To d)" "linked ?q cs"
      using linked_free_head[of q c d ds] Cons.prems(1,2) Cons by auto
    have "begin_chunk q \<noteq> end_chunk q" 
      using Cons.prems(2,4,5) Cons last_in_set[of cs] by auto
    moreover have "heap q c \<noteq> None" "c = begin_chunk q" using Cons.prems by auto
    ultimately have "yq_free_chain q = yq_free_chain ?q"
      using lk(1) by (subst yq_free_chain.simps) (auto simp: chunk_free_def)
    moreover have "set cs \<subseteq> dom (heap ?q)" using Cons.prems(2,6) by auto
    then have "\<exists>q'. yq_free_chain ?q = Some q' \<and> dom (heap q') = dom (heap ?q) - set cs \<and>
        spare_chunk q' = spare_chunk ?q"
      using Cons.prems lk(2) Cons by (intro Cons.IH) auto
    ultimately show ?thesis by auto
  qed
qed simp

lemma yq_destroy_all:
  assumes "yq_rel N q sl"
  shows "\<exists>q'. yq_destroy q = Some q' \<and> heap q' = Map.empty"
proof -
  obtain cs where inv: "yq_inv N cs q" using assms by (auto simp: yq_rel_def)
  have "cs \<noteq> []" using inv by (simp add: yq_inv_def)
  then have hl: "hd cs = begin_chunk q" "last cs = end_chunk q"
    using inv by (simp_all add: yq_inv_def hd_conv_nth last_conv_nth)
  obtain q' where q': "yq_free_chain q = Some q'" "dom (heap q') = dom (heap q) - set cs"
    "spare_chunk q' = spare_chunk q"
    using yq_free_chain_all[of q cs] inv hl by (auto simp: yq_inv_def)
  have "dom (heap q') = set_option (spare_chunk q)" using q'(2) inv by (auto simp: yq_inv_def)
  then show ?thesis using q'(1,3)
    by (cases "spare_chunk q") (auto simp: yq_destroy_def chunk_free_def ptr_xchg_def dom_eq_singleton_conv)
qed

section \<open>Properties\<close>

text \<open>
  C4: the chunked queue implements a list of elements. With at least one element per chunk, whatever
  unused address \<open>malloc\<close> returns, \<open>push\<close> appends one fresh element address that \<open>back\<close> then
  designates, \<open>unpush\<close> takes the last address away again, \<open>pop\<close> takes the first one, which \<open>front\<close>
  designates, away; none of them follows a null, uninitialised or dangling pointer or frees a chunk
  twice, and the values of the remaining elements stay what they were.
\<close>

theorem yq_refines_list:
  assumes "yq_rel N q sl" "heap q new = None"
  shows "(\<exists>q' s. yq_push N new q = Some q' \<and> yq_rel N q' (sl @ [s]) \<and> s \<notin> set sl \<and>
      yq_back q' = Some s \<and> (\<forall>t \<in> set sl. slot_value q' t = slot_value q t)) \<and>
    (\<forall>sl' s. sl = sl' @ [s] \<longrightarrow> (\<exists>q'. yq_unpush N q = Some q' \<and> yq_rel N q' sl' \<and>
      (\<forall>t \<in> set sl'. slot_value q' t = slot_value q t))) \<and>
    (\<forall>s sl'. sl = s # sl' \<longrightarrow> (\<exists>q'. yq_pop N q = Some q' \<and> yq_rel N q' sl' \<and>
      yq_front q = Some s \<and> (\<forall>t \<in> set sl'. slot_value q' t = slot_value q t)))"
proof (intro conjI allI impI, goal_cases)
  case 1
  obtain q' s where "yq_push N new q = Some q'" "yq_rel N q' (sl @ [s])"
    "\<forall>t \<in> set sl. slot_value q' t = slot_value q t" using assms by (rule yq_push_rel)
  then show ?case using yq_back_rel[of N q' sl s] yq_rel_distinct[of N q' "sl @ [s]"]
    by (intro exI[of _ q'] exI[of _ s]) auto
next
  case (2 sl' s)
  then have "yq_rel N q (sl' @ [s])" using assms(1) by simp
  then show ?case by (rule yq_unpush_rel) blast
next
  case (3 s sl')
  then have r: "yq_rel N q (s # sl')" using assms(1) by simp
  then show ?case by (rule yq_pop_rel) (use yq_front_rel[OF r] in blast)
qed

theorem yq_refines_list_witness:
  "\<exists>q' s. yq_push 1 8 (yq_init 7 :: nat yqueue_t) = Some q' \<and> yq_rel 1 q' [s] \<and> yq_back q' = Some s"
proof -
  have "heap (yq_init 7 :: nat yqueue_t) 8 = None" by (simp add: yq_init_def)
  from yq_refines_list[OF yq_rel_init this, of 1, THEN conjunct1] show ?thesis by auto
qed

text \<open>
  The destructor ends and frees every chunk the queue has allocated, the spare one included,
  exactly once.
\<close>

theorem yq_destroy_frees_all:
  assumes "yq_rel N q sl"
  shows "\<exists>q'. yq_destroy q = Some q' \<and> heap q' = Map.empty"
  using assms by (rule yq_destroy_all)

theorem yq_destroy_frees_all_witness:
  "\<exists>q'. yq_destroy (yq_init 7 :: nat yqueue_t) = Some q' \<and> heap q' = Map.empty"
  using yq_destroy_frees_all[OF yq_rel_init[of 3]] by simp

end
