(* ===== verification/Ypipe.thy ===== *)
theory Ypipe
  imports Yqueue
begin

text \<open>
  The lock-free pipe \<open>ypipe_t\<close> of \<open>ypipe.hpp\<close> on top of the chunked queue. The queue always holds one
  more element than there are items, the terminator. The pointers \<open>w\<close> (first unflushed item), \<open>r\<close>
  (first item not yet prefetched), \<open>f\<close> (first item that is not to be flushed) and \<open>c\<close> (past the last
  flushed item, null when the reader sleeps) are addresses of queue elements. Reading an element that
  was never stored is \<open>None\<close>, as is every failure of the queue below.

  The pipe is related to a specification with four components: the items the reader can see, the
  complete items not flushed yet, the items of an incomplete message, and whether the reader sleeps.
  The last section runs a writer and a reader thread in arbitrary interleavings.
\<close>

section \<open>The pipe\<close>

record 'a ypipe_t =
  yp_queue :: "'a yqueue_t"
  yp_w :: slot
  yp_r :: "slot option"
  yp_f :: slot
  yp_c :: "slot option"

definition yp_init :: "nat \<Rightarrow> nat \<Rightarrow> nat \<Rightarrow> 'a ypipe_t option" where
  "yp_init N a new = do {
     q \<leftarrow> yq_push N new (yq_init a);
     b \<leftarrow> yq_back q;
     Some \<lparr>yp_queue = q, yp_w = b, yp_r = Some b, yp_f = b, yp_c = Some b\<rparr> }"

definition yp_write :: "nat \<Rightarrow> nat \<Rightarrow> 'a \<Rightarrow> bool \<Rightarrow> 'a ypipe_t \<Rightarrow> 'a ypipe_t option" where
  "yp_write N new v incomplete p = do {
     b \<leftarrow> yq_back (yp_queue p);
     q \<leftarrow> slot_store b v (yp_queue p);
     q \<leftarrow> yq_push N new q;
     b \<leftarrow> yq_back q;
     Some (p\<lparr>yp_queue := q, yp_f := (if incomplete then yp_f p else b)\<rparr>) }"

definition yp_unwrite :: "nat \<Rightarrow> 'a ypipe_t \<Rightarrow> ('a ypipe_t \<times> 'a option) option" where
  "yp_unwrite N p = do {
     b \<leftarrow> yq_back (yp_queue p);
     if yp_f p = b then Some (p, None)
     else do {
       q \<leftarrow> yq_unpush N (yp_queue p);
       b \<leftarrow> yq_back q;
       v \<leftarrow> slot_value q b;
       Some (p\<lparr>yp_queue := q\<rparr>, Some v) } }"

text \<open>
  \<open>flush\<close> has two accesses to the shared pointer. The first half ends with the result, or with \<open>None\<close>
  when the compare-and-swap failed; the second half is the assignment that follows then.
\<close>

definition yp_flush_cas :: "'a ypipe_t \<Rightarrow> 'a ypipe_t \<times> bool option" where
  "yp_flush_cas p =
     (if yp_w p = yp_f p then (p, Some True)
      else let (old, c) = ptr_cas (Some (yp_w p)) (Some (yp_f p)) (yp_c p); p = p\<lparr>yp_c := c\<rparr> in
        if old \<noteq> Some (yp_w p) then (p, None) else (p\<lparr>yp_w := yp_f p\<rparr>, Some True))"

definition yp_flush_set :: "'a ypipe_t \<Rightarrow> 'a ypipe_t" where
  "yp_flush_set p = p\<lparr>yp_c := Some (yp_f p), yp_w := yp_f p\<rparr>"

definition yp_flush :: "'a ypipe_t \<Rightarrow> 'a ypipe_t \<times> bool" where
  "yp_flush p =
     (case yp_flush_cas p of (p, Some b) \<Rightarrow> (p, b) | (p, None) \<Rightarrow> (yp_flush_set p, False))"

definition yp_check_read :: "'a ypipe_t \<Rightarrow> ('a ypipe_t \<times> bool) option" where
  "yp_check_read p = do {
     front \<leftarrow> yq_front (yp_queue p);
     if Some front \<noteq> yp_r p \<and> yp_r p \<noteq> None then Some (p, True)
     else
       let (old, c) = ptr_cas (Some front) None (yp_c p); p = p\<lparr>yp_r := old, yp_c := c\<rparr> in
       if Some front = yp_r p \<or> yp_r p = None then Some (p, False) else Some (p, True) }"

definition yp_read :: "nat \<Rightarrow> 'a ypipe_t \<Rightarrow> ('a ypipe_t \<times> 'a option) option" where
  "yp_read N p = do {
     (p, ok) \<leftarrow> yp_check_read p;
     if \<not> ok then Some (p, None)
     else do {
       front \<leftarrow> yq_front (yp_queue p);
       v \<leftarrow> slot_value (yp_queue p) front;
       q \<leftarrow> yq_pop N (yp_queue p);
       Some (p\<lparr>yp_queue := q\<rparr>, Some v) } }"

definition yp_probe :: "('a \<Rightarrow> bool) \<Rightarrow> 'a ypipe_t \<Rightarrow> ('a ypipe_t \<times> bool) option" where
  "yp_probe fn p = do {
     (p, rc) \<leftarrow> yp_check_read p;
     if \<not> rc then None
     else do {
       front \<leftarrow> yq_front (yp_queue p);
       v \<leftarrow> slot_value (yp_queue p) front;
       Some (p, fn v) } }"

section \<open>Specification\<close>

text \<open>A channel: what the reader sees, what the next \<open>flush\<close> publishes, and an unfinished message.\<close>

record 'a chan =
  readable :: "'a list"
  pending :: "'a list"
  partial :: "'a list"
  asleep :: bool

definition chan_empty :: "'a chan" where
  "chan_empty = \<lparr>readable = [], pending = [], partial = [], asleep = False\<rparr>"

definition chan_write :: "'a \<Rightarrow> bool \<Rightarrow> 'a chan \<Rightarrow> 'a chan" where
  "chan_write v incomplete s =
     (if incomplete then s\<lparr>partial := partial s @ [v]\<rparr>
      else s\<lparr>pending := pending s @ partial s @ [v], partial := []\<rparr>)"

definition chan_unwrite :: "'a chan \<Rightarrow> 'a chan \<times> 'a option" where
  "chan_unwrite s =
     (if partial s = [] then (s, None)
      else (s\<lparr>partial := butlast (partial s)\<rparr>, Some (last (partial s))))"

definition chan_flush :: "'a chan \<Rightarrow> 'a chan \<times> bool" where
  "chan_flush s =
     (if pending s = [] then (s, True)
      else (s\<lparr>readable := readable s @ pending s, pending := [], asleep := False\<rparr>, \<not> asleep s))"

definition chan_check_read :: "'a chan \<Rightarrow> 'a chan \<times> bool" where
  "chan_check_read s = (if readable s = [] then (s\<lparr>asleep := True\<rparr>, False) else (s, True))"

definition chan_read :: "'a chan \<Rightarrow> 'a chan \<times> 'a option" where
  "chan_read s =
     (if readable s = [] then (s\<lparr>asleep := True\<rparr>, None)
      else (s\<lparr>readable := tl (readable s)\<rparr>, Some (hd (readable s))))"

definition chan_probe :: "('a \<Rightarrow> bool) \<Rightarrow> 'a chan \<Rightarrow> ('a chan \<times> bool) option" where
  "chan_probe fn s =
     (case chan_check_read s of
        (s, True) \<Rightarrow> Some (s, fn (hd (readable s)))
      | (s, False) \<Rightarrow> None)"

section \<open>Refinement\<close>

definition yp_rel :: "nat \<Rightarrow> 'a ypipe_t \<Rightarrow> 'a chan \<Rightarrow> bool" where
  "yp_rel N p s \<longleftrightarrow> (\<exists>sl t. yq_rel N (yp_queue p) (sl @ [t]) \<and>
     map (slot_value (yp_queue p)) sl = map Some (readable s @ pending s @ partial s) \<and>
     yp_w p = (sl @ [t]) ! length (readable s) \<and>
     yp_f p = (sl @ [t]) ! (length (readable s) + length (pending s)) \<and>
     yp_c p = (if asleep s then None else Some (yp_w p)) \<and> (asleep s \<longrightarrow> readable s = []) \<and>
     (yp_r p = None \<or> (\<exists>k \<le> length (readable s). yp_r p = Some ((sl @ [t]) ! k))))"

text \<open>The facts every refinement proof starts from.\<close>

lemma yp_relE:
  assumes "yp_rel N p s"
  obtains sl t where "yq_rel N (yp_queue p) (sl @ [t])" "distinct (sl @ [t])"
    "map (slot_value (yp_queue p)) sl = map Some (readable s @ pending s @ partial s)"
    "length sl = length (readable s) + length (pending s) + length (partial s)"
    "yp_w p = (sl @ [t]) ! length (readable s)"
    "yp_f p = (sl @ [t]) ! (length (readable s) + length (pending s))"
    "yp_c p = (if asleep s then None else Some (yp_w p))" "asleep s \<longrightarrow> readable s = []"
    "yp_r p = None \<or> (\<exists>k \<le> length (readable s). yp_r p = Some ((sl @ [t]) ! k))"
    "yq_back (yp_queue p) = Some t"
proof -
  obtain sl t where r: "yq_rel N (yp_queue p) (sl @ [t])"
    "map (slot_value (yp_queue p)) sl = map Some (readable s @ pending s @ partial s)"
    "yp_w p = (sl @ [t]) ! length (readable s)"
    "yp_f p = (sl @ [t]) ! (length (readable s) + length (pending s))"
    "yp_c p = (if asleep s then None else Some (yp_w p))" "asleep s \<longrightarrow> readable s = []"
    "yp_r p = None \<or> (\<exists>k \<le> length (readable s). yp_r p = Some ((sl @ [t]) ! k))"
    using assms unfolding yp_rel_def by blast
  have "length sl = length (readable s) + length (pending s) + length (partial s)"
    using arg_cong[OF r(2), of length] by simp
  with that[OF r(1) yq_rel_distinct[OF r(1)] r(2)] r(3-7) yq_back_rel[OF r(1)] show ?thesis by blast
qed

lemma yp_init_rel:
  assumes "0 < N" "a \<noteq> new"
  obtains p where "yp_init N a new = Some p" "yp_rel N p chan_empty"
proof -
  have "heap (yq_init a :: 'a yqueue_t) new = None" using assms by (simp add: yq_init_def)
  then obtain q :: "'a yqueue_t" and s where q: "yq_push N new (yq_init a) = Some q" "yq_rel N q ([] @ [s])"
    using yq_rel_init[OF assms(1), of a] by (rule_tac yq_push_rel[of N "yq_init a" "[]" new]) auto
  have b: "yq_back q = Some s" using yq_back_rel[OF q(2)] .
  show ?thesis
    by (rule that[of "\<lparr>yp_queue = q, yp_w = s, yp_r = Some s, yp_f = s, yp_c = Some s\<rparr>"])
      (use q b in \<open>auto simp del: split_paired_Ex simp: yp_init_def yp_rel_def chan_empty_def intro!: exI[of _ "[]"] exI[of _ s]\<close>)
qed

lemma yp_write_rel:
  assumes rel: "yp_rel N p s" and new: "heap (yp_queue p) new = None"
  obtains p' where "yp_write N new v inc p = Some p'" "yp_rel N p' (chan_write v inc s)"
proof -
  obtain sl t where r: "yq_rel N (yp_queue p) (sl @ [t])" "distinct (sl @ [t])"
    "map (slot_value (yp_queue p)) sl = map Some (readable s @ pending s @ partial s)"
    "length sl = length (readable s) + length (pending s) + length (partial s)"
    "yp_w p = (sl @ [t]) ! length (readable s)"
    "yp_f p = (sl @ [t]) ! (length (readable s) + length (pending s))"
    "yp_c p = (if asleep s then None else Some (yp_w p))" "asleep s \<longrightarrow> readable s = []"
    "yp_r p = None \<or> (\<exists>k \<le> length (readable s). yp_r p = Some ((sl @ [t]) ! k))"
    "yq_back (yp_queue p) = Some t" using rel by (rule yp_relE)
  have t: "t \<in> set (sl @ [t])" by simp
  obtain q where q: "slot_store t v (yp_queue p) = Some q" "yq_rel N q (sl @ [t])"
    "slot_value q t = Some v" "\<forall>u. u \<noteq> t \<longrightarrow> slot_value q u = slot_value (yp_queue p) u"
    "dom (heap q) = dom (heap (yp_queue p))" using r(1) t by (rule slot_store_rel)
  have "heap q new = None" using new q(5) by blast
  with q(2) obtain q' z where q': "yq_push N new q = Some q'" "yq_rel N q' ((sl @ [t]) @ [z])"
    "\<forall>u \<in> set (sl @ [t]). slot_value q' u = slot_value q u" by (rule yq_push_rel)
  have b: "yq_back q' = Some z" using yq_back_rel[OF q'(2)] .
  have val: "map (slot_value q') (sl @ [t]) = map Some (readable s @ pending s @ partial s @ [v])"
  proof -
    have "slot_value q' u = slot_value (yp_queue p) u" if "u \<in> set sl" for u
    proof -
      have "u \<noteq> t" using that r(2) by auto
      then show ?thesis using that q(4)[rule_format, of u] q'(3) by simp
    qed
    then have "map (slot_value q') sl = map (slot_value (yp_queue p)) sl" by simp
    then show ?thesis using r(3) q(3) q'(3) by simp
  qed
  let ?p = "p\<lparr>yp_queue := q', yp_f := (if inc then yp_f p else z)\<rparr>"
  have ix: "((sl @ [t]) @ [z]) ! k = (sl @ [t]) ! k" if "k \<le> length sl" for k
    using that by (simp add: nth_append)
  have "yp_rel N ?p (chan_write v inc s)"
    unfolding yp_rel_def using r q'(2) val ix
    by (intro exI[of _ "sl @ [t]"] exI[of _ z] conjI)
      (auto simp: chan_write_def nth_append)
  moreover have "yp_write N new v inc p = Some ?p" using r(10) q(1) q'(1) b by (simp add: yp_write_def)
  ultimately show ?thesis using that by blast
qed

lemma yp_unwrite_rel:
  assumes rel: "yp_rel N p s"
  obtains p' where "yp_unwrite N p = Some (p', snd (chan_unwrite s))" "yp_rel N p' (fst (chan_unwrite s))"
proof -
  obtain sl t where r: "yq_rel N (yp_queue p) (sl @ [t])" "distinct (sl @ [t])"
    "map (slot_value (yp_queue p)) sl = map Some (readable s @ pending s @ partial s)"
    "length sl = length (readable s) + length (pending s) + length (partial s)"
    "yp_w p = (sl @ [t]) ! length (readable s)"
    "yp_f p = (sl @ [t]) ! (length (readable s) + length (pending s))"
    "yp_c p = (if asleep s then None else Some (yp_w p))" "asleep s \<longrightarrow> readable s = []"
    "yp_r p = None \<or> (\<exists>k \<le> length (readable s). yp_r p = Some ((sl @ [t]) ! k))"
    "yq_back (yp_queue p) = Some t" using rel by (rule yp_relE)
  show ?thesis
  proof (cases "partial s = []")
    case True
    then have "yp_f p = t" using r(4,6) by (simp add: nth_append)
    with True r(10) rel show ?thesis
      by (intro that[of p]) (simp_all add: yp_unwrite_def chan_unwrite_def)
  next
    case False
    have lt: "length (readable s) + length (pending s) < length sl" using False r(4) by simp
    have "yp_f p \<in> set sl" using r(6) lt by (simp add: nth_append)
    then have nf: "yp_f p \<noteq> t" using r(2) by auto
    obtain sl' u where sl: "sl = sl' @ [u]" using lt by (cases sl rule: rev_cases) auto
    obtain q where q: "yq_unpush N (yp_queue p) = Some q" "yq_rel N q sl"
      "\<forall>x \<in> set sl. slot_value q x = slot_value (yp_queue p) x"
      using r(1) by (rule yq_unpush_rel)
    have b: "yq_back q = Some u" using q(2) unfolding sl by (rule yq_back_rel)
    obtain ys y where ys: "partial s = ys @ [y]" using False by (cases "partial s" rule: rev_cases) auto
    have vals: "map (slot_value (yp_queue p)) sl' = map Some (readable s @ pending s @ ys)"
      "slot_value (yp_queue p) u = Some y" using r(3) unfolding sl ys by auto
    have qv: "map (slot_value q) sl' = map Some (readable s @ pending s @ ys)" "slot_value q u = Some y"
      using vals q(3) unfolding sl by (auto cong: map_cong)
    let ?p = "p\<lparr>yp_queue := q\<rparr>"
    have ix: "(sl @ [t]) ! k = (sl' @ [u]) ! k" if "k \<le> length (readable s) + length (pending s)" for k
      using that lt unfolding sl by (simp add: nth_append)
    have "yp_rel N ?p (fst (chan_unwrite s))"
      unfolding yp_rel_def using r(5-9) q(2) qv ix ys False sl
      by (intro exI[of _ sl'] exI[of _ u] conjI) (auto simp: chan_unwrite_def)
    moreover have "yp_unwrite N p = Some (?p, snd (chan_unwrite s))"
      using r(10) nf q(1) b qv(2) False ys by (simp add: yp_unwrite_def chan_unwrite_def)
    ultimately show ?thesis using that by blast
  qed
qed

text \<open>
  The first half of \<open>flush\<close> either completes the operation or finds the reader asleep and changes
  nothing; the second half then publishes the pending items.
\<close>

lemma yp_flush_cas_rel:
  assumes rel: "yp_rel N p s"
  shows "if pending s = [] \<or> \<not> asleep s
    then snd (yp_flush_cas p) = Some True \<and> yp_rel N (fst (yp_flush_cas p)) (fst (chan_flush s))
    else yp_flush_cas p = (p, None)"
proof -
  obtain sl t where r: "yq_rel N (yp_queue p) (sl @ [t])" "distinct (sl @ [t])"
    "map (slot_value (yp_queue p)) sl = map Some (readable s @ pending s @ partial s)"
    "length sl = length (readable s) + length (pending s) + length (partial s)"
    "yp_w p = (sl @ [t]) ! length (readable s)"
    "yp_f p = (sl @ [t]) ! (length (readable s) + length (pending s))"
    "yp_c p = (if asleep s then None else Some (yp_w p))" "asleep s \<longrightarrow> readable s = []"
    "yp_r p = None \<or> (\<exists>k \<le> length (readable s). yp_r p = Some ((sl @ [t]) ! k))"
    "yq_back (yp_queue p) = Some t" using rel by (rule yp_relE)
  have wf: "yp_w p = yp_f p \<longleftrightarrow> pending s = []"
    using r(2,4,5,6) nth_eq_iff_index_eq[OF r(2)] by simp
  consider "pending s = []" | "pending s \<noteq> []" "asleep s" | "pending s \<noteq> []" "\<not> asleep s" by blast
  then show ?thesis
  proof cases
    case 3
    let ?p = "p\<lparr>yp_c := Some (yp_f p), yp_w := yp_f p\<rparr>"
    have mono: "yp_r p = None \<or>
        (\<exists>k \<le> length (readable s) + length (pending s). yp_r p = Some ((sl @ [t]) ! k))"
      using r(9) trans_le_add1 by blast
    have "yp_flush_cas p = (?p, Some True)"
      using 3 wf r(7) by (simp add: yp_flush_cas_def ptr_cas_def Let_def)
    moreover have "yp_rel N ?p (fst (chan_flush s))"
      unfolding yp_rel_def using r(1-8) 3 mono
      by (intro exI[of _ sl] exI[of _ t] conjI) (auto simp: chan_flush_def)
    ultimately show ?thesis using 3 by simp
  qed (use wf r(7) rel in \<open>auto simp: yp_flush_cas_def ptr_cas_def chan_flush_def Let_def\<close>)
qed

lemma yp_flush_set_rel:
  assumes rel: "yp_rel N p s" and s: "pending s \<noteq> []" "asleep s"
  shows "yp_rel N (yp_flush_set p) (fst (chan_flush s))"
proof -
  obtain sl t where r: "yq_rel N (yp_queue p) (sl @ [t])" "distinct (sl @ [t])"
    "map (slot_value (yp_queue p)) sl = map Some (readable s @ pending s @ partial s)"
    "length sl = length (readable s) + length (pending s) + length (partial s)"
    "yp_w p = (sl @ [t]) ! length (readable s)"
    "yp_f p = (sl @ [t]) ! (length (readable s) + length (pending s))"
    "yp_c p = (if asleep s then None else Some (yp_w p))" "asleep s \<longrightarrow> readable s = []"
    "yp_r p = None \<or> (\<exists>k \<le> length (readable s). yp_r p = Some ((sl @ [t]) ! k))"
    "yq_back (yp_queue p) = Some t" using rel by (rule yp_relE)
  show ?thesis
    unfolding yp_rel_def using r s
    by (intro exI[of _ sl] exI[of _ t] conjI) (auto simp: chan_flush_def yp_flush_set_def)
qed

lemma yp_flush_rel:
  assumes "yp_rel N p s"
  shows "snd (yp_flush p) = snd (chan_flush s) \<and> yp_rel N (fst (yp_flush p)) (fst (chan_flush s))"
proof (cases "pending s = [] \<or> \<not> asleep s")
  case True
  then show ?thesis using yp_flush_cas_rel[OF assms]
    by (cases "yp_flush_cas p") (auto simp: yp_flush_def chan_flush_def split: if_splits)
next
  case False
  then show ?thesis using yp_flush_cas_rel[OF assms] yp_flush_set_rel[OF assms]
    by (auto simp: yp_flush_def chan_flush_def)
qed

text \<open>A successful check leaves \<open>r\<close> strictly behind the front: at least one item is prefetched.\<close>

lemma yp_check_read_rel:
  assumes rel: "yp_rel N p s"
  obtains p' where "yp_check_read p = Some (p', readable s \<noteq> [])" "yp_rel N p' (fst (chan_check_read s))"
    "readable s \<noteq> [] \<longrightarrow> yp_r p' \<noteq> None \<and> yp_r p' \<noteq> yq_front (yp_queue p')"
proof -
  obtain sl t where r: "yq_rel N (yp_queue p) (sl @ [t])" "distinct (sl @ [t])"
    "map (slot_value (yp_queue p)) sl = map Some (readable s @ pending s @ partial s)"
    "length sl = length (readable s) + length (pending s) + length (partial s)"
    "yp_w p = (sl @ [t]) ! length (readable s)"
    "yp_f p = (sl @ [t]) ! (length (readable s) + length (pending s))"
    "yp_c p = (if asleep s then None else Some (yp_w p))" "asleep s \<longrightarrow> readable s = []"
    "yp_r p = None \<or> (\<exists>k \<le> length (readable s). yp_r p = Some ((sl @ [t]) ! k))"
    "yq_back (yp_queue p) = Some t" using rel by (rule yp_relE)
  let ?x = "(sl @ [t]) ! 0"
  have fr: "yq_front (yp_queue p) = Some ?x"
    using r(1) yq_front_rel[of N "yp_queue p"] by (cases sl) auto
  have w: "yp_w p = ?x \<longleftrightarrow> readable s = []" using nth_eq_iff_index_eq[OF r(2)] r(4,5) by simp
  show ?thesis
  proof (cases "yp_r p = None \<or> yp_r p = Some ?x")
    case False
    then obtain k where k: "k \<le> length (readable s)" "yp_r p = Some ((sl @ [t]) ! k)" "k \<noteq> 0"
      using r(9) by auto
    then have "readable s \<noteq> []" by auto
    with False fr rel show ?thesis
      by (intro that[of p]) (auto simp: yp_check_read_def chan_check_read_def)
  next
    case True
    let ?p = "p\<lparr>yp_r := yp_c p, yp_c := (if yp_c p = Some ?x then None else yp_c p)\<rparr>"
    have eq: "yp_check_read p = Some (?p, \<not> (Some ?x = yp_c p \<or> yp_c p = None))"
      using True fr by (auto simp: yp_check_read_def ptr_cas_def Let_def)
    have c: "Some ?x = yp_c p \<or> yp_c p = None \<longleftrightarrow> readable s = []" using r(7,8) w by auto
    have rs: "readable s = [] \<Longrightarrow> yp_c p = None \<or> yp_c p = Some ?x" using c by auto
    have "yp_rel N ?p (fst (chan_check_read s))"
    proof (cases "readable s = []")
      case True
      then show ?thesis unfolding yp_rel_def using r(1,3,5,6) rs
        by (intro exI[of _ sl] exI[of _ t] conjI) (auto simp: chan_check_read_def)
    next
      case False
      then have "yp_c p = Some (yp_w p)" "yp_w p \<noteq> ?x" "\<not> asleep s" using r(7,8) w by auto
      with False show ?thesis unfolding yp_rel_def using r(1,3,5,6)
        by (intro exI[of _ sl] exI[of _ t] conjI) (auto simp: chan_check_read_def)
    qed
    with eq c fr show ?thesis by (intro that[of ?p]) auto
  qed
qed

lemma yp_read_rel:
  assumes rel: "yp_rel N p s"
  obtains p' where "yp_read N p = Some (p', snd (chan_read s))" "yp_rel N p' (fst (chan_read s))"
proof -
  obtain p1 where p1: "yp_check_read p = Some (p1, readable s \<noteq> [])"
    "yp_rel N p1 (fst (chan_check_read s))"
    "readable s \<noteq> [] \<longrightarrow> yp_r p1 \<noteq> None \<and> yp_r p1 \<noteq> yq_front (yp_queue p1)"
    using rel by (rule yp_check_read_rel)
  show ?thesis
  proof (cases "readable s")
    case Nil
    then show ?thesis using p1 by (intro that[of p1]) (auto simp: yp_read_def chan_read_def chan_check_read_def)
  next
    case (Cons x xs)
    then have "fst (chan_check_read s) = s" by (simp add: chan_check_read_def)
    then have "yp_rel N p1 s" using p1(2) by simp
    then obtain sl t where r: "yq_rel N (yp_queue p1) (sl @ [t])" "distinct (sl @ [t])"
      "map (slot_value (yp_queue p1)) sl = map Some (readable s @ pending s @ partial s)"
      "length sl = length (readable s) + length (pending s) + length (partial s)"
      "yp_w p1 = (sl @ [t]) ! length (readable s)"
      "yp_f p1 = (sl @ [t]) ! (length (readable s) + length (pending s))"
      "yp_c p1 = (if asleep s then None else Some (yp_w p1))" "asleep s \<longrightarrow> readable s = []"
      "yp_r p1 = None \<or> (\<exists>k \<le> length (readable s). yp_r p1 = Some ((sl @ [t]) ! k))"
      by (rule yp_relE)
    obtain y sl' where sl: "sl = y # sl'" using r(4) Cons by (cases sl) auto
    have fr: "yq_front (yp_queue p1) = Some y" using r(1) yq_front_rel[of N "yp_queue p1" y] sl by simp
    have yr: "yq_rel N (yp_queue p1) (y # (sl' @ [t]))" using r(1) sl by simp
    obtain q where q: "yq_pop N (yp_queue p1) = Some q" "yq_rel N q (sl' @ [t])"
      "\<forall>u \<in> set (sl' @ [t]). slot_value q u = slot_value (yp_queue p1) u"
      using yr by (rule yq_pop_rel)
    have v: "slot_value (yp_queue p1) y = Some x"
      "map (slot_value q) sl' = map Some (xs @ pending s @ partial s)"
      using r(3) Cons sl q(3) by (auto cong: map_cong)
    have "\<exists>k \<le> length xs. yp_r p1 = Some ((sl' @ [t]) ! k)"
    proof -
      obtain k where k: "k \<le> length (readable s)" "yp_r p1 = Some ((sl @ [t]) ! k)" "k \<noteq> 0"
        using r(9) p1(3) Cons fr sl by (metis append_Cons list.distinct(1) nth_Cons_0)
      then show ?thesis using Cons sl by (intro exI[of _ "k - 1"]) (auto simp: nth_Cons')
    qed
    then have "yp_rel N (p1\<lparr>yp_queue := q\<rparr>) (fst (chan_read s))"
      unfolding yp_rel_def using r(5-8) q(2) v(2) Cons sl
      by (intro exI[of _ sl'] exI[of _ t] conjI) (auto simp: chan_read_def)
    then show ?thesis using p1(1) fr v(1) q(1) Cons
      by (intro that[of "p1\<lparr>yp_queue := q\<rparr>"]) (auto simp: yp_read_def chan_read_def)
  qed
qed

lemma yp_probe_rel:
  assumes rel: "yp_rel N p s" and ne: "readable s \<noteq> []"
  obtains p' where "yp_probe fn p = Some (p', fn (hd (readable s)))" "yp_rel N p' s"
proof -
  obtain p1 where p1: "yp_check_read p = Some (p1, readable s \<noteq> [])"
    "yp_rel N p1 (fst (chan_check_read s))" using rel by (rule yp_check_read_rel)
  have r1: "yp_rel N p1 s" using p1(2) ne by (simp add: chan_check_read_def)
  then obtain sl t where r: "yq_rel N (yp_queue p1) (sl @ [t])"
    "map (slot_value (yp_queue p1)) sl = map Some (readable s @ pending s @ partial s)"
    by (rule yp_relE)
  obtain y sl' where sl: "sl = y # sl'" using r(2) ne by (cases sl) auto
  have "yq_front (yp_queue p1) = Some y" using r(1) yq_front_rel[of N "yp_queue p1" y] sl by simp
  moreover have "slot_value (yp_queue p1) y = Some (hd (readable s))"
    using r(2) sl ne by (cases "readable s") auto
  ultimately show ?thesis using that[OF _ r1] p1(1) ne by (simp add: yp_probe_def)
qed

section \<open>Two threads\<close>

text \<open>
  A writer and a reader thread. The writer may be between the two halves of a \<open>flush\<close>. The reader
  stops using the pipe after a failed read (as \<open>pipe_t\<close> does with \<open>in_active\<close>) until the wake-up sent by
  a \<open>flush\<close> that returned false arrives. \<open>sent\<close> and \<open>received\<close> are the histories of both threads.
\<close>

datatype writer_pc = Idle | Setting

record 'a duo =
  duo_pipe :: "'a ypipe_t"
  duo_pc :: writer_pc
  duo_awake :: bool
  duo_wakeup :: bool
  duo_sent :: "'a list"
  duo_received :: "'a list"

inductive duo_step :: "nat \<Rightarrow> 'a duo \<Rightarrow> 'a duo \<Rightarrow> bool" for N where
  do_write: "duo_pc d = Idle \<Longrightarrow> heap (yp_queue (duo_pipe d)) new = None \<Longrightarrow>
    yp_write N new v inc (duo_pipe d) = Some p \<Longrightarrow>
    duo_step N d (d\<lparr>duo_pipe := p, duo_sent := duo_sent d @ [v]\<rparr>)"
| do_unwrite: "duo_pc d = Idle \<Longrightarrow> yp_unwrite N (duo_pipe d) = Some (p, Some v) \<Longrightarrow>
    duo_step N d (d\<lparr>duo_pipe := p, duo_sent := butlast (duo_sent d)\<rparr>)"
| do_flush_done: "duo_pc d = Idle \<Longrightarrow> yp_flush_cas (duo_pipe d) = (p, Some True) \<Longrightarrow>
    duo_step N d (d\<lparr>duo_pipe := p\<rparr>)"
| do_flush_cas: "duo_pc d = Idle \<Longrightarrow> yp_flush_cas (duo_pipe d) = (p, None) \<Longrightarrow>
    duo_step N d (d\<lparr>duo_pipe := p, duo_pc := Setting\<rparr>)"
| do_flush_set: "duo_pc d = Setting \<Longrightarrow>
    duo_step N d (d\<lparr>duo_pipe := yp_flush_set (duo_pipe d), duo_pc := Idle, duo_wakeup := True\<rparr>)"
| do_check: "duo_awake d \<Longrightarrow> yp_check_read (duo_pipe d) = Some (p, ok) \<Longrightarrow>
    duo_step N d (d\<lparr>duo_pipe := p, duo_awake := ok\<rparr>)"
| do_read: "duo_awake d \<Longrightarrow> yp_read N (duo_pipe d) = Some (p, Some v) \<Longrightarrow>
    duo_step N d (d\<lparr>duo_pipe := p, duo_received := duo_received d @ [v]\<rparr>)"
| do_read_none: "duo_awake d \<Longrightarrow> yp_read N (duo_pipe d) = Some (p, None) \<Longrightarrow>
    duo_step N d (d\<lparr>duo_pipe := p, duo_awake := False\<rparr>)"
| do_wake: "duo_wakeup d \<Longrightarrow> duo_step N d (d\<lparr>duo_wakeup := False, duo_awake := True\<rparr>)"

inductive duo_reach :: "nat \<Rightarrow> 'a duo \<Rightarrow> bool" for N where
  start: "yp_init N a new = Some p \<Longrightarrow> a \<noteq> new \<Longrightarrow>
    duo_reach N \<lparr>duo_pipe = p, duo_pc = Idle, duo_awake = True, duo_wakeup = False,
      duo_sent = [], duo_received = []\<rparr>"
| step: "duo_reach N d \<Longrightarrow> duo_step N d d' \<Longrightarrow> duo_reach N d'"

text \<open>
  What holds in every interleaving: nothing is lost, duplicated or reordered; the reader sleeps only
  if the shared pointer is null, unless a wake-up is on its way; and the second half of \<open>flush\<close> runs
  only while the reader sleeps.
\<close>

definition duo_ok :: "nat \<Rightarrow> 'a duo \<Rightarrow> 'a chan \<Rightarrow> bool" where
  "duo_ok N d s \<longleftrightarrow> yp_rel N (duo_pipe d) s \<and>
     duo_sent d = duo_received d @ readable s @ pending s @ partial s \<and>
     (asleep s \<longrightarrow> \<not> duo_awake d \<and> \<not> duo_wakeup d) \<and>
     (\<not> asleep s \<longrightarrow> duo_awake d \<noteq> duo_wakeup d) \<and>
     (duo_pc d = Setting \<longrightarrow> asleep s \<and> pending s \<noteq> [])"

lemma duo_step_ok:
  assumes "duo_step N d d'" "duo_ok N d s"
  shows "\<exists>s'. duo_ok N d' s'"
  using assms
proof (induction rule: duo_step.induct)
  case (do_write d new v inc p)
  then have rel: "yp_rel N (duo_pipe d) s" by (simp add: duo_ok_def)
  obtain p' where "yp_write N new v inc (duo_pipe d) = Some p'" "yp_rel N p' (chan_write v inc s)"
    using rel do_write(2) by (rule yp_write_rel)
  with do_write show ?case
    by (intro exI[of _ "chan_write v inc s"]) (auto simp: duo_ok_def chan_write_def)
next
  case (do_unwrite d p v)
  then have rel: "yp_rel N (duo_pipe d) s" by (simp add: duo_ok_def)
  obtain p' where "yp_unwrite N (duo_pipe d) = Some (p', snd (chan_unwrite s))"
    "yp_rel N p' (fst (chan_unwrite s))" using rel by (rule yp_unwrite_rel)
  with do_unwrite show ?case
    by (intro exI[of _ "fst (chan_unwrite s)"])
      (auto simp: duo_ok_def chan_unwrite_def butlast_append split: if_splits)
next
  case (do_flush_done d p)
  then show ?case using yp_flush_cas_rel[of N "duo_pipe d" s]
    by (intro exI[of _ "fst (chan_flush s)"])
      (auto simp: duo_ok_def chan_flush_def split: if_splits)
next
  case (do_flush_cas d p)
  then show ?case using yp_flush_cas_rel[of N "duo_pipe d" s]
    by (intro exI[of _ s]) (auto simp: duo_ok_def split: if_splits)
next
  case (do_flush_set d)
  then show ?case using yp_flush_set_rel[of N "duo_pipe d" s]
    by (intro exI[of _ "fst (chan_flush s)"]) (auto simp: duo_ok_def chan_flush_def)
next
  case (do_check d p ok)
  then have rel: "yp_rel N (duo_pipe d) s" by (simp add: duo_ok_def)
  obtain p' where "yp_check_read (duo_pipe d) = Some (p', readable s \<noteq> [])"
    "yp_rel N p' (fst (chan_check_read s))" using rel by (rule yp_check_read_rel)
  with do_check show ?case
    by (intro exI[of _ "fst (chan_check_read s)"]) (auto simp: duo_ok_def chan_check_read_def)
next
  case (do_read d p v)
  then have rel: "yp_rel N (duo_pipe d) s" by (simp add: duo_ok_def)
  obtain p' where "yp_read N (duo_pipe d) = Some (p', snd (chan_read s))"
    "yp_rel N p' (fst (chan_read s))" using rel by (rule yp_read_rel)
  with do_read show ?case
    by (intro exI[of _ "fst (chan_read s)"])
      (auto simp: duo_ok_def chan_read_def neq_Nil_conv split: if_splits)
next
  case (do_read_none d p)
  then have rel: "yp_rel N (duo_pipe d) s" by (simp add: duo_ok_def)
  obtain p' where "yp_read N (duo_pipe d) = Some (p', snd (chan_read s))"
    "yp_rel N p' (fst (chan_read s))" using rel by (rule yp_read_rel)
  with do_read_none show ?case
    by (intro exI[of _ "fst (chan_read s)"]) (auto simp: duo_ok_def chan_read_def split: if_splits)
next
  case (do_wake d)
  then show ?case by (intro exI[of _ s]) (auto simp: duo_ok_def)
qed

lemma duo_reach_ok:
  assumes "duo_reach N d" "0 < N"
  shows "\<exists>s. duo_ok N d s"
  using assms(1)
proof (induction rule: duo_reach.induct)
  case (start a new p)
  have "yp_rel N p chan_empty"
    using assms(2) start(2) by (rule yp_init_rel[where 'a = 'a]) (use start(1) in simp)
  then show ?case by (intro exI[of _ chan_empty]) (simp add: duo_ok_def chan_empty_def)
next
  case (step d d')
  then show ?case using duo_step_ok by blast
qed

section \<open>Properties\<close>

text \<open>
  C3: the lock-free pipe implements the channel specification: every operation succeeds without
  touching invalid memory, returns what the specification returns, and leads to a related state.
\<close>

theorem yp_refines_chan:
  assumes "yp_rel N p s" "heap (yp_queue p) new = None"
  shows "(\<exists>p'. yp_write N new v inc p = Some p' \<and> yp_rel N p' (chan_write v inc s)) \<and>
    (\<exists>p'. yp_unwrite N p = Some (p', snd (chan_unwrite s)) \<and> yp_rel N p' (fst (chan_unwrite s))) \<and>
    (\<exists>p'. yp_flush p = (p', snd (chan_flush s)) \<and> yp_rel N p' (fst (chan_flush s))) \<and>
    (\<exists>p'. yp_check_read p = Some (p', snd (chan_check_read s)) \<and>
       yp_rel N p' (fst (chan_check_read s))) \<and>
    (\<exists>p'. yp_read N p = Some (p', snd (chan_read s)) \<and> yp_rel N p' (fst (chan_read s))) \<and>
    (case chan_probe fn s of
       None \<Rightarrow> yp_probe fn p = None
     | Some (s', b) \<Rightarrow> (\<exists>p'. yp_probe fn p = Some (p', b) \<and> yp_rel N p' s'))"
proof (intro conjI impI, goal_cases)
  case 1 then show ?case by (rule yp_write_rel[OF assms]) blast
next
  case 2 then show ?case by (rule yp_unwrite_rel[OF assms(1)]) blast
next
  case 3 then show ?case using yp_flush_rel[OF assms(1)]
    by (intro exI[of _ "fst (yp_flush p)"]) (auto simp: prod_eq_iff)
next
  case 4 then show ?case
    by (rule yp_check_read_rel[OF assms(1)]) (auto simp: chan_check_read_def)
next
  case 5 then show ?case by (rule yp_read_rel[OF assms(1)]) blast
next
  case 6 show ?case
  proof (cases "readable s = []")
    case True
    then show ?thesis
      by (auto intro: yp_check_read_rel[OF assms(1)] simp: chan_probe_def chan_check_read_def yp_probe_def)
  next
    case False
    obtain p' where "yp_probe fn p = Some (p', fn (hd (readable s)))" "yp_rel N p' s"
      using assms(1) False by (rule yp_probe_rel)
    with False show ?thesis by (simp add: chan_probe_def chan_check_read_def)
  qed
qed

theorem yp_refines_chan_witness:
  "\<exists>p p'. yp_init 1 7 8 = Some p \<and> yp_write 1 9 (3 :: nat) False p = Some p' \<and>
     yp_rel 1 p' (chan_write 3 False chan_empty)"
proof -
  obtain p :: "nat ypipe_t" where p: "yp_init 1 7 8 = Some p" "yp_rel 1 p chan_empty"
    by (rule yp_init_rel[of 1 7 8]) auto
  have "heap (yp_queue p) 9 = None" using p(1)
    by (auto simp: yp_init_def yq_push_def yq_init_def heap_simps bind_eq_Some Let_def)
  from yp_refines_chan[OF p(2) this, THEN conjunct1, of 3 False] p(1) show ?thesis by blast
qed

text \<open>
  C1: in every interleaving of a writer and a reader thread, between the two halves of \<open>flush\<close> too,
  the items received so far are the first items sent, in order and each once, the rest of them is in
  the pipe, and the next operation of either thread does not touch invalid memory.
\<close>

theorem duo_fifo:
  assumes "duo_reach N d" "0 < N"
  shows "\<exists>s. duo_sent d = duo_received d @ readable s @ pending s @ partial s \<and>
    (\<exists>p'. yp_read N (duo_pipe d) = Some (p', snd (chan_read s))) \<and>
    (\<exists>p'. yp_check_read (duo_pipe d) = Some (p', readable s \<noteq> [])) \<and>
    (\<exists>p'. yp_unwrite N (duo_pipe d) = Some (p', snd (chan_unwrite s))) \<and>
    (\<forall>new v inc. heap (yp_queue (duo_pipe d)) new = None \<longrightarrow>
       yp_write N new v inc (duo_pipe d) \<noteq> None)"
proof -
  obtain s where s: "duo_ok N d s" using duo_reach_ok[OF assms] by blast
  then have rel: "yp_rel N (duo_pipe d) s" by (simp add: duo_ok_def)
  show ?thesis
  proof (intro exI[of _ s] conjI allI impI, goal_cases)
    case 1 show ?case using s by (simp add: duo_ok_def)
  next
    case 2 show ?case by (rule yp_read_rel[OF rel]) blast
  next
    case 3 show ?case by (rule yp_check_read_rel[OF rel]) blast
  next
    case 4 show ?case by (rule yp_unwrite_rel[OF rel]) blast
  next
    case (5 new v inc)
    show ?case by (rule yp_write_rel[OF rel 5, of v inc]) simp
  qed
qed

theorem duo_fifo_witness:
  "\<exists>p p'. yp_init 1 7 8 = Some (p :: nat ypipe_t) \<and> yp_check_read p = Some (p', False)"
proof -
  obtain p :: "nat ypipe_t" where p: "yp_init 1 7 8 = Some p"
    by (rule yp_init_rel[of 1 7 8]) auto
  from duo_fifo[OF duo_reach.start[OF p]] p show ?thesis by auto
qed

text \<open>
  C2: no wake-up is lost: whenever the writer is outside \<open>flush\<close> and the pipe holds an item that was
  flushed, the reader is awake or a wake-up for it is on its way; and the reader that is awake gets
  that item with its next read.
\<close>

theorem duo_no_lost_wakeup:
  assumes "duo_reach N d" "0 < N"
  shows "\<exists>s. yp_rel N (duo_pipe d) s \<and> (readable s \<noteq> [] \<longrightarrow> duo_awake d \<or> duo_wakeup d) \<and>
    (yp_c (duo_pipe d) = None \<longleftrightarrow> \<not> duo_awake d \<and> \<not> duo_wakeup d) \<and>
    (readable s \<noteq> [] \<longrightarrow> (\<exists>p'. yp_read N (duo_pipe d) = Some (p', Some (hd (readable s)))))"
proof -
  obtain s where s: "duo_ok N d s" using duo_reach_ok[OF assms] by blast
  then have rel: "yp_rel N (duo_pipe d) s" by (simp add: duo_ok_def)
  have sl: "yp_c (duo_pipe d) = None \<longleftrightarrow> asleep s" "asleep s \<longrightarrow> readable s = []"
    by (rule yp_relE[OF rel], simp, rule yp_relE[OF rel], simp)
  obtain p' where "yp_read N (duo_pipe d) = Some (p', snd (chan_read s))" using rel by (rule yp_read_rel)
  then show ?thesis using s rel sl by (intro exI[of _ s]) (auto simp: duo_ok_def chan_read_def)
qed

theorem duo_no_lost_wakeup_witness:
  "\<exists>p s. yp_init 1 7 8 = Some (p :: nat ypipe_t) \<and> yp_rel 1 p s \<and> yp_c p \<noteq> None"
proof -
  obtain p :: "nat ypipe_t" where p: "yp_init 1 7 8 = Some p"
    by (rule yp_init_rel[of 1 7 8]) auto
  from duo_no_lost_wakeup[OF duo_reach.start[OF p]] p show ?thesis by auto
qed

end
