(* ===== verification/Arrays.thy ===== *)
theory Arrays
  imports Prelude
begin

text \<open>
  The intrusive array \<open>array_t\<close> of \<open>array.hpp\<close>: a vector of object pointers in which every stored
  object remembers its own position, so that finding, removing and swapping objects take constant
  time. The objects are the values of a type parameter (pointers are compared, never read), and
  the \<open>array_index\<close> member of \<open>array_item_t\<close> is a function from objects to positions.

  Every user of the container asserts that the pointer it stores is not \<open>NULL\<close>, so the \<open>NULL\<close> tests
  of \<open>push_back\<close>, \<open>erase\<close> and \<open>swap\<close> always succeed and are not repeated here. Accesses out of the
  range of the vector are undefined in C++ and are \<open>None\<close> here.
\<close>

section \<open>The container\<close>

record 'p array_t =
  items :: "'p list"
  array_index :: "'p \<Rightarrow> int"

definition array_init :: "'p array_t" where
  "array_init = \<lparr>items = [], array_index = (\<lambda>_. - 1)\<rparr>"

definition set_array_index :: "'p \<Rightarrow> nat \<Rightarrow> 'p array_t \<Rightarrow> 'p array_t" where
  "set_array_index p i a = a\<lparr>array_index := (array_index a)(p := int i)\<rparr>"

definition array_size :: "'p array_t \<Rightarrow> nat" where
  "array_size a = length (items a)"

definition array_empty :: "'p array_t \<Rightarrow> bool" where
  "array_empty a \<longleftrightarrow> items a = []"

definition array_get :: "'p array_t \<Rightarrow> nat \<Rightarrow> 'p option" where
  "array_get a i = (if i < length (items a) then Some (items a ! i) else None)"

definition array_push_back :: "'p \<Rightarrow> 'p array_t \<Rightarrow> 'p array_t" where
  "array_push_back p a =
     (let a = set_array_index p (length (items a)) a in a\<lparr>items := items a @ [p]\<rparr>)"

definition array_erase_at :: "nat \<Rightarrow> 'p array_t \<Rightarrow> 'p array_t option" where
  "array_erase_at i a =
     (if i < length (items a) then
        let b = last (items a); a = set_array_index b i a
        in Some (a\<lparr>items := butlast ((items a)[i := b])\<rparr>)
      else None)"

text \<open>The index \<open>-1\<close> of an object that was never stored becomes a huge \<open>size_type\<close>: out of range.\<close>

definition array_pos :: "'p \<Rightarrow> 'p array_t \<Rightarrow> nat option" where
  "array_pos p a = (if 0 \<le> array_index a p then Some (nat (array_index a p)) else None)"

definition array_erase :: "'p \<Rightarrow> 'p array_t \<Rightarrow> 'p array_t option" where
  "array_erase p a = do { i \<leftarrow> array_pos p a; array_erase_at i a }"

definition array_swap :: "nat \<Rightarrow> nat \<Rightarrow> 'p array_t \<Rightarrow> 'p array_t option" where
  "array_swap i j a =
     (if i < length (items a) \<and> j < length (items a) then
        let a1 = set_array_index (items a ! i) j a;
            a2 = set_array_index (items a ! j) i a1
        in Some (a2\<lparr>items := swap_at (items a) i j\<rparr>)
      else None)"

definition array_clear :: "'p array_t \<Rightarrow> 'p array_t" where
  "array_clear a = a\<lparr>items := []\<rparr>"

section \<open>The invariant\<close>

text \<open>Stored objects are distinct and each knows its own position.\<close>

definition array_ok :: "'p array_t \<Rightarrow> bool" where
  "array_ok a \<longleftrightarrow> distinct (items a) \<and>
     (\<forall>i < length (items a). array_index a (items a ! i) = int i)"

lemma array_okD:
  assumes "array_ok a"
  shows "distinct (items a)" "i < length (items a) \<Longrightarrow> array_index a (items a ! i) = int i"
  using assms by (auto simp: array_ok_def)

lemma array_ok_init [simp]: "array_ok array_init"
  by (simp add: array_ok_def array_init_def)

lemma array_pos_nth:
  "array_ok a \<Longrightarrow> i < length (items a) \<Longrightarrow> array_pos (items a ! i) a = Some i"
  by (simp add: array_pos_def array_okD)

lemma array_pos_in:
  assumes "array_ok a" "p \<in> set (items a)"
  obtains i where "array_pos p a = Some i" "i < length (items a)" "items a ! i = p"
  using assms by (metis array_pos_nth in_set_conv_nth)

lemma array_push_back_ok:
  assumes "array_ok a" "p \<notin> set (items a)"
  shows "array_ok (array_push_back p a)" "items (array_push_back p a) = items a @ [p]"
  using assms
  by (auto simp: array_push_back_def set_array_index_def Let_def array_ok_def nth_append
      less_Suc_eq)

lemma array_swap_items:
  "array_swap i j a = Some a' \<Longrightarrow>
   items a' = swap_at (items a) i j \<and> i < length (items a) \<and> j < length (items a)"
  by (auto simp: array_swap_def Let_def split: if_splits)

lemma array_swap_ok:
  assumes "array_ok a" "array_swap i j a = Some a'"
  shows "array_ok a'"
proof -
  have d: "distinct (items a)" using assms(1) by (rule array_okD)
  show ?thesis
    using assms d
    by (auto simp: array_ok_def array_swap_def set_array_index_def Let_def nth_swap_at
        nth_eq_iff_index_eq split: if_splits)
qed

lemma array_swapE:
  assumes "array_ok a" "i < length (items a)" "j < length (items a)"
  obtains a' where "array_swap i j a = Some a'" "array_ok a'" "items a' = swap_at (items a) i j"
proof -
  obtain a' where sw: "array_swap i j a = Some a'"
    using assms by (fastforce simp: array_swap_def Let_def)
  show ?thesis using that[OF sw array_swap_ok[OF assms(1) sw]] array_swap_items[OF sw] by simp
qed

lemma array_erase_at_ok:
  assumes "array_ok a" "i < length (items a)"
  obtains a' where "array_erase_at i a = Some a'" "array_ok a'"
    "items a' = butlast ((items a)[i := last (items a)])"
proof -
  let ?xs = "items a" and ?n = "length (items a) - 1"
  have ne: "?xs \<noteq> []" using assms(2) by auto
  have d: "distinct ?xs" using assms(1) by (rule array_okD)
  have last: "last ?xs = ?xs ! ?n" using ne by (simp add: last_conv_nth)
  define a' where "a' = a\<lparr>array_index := (array_index a)(last ?xs := int i),
    items := butlast (?xs[i := last ?xs])\<rparr>"
  have a': "array_erase_at i a = Some a'"
    and it: "items a' = butlast (?xs[i := last ?xs])"
    and ix: "array_index a' = (array_index a)(last ?xs := int i)"
    using assms(2) by (simp_all add: a'_def array_erase_at_def set_array_index_def Let_def)
  have len: "length (items a') = ?n" by (simp add: it)
  have nth: "items a' ! k = (if k = i then ?xs ! ?n else ?xs ! k)" if "k < ?n" for k
    using that assms(2) by (auto simp: it nth_butlast last nth_list_update)
  have "distinct (items a')"
    unfolding distinct_conv_nth len using d nth assms(2)
    by (auto simp: nth_eq_iff_index_eq)
  moreover have "array_index a' (items a' ! k) = int k" if "k < length (items a')" for k
    using that d assms nth[of k] last
    by (auto simp: len ix array_okD(2) nth_eq_iff_index_eq)
  ultimately show ?thesis using that[OF a' _ it] by (simp add: array_ok_def)
qed

lemma array_eraseE:
  assumes "array_ok a" "i < length (items a)" "items a ! i = p"
  obtains a' where "array_erase p a = Some a'" "array_ok a'"
    "items a' = butlast ((items a)[i := last (items a)])"
    "set (items a') = set (items a) - {p}"
proof -
  have i: "array_pos p a = Some i" using assms array_pos_nth by blast
  obtain a' where a': "array_erase_at i a = Some a'" "array_ok a'"
    "items a' = butlast ((items a)[i := last (items a)])"
    using assms(1,2) by (rule array_erase_at_ok)
  moreover have "set (items a') = set (items a) - {p}"
    using set_butlast_update_last[OF array_okD(1)[OF assms(1)] assms(2)] a' assms by simp
  ultimately show ?thesis using that i by (simp add: array_erase_def)
qed

section \<open>Arrays with an active prefix\<close>

text \<open>
  The users of the container keep their active objects in a prefix of it. Moving an object into the
  prefix, out of it, and removing it from the container are the same steps in each of them.
\<close>

definition prefix_set :: "nat \<Rightarrow> 'p array_t \<Rightarrow> 'p set" where
  "prefix_set n a = set (take n (items a))"

lemma prefix_set_sub: "prefix_set n a \<subseteq> set (items a)"
  by (auto simp: prefix_set_def dest: in_set_takeD)

lemma prefix_set_nth: "n \<le> length (items a) \<Longrightarrow> i < n \<Longrightarrow> items a ! i \<in> prefix_set n a"
  by (auto simp: prefix_set_def set_take_conv)

lemma prefix_set_pos:
  assumes "array_ok a" "n \<le> length (items a)" "i < length (items a)"
  shows "items a ! i \<in> prefix_set n a \<longleftrightarrow> i < n"
  using assms array_okD(1)[OF assms(1)]
  by (auto simp: prefix_set_def set_take_conv nth_eq_iff_index_eq)

lemma array_activate:
  assumes ok: "array_ok a" and p: "p \<in> set (items a)" "p \<notin> prefix_set n a"
    and n: "n \<le> length (items a)"
  obtains i a' where "array_pos p a = Some i" "array_swap i n a = Some a'" "array_ok a'"
    "n < length (items a)" "n \<le> i" "i < length (items a)" "items a' = swap_at (items a) i n"
    "set (items a') = set (items a)" "prefix_set (Suc n) a' = insert p (prefix_set n a)"
proof -
  obtain i where i: "array_pos p a = Some i" "i < length (items a)" "items a ! i = p"
    using ok p(1) by (rule array_pos_in)
  have ge: "n \<le> i" using prefix_set_pos[OF ok n i(2)] i(3) p(2) by simp
  then have lt: "n < length (items a)" using i by simp
  obtain a' where a': "array_swap i n a = Some a'" "array_ok a'"
    "items a' = swap_at (items a) i n"
    using ok i(2) lt by (rule array_swapE)
  show ?thesis
    using that[OF i(1) a'(1,2) lt ge i(2) a'(3)] a'(3) lt i ge set_take_Suc_swap_at[OF ge i(2)]
    by (simp add: prefix_set_def)
qed

lemma array_deactivate:
  assumes ok: "array_ok a" and i: "i < n" and n: "n \<le> length (items a)"
  obtains a' where "array_swap i (n - 1) a = Some a'" "array_ok a'"
    "items a' = swap_at (items a) i (n - 1)" "set (items a') = set (items a)"
    "prefix_set (n - 1) a' = prefix_set n a - {items a ! i}"
    "items a' ! (n - 1) = items a ! i"
proof -
  have le: "n - 1 < length (items a)" "i < length (items a)" "i \<le> n - 1" "Suc (n - 1) = n"
    using i n by auto
  obtain a' where a': "array_swap i (n - 1) a = Some a'" "array_ok a'"
    "items a' = swap_at (items a) i (n - 1)"
    using ok le(2,1) by (rule array_swapE)
  show ?thesis
    using that[OF a'] a'(3) le set_take_pred_swap_at[OF array_okD(1)[OF ok] le(3,1)]
    by (simp add: prefix_set_def nth_swap_at)
qed

lemma array_remove_active:
  assumes ok: "array_ok a" and i: "i < n" and n: "n \<le> length (items a)"
  obtains b a' where "array_swap i (n - 1) a = Some b" "array_erase (items a ! i) b = Some a'"
    "array_ok a'" "set (items a') = set (items a) - {items a ! i}"
    "length (items a') = length (items a) - 1"
    "prefix_set (n - 1) a' = prefix_set n a - {items a ! i}"
    "\<forall>k < n - 1. items a' ! k = swap_at (items a) i (n - 1) ! k"
proof -
  let ?p = "items a ! i"
  obtain b where b: "array_swap i (n - 1) a = Some b" "array_ok b"
    "items b = swap_at (items a) i (n - 1)" "set (items b) = set (items a)"
    "prefix_set (n - 1) b = prefix_set n a - {?p}" "items b ! (n - 1) = ?p"
    using ok i n by (rule array_deactivate)
  have lb: "n - 1 < length (items b)" using b(3) i n by simp
  obtain a' where a': "array_erase ?p b = Some a'" "array_ok a'"
    "items a' = butlast ((items b)[n - 1 := last (items b)])"
    "set (items a') = set (items b) - {?p}"
    using b(2) lb b(6) by (rule array_eraseE)
  have "take (n - 1) (items a') = take (n - 1) (items b)"
    using lb by (simp add: a'(3) take_butlast_update)
  then have "prefix_set (n - 1) a' = prefix_set (n - 1) b" by (simp add: prefix_set_def)
  moreover have "\<forall>k < n - 1. items a' ! k = swap_at (items a) i (n - 1) ! k"
    using lb b(3) by (auto simp: a'(3) nth_butlast)
  moreover have "length (items a') = length (items a) - 1" by (simp add: a'(3) b(3))
  ultimately show ?thesis using that[OF b(1) a'(1,2)] a'(4) b(4,5) by simp
qed

lemma array_remove_passive:
  assumes ok: "array_ok a" and i: "n \<le> i" "i < length (items a)"
  obtains a' where "array_erase (items a ! i) a = Some a'" "array_ok a'"
    "set (items a') = set (items a) - {items a ! i}"
    "length (items a') = length (items a) - 1" "take n (items a') = take n (items a)"
    "prefix_set n a' = prefix_set n a"
proof -
  obtain a' where a': "array_erase (items a ! i) a = Some a'" "array_ok a'"
    "items a' = butlast ((items a)[i := last (items a)])"
    "set (items a') = set (items a) - {items a ! i}"
    using ok i(2) refl by (rule array_eraseE)
  have "take n (items a') = take n (items a)" using i by (simp add: a'(3) take_butlast_update)
  then show ?thesis using that[OF a'(1,2)] a'(3,4) by (simp add: prefix_set_def)
qed

end
