(* ===== verification/Msg.thy ===== *)
theory Msg
  imports Prelude
begin

unbundle bit_operations_syntax

text \<open>
  Messages: \<open>msg_t\<close> of \<open>msg.hpp\<close> and \<open>msg.cpp\<close>, with the reference-counted contents of long
  messages in an explicit memory. A message is a tagged union; a content block is addressed by a
  number, and the memory maps the addresses of the live blocks to their contents. Following the
  pointer of a block that was freed is \<open>None\<close>. The result of \<open>malloc\<close> is an argument of the
  allocating operations (\<open>None\<close> when memory is exhausted), as are the unspecified bytes of a freshly
  allocated buffer.

  The invariant \<open>mem_ok\<close> relates the memory to the multiset of messages alive in the program: a
  block is held by exactly one unshared message, or by messages that all carry the \<open>shared\<close> flag and
  whose number is its reference count.

  Pipes and sockets never look at the sharing, only at flags, data and type; for them a message is
  the value \<open>frame\<close>, and \<open>msg_view\<close> maps a message and a memory to that value.
\<close>

section \<open>Representation\<close>

definition msg_more :: byte where "msg_more = 1"
definition msg_identity :: byte where "msg_identity = 64"
definition msg_shared :: byte where "msg_shared = 128"

definition max_vsm_size :: nat where "max_vsm_size = 29"

datatype msg_t =
    Vsm bytes byte          \<comment> \<open>\<open>type_vsm\<close>: data and flags\<close>
  | Lmsg nat byte           \<comment> \<open>\<open>type_lmsg\<close>: address of the content and flags\<close>
  | Delimiter byte          \<comment> \<open>\<open>type_delimiter\<close>: flags\<close>
  | Invalid byte            \<comment> \<open>any other type byte, as after \<open>close\<close>\<close>

record content_t =
  cdata :: bytes
  cffn :: "nat option"
  chint :: nat
  refcnt :: uint32

record memory =
  contents :: "nat \<rightharpoonup> content_t"
  ffn_calls :: "(nat \<times> bytes \<times> nat) list"

section \<open>Operations\<close>

fun msg_flags :: "msg_t \<Rightarrow> byte" where
  "msg_flags (Vsm _ f) = f"
| "msg_flags (Lmsg _ f) = f"
| "msg_flags (Delimiter f) = f"
| "msg_flags (Invalid f) = f"

fun with_flags :: "byte \<Rightarrow> msg_t \<Rightarrow> msg_t" where
  "with_flags g (Vsm d _) = Vsm d g"
| "with_flags g (Lmsg p _) = Lmsg p g"
| "with_flags g (Delimiter _) = Delimiter g"
| "with_flags g (Invalid _) = Invalid g"

definition msg_set_flags :: "byte \<Rightarrow> msg_t \<Rightarrow> msg_t" where
  "msg_set_flags g m = with_flags (msg_flags m OR g) m"

definition msg_reset_flags :: "byte \<Rightarrow> msg_t \<Rightarrow> msg_t" where
  "msg_reset_flags g m = with_flags (msg_flags m AND NOT g) m"

fun msg_check :: "msg_t \<Rightarrow> bool" where
  "msg_check (Invalid _) = False"
| "msg_check _ = True"

definition msg_init :: msg_t where
  "msg_init = Vsm [] 0"

definition msg_init_size ::
    "nat option \<Rightarrow> (nat \<Rightarrow> byte) \<Rightarrow> nat \<Rightarrow> memory \<Rightarrow> errno + msg_t \<times> memory" where
  "msg_init_size malloced junk sz h =
     (if sz \<le> max_vsm_size then Inr (Vsm (map junk [0..<sz]) 0, h)
      else case malloced of
        None \<Rightarrow> Inl ENOMEM
      | Some p \<Rightarrow> Inr (Lmsg p 0, h\<lparr>contents := (contents h)(p \<mapsto>
          \<lparr>cdata = map junk [0..<sz], cffn = None, chint = 0, refcnt = 0\<rparr>)\<rparr>))"

definition msg_init_data ::
    "nat option \<Rightarrow> bytes \<Rightarrow> nat option \<Rightarrow> nat \<Rightarrow> memory \<Rightarrow> errno + msg_t \<times> memory" where
  "msg_init_data malloced data ffn hint h =
     (case malloced of
        None \<Rightarrow> Inl ENOMEM
      | Some p \<Rightarrow> Inr (Lmsg p 0, h\<lparr>contents := (contents h)(p \<mapsto>
          \<lparr>cdata = data, cffn = ffn, chint = hint, refcnt = 0\<rparr>)\<rparr>))"

definition msg_init_delimiter :: msg_t where
  "msg_init_delimiter = Delimiter 0"

text \<open>Calls the user's deallocation function, if there is one, and frees the block.\<close>

definition release :: "nat \<Rightarrow> content_t \<Rightarrow> memory \<Rightarrow> memory" where
  "release p c h = h\<lparr>contents := (contents h)(p := None),
     ffn_calls := (case cffn c of None \<Rightarrow> ffn_calls h
                   | Some fn \<Rightarrow> ffn_calls h @ [(fn, cdata c, chint c)])\<rparr>"

definition is_shared :: "msg_t \<Rightarrow> bool" where
  "is_shared m \<longleftrightarrow> msg_flags m AND msg_shared \<noteq> 0"

text \<open>\<open>atomic_counter_t::sub\<close>: the new value, and whether it is non-zero.\<close>

definition counter_sub :: "uint32 \<Rightarrow> uint32 \<Rightarrow> bool \<times> uint32" where
  "counter_sub value decrement = (value - decrement \<noteq> 0, value - decrement)"

fun msg_close :: "msg_t \<Rightarrow> memory \<Rightarrow> (unit outcome \<times> msg_t \<times> memory) option" where
  "msg_close (Invalid f) h = Some (Inl EFAULT, Invalid f, h)"
| "msg_close (Lmsg p f) h =
     (case contents h p of
        None \<Rightarrow> None
      | Some c \<Rightarrow>
          if \<not> is_shared (Lmsg p f) then Some (Inr (), Invalid f, release p c h)
          else let (alive, n) = counter_sub (refcnt c) 1 in
            if \<not> alive then Some (Inr (), Invalid f, release p (c\<lparr>refcnt := n\<rparr>) h)
            else Some (Inr (), Invalid f, h\<lparr>contents := (contents h)(p \<mapsto> c\<lparr>refcnt := n\<rparr>)\<rparr>))"
| "msg_close m h = Some (Inr (), Invalid (msg_flags m), h)"

text \<open>\<open>move\<close> and \<open>copy\<close> return the new destination, the new source and the memory.\<close>

definition msg_move ::
    "msg_t \<Rightarrow> msg_t \<Rightarrow> memory \<Rightarrow> (unit outcome \<times> msg_t \<times> msg_t \<times> memory) option" where
  "msg_move dst src h =
     (if \<not> msg_check src then Some (Inl EFAULT, dst, src, h)
      else do {
        (rc, dst', h') \<leftarrow> msg_close dst h;
        case rc of Inl e \<Rightarrow> Some (Inl e, dst', src, h')
                 | Inr _ \<Rightarrow> Some (Inr (), src, msg_init, h') })"

text \<open>The reference added by \<open>copy\<close>: shared messages count one more, others become shared with count 2.\<close>

fun add_ref :: "msg_t \<Rightarrow> memory \<Rightarrow> (msg_t \<times> memory) option" where
  "add_ref (Lmsg p f) h =
     (case contents h p of
        None \<Rightarrow> None
      | Some c \<Rightarrow>
          if is_shared (Lmsg p f)
          then Some (Lmsg p f, h\<lparr>contents := (contents h)(p \<mapsto> c\<lparr>refcnt := refcnt c + 1\<rparr>)\<rparr>)
          else Some (Lmsg p (f OR msg_shared),
                     h\<lparr>contents := (contents h)(p \<mapsto> c\<lparr>refcnt := 2\<rparr>)\<rparr>))"
| "add_ref m h = Some (m, h)"

definition msg_copy ::
    "msg_t \<Rightarrow> msg_t \<Rightarrow> memory \<Rightarrow> (unit outcome \<times> msg_t \<times> msg_t \<times> memory) option" where
  "msg_copy dst src h =
     (if \<not> msg_check src then Some (Inl EFAULT, dst, src, h)
      else do {
        (rc, dst', h1) \<leftarrow> msg_close dst h;
        case rc of Inl e \<Rightarrow> Some (Inl e, dst', src, h1)
                 | Inr _ \<Rightarrow> do { (src', h2) \<leftarrow> add_ref src h1; Some (Inr (), src', src', h2) } })"

text \<open>\<open>data\<close> and \<open>size\<close> assert that the message is a VSM or a long message.\<close>

fun msg_data :: "memory \<Rightarrow> msg_t \<Rightarrow> bytes option" where
  "msg_data h (Vsm d _) = Some d"
| "msg_data h (Lmsg p _) = map_option cdata (contents h p)"
| "msg_data h _ = None"

definition msg_size :: "memory \<Rightarrow> msg_t \<Rightarrow> nat option" where
  "msg_size h m = map_option length (msg_data h m)"

definition msg_is_identity :: "msg_t \<Rightarrow> bool" where
  "msg_is_identity m \<longleftrightarrow> msg_flags m AND msg_identity = msg_identity"

fun msg_is_delimiter :: "msg_t \<Rightarrow> bool" where
  "msg_is_delimiter (Delimiter _) = True"
| "msg_is_delimiter _ = False"

fun msg_is_vsm :: "msg_t \<Rightarrow> bool" where
  "msg_is_vsm (Vsm _ _) = True"
| "msg_is_vsm _ = False"

text \<open>\<open>refs_\<close> is an \<open>int\<close> that the code asserts to be non-negative.\<close>

fun msg_add_refs :: "int \<Rightarrow> msg_t \<Rightarrow> memory \<Rightarrow> (msg_t \<times> memory) option" where
  "msg_add_refs refs m h =
     (if refs < 0 then None
      else if refs = 0 then Some (m, h)
      else case m of
        Lmsg p f \<Rightarrow> (case contents h p of
            None \<Rightarrow> None
          | Some c \<Rightarrow>
              if is_shared m
              then Some (m, h\<lparr>contents := (contents h)(p \<mapsto> c\<lparr>refcnt := refcnt c + of_int refs\<rparr>)\<rparr>)
              else Some (Lmsg p (f OR msg_shared),
                         h\<lparr>contents := (contents h)(p \<mapsto> c\<lparr>refcnt := of_int (refs + 1)\<rparr>)\<rparr>))
      | _ \<Rightarrow> Some (m, h))"

fun msg_rm_refs :: "int \<Rightarrow> msg_t \<Rightarrow> memory \<Rightarrow> (bool \<times> msg_t \<times> memory) option" where
  "msg_rm_refs refs m h =
     (if refs < 0 then None
      else if refs = 0 then Some (True, m, h)
      else case m of
        Lmsg p f \<Rightarrow>
          if \<not> is_shared m
          then map_option (\<lambda>(rc, m', h'). (False, m', h')) (msg_close m h)
          else (case contents h p of
              None \<Rightarrow> None
            | Some c \<Rightarrow>
                let (alive, n) = counter_sub (refcnt c) (of_int refs) in
                if \<not> alive then Some (False, m, release p (c\<lparr>refcnt := n\<rparr>) h)
                else Some (True, m, h\<lparr>contents := (contents h)(p \<mapsto> c\<lparr>refcnt := n\<rparr>)\<rparr>))
      | _ \<Rightarrow> map_option (\<lambda>(rc, m', h'). (False, m', h')) (msg_close m h))"

section \<open>The value of a message\<close>

record frame =
  fflags :: byte
  fdata :: bytes
  fdelim :: bool

definition frame_more :: "frame \<Rightarrow> bool" where
  "frame_more m \<longleftrightarrow> fflags m AND msg_more \<noteq> 0"

definition frame_identity :: "frame \<Rightarrow> bool" where
  "frame_identity m \<longleftrightarrow> fflags m AND msg_identity = msg_identity"

definition frame_delimiter :: frame where
  "frame_delimiter = \<lparr>fflags = 0, fdata = [], fdelim = True\<rparr>"

definition frame_of :: "byte \<Rightarrow> bytes \<Rightarrow> frame" where
  "frame_of f d = \<lparr>fflags = f, fdata = d, fdelim = False\<rparr>"

text \<open>The sharing flag is a property of the representation and not of the value.\<close>

fun msg_view :: "memory \<Rightarrow> msg_t \<Rightarrow> frame option" where
  "msg_view h (Vsm d f) = Some (frame_of (f AND NOT msg_shared) d)"
| "msg_view h (Lmsg p f) =
     map_option (\<lambda>c. frame_of (f AND NOT msg_shared) (cdata c)) (contents h p)"
| "msg_view h (Delimiter f) = Some \<lparr>fflags = f AND NOT msg_shared, fdata = [], fdelim = True\<rparr>"
| "msg_view h (Invalid f) = None"

text \<open>
  A sequence of frames that ends with the last part of a message: pipes only ever make whole
  messages readable.
\<close>

definition whole :: "frame list \<Rightarrow> bool" where
  "whole ms \<longleftrightarrow> ms = [] \<or> \<not> frame_more (last ms)"

lemma whole_Nil [simp]: "whole []"
  by (simp add: whole_def)

lemma whole_Cons: "whole (m # ms) \<Longrightarrow> whole ms \<and> (frame_more m \<longrightarrow> ms \<noteq> [])"
  by (auto simp: whole_def split: if_splits)

section \<open>The reference counting invariant\<close>

fun points :: "nat \<Rightarrow> msg_t \<Rightarrow> bool" where
  "points p (Lmsg q _) \<longleftrightarrow> p = q"
| "points p _ \<longleftrightarrow> False"

definition holders :: "nat \<Rightarrow> msg_t multiset \<Rightarrow> msg_t multiset" where
  "holders p M = filter_mset (points p) M"

definition content_ok :: "msg_t multiset \<Rightarrow> content_t \<Rightarrow> bool" where
  "content_ok R c \<longleftrightarrow>
     (size R = 1 \<and> (\<forall>m \<in># R. \<not> is_shared m)) \<or>
     (R \<noteq> {#} \<and> (\<forall>m \<in># R. is_shared m) \<and> unat (refcnt c) = size R)"

definition mem_ok :: "msg_t multiset \<Rightarrow> memory \<Rightarrow> bool" where
  "mem_ok M h \<longleftrightarrow>
     (\<forall>m \<in># M. \<forall>p. points p m \<longrightarrow> contents h p \<noteq> None) \<and>
     (\<forall>p c. contents h p = Some c \<longrightarrow> content_ok (holders p M) c)"

lemma mem_okI:
  assumes "\<And>m p. m \<in># M \<Longrightarrow> points p m \<Longrightarrow> contents h p \<noteq> None"
    and "\<And>p c. contents h p = Some c \<Longrightarrow> content_ok (holders p M) c"
  shows "mem_ok M h"
  using assms by (auto simp: mem_ok_def)

lemma mem_ok_live: "mem_ok M h \<Longrightarrow> Lmsg p f \<in># M \<Longrightarrow> \<exists>c. contents h p = Some c"
  by (fastforce simp: mem_ok_def)

lemma mem_ok_content: "mem_ok M h \<Longrightarrow> contents h p = Some c \<Longrightarrow> content_ok (holders p M) c"
  by (simp add: mem_ok_def)

lemma holders_add [simp]:
  "holders p (add_mset m M) = (if points p m then add_mset m (holders p M) else holders p M)"
  by (simp add: holders_def)

lemma holders_empty [simp]: "holders p {#} = {#}"
  by (simp add: holders_def)

lemma holders_plus [simp]: "holders p (M + N) = holders p M + holders p N"
  by (simp add: holders_def)

lemma points_in_holders: "m \<in># holders p M \<longleftrightarrow> m \<in># M \<and> points p m"
  by (auto simp: holders_def)

lemma points_shared [simp]: "points p (Lmsg q f) \<longleftrightarrow> p = q"
  by simp

lemma contents_release [simp]: "contents (release p c h) = (contents h)(p := None)"
  by (simp add: release_def)

text \<open>A live message without a content block does not take part in the counting.\<close>

lemma mem_ok_no_content:
  "(\<And>p. \<not> points p m) \<Longrightarrow> mem_ok (add_mset m M) h \<longleftrightarrow> mem_ok M h"
  by (auto simp: mem_ok_def)

lemma content_ok_unshared:
  "content_ok (add_mset m R) c \<Longrightarrow> \<not> is_shared m \<Longrightarrow> R = {#}"
  by (auto simp: content_ok_def)

lemma content_ok_shared:
  "content_ok (add_mset m R) c \<Longrightarrow> is_shared m \<Longrightarrow>
   (\<forall>x \<in># R. is_shared x) \<and> unat (refcnt c) = Suc (size R)"
  by (auto simp: content_ok_def)

lemma unat_pred: "unat (w :: 32 word) = Suc n \<Longrightarrow> unat (w - 1) = n"
  by (metis One_nat_def diff_Suc_Suc minus_nat.diff_0 nat.discI unat_0 unat_minus_one)

lemma word_pred_zero: "unat (w :: 32 word) = Suc n \<Longrightarrow> w - 1 = 0 \<longleftrightarrow> n = 0"
  using unat_pred[of w n] by (metis unat_0 unat_eq_zero)

text \<open>Closing one of the live messages.\<close>

lemma msg_close_Lmsg:
  assumes ok: "mem_ok (add_mset (Lmsg p f) M) h"
  obtains h' where "msg_close (Lmsg p f) h = Some (Inr (), Invalid f, h')"
    "mem_ok M h'" "contents h' p = None \<longleftrightarrow> holders p M = {#}"
    "\<forall>q. q \<noteq> p \<longrightarrow> contents h' q = contents h q"
    "map_option cdata (contents h' p) \<in> {None, map_option cdata (contents h p)}"
proof -
  let ?m = "Lmsg p f"
  from ok obtain c where c: "contents h p = Some c"
    using mem_ok_live[OF ok, of p f] by auto
  have cok: "content_ok (add_mset ?m (holders p M)) c"
    using mem_ok_content[OF ok c] by simp
  have others: "content_ok (holders q M) d" if "q \<noteq> p" "contents h q = Some d" for q d
    using mem_ok_content[OF ok that(2)] that(1) by simp
  have live: "contents h q \<noteq> None" if "m \<in># M" "points q m" for m q
    using ok that by (auto simp: mem_ok_def)
  show ?thesis
  proof (cases "is_shared ?m")
    case False
    then have e: "holders p M = {#}" using cok by (rule content_ok_unshared[rotated])
    then have "\<not> points p m" if "m \<in># M" for m
      using that points_in_holders[of m p M] by auto
    then have "mem_ok M (release p c h)"
      using live others by (intro mem_okI) (auto split: if_splits)
    with False c e show ?thesis by (intro that[of "release p c h"]) auto
  next
    case True
    then have sh: "\<forall>x \<in># holders p M. is_shared x"
      and n: "unat (refcnt c) = Suc (size (holders p M))"
      using content_ok_shared[OF cok] by auto
    show ?thesis
    proof (cases "holders p M = {#}")
      case e: True
      then have z: "refcnt c - 1 = 0" using word_pred_zero[OF n] by simp
      have "\<not> points p m" if "m \<in># M" for m
        using that points_in_holders[of m p M] e by auto
      then have "mem_ok M (release p (c\<lparr>refcnt := 0\<rparr>) h)"
        using live others by (intro mem_okI) (auto split: if_splits)
      with True c e z show ?thesis
        by (intro that[of "release p (c\<lparr>refcnt := 0\<rparr>) h"]) (auto simp: counter_sub_def)
    next
      case ne: False
      then have nz: "refcnt c - 1 \<noteq> 0" using word_pred_zero[OF n] by simp
      let ?h = "h\<lparr>contents := (contents h)(p \<mapsto> c\<lparr>refcnt := refcnt c - 1\<rparr>)\<rparr>"
      have "mem_ok M ?h"
        using live others sh ne unat_pred[OF n]
        by (intro mem_okI) (auto simp: content_ok_def split: if_splits)
      with True c ne nz show ?thesis
        by (intro that[of ?h]) (auto simp: counter_sub_def)
    qed
  qed
qed

lemma no_points_non_lmsg: "(\<And>q f. m \<noteq> Lmsg q f) \<Longrightarrow> \<not> points p m"
  by (cases m) auto

lemma msg_close_other:
  assumes "mem_ok (add_mset m M) h" "msg_check m" "\<And>q f. m \<noteq> Lmsg q f"
  shows "msg_close m h = Some (Inr (), Invalid (msg_flags m), h)" "mem_ok M h"
  using assms mem_ok_no_content[of m M h] by (cases m; simp)+

text \<open>The value of the other live messages does not depend on the closed one.\<close>

lemma msg_view_cong:
  "map_option cdata (contents h' p) = map_option cdata (contents h p) \<Longrightarrow>
   msg_view h' (Lmsg p f) = msg_view h (Lmsg p f)"
  by (cases "contents h p"; cases "contents h' p") auto

lemma msg_close_ok:
  assumes ok: "mem_ok (add_mset m M) h" and chk: "msg_check m"
  obtains h' where "msg_close m h = Some (Inr (), Invalid (msg_flags m), h')" "mem_ok M h'"
    "\<And>p. points p m \<Longrightarrow> contents h' p = None \<longleftrightarrow> holders p M = {#}"
    "\<And>x. x \<in># M \<Longrightarrow> msg_view h' x = msg_view h x"
proof (cases "\<exists>p f. m = Lmsg p f")
  case False
  then show ?thesis
    using msg_close_other[OF ok chk] no_points_non_lmsg[of m] that[of h] by auto
next
  case True
  then obtain p f where m: "m = Lmsg p f" by auto
  obtain h' where h': "msg_close (Lmsg p f) h = Some (Inr (), Invalid f, h')" "mem_ok M h'"
    and gone: "contents h' p = None \<longleftrightarrow> holders p M = {#}"
    and frame: "\<forall>q. q \<noteq> p \<longrightarrow> contents h' q = contents h q"
    and kept: "map_option cdata (contents h' p) \<in> {None, map_option cdata (contents h p)}"
    using ok[unfolded m] by (rule msg_close_Lmsg) (rule that)
  have "msg_view h' x = msg_view h x" if x: "x \<in># M" for x
  proof (cases x)
    case (Lmsg q g)
    show ?thesis
    proof (cases "q = p")
      case True
      with Lmsg x have "contents h' p \<noteq> None" using mem_ok_live[OF h'(2)] by auto
      with kept have "map_option cdata (contents h' p) = map_option cdata (contents h p)"
        by (cases "contents h' p") auto
      with Lmsg True show ?thesis by (metis msg_view_cong)
    qed (use Lmsg frame in simp)
  qed auto
  with h' gone m show ?thesis by (intro that[of h']) auto
qed

section \<open>Sharing\<close>

lemma msg_shared_nonzero [simp]: "msg_shared \<noteq> 0"
  by (simp add: msg_shared_def)

lemma unshare_or [simp]: "(f OR msg_shared) AND NOT msg_shared = f AND NOT msg_shared"
  by (rule bit_word_eqI) (auto simp: bit_simps)

lemma is_shared_or [simp]: "is_shared (Lmsg p (f OR msg_shared))"
  by (simp add: is_shared_def)

text \<open>
  \<open>add_refs k\<close> prepares \<open>k\<close> plain copies of the message: afterwards \<open>k + 1\<close> copies may be alive.
\<close>

lemma msg_add_refs_ok:
  assumes ok: "mem_ok (add_mset m M) h" and k: "0 \<le> k"
    and small: "\<And>p. points p m \<Longrightarrow> int (size (holders p M)) + k + 1 < 2 ^ 32"
  obtains m' h' where "msg_add_refs k m h = Some (m', h')"
    "mem_ok (replicate_mset (nat k + 1) m' + M) h'"
    "\<And>x. msg_view h' x = msg_view h x" "msg_view h m' = msg_view h m"
proof (cases "k = 0 \<or> \<not> (\<exists>p f. m = Lmsg p f)")
  case True
  have "mem_ok (replicate_mset (nat k + 1) m + M) h"
  proof (cases "k = 0")
    case False
    with True have np: "\<not> points p m" for p using no_points_non_lmsg by metis
    have "mem_ok (replicate_mset n m + M) h" for n
      using ok np by (induction n) (auto simp: mem_ok_no_content)
    from this[of "Suc (nat k)"] show ?thesis by simp
  qed (use ok in simp)
  with True k show ?thesis by (intro that[of m h]) (cases m; auto)+
next
  case False
  then obtain p f where m: "m = Lmsg p f" by auto
  from ok m obtain c where c: "contents h p = Some c" using mem_ok_live[OF ok, of p f] by auto
  have cok: "content_ok (add_mset m (holders p M)) c" using mem_ok_content[OF ok c] m by simp
  define m' where "m' = (if is_shared m then m else Lmsg p (f OR msg_shared))"
  define n where "n = (if is_shared m then refcnt c + of_int k else of_int (k + 1))"
  let ?h = "h\<lparr>contents := (contents h)(p \<mapsto> c\<lparr>refcnt := n\<rparr>)\<rparr>"
  have res: "msg_add_refs k m h = Some (m', ?h)"
    using False k c by (auto simp: m m'_def n_def)
  have sh: "is_shared m'" and pm: "points q m' \<longleftrightarrow> q = p" for q
    by (auto simp: m'_def m)
  have rest: "\<forall>x \<in># holders p M. is_shared x"
    using cok content_ok_shared content_ok_unshared by (cases "is_shared m") fastforce+
  have bound: "size (holders p M) + nat k + 1 < 2 ^ 32"
    using small[of p] k unfolding m by simp
  have cnt: "unat n = size (holders p M) + nat k + 1"
  proof (cases "is_shared m")
    case True
    then have "unat (refcnt c) = Suc (size (holders p M))" using content_ok_shared[OF cok] by auto
    then have "unat (refcnt c + of_nat (nat k)) = size (holders p M) + nat k + 1"
      using bound by (simp add: unat_word_ariths take_bit_eq_mod unat_of_nat)
    with True k show ?thesis by (simp add: n_def of_nat_nat)
  next
    case f: False
    then have "holders p M = {#}" by (rule content_ok_unshared[OF cok])
    moreover have "unat (of_nat (nat k) + 1 :: 32 word) = nat k + 1"
      using bound by (simp add: unat_word_ariths take_bit_eq_mod unat_of_nat)
    ultimately show ?thesis using f k by (simp add: n_def of_nat_nat add.commute)
  qed
  have H: "holders q (replicate_mset j m' + M) =
      (if q = p then replicate_mset j m' + holders p M else holders q M)" for q j
    by (induction j) (auto simp: pm)
  have "mem_ok (replicate_mset (nat k + 1) m' + M) ?h"
  proof (rule mem_okI)
    fix x q assume "x \<in># replicate_mset (nat k + 1) m' + M" "points q x"
    then show "contents ?h q \<noteq> None" using ok pm c
      by (auto simp: mem_ok_def split: if_splits)
  next
    fix q d assume d: "contents ?h q = Some d"
    show "content_ok (holders q (replicate_mset (nat k + 1) m' + M)) d"
    proof (cases "q = p")
      case True
      with d have "d = c\<lparr>refcnt := n\<rparr>" by simp
      moreover have "content_ok (replicate_mset (nat k + 1) m' + holders p M) (c\<lparr>refcnt := n\<rparr>)"
        using cnt rest sh by (auto simp: content_ok_def simp del: replicate_mset_Suc)
      ultimately show ?thesis unfolding H using True by simp
    next
      case False
      with d have "content_ok (holders q M) d" using mem_ok_content[OF ok, of q d] m by simp
      with False show ?thesis unfolding H by simp
    qed
  qed
  moreover have "msg_view ?h x = msg_view h x" for x
    using c by (cases x) auto
  moreover have "msg_view h m' = msg_view h m" by (auto simp: m'_def m c)
  ultimately show ?thesis using that[OF res] by blast
qed

lemma add_ref_eq: "add_ref m h = msg_add_refs 1 m h"
  by (cases m) (auto split: option.splits)

lemma msg_view_live: "msg_check m \<Longrightarrow> mem_ok M h \<Longrightarrow> m \<in># M \<Longrightarrow> msg_view h m \<noteq> None"
  by (cases m) (auto dest: mem_ok_live)

text \<open>\<open>rm_refs\<close> gives back references that were prepared by \<open>add_refs\<close> but not used.\<close>

lemma msg_rm_refs_shared_ok:
  assumes ok: "mem_ok (replicate_mset (nat k) (Lmsg p f) + M) h" and k: "0 < k" "k < 2 ^ 32"
    and sh: "is_shared (Lmsg p f)"
  obtains h' where "msg_rm_refs k (Lmsg p f) h = Some (holders p M \<noteq> {#}, Lmsg p f, h')"
    "mem_ok M h'" "\<And>x. x \<in># M \<Longrightarrow> msg_view h' x = msg_view h x"
proof -
  let ?m = "Lmsg p f" and ?n = "size (holders p M)"
  have in_m: "?m \<in># replicate_mset (nat k) ?m + M" using k by (cases "nat k") auto
  obtain c where c: "contents h p = Some c" using mem_ok_live[OF ok in_m] by auto
  have H: "holders q (replicate_mset j ?m + M) =
      (if q = p then replicate_mset j ?m + holders p M else holders q M)" for q j
    by (induction j) auto
  have cok: "content_ok (replicate_mset (nat k) ?m + holders p M) c"
    using mem_ok_content[OF ok c] unfolding H by simp
  have cnt: "unat (refcnt c) = nat k + ?n" and rest: "\<forall>x \<in># holders p M. is_shared x"
    using cok sh k unfolding content_ok_def by (cases "nat k"; auto)+
  have kw: "unat (of_int k :: uint32) = nat k"
    using k by (simp add: unsigned_of_int take_bit_int_eq_self)
  have sub: "unat (refcnt c - of_int k) = ?n"
    using cnt kw by (simp add: unat_sub word_le_nat_alt)
  then have zero: "refcnt c - of_int k = 0 \<longleftrightarrow> holders p M = {#}"
    by (metis size_eq_0_iff_empty unat_eq_zero)
  have live: "contents h q \<noteq> None" if "x \<in># M" "points q x" for x q
    using ok that by (auto simp: mem_ok_def)
  have others: "content_ok (holders q M) d" if "q \<noteq> p" "contents h q = Some d" for q d
    using mem_ok_content[OF ok that(2)] that(1) unfolding H by simp
  show ?thesis
  proof (cases "holders p M = {#}")
    case True
    let ?h = "release p (c\<lparr>refcnt := refcnt c - of_int k\<rparr>) h"
    have np: "\<not> points p x" if "x \<in># M" for x using that points_in_holders[of x p M] True by auto
    have "mem_ok M ?h" using live others np by (intro mem_okI) (auto split: if_splits)
    moreover have "msg_view ?h x = msg_view h x" if "x \<in># M" for x
      using np[OF that] by (cases x) auto
    ultimately show ?thesis using True k c sh zero
      by (intro that[of ?h]) (auto simp: counter_sub_def Let_def)
  next
    case False
    let ?h = "h\<lparr>contents := (contents h)(p \<mapsto> c\<lparr>refcnt := refcnt c - of_int k\<rparr>)\<rparr>"
    have "mem_ok M ?h" using live others rest sub False
      by (intro mem_okI) (auto simp: content_ok_def split: if_splits)
    moreover have "msg_view ?h x = msg_view h x" for x using c by (cases x) auto
    ultimately show ?thesis using False k c sh zero
      by (intro that[of ?h]) (auto simp: counter_sub_def Let_def)
  qed
qed

section \<open>Properties\<close>

text \<open>
  C8: closing a message that is alive never follows a dangling pointer and always succeeds; the
  content block is freed exactly when no other live message holds it, the counting invariant holds
  for the remaining messages, and none of them changes its value.
\<close>

theorem msg_close_safe:
  assumes "mem_ok (add_mset m M) h" and "msg_check m"
  shows "\<exists>h'. msg_close m h = Some (Inr (), Invalid (msg_flags m), h') \<and> mem_ok M h' \<and>
    (\<forall>p. points p m \<longrightarrow> (contents h' p = None \<longleftrightarrow> holders p M = {#})) \<and>
    (\<forall>x \<in># M. msg_view h' x = msg_view h x)"
  using assms by (rule msg_close_ok) blast

theorem msg_close_safe_witness:
  "\<exists>h'. msg_close (Lmsg 7 128)
      \<lparr>contents = [7 \<mapsto> \<lparr>cdata = [1, 2], cffn = None, chint = 0, refcnt = 2\<rparr>], ffn_calls = []\<rparr>
      = Some (Inr (), Invalid 128, h') \<and> mem_ok {#Lmsg 7 129#} h' \<and>
     contents h' 7 \<noteq> None"
proof -
  let ?h = "\<lparr>contents = [7 \<mapsto> \<lparr>cdata = [1, 2], cffn = None, chint = 0, refcnt = 2\<rparr>], ffn_calls = []\<rparr>"
  have "mem_ok {#Lmsg 7 128, Lmsg 7 129#} ?h"
    by (rule mem_okI) (auto simp: content_ok_def is_shared_def msg_shared_def split: if_splits)
  from msg_close_safe[OF this] obtain h' where
    "msg_close (Lmsg 7 128) ?h = Some (Inr (), Invalid 128, h')" "mem_ok {#Lmsg 7 129#} h'"
    "contents h' 7 = None \<longleftrightarrow> holders 7 {#Lmsg 7 129#} = {#}"
    by (auto simp del: msg_close.simps)
  then show ?thesis by (auto simp del: msg_close.simps)
qed

text \<open>
  copying a message makes the destination hold the same value as the source, keeps the counting
  invariant with one more holder (as long as fewer than \<open>2 ^ 32\<close> messages share the block) and
  changes the value of no other live message.
\<close>

theorem msg_copy_safe:
  assumes ok: "mem_ok (add_mset dst (add_mset src M)) h"
    and chk: "msg_check dst" "msg_check src"
    and small: "\<And>p. points p src \<Longrightarrow> size (holders p M) + 2 < 2 ^ 32"
  shows "\<exists>m' h'. msg_copy dst src h = Some (Inr (), m', m', h') \<and>
    mem_ok (add_mset m' (add_mset m' M)) h' \<and>
    msg_view h' m' = msg_view h src \<and> (\<forall>x \<in># M. msg_view h' x = msg_view h x)"
proof -
  obtain h1 where cl: "msg_close dst h = Some (Inr (), Invalid (msg_flags dst), h1)"
    and ok1: "mem_ok (add_mset src M) h1"
    and v1: "\<forall>x \<in># add_mset src M. msg_view h1 x = msg_view h x"
    using ok chk(1) by (rule msg_close_ok) blast
  have sm: "int (size (holders p M)) + 1 + 1 < 2 ^ 32" if "points p src" for p
    using small[OF that] by simp
  obtain m' h' where add: "msg_add_refs 1 src h1 = Some (m', h')"
    and ok2: "mem_ok (replicate_mset (nat 1 + 1) m' + M) h'"
    and v2: "\<forall>x. msg_view h' x = msg_view h1 x" and vm: "msg_view h1 m' = msg_view h1 src"
    using ok1 zero_le_one sm by (rule msg_add_refs_ok) blast+
  have "msg_copy dst src h = Some (Inr (), m', m', h')"
    using chk(2) cl add by (simp add: msg_copy_def add_ref_eq)
  with ok2 v1 v2 vm show ?thesis by auto
qed

theorem msg_copy_safe_witness:
  "\<exists>m' h'. msg_copy (Vsm [] 0) (Lmsg 7 1)
      \<lparr>contents = [7 \<mapsto> \<lparr>cdata = [1, 2], cffn = None, chint = 0, refcnt = 0\<rparr>], ffn_calls = []\<rparr>
      = Some (Inr (), m', m', h') \<and> msg_view h' m' = Some (frame_of 1 [1, 2])"
proof -
  let ?h = "\<lparr>contents = [7 \<mapsto> \<lparr>cdata = [1, 2], cffn = None, chint = 0, refcnt = 0\<rparr>], ffn_calls = []\<rparr>"
  have "mem_ok (add_mset (Vsm [] 0) (add_mset (Lmsg 7 1) {#})) ?h"
    by (rule mem_okI) (auto simp: content_ok_def is_shared_def msg_shared_def split: if_splits)
  from msg_copy_safe[OF this] obtain m' h' where
    "msg_copy (Vsm [] 0) (Lmsg 7 1) ?h = Some (Inr (), m', m', h')"
    "msg_view h' m' = msg_view ?h (Lmsg 7 1)"
    by auto
  moreover have "msg_view ?h (Lmsg 7 1) = Some (frame_of 1 [1, 2])"
    by (simp add: msg_shared_def)
  ultimately show ?thesis by metis
qed

end
