(* ===== verification/Fair_Queue.thy ===== *)
theory Fair_Queue
  imports Arrays Msg
begin

text \<open>
  Fair queueing over inbound pipes: \<open>fq_t\<close> of \<open>fq.hpp\<close> and \<open>fq.cpp\<close>. The pipes are held in an array
  whose first \<open>active\<close> positions are the pipes that may have something to read; \<open>current\<close> walks
  round-robin over them, and \<open>more\<close> records that a multipart message was read in part.

  The code calls \<open>read\<close> and \<open>check_read\<close> of the pipes. Here the state of all pipes is threaded
  through the operations and the two methods are passed in as functions, so that the sockets can
  instantiate them with the pipe model. What the client relies on is the locale \<open>inbound\<close>.
\<close>

section \<open>State and operations\<close>

record 'p fq_t =
  fq_pipes :: "'p array_t"
  fq_active :: nat
  fq_current :: nat
  fq_more :: bool

definition fq_init :: "'p fq_t" where
  "fq_init = \<lparr>fq_pipes = array_init, fq_active = 0, fq_current = 0, fq_more = False\<rparr>"

definition fq_attach :: "'p \<Rightarrow> 'p fq_t \<Rightarrow> 'p fq_t option" where
  "fq_attach p q = do {
     let a = array_push_back p (fq_pipes q);
     a \<leftarrow> array_swap (fq_active q) (array_size a - 1) a;
     Some (q\<lparr>fq_pipes := a, fq_active := fq_active q + 1\<rparr>) }"

definition fq_terminated :: "'p \<Rightarrow> 'p fq_t \<Rightarrow> 'p fq_t option" where
  "fq_terminated p q = do {
     index \<leftarrow> array_pos p (fq_pipes q);
     q \<leftarrow> (if index < fq_active q then do {
             let act = fq_active q - 1;
             a \<leftarrow> array_swap index act (fq_pipes q);
             Some (q\<lparr>fq_pipes := a, fq_active := act,
                     fq_current := (if fq_current q = act then 0 else fq_current q)\<rparr>) }
           else Some q);
     a \<leftarrow> array_erase p (fq_pipes q);
     Some (q\<lparr>fq_pipes := a\<rparr>) }"

definition fq_activated :: "'p \<Rightarrow> 'p fq_t \<Rightarrow> 'p fq_t option" where
  "fq_activated p q = do {
     index \<leftarrow> array_pos p (fq_pipes q);
     a \<leftarrow> array_swap index (fq_active q) (fq_pipes q);
     Some (q\<lparr>fq_pipes := a, fq_active := fq_active q + 1\<rparr>) }"

text \<open>The end of the loop bodies of \<open>recvpipe\<close> and \<open>has_in\<close>: the current pipe is deactivated.\<close>

definition fq_deactivate :: "'p fq_t \<Rightarrow> 'p fq_t option" where
  "fq_deactivate q = do {
     let act = fq_active q - 1;
     a \<leftarrow> array_swap (fq_current q) act (fq_pipes q);
     Some (q\<lparr>fq_pipes := a, fq_active := act,
             fq_current := (if fq_current q = act then 0 else fq_current q)\<rparr>) }"

lemma fq_deactivate_active: "fq_deactivate q = Some q' \<Longrightarrow> fq_active q' = fq_active q - 1"
  by (auto simp: fq_deactivate_def Let_def bind_eq_Some)

lemma fq_deactivate_more: "fq_deactivate q = Some q' \<Longrightarrow> fq_more q' = fq_more q"
  by (auto simp: fq_deactivate_def Let_def bind_eq_Some)

function fq_recvpipe ::
    "('p \<Rightarrow> 's \<Rightarrow> (frame option \<times> 's) option) \<Rightarrow> 'p fq_t \<Rightarrow> 's \<Rightarrow>
     ('p fq_t \<times> 's \<times> (frame \<times> 'p) outcome) option" where
  "fq_recvpipe rd q s =
     (if fq_active q = 0 then Some (q, s, Inl EAGAIN)
      else case array_get (fq_pipes q) (fq_current q) of
        None \<Rightarrow> None
      | Some p \<Rightarrow>
         (case rd p s of
            None \<Rightarrow> None
          | Some (Some m, s') \<Rightarrow>
              let more = frame_more m in
              Some (q\<lparr>fq_more := more,
                      fq_current := (if more then fq_current q
                                     else (fq_current q + 1) mod fq_active q)\<rparr>, s', Inr (m, p))
          | Some (None, s') \<Rightarrow>
              if fq_more q then None
              else (case fq_deactivate q of
                      None \<Rightarrow> None
                    | Some q' \<Rightarrow> fq_recvpipe rd q' s')))"
  by pat_completeness auto
termination
  by (relation "measure (\<lambda>(rd, q, s). fq_active q)") (auto dest: fq_deactivate_active)

definition fq_recv ::
    "('p \<Rightarrow> 's \<Rightarrow> (frame option \<times> 's) option) \<Rightarrow> 'p fq_t \<Rightarrow> 's \<Rightarrow>
     ('p fq_t \<times> 's \<times> frame outcome) option" where
  "fq_recv rd q s =
     map_option (\<lambda>(q, s, r). (q, s, map_sum id fst r)) (fq_recvpipe rd q s)"

function fq_has_in ::
    "('p \<Rightarrow> 's \<Rightarrow> (bool \<times> 's) option) \<Rightarrow> 'p fq_t \<Rightarrow> 's \<Rightarrow> ('p fq_t \<times> 's \<times> bool) option" where
  "fq_has_in chk q s =
     (if fq_more q then Some (q, s, True)
      else if fq_active q = 0 then Some (q, s, False)
      else case array_get (fq_pipes q) (fq_current q) of
        None \<Rightarrow> None
      | Some p \<Rightarrow>
         (case chk p s of
            None \<Rightarrow> None
          | Some (True, s') \<Rightarrow> Some (q, s', True)
          | Some (False, s') \<Rightarrow>
              (case fq_deactivate q of
                 None \<Rightarrow> None
               | Some q' \<Rightarrow> fq_has_in chk q' s')))"
  by pat_completeness auto
termination
  by (relation "measure (\<lambda>(chk, q, s). fq_active q)") (auto dest: fq_deactivate_active)

declare fq_recvpipe.simps [simp del] fq_has_in.simps [simp del]

section \<open>The invariant\<close>

definition fq_ok :: "'p fq_t \<Rightarrow> bool" where
  "fq_ok q \<longleftrightarrow> array_ok (fq_pipes q) \<and> fq_active q \<le> length (items (fq_pipes q)) \<and>
     (if fq_active q = 0 then fq_current q = 0 else fq_current q < fq_active q)"

abbreviation fq_all :: "'p fq_t \<Rightarrow> 'p set" where
  "fq_all q \<equiv> set (items (fq_pipes q))"

text \<open>The pipes the fair queue may read from.\<close>

definition fq_actives :: "'p fq_t \<Rightarrow> 'p set" where
  "fq_actives q = prefix_set (fq_active q) (fq_pipes q)"

lemma fq_actives_sub: "fq_actives q \<subseteq> fq_all q"
  by (simp add: fq_actives_def prefix_set_sub)

lemma fq_ok_init [simp]: "fq_ok fq_init"
  by (simp add: fq_ok_def fq_init_def array_init_def array_ok_def)

lemma fq_current_get:
  assumes "fq_ok q" "fq_active q \<noteq> 0"
  shows "array_get (fq_pipes q) (fq_current q) = Some (items (fq_pipes q) ! fq_current q)"
    "items (fq_pipes q) ! fq_current q \<in> fq_actives q"
  using assms by (auto simp: fq_ok_def array_get_def fq_actives_def prefix_set_nth)

lemma fq_activated_ok:
  assumes ok: "fq_ok q" and p: "p \<in> fq_all q" "p \<notin> fq_actives q"
  obtains q' where "fq_activated p q = Some q'" "fq_ok q'" "fq_all q' = fq_all q"
    "fq_actives q' = insert p (fq_actives q)" "fq_more q' = fq_more q"
proof -
  have aok: "array_ok (fq_pipes q)" and le: "fq_active q \<le> length (items (fq_pipes q))"
    using ok by (auto simp: fq_ok_def)
  obtain i a where a: "array_pos p (fq_pipes q) = Some i"
    "array_swap i (fq_active q) (fq_pipes q) = Some a" "array_ok a"
    "fq_active q < length (items (fq_pipes q))" "items a = swap_at (items (fq_pipes q)) i (fq_active q)"
    "set (items a) = fq_all q"
    "prefix_set (Suc (fq_active q)) a = insert p (prefix_set (fq_active q) (fq_pipes q))"
    using aok p[unfolded fq_actives_def] le by (rule array_activate)
  let ?q = "q\<lparr>fq_pipes := a, fq_active := fq_active q + 1\<rparr>"
  have "fq_ok ?q" using ok a by (auto simp: fq_ok_def split: if_splits)
  then show ?thesis
    using a by (intro that[of ?q]) (auto simp: fq_activated_def fq_actives_def)
qed

lemma fq_attach_ok:
  assumes ok: "fq_ok q" and p: "p \<notin> fq_all q"
  obtains q' where "fq_attach p q = Some q'" "fq_ok q'" "fq_all q' = insert p (fq_all q)"
    "fq_actives q' = insert p (fq_actives q)"
proof -
  let ?a = "array_push_back p (fq_pipes q)" and ?n = "length (items (fq_pipes q))"
  have it: "items ?a = items (fq_pipes q) @ [p]" "array_ok ?a" and le: "fq_active q \<le> ?n"
    using ok p array_push_back_ok[of "fq_pipes q" p] by (auto simp: fq_ok_def)
  have pre: "prefix_set (fq_active q) ?a = fq_actives q"
    using le it by (simp add: prefix_set_def fq_actives_def)
  have pq: "p \<in> set (items ?a)" "p \<notin> prefix_set (fq_active q) ?a" "fq_active q \<le> length (items ?a)"
    using it p le fq_actives_sub[of q] by (auto simp: pre)
  obtain i a where a: "array_pos p ?a = Some i" "array_swap i (fq_active q) ?a = Some a"
    "array_ok a" "items a = swap_at (items ?a) i (fq_active q)" "set (items a) = set (items ?a)"
    "prefix_set (Suc (fq_active q)) a = insert p (prefix_set (fq_active q) ?a)"
    using it(2) pq by (rule array_activate)
  have i: "i = ?n" using array_pos_nth[OF it(2), of ?n] a(1) it(1) by simp
  have "array_swap (fq_active q) ?n ?a = Some a"
  proof -
    obtain a2 where a2: "array_swap (fq_active q) ?n ?a = Some a2" "array_ok a2"
      "items a2 = swap_at (items ?a) (fq_active q) ?n"
      using array_swapE[OF it(2), of "fq_active q" ?n] it le by auto
    have "array_index a2 = array_index a" using a(2) a2(1) array_okD(1)[OF it(2)] it le
      by (auto simp: array_swap_def set_array_index_def i Let_def fun_eq_iff nth_append
          split: if_splits)
    moreover have "items a2 = items a" using a(4) a2(3) i swap_at_commute by metis
    ultimately show ?thesis using a2(1) by (metis array_t.equality unit.exhaust)
  qed
  then have "fq_attach p q = Some (q\<lparr>fq_pipes := a, fq_active := fq_active q + 1\<rparr>)"
    using it by (simp add: fq_attach_def array_size_def)
  moreover have "fq_ok (q\<lparr>fq_pipes := a, fq_active := fq_active q + 1\<rparr>)"
    using ok a it le by (auto simp: fq_ok_def split: if_splits)
  ultimately show ?thesis using a(5,6) it pre
    by (intro that[of "q\<lparr>fq_pipes := a, fq_active := fq_active q + 1\<rparr>"])
      (auto simp: fq_actives_def)
qed

lemma fq_terminated_ok:
  assumes ok: "fq_ok q" and p: "p \<in> fq_all q"
  obtains q' where "fq_terminated p q = Some q'" "fq_ok q'" "fq_all q' = fq_all q - {p}"
    "fq_actives q' = fq_actives q - {p}" "fq_more q' = fq_more q"
proof -
  let ?xs = "items (fq_pipes q)"
  have aok: "array_ok (fq_pipes q)" and le: "fq_active q \<le> length ?xs"
    using ok by (auto simp: fq_ok_def)
  obtain i where i: "array_pos p (fq_pipes q) = Some i" "i < length ?xs" "?xs ! i = p"
    using aok p by (rule array_pos_in)
  show ?thesis
  proof (cases "i < fq_active q")
    case True
    let ?act = "fq_active q - 1"
    obtain b a' where a: "array_swap i ?act (fq_pipes q) = Some b" "array_erase (?xs ! i) b = Some a'"
      "array_ok a'" "set (items a') = fq_all q - {?xs ! i}" "length (items a') = length ?xs - 1"
      "prefix_set ?act a' = prefix_set (fq_active q) (fq_pipes q) - {?xs ! i}"
      using aok True le by (rule array_remove_active)
    define q' where "q' = q\<lparr>fq_pipes := a', fq_active := ?act,
      fq_current := (if fq_current q = ?act then 0 else fq_current q)\<rparr>"
    have "fq_terminated p q = Some q'"
      using i a True by (simp add: fq_terminated_def q'_def)
    moreover have "fq_ok q'"
      using ok a(3,5) le True by (auto simp: fq_ok_def q'_def split: if_splits)
    ultimately show ?thesis using a i by (intro that[of q']) (auto simp: q'_def fq_actives_def)
  next
    case False
    then have ge: "fq_active q \<le> i" by simp
    obtain a' where a': "array_erase (?xs ! i) (fq_pipes q) = Some a'" "array_ok a'"
      "set (items a') = fq_all q - {?xs ! i}" "length (items a') = length ?xs - 1"
      "prefix_set (fq_active q) a' = prefix_set (fq_active q) (fq_pipes q)"
      using aok ge i(2) by (rule array_remove_passive)
    have "p \<notin> fq_actives q"
      using prefix_set_pos[OF aok le i(2)] i(3) False by (simp add: fq_actives_def)
    moreover have "fq_ok (q\<lparr>fq_pipes := a'\<rparr>)"
      using ok a'(2,4) ge i(2) by (auto simp: fq_ok_def)
    ultimately show ?thesis using a' i False
      by (intro that[of "q\<lparr>fq_pipes := a'\<rparr>"]) (auto simp: fq_actives_def fq_terminated_def)
  qed
qed

text \<open>
  Deactivation of the current pipe. Besides the invariant, it keeps the \<open>distance\<close> of every other
  active pipe: the number of active pipes the round-robin pointer visits before it.
\<close>

definition fq_distance :: "'p fq_t \<Rightarrow> nat \<Rightarrow> nat" where
  "fq_distance q i = (if fq_current q \<le> i then i - fq_current q
                      else i + fq_active q - fq_current q)"

lemma fq_deactivate_ok:
  assumes ok: "fq_ok q" and act: "fq_active q \<noteq> 0"
  obtains q' where "fq_deactivate q = Some q'" "fq_ok q'" "fq_all q' = fq_all q"
    "fq_actives q' = fq_actives q - {items (fq_pipes q) ! fq_current q}"
    "\<forall>i < fq_active q. i \<noteq> fq_current q \<longrightarrow>
       (\<exists>j < fq_active q'. items (fq_pipes q') ! j = items (fq_pipes q) ! i \<and>
          fq_distance q' j \<le> fq_distance q i)"
proof -
  let ?xs = "items (fq_pipes q)" and ?act = "fq_active q - 1" and ?c = "fq_current q"
  have aok: "array_ok (fq_pipes q)" and le: "?c < fq_active q" "fq_active q \<le> length ?xs"
    using ok act by (auto simp: fq_ok_def)
  then have lt: "?c < length ?xs" "?act < length ?xs" "?c \<le> ?act" by auto
  obtain a where a: "array_swap ?c ?act (fq_pipes q) = Some a" "array_ok a"
    "items a = swap_at ?xs ?c ?act" "set (items a) = fq_all q"
    "prefix_set ?act a = prefix_set (fq_active q) (fq_pipes q) - {?xs ! ?c}"
    using aok le by (rule array_deactivate)
  define q' where "q' = q\<lparr>fq_pipes := a, fq_active := ?act,
    fq_current := (if ?c = ?act then 0 else ?c)\<rparr>"
  have "fq_deactivate q = Some q'" using a by (simp add: fq_deactivate_def q'_def)
  moreover have "fq_ok q'"
    using ok a(2,3) act le by (auto simp: fq_ok_def q'_def split: if_splits)
  moreover have "fq_all q' = fq_all q" using a by (simp add: q'_def)
  moreover have "fq_actives q' = fq_actives q - {?xs ! ?c}"
    using a by (simp add: fq_actives_def q'_def)
  moreover have "\<exists>j < fq_active q'. items (fq_pipes q') ! j = ?xs ! i \<and>
      fq_distance q' j \<le> fq_distance q i" if i: "i < fq_active q" "i \<noteq> ?c" for i
  proof (cases "i = ?act")
    case True
    then have "?c < ?act" using i lt by simp
    then show ?thesis using True a(3) lt
      by (intro exI[of _ ?c]) (simp add: q'_def nth_swap_at fq_distance_def)
  next
    case False
    then have "i < ?act" using i by simp
    then show ?thesis using i a(3) lt
      by (intro exI[of _ i]) (auto simp: q'_def nth_swap_at fq_distance_def)
  qed
  ultimately show ?thesis by (intro that[of q']) auto
qed

section \<open>What the fair queue relies on\<close>

text \<open>
  The interface of inbound pipes: \<open>avail s p\<close> are the frames pipe \<open>p\<close> can deliver without blocking,
  \<open>valid s p\<close> says that \<open>p\<close> is a pipe of state \<open>s\<close>. Reading takes the first available frame and
  touches no other pipe; a failed read or a check changes what no pipe can deliver.
\<close>

locale inbound =
  fixes rd :: "'p \<Rightarrow> 's \<Rightarrow> (frame option \<times> 's) option"
    and chk :: "'p \<Rightarrow> 's \<Rightarrow> (bool \<times> 's) option"
    and avail :: "'s \<Rightarrow> 'p \<Rightarrow> frame list"
    and valid :: "'s \<Rightarrow> 'p \<Rightarrow> bool"
  assumes rd_none: "valid s p \<Longrightarrow> avail s p = [] \<Longrightarrow>
      \<exists>s'. rd p s = Some (None, s') \<and> avail s' = avail s \<and> valid s' = valid s"
    and rd_some: "valid s p \<Longrightarrow> avail s p = m # ms \<Longrightarrow>
      \<exists>s'. rd p s = Some (Some m, s') \<and> avail s' = (avail s)(p := ms) \<and> valid s' = valid s"
    and chk_avail: "valid s p \<Longrightarrow>
      \<exists>s'. chk p s = Some (avail s p \<noteq> [], s') \<and> avail s' = avail s \<and> valid s' = valid s"
begin

text \<open>The fair queue agrees with the pipes: in the middle of a message its next part is readable.\<close>

definition in_sync :: "'p fq_t \<Rightarrow> 's \<Rightarrow> bool" where
  "in_sync q s \<longleftrightarrow> fq_ok q \<and> (\<forall>p \<in> fq_all q. valid s p \<and> whole (avail s p)) \<and>
     (fq_more q \<longrightarrow> fq_active q \<noteq> 0 \<and> avail s (items (fq_pipes q) ! fq_current q) \<noteq> [])"

text \<open>What one \<open>recvpipe\<close> call does.\<close>

definition recv_post ::
    "'p fq_t \<Rightarrow> 's \<Rightarrow> 'p fq_t \<times> 's \<times> (frame \<times> 'p) outcome \<Rightarrow> bool" where
  "recv_post q s res \<longleftrightarrow> (case res of
     (q', s', Inl e) \<Rightarrow> e = EAGAIN \<and> (\<forall>p \<in> fq_actives q. avail s p = []) \<and>
        fq_actives q' = {} \<and> avail s' = avail s \<and> \<not> fq_more q'
   | (q', s', Inr (m, p)) \<Rightarrow> p \<in> fq_actives q \<and> p \<in> fq_actives q' \<and>
        avail s p = m # avail s' p \<and> (\<forall>r. r \<noteq> p \<longrightarrow> avail s' r = avail s r) \<and>
        fq_more q' = frame_more m \<and>
        (frame_more m \<longrightarrow> items (fq_pipes q') ! fq_current q' = p) \<and>
        (fq_more q \<longrightarrow> p = items (fq_pipes q) ! fq_current q) \<and>
        (\<forall>r \<in> fq_actives q - fq_actives q'. avail s r = []))"

lemma recv_hit:
  assumes sync: "in_sync q s" and act: "fq_active q \<noteq> 0"
    and p: "p = items (fq_pipes q) ! fq_current q" and av: "avail s p = m # ms"
  obtains q' s' where "fq_recvpipe rd q s = Some (q', s', Inr (m, p))"
    "recv_post q s (q', s', Inr (m, p))" "in_sync q' s'" "fq_all q' = fq_all q"
    "items (fq_pipes q') = items (fq_pipes q)" "fq_active q' = fq_active q"
    "fq_current q' = (if frame_more m then fq_current q else (fq_current q + 1) mod fq_active q)"
proof -
  have ok: "fq_ok q" using sync by (simp add: in_sync_def)
  have get: "array_get (fq_pipes q) (fq_current q) = Some p" and pa: "p \<in> fq_actives q"
    using fq_current_get[OF ok act] p by auto
  have pall: "p \<in> fq_all q" using fq_actives_sub[of q] pa by blast
  have v: "valid s p" "whole (avail s p)" using sync pall by (auto simp: in_sync_def)
  obtain s' where s': "rd p s = Some (Some m, s')" "avail s' = (avail s)(p := ms)" "valid s' = valid s"
    using rd_some[OF v(1) av] by blast
  let ?q = "q\<lparr>fq_more := frame_more m,
    fq_current := (if frame_more m then fq_current q else (fq_current q + 1) mod fq_active q)\<rparr>"
  have "fq_recvpipe rd q s = Some (?q, s', Inr (m, p))"
    using act get s' by (subst fq_recvpipe.simps) (simp add: Let_def)
  moreover have "fq_actives ?q = fq_actives q" by (simp add: fq_actives_def)
  moreover have "fq_ok ?q" using ok act by (auto simp: fq_ok_def)
  moreover have "in_sync ?q s'"
    using sync act v av s' p \<open>fq_ok ?q\<close> whole_Cons[of m ms] by (auto simp: in_sync_def)
  ultimately show ?thesis
    using p av s' pa by (intro that[of ?q s']) (auto simp: recv_post_def)
qed

lemma recv_miss:
  assumes sync: "in_sync q s" and act: "fq_active q \<noteq> 0"
    and p: "p = items (fq_pipes q) ! fq_current q" and av: "avail s p = []"
  obtains q' s' where "fq_recvpipe rd q s = fq_recvpipe rd q' s'" "in_sync q' s'" "\<not> fq_more q"
    "fq_deactivate q = Some q'" "avail s' = avail s" "valid s' = valid s" "rd p s = Some (None, s')"
proof -
  have ok: "fq_ok q" and nm: "\<not> fq_more q"
    using sync p av by (auto simp: in_sync_def)
  have get: "array_get (fq_pipes q) (fq_current q) = Some p" and pa: "p \<in> fq_actives q"
    using fq_current_get[OF ok act] p by auto
  have v: "valid s p" using sync pa fq_actives_sub[of q] by (auto simp: in_sync_def)
  obtain s' where s': "rd p s = Some (None, s')" "avail s' = avail s" "valid s' = valid s"
    using rd_none[OF v av] by blast
  obtain q' where q': "fq_deactivate q = Some q'" "fq_ok q'" "fq_all q' = fq_all q"
    using ok act by (rule fq_deactivate_ok)
  have "fq_recvpipe rd q s = fq_recvpipe rd q' s'"
    using act get s' nm q' by (subst fq_recvpipe.simps) simp
  moreover have "in_sync q' s'"
    using sync q' s' nm fq_deactivate_more[OF q'(1)] by (auto simp: in_sync_def)
  ultimately show ?thesis using that q' s' nm by blast
qed

theorem recvpipe_correct:
  assumes "in_sync q s"
  shows "\<exists>q' s' r. fq_recvpipe rd q s = Some (q', s', r) \<and> recv_post q s (q', s', r) \<and>
    in_sync q' s' \<and> fq_all q' = fq_all q"
  using assms
proof (induction "fq_active q" arbitrary: q s)
  case 0
  then have "fq_recvpipe rd q s = Some (q, s, Inl EAGAIN)" by (subst fq_recvpipe.simps) simp
  moreover have "fq_actives q = {}" "\<not> fq_more q"
    using 0 by (auto simp: fq_actives_def prefix_set_def in_sync_def)
  ultimately show ?case using 0 by (auto simp: recv_post_def)
next
  case (Suc n)
  let ?p = "items (fq_pipes q) ! fq_current q"
  have act: "fq_active q \<noteq> 0" using Suc.hyps by simp
  show ?case
  proof (cases "avail s ?p")
    case (Cons m ms)
    show ?thesis using Suc.prems act refl Cons by (rule recv_hit) blast
  next
    case Nil
    obtain q' s' where st: "fq_recvpipe rd q s = fq_recvpipe rd q' s'" "in_sync q' s'"
      "\<not> fq_more q" "fq_deactivate q = Some q'" "avail s' = avail s"
      using Suc.prems act refl Nil by (rule recv_miss)
    have ok: "fq_ok q" using Suc.prems by (simp add: in_sync_def)
    have dq: "fq_all q' = fq_all q" "fq_actives q' = fq_actives q - {?p}"
      using fq_deactivate_ok[OF ok act] st(4) by (metis option.inject)+
    have "n = fq_active q'" using Suc.hyps fq_deactivate_active[OF st(4)] by simp
    then obtain q'' s'' r where ih: "fq_recvpipe rd q' s' = Some (q'', s'', r)"
      "recv_post q' s' (q'', s'', r)" "in_sync q'' s''" "fq_all q'' = fq_all q'"
      using Suc.hyps(1)[OF _ st(2)] by blast
    have nm: "\<not> fq_more q'" using st fq_deactivate_more by blast
    have "recv_post q s (q'', s'', r)"
      using ih(2) dq st Nil nm by (auto simp: recv_post_def split: sum.splits)
    with ih st dq show ?thesis by auto
  qed
qed

text \<open>
  Fairness: whenever another pipe is served a whole message, an active pipe with something to read
  moves strictly closer to the round-robin pointer.
\<close>

theorem recv_fair:
  assumes "in_sync q s" "i < fq_active q" "avail s (items (fq_pipes q) ! i) \<noteq> []"
    "fq_recvpipe rd q s = Some (q', s', Inr (m, r))" "\<not> frame_more m"
    "r \<noteq> items (fq_pipes q) ! i"
  shows "\<exists>j < fq_active q'. items (fq_pipes q') ! j = items (fq_pipes q) ! i \<and>
    fq_distance q' j < fq_distance q i"
  using assms
proof (induction "fq_active q" arbitrary: q s i)
  case 0
  then show ?case by simp
next
  case (Suc n)
  let ?p = "items (fq_pipes q) ! fq_current q" and ?x = "items (fq_pipes q) ! i"
  have act: "fq_active q \<noteq> 0" using Suc.hyps by simp
  have ok: "fq_ok q" using Suc.prems by (simp add: in_sync_def)
  show ?case
  proof (cases "avail s ?p")
    case (Cons m0 ms)
    obtain q0 s0 where hit: "fq_recvpipe rd q s = Some (q0, s0, Inr (m0, ?p))"
      "items (fq_pipes q0) = items (fq_pipes q)" "fq_active q0 = fq_active q"
      "fq_current q0 =
        (if frame_more m0 then fq_current q else (fq_current q + 1) mod fq_active q)"
      using Suc.prems(1) act refl Cons by (rule recv_hit)
    have eq: "q0 = q'" "m0 = m" "?p = r" using hit(1) Suc.prems(4) by auto
    have "i \<noteq> fq_current q" using Suc.prems(6) eq(3) by auto
    moreover have "fq_current q < fq_active q" using ok act by (auto simp: fq_ok_def)
    moreover have "fq_current q' = (fq_current q + 1) mod fq_active q"
      using hit(4) Suc.prems(5) eq by simp
    ultimately have "fq_distance q' i < fq_distance q i"
      using hit(3) eq Suc.prems(2)
      by (cases "fq_current q + 1 = fq_active q") (auto simp: fq_distance_def)
    then show ?thesis using hit eq Suc.prems(2) by auto
  next
    case Nil
    obtain q1 s1 where st: "fq_recvpipe rd q s = fq_recvpipe rd q1 s1" "in_sync q1 s1"
      "\<not> fq_more q" "fq_deactivate q = Some q1" "avail s1 = avail s"
      using Suc.prems(1) act refl Nil by (rule recv_miss)
    have "i \<noteq> fq_current q" using Suc.prems(3) Nil by auto
    then obtain j where j: "j < fq_active q1" "items (fq_pipes q1) ! j = ?x"
      "fq_distance q1 j \<le> fq_distance q i"
      using fq_deactivate_ok[OF ok act] st(4) Suc.prems(2) by (metis option.inject)
    have "n = fq_active q1" using Suc.hyps fq_deactivate_active[OF st(4)] by simp
    from Suc.hyps(1)[OF this st(2) j(1)] Suc.prems st j
    show ?thesis by (auto intro: order.strict_trans2)
  qed
qed

theorem has_in_correct:
  assumes "in_sync q s"
  shows "\<exists>q' s'. fq_has_in chk q s = Some (q', s', \<exists>p \<in> fq_actives q. avail s p \<noteq> []) \<and>
    in_sync q' s' \<and> avail s' = avail s \<and> fq_all q' = fq_all q"
  using assms
proof (induction "fq_active q" arbitrary: q s)
  case 0
  then have "fq_actives q = {}" "\<not> fq_more q" by (auto simp: fq_actives_def prefix_set_def in_sync_def)
  with 0 show ?case by (auto simp: fq_has_in.simps[of chk q s])
next
  case (Suc n)
  let ?p = "items (fq_pipes q) ! fq_current q"
  have act: "fq_active q \<noteq> 0" using Suc.hyps by simp
  have ok: "fq_ok q" using Suc.prems by (simp add: in_sync_def)
  have get: "array_get (fq_pipes q) (fq_current q) = Some ?p" and pa: "?p \<in> fq_actives q"
    using fq_current_get[OF ok act] by auto
  have v: "valid s ?p" using Suc.prems pa fq_actives_sub[of q] by (auto simp: in_sync_def)
  obtain s' where s': "chk ?p s = Some (avail s ?p \<noteq> [], s')" "avail s' = avail s" "valid s' = valid s"
    using chk_avail[OF v] by blast
  show ?case
  proof (cases "fq_more q \<or> avail s ?p \<noteq> []")
    case True
    then have "avail s ?p \<noteq> []" using Suc.prems by (auto simp: in_sync_def)
    then show ?thesis using act get s' pa Suc.prems
      by (auto simp: fq_has_in.simps[of chk q s] in_sync_def)
  next
    case False
    obtain q' where q': "fq_deactivate q = Some q'" "fq_ok q'" "fq_all q' = fq_all q"
      "fq_actives q' = fq_actives q - {?p}"
      using ok act by (rule fq_deactivate_ok)
    have sy: "in_sync q' s'"
      using Suc.prems q' s' False fq_deactivate_more[OF q'(1)] by (auto simp: in_sync_def)
    have "n = fq_active q'" using Suc.hyps fq_deactivate_active[OF q'(1)] by simp
    from Suc.hyps(1)[OF this sy] show ?thesis
      using act get s' q' False by (auto simp: fq_has_in.simps[of chk q s])
  qed
qed

end

section \<open>Properties\<close>

text \<open>
  attaching, activating and terminating a pipe never index the array out of range; they keep the
  invariant of the fair queue and change its sets of known and of active pipes by exactly the pipe
  they are called with.
\<close>

theorem fq_membership:
  assumes "fq_ok q"
  shows "(p \<notin> fq_all q \<longrightarrow> (\<exists>q'. fq_attach p q = Some q' \<and> fq_ok q' \<and>
      fq_all q' = insert p (fq_all q) \<and> fq_actives q' = insert p (fq_actives q))) \<and>
    (p \<in> fq_all q - fq_actives q \<longrightarrow> (\<exists>q'. fq_activated p q = Some q' \<and> fq_ok q' \<and>
      fq_all q' = fq_all q \<and> fq_actives q' = insert p (fq_actives q))) \<and>
    (p \<in> fq_all q \<longrightarrow> (\<exists>q'. fq_terminated p q = Some q' \<and> fq_ok q' \<and>
      fq_all q' = fq_all q - {p} \<and> fq_actives q' = fq_actives q - {p}))"
proof (intro conjI impI, goal_cases)
  case 1
  then show ?case by (rule fq_attach_ok[OF assms]) auto
next
  case 2
  then have "p \<in> fq_all q" "p \<notin> fq_actives q" by auto
  then show ?case by (rule fq_activated_ok[OF assms]) auto
next
  case 3
  then show ?case by (rule fq_terminated_ok[OF assms]) auto
qed

theorem fq_membership_witness:
  "\<exists>q1 q2. fq_attach (5 :: nat) fq_init = Some q1 \<and> fq_terminated 5 q1 = Some q2 \<and>
     fq_all q1 = {5} \<and> fq_all q2 = {} \<and> fq_ok q2"
proof -
  have e: "fq_all fq_init = ({} :: nat set)" by (simp add: fq_init_def array_init_def)
  then have "(5 :: nat) \<notin> fq_all fq_init" by simp
  from fq_membership[OF fq_ok_init, THEN conjunct1, rule_format, OF this] obtain q1 where
    q1: "fq_attach (5 :: nat) fq_init = Some q1" "fq_ok q1" "fq_all q1 = {5}"
    unfolding e by (elim exE conjE)
  have "5 \<in> fq_all q1" using q1(3) by simp
  from fq_membership[OF q1(2), THEN conjunct2, THEN conjunct2, rule_format, OF this] q1
  show ?thesis by auto
qed

text \<open>
  when a pipe other than the current one terminates, the pointer \<open>current\<close> still designates the
  same pipe exactly when the current pipe was not the last active one or the terminated pipe was the
  first one. In the remaining case a multipart message that was read in part is continued from
  another pipe.
\<close>

theorem fq_terminated_current:
  assumes ok: "fq_ok q" and i: "i < fq_active q" "i \<noteq> fq_current q"
  shows "\<exists>q'. fq_terminated (items (fq_pipes q) ! i) q = Some q' \<and>
    items (fq_pipes q) ! fq_current q \<in> fq_actives q' \<and>
    (items (fq_pipes q') ! fq_current q' = items (fq_pipes q) ! fq_current q \<longleftrightarrow>
       fq_current q \<noteq> fq_active q - 1 \<or> i = 0)"
proof -
  let ?xs = "items (fq_pipes q)" and ?act = "fq_active q - 1" and ?c = "fq_current q"
  let ?p = "?xs ! i"
  have aok: "array_ok (fq_pipes q)" and d: "distinct ?xs" and le: "fq_active q \<le> length ?xs"
    and c: "?c < fq_active q" using ok i by (auto simp: fq_ok_def array_okD)
  have act: "?act < length ?xs" "i < length ?xs" "i \<le> ?act" "?c \<le> ?act" using i le c by auto
  obtain b a' where a: "array_swap i ?act (fq_pipes q) = Some b" "array_erase ?p b = Some a'"
    "\<forall>k < ?act. items a' ! k = swap_at ?xs i ?act ! k"
    using aok i(1) le by (rule array_remove_active)
  note nth = a(3)[rule_format]
  define q' where "q' = q\<lparr>fq_pipes := a', fq_active := ?act,
    fq_current := (if ?c = ?act then 0 else ?c)\<rparr>"
  have res: "fq_terminated ?p q = Some q'"
    using array_pos_nth[OF aok act(2)] i a by (simp add: fq_terminated_def q'_def)
  have "0 < ?act" using i c act by linarith
  moreover from this have "?xs ! 0 \<noteq> ?xs ! ?act" using d act nth_eq_iff_index_eq[of ?xs 0 ?act]
    by (metis less_trans nat_neq_iff)
  ultimately have "items a' ! (if ?c = ?act then 0 else ?c) = ?xs ! ?c \<longleftrightarrow> ?c \<noteq> ?act \<or> i = 0"
    using nth act c i d le by (auto simp: nth_swap_at nth_eq_iff_index_eq split: if_splits)
  moreover have "?xs ! ?c \<in> fq_actives q'"
  proof -
    obtain q'' where "fq_terminated ?p q = Some q''" "fq_actives q'' = fq_actives q - {?p}"
      using ok nth_mem[OF act(2)] by (rule fq_terminated_ok)
    moreover have "?xs ! ?c \<in> fq_actives q" using fq_current_get[OF ok] c by simp
    moreover have "?xs ! ?c \<noteq> ?p" using d c i le by (simp add: nth_eq_iff_index_eq)
    ultimately show ?thesis using res by simp
  qed
  ultimately show ?thesis using res by (simp add: q'_def)
qed

text \<open>Three pipes, a message of pipe 12 read in part; when pipe 11 terminates, pipe 10 is read next.\<close>

theorem fq_terminated_current_witness:
  "let q = \<lparr>fq_pipes = \<lparr>items = [10, 11, 12 :: nat], array_index = (\<lambda>p. int p - 10)\<rparr>,
            fq_active = 3, fq_current = 2, fq_more = True\<rparr> in
   \<exists>q'. fq_terminated 11 q = Some q' \<and> 12 \<in> fq_actives q' \<and>
     items (fq_pipes q') ! fq_current q' \<noteq> 12"
proof -
  let ?q = "\<lparr>fq_pipes = \<lparr>items = [10, 11, 12 :: nat], array_index = (\<lambda>p. int p - 10)\<rparr>,
            fq_active = 3, fq_current = 2, fq_more = True\<rparr>"
  have "fq_ok ?q" by (simp add: fq_ok_def array_ok_def less_Suc_eq numeral_3_eq_3 all_conj_distrib)
  from fq_terminated_current[OF this, of 1] show ?thesis by (simp add: Let_def)
qed

end
