(* ===== verification/Load_Balancer.thy ===== *)
theory Load_Balancer
  imports Arrays Msg
begin

text \<open>
  Load balancing over outbound pipes: \<open>lb_t\<close> of \<open>lb.hpp\<close> and \<open>lb.cpp\<close>. As in the fair queue the
  first \<open>active\<close> positions of the array are the pipes that can be written to. A multipart message
  goes to one pipe as a whole; if that pipe terminates in the middle of it, the rest of the message
  is dropped (\<open>dropping\<close>). The methods \<open>write\<close>, \<open>flush\<close> and \<open>check_write\<close> of the pipes are passed in,
  and the locale \<open>outbound\<close> states what is relied on.
\<close>

section \<open>State and operations\<close>

record 'p lb_t =
  lb_pipes :: "'p array_t"
  lb_active :: nat
  lb_current :: nat
  lb_more :: bool
  lb_dropping :: bool

definition lb_init :: "'p lb_t" where
  "lb_init = \<lparr>lb_pipes = array_init, lb_active = 0, lb_current = 0, lb_more = False,
     lb_dropping = False\<rparr>"

definition lb_activated :: "'p \<Rightarrow> 'p lb_t \<Rightarrow> 'p lb_t option" where
  "lb_activated p q = do {
     index \<leftarrow> array_pos p (lb_pipes q);
     a \<leftarrow> array_swap index (lb_active q) (lb_pipes q);
     Some (q\<lparr>lb_pipes := a, lb_active := lb_active q + 1\<rparr>) }"

definition lb_attach :: "'p \<Rightarrow> 'p lb_t \<Rightarrow> 'p lb_t option" where
  "lb_attach p q = lb_activated p (q\<lparr>lb_pipes := array_push_back p (lb_pipes q)\<rparr>)"

definition lb_terminated :: "'p \<Rightarrow> 'p lb_t \<Rightarrow> 'p lb_t option" where
  "lb_terminated p q = do {
     index \<leftarrow> array_pos p (lb_pipes q);
     let q = (if index = lb_current q \<and> lb_more q then q\<lparr>lb_dropping := True\<rparr> else q);
     q \<leftarrow> (if index < lb_active q then do {
             let act = lb_active q - 1;
             a \<leftarrow> array_swap index act (lb_pipes q);
             Some (q\<lparr>lb_pipes := a, lb_active := act,
                     lb_current := (if lb_current q = act then 0 else lb_current q)\<rparr>) }
           else Some q);
     a \<leftarrow> array_erase p (lb_pipes q);
     Some (q\<lparr>lb_pipes := a\<rparr>) }"

text \<open>The end of the loop body of \<open>send\<close>.\<close>

definition lb_deactivate :: "'p lb_t \<Rightarrow> 'p lb_t option" where
  "lb_deactivate q = (
     let act = lb_active q - 1 in
     if lb_current q < act then do {
       a \<leftarrow> array_swap (lb_current q) act (lb_pipes q);
       Some (q\<lparr>lb_pipes := a, lb_active := act\<rparr>) }
     else Some (q\<lparr>lb_active := act, lb_current := 0\<rparr>))"

lemma lb_deactivate_active: "lb_deactivate q = Some q' \<Longrightarrow> lb_active q' = lb_active q - 1"
  by (auto simp: lb_deactivate_def Let_def bind_eq_Some split: if_splits)

lemma lb_deactivate_frame:
  "lb_deactivate q = Some q' \<Longrightarrow> lb_more q' = lb_more q \<and> lb_dropping q' = lb_dropping q"
  by (auto simp: lb_deactivate_def Let_def bind_eq_Some split: if_splits)

text \<open>The loop of \<open>send\<close>: it ends with the message written to the current pipe or with no active pipe.\<close>

function lb_write ::
    "('p \<Rightarrow> frame \<Rightarrow> 's \<Rightarrow> (bool \<times> 's) option) \<Rightarrow> frame \<Rightarrow> 'p lb_t \<Rightarrow> 's \<Rightarrow> ('p lb_t \<times> 's) option" where
  "lb_write wr m q s =
     (if lb_active q = 0 then Some (q, s)
      else case array_get (lb_pipes q) (lb_current q) of
        None \<Rightarrow> None
      | Some p \<Rightarrow>
         (case wr p m s of
            None \<Rightarrow> None
          | Some (True, s') \<Rightarrow> Some (q, s')
          | Some (False, s') \<Rightarrow>
              if lb_more q then None
              else (case lb_deactivate q of
                      None \<Rightarrow> None
                    | Some q' \<Rightarrow> lb_write wr m q' s')))"
  by pat_completeness auto
termination
  by (relation "measure (\<lambda>(wr, m, q, s). lb_active q)") (auto dest: lb_deactivate_active)

definition lb_send ::
    "('p \<Rightarrow> frame \<Rightarrow> 's \<Rightarrow> (bool \<times> 's) option) \<Rightarrow> ('p \<Rightarrow> 's \<Rightarrow> 's option) \<Rightarrow> frame \<Rightarrow> 'p lb_t \<Rightarrow> 's \<Rightarrow>
     ('p lb_t \<times> 's \<times> unit outcome) option" where
  "lb_send wr fl m q s =
     (if lb_dropping q
      then Some (q\<lparr>lb_more := frame_more m, lb_dropping := frame_more m\<rparr>, s, Inr ())
      else do {
        (q, s) \<leftarrow> lb_write wr m q s;
        if lb_active q = 0 then Some (q, s, Inl EAGAIN)
        else if frame_more m then Some (q\<lparr>lb_more := True\<rparr>, s, Inr ())
        else do {
          p \<leftarrow> array_get (lb_pipes q) (lb_current q);
          s \<leftarrow> fl p s;
          Some (q\<lparr>lb_more := False, lb_current := (lb_current q + 1) mod lb_active q\<rparr>,
                s, Inr ()) } })"

text \<open>The end of the loop body of \<open>has_out\<close>.\<close>

definition lb_deactivate_swap :: "'p lb_t \<Rightarrow> 'p lb_t option" where
  "lb_deactivate_swap q = do {
     let act = lb_active q - 1;
     a \<leftarrow> array_swap (lb_current q) act (lb_pipes q);
     Some (q\<lparr>lb_pipes := a, lb_active := act,
             lb_current := (if lb_current q = act then 0 else lb_current q)\<rparr>) }"

lemma lb_deactivate_swap_active:
  "lb_deactivate_swap q = Some q' \<Longrightarrow> lb_active q' = lb_active q - 1"
  by (auto simp: lb_deactivate_swap_def Let_def bind_eq_Some)

function lb_has_out ::
    "('p \<Rightarrow> 's \<Rightarrow> (bool \<times> 's) option) \<Rightarrow> 'p lb_t \<Rightarrow> 's \<Rightarrow> ('p lb_t \<times> 's \<times> bool) option" where
  "lb_has_out chk q s =
     (if lb_more q then Some (q, s, True)
      else if lb_active q = 0 then Some (q, s, False)
      else case array_get (lb_pipes q) (lb_current q) of
        None \<Rightarrow> None
      | Some p \<Rightarrow>
         (case chk p s of
            None \<Rightarrow> None
          | Some (True, s') \<Rightarrow> Some (q, s', True)
          | Some (False, s') \<Rightarrow>
              (case lb_deactivate_swap q of
                 None \<Rightarrow> None
               | Some q' \<Rightarrow> lb_has_out chk q' s')))"
  by pat_completeness auto
termination
  by (relation "measure (\<lambda>(chk, q, s). lb_active q)") (auto dest: lb_deactivate_swap_active)

declare lb_write.simps [simp del] lb_has_out.simps [simp del]

section \<open>The invariant\<close>

definition lb_ok :: "'p lb_t \<Rightarrow> bool" where
  "lb_ok q \<longleftrightarrow> array_ok (lb_pipes q) \<and> lb_active q \<le> length (items (lb_pipes q)) \<and>
     (if lb_active q = 0 then lb_current q = 0 else lb_current q < lb_active q)"

abbreviation lb_all :: "'p lb_t \<Rightarrow> 'p set" where
  "lb_all q \<equiv> set (items (lb_pipes q))"

definition lb_actives :: "'p lb_t \<Rightarrow> 'p set" where
  "lb_actives q = prefix_set (lb_active q) (lb_pipes q)"

definition lb_distance :: "'p lb_t \<Rightarrow> nat \<Rightarrow> nat" where
  "lb_distance q i = (if lb_current q \<le> i then i - lb_current q
                      else i + lb_active q - lb_current q)"

lemma lb_actives_sub: "lb_actives q \<subseteq> lb_all q"
  by (simp add: lb_actives_def prefix_set_sub)

lemma lb_ok_init [simp]: "lb_ok lb_init"
  by (simp add: lb_ok_def lb_init_def array_init_def array_ok_def)

lemma lb_current_get:
  assumes "lb_ok q" "lb_active q \<noteq> 0"
  shows "array_get (lb_pipes q) (lb_current q) = Some (items (lb_pipes q) ! lb_current q)"
    "items (lb_pipes q) ! lb_current q \<in> lb_actives q"
  using assms by (auto simp: lb_ok_def array_get_def lb_actives_def prefix_set_nth)

lemma lb_activated_ok:
  assumes ok: "lb_ok q" and p: "p \<in> lb_all q" "p \<notin> lb_actives q"
  obtains q' where "lb_activated p q = Some q'" "lb_ok q'" "lb_all q' = lb_all q"
    "lb_actives q' = insert p (lb_actives q)"
proof -
  have aok: "array_ok (lb_pipes q)" and le: "lb_active q \<le> length (items (lb_pipes q))"
    using ok by (auto simp: lb_ok_def)
  obtain i a where a: "array_pos p (lb_pipes q) = Some i"
    "array_swap i (lb_active q) (lb_pipes q) = Some a" "array_ok a"
    "lb_active q < length (items (lb_pipes q))" "items a = swap_at (items (lb_pipes q)) i (lb_active q)"
    "set (items a) = lb_all q"
    "prefix_set (Suc (lb_active q)) a = insert p (prefix_set (lb_active q) (lb_pipes q))"
    using aok p[unfolded lb_actives_def] le by (rule array_activate)
  let ?q = "q\<lparr>lb_pipes := a, lb_active := lb_active q + 1\<rparr>"
  have "lb_ok ?q" using ok a by (auto simp: lb_ok_def split: if_splits)
  then show ?thesis
    using a by (intro that[of ?q]) (auto simp: lb_activated_def lb_actives_def)
qed

lemma lb_attach_ok:
  assumes ok: "lb_ok q" and p: "p \<notin> lb_all q"
  obtains q' where "lb_attach p q = Some q'" "lb_ok q'" "lb_all q' = insert p (lb_all q)"
    "lb_actives q' = insert p (lb_actives q)"
proof -
  let ?q = "q\<lparr>lb_pipes := array_push_back p (lb_pipes q)\<rparr>"
  have it: "items (lb_pipes ?q) = items (lb_pipes q) @ [p]" "array_ok (lb_pipes ?q)"
    using ok p array_push_back_ok[of "lb_pipes q" p] by (auto simp: lb_ok_def)
  have act: "lb_actives ?q = lb_actives q" and okq: "lb_ok ?q"
    using it ok by (auto simp: lb_actives_def prefix_set_def lb_ok_def split: if_splits)
  have pq: "p \<in> lb_all ?q" "p \<notin> lb_actives ?q"
    using it p lb_actives_sub[of q] by (auto simp: act)
  obtain q' where "lb_activated p ?q = Some q'" "lb_ok q'" "lb_all q' = lb_all ?q"
    "lb_actives q' = insert p (lb_actives ?q)"
    using okq pq by (rule lb_activated_ok)
  then show ?thesis using it act by (intro that[of q']) (auto simp: lb_attach_def)
qed

lemma lb_terminated_ok:
  assumes ok: "lb_ok q" and p: "p \<in> lb_all q"
  obtains q' where "lb_terminated p q = Some q'" "lb_ok q'" "lb_all q' = lb_all q - {p}"
    "lb_actives q' = lb_actives q - {p}" "lb_more q' = lb_more q"
    "lb_dropping q' = (lb_dropping q \<or>
       lb_more q \<and> lb_current q < length (items (lb_pipes q)) \<and>
       items (lb_pipes q) ! lb_current q = p)"
proof -
  let ?xs = "items (lb_pipes q)"
  have aok: "array_ok (lb_pipes q)" and le: "lb_active q \<le> length ?xs" and d: "distinct ?xs"
    using ok by (auto simp: lb_ok_def array_okD)
  obtain i where i: "array_pos p (lb_pipes q) = Some i" "i < length ?xs" "?xs ! i = p"
    using aok p by (rule array_pos_in)
  have cur: "i = lb_current q \<longleftrightarrow> lb_current q < length ?xs \<and> ?xs ! lb_current q = p"
    using i d nth_eq_iff_index_eq by blast
  define q0 where "q0 = (if i = lb_current q \<and> lb_more q then q\<lparr>lb_dropping := True\<rparr> else q)"
  have q0: "lb_pipes q0 = lb_pipes q" "lb_active q0 = lb_active q" "lb_current q0 = lb_current q"
    "lb_more q0 = lb_more q" "lb_dropping q0 = (lb_dropping q \<or> i = lb_current q \<and> lb_more q)"
    by (auto simp: q0_def)
  show ?thesis
  proof (cases "i < lb_active q")
    case True
    let ?act = "lb_active q - 1"
    obtain b a' where a: "array_swap i ?act (lb_pipes q) = Some b" "array_erase (?xs ! i) b = Some a'"
      "array_ok a'" "set (items a') = lb_all q - {?xs ! i}" "length (items a') = length ?xs - 1"
      "prefix_set ?act a' = prefix_set (lb_active q) (lb_pipes q) - {?xs ! i}"
      using aok True le by (rule array_remove_active)
    define q' where "q' = q0\<lparr>lb_pipes := a', lb_active := ?act,
      lb_current := (if lb_current q = ?act then 0 else lb_current q)\<rparr>"
    have "lb_terminated p q = Some q'"
      using i a(1,2) True q0 by (simp add: lb_terminated_def q'_def flip: q0_def)
    moreover have "lb_ok q'"
      using ok a(3,5) le True by (auto simp: lb_ok_def q'_def split: if_splits)
    moreover have "lb_all q' = lb_all q - {p}" "lb_actives q' = lb_actives q - {p}"
      using a(4,6) i(3) by (simp_all add: q'_def lb_actives_def)
    ultimately show ?thesis using that[of q'] cur q0 by (auto simp: q'_def)
  next
    case False
    then have ge: "lb_active q \<le> i" by simp
    obtain a' where a': "array_erase (?xs ! i) (lb_pipes q) = Some a'" "array_ok a'"
      "set (items a') = lb_all q - {?xs ! i}" "length (items a') = length ?xs - 1"
      "prefix_set (lb_active q) a' = prefix_set (lb_active q) (lb_pipes q)"
      using aok ge i(2) by (rule array_remove_passive)
    define q' where "q' = q0\<lparr>lb_pipes := a'\<rparr>"
    have "p \<notin> lb_actives q"
      using prefix_set_pos[OF aok le i(2)] i(3) False by (simp add: lb_actives_def)
    moreover have "lb_terminated p q = Some q'"
      using i a'(1) False q0 by (simp add: lb_terminated_def q'_def flip: q0_def)
    moreover have "lb_ok q'" using ok a'(2,4) ge i(2) q0 by (auto simp: lb_ok_def q'_def)
    moreover have "lb_all q' = lb_all q - {p}" "lb_actives q' = lb_actives q"
      using a'(3,5) i(3) q0 by (simp_all add: q'_def lb_actives_def)
    ultimately show ?thesis using that[of q'] cur q0 by (auto simp: q'_def)
  qed
qed

lemma lb_deactivate_ok:
  assumes ok: "lb_ok q" and act: "lb_active q \<noteq> 0"
  obtains q' where "lb_deactivate q = Some q'" "lb_ok q'" "lb_all q' = lb_all q"
    "lb_actives q' = lb_actives q - {items (lb_pipes q) ! lb_current q}"
    "\<forall>i < lb_active q. i \<noteq> lb_current q \<longrightarrow>
       (\<exists>j < lb_active q'. items (lb_pipes q') ! j = items (lb_pipes q) ! i \<and>
          lb_distance q' j \<le> lb_distance q i)"
proof -
  let ?xs = "items (lb_pipes q)" and ?act = "lb_active q - 1" and ?c = "lb_current q"
  have aok: "array_ok (lb_pipes q)" and le: "?c < lb_active q" "lb_active q \<le> length ?xs"
    using ok act by (auto simp: lb_ok_def)
  then have lt: "?c < length ?xs" "?act < length ?xs" "?c \<le> ?act" by auto
  obtain a where a: "array_swap ?c ?act (lb_pipes q) = Some a" "array_ok a"
    "items a = swap_at ?xs ?c ?act" "set (items a) = lb_all q"
    "prefix_set ?act a = prefix_set (lb_active q) (lb_pipes q) - {?xs ! ?c}"
    using aok le by (rule array_deactivate)
  define b where "b = (if ?c < ?act then a else lb_pipes q)"
  have b: "array_ok b" "items b = swap_at ?xs ?c ?act"
    using a(2,3) aok lt by (auto simp: b_def)
  have bs: "set (items b) = lb_all q"
    "prefix_set ?act b = prefix_set (lb_active q) (lb_pipes q) - {?xs ! ?c}"
    using a(3,4,5) b(2) by (simp_all add: prefix_set_def)
  define q' where "q' = q\<lparr>lb_pipes := b, lb_active := ?act,
    lb_current := (if ?c < ?act then ?c else 0)\<rparr>"
  have "lb_deactivate q = Some q'" using a(1) by (auto simp: lb_deactivate_def q'_def b_def)
  moreover have "lb_ok q'"
    using ok b act le by (auto simp: lb_ok_def q'_def split: if_splits)
  moreover have "lb_all q' = lb_all q" "lb_actives q' = lb_actives q - {?xs ! ?c}"
    using bs by (simp_all add: q'_def lb_actives_def)
  moreover have "\<exists>j < lb_active q'. items (lb_pipes q') ! j = ?xs ! i \<and>
      lb_distance q' j \<le> lb_distance q i" if i: "i < lb_active q" "i \<noteq> ?c" for i
  proof (cases "i = ?act")
    case True
    then have "?c < ?act" using i lt by simp
    then show ?thesis using True b(2) lt
      by (intro exI[of _ ?c]) (simp add: q'_def nth_swap_at lb_distance_def)
  next
    case False
    then have "i < ?act" using i by simp
    then show ?thesis using i b(2) lt
      by (intro exI[of _ i]) (auto simp: q'_def nth_swap_at lb_distance_def)
  qed
  ultimately show ?thesis by (intro that[of q']) auto
qed

text \<open>Both ways the code deactivates the current pipe have the same effect.\<close>

lemma lb_deactivate_swap_eq:
  assumes ok: "lb_ok q" and act: "lb_active q \<noteq> 0"
  shows "lb_deactivate_swap q = lb_deactivate q"
proof (cases "lb_current q < lb_active q - 1")
  case True
  then show ?thesis by (simp add: lb_deactivate_swap_def lb_deactivate_def Let_def)
next
  case False
  then have c: "lb_current q = lb_active q - 1" and lt: "lb_current q < length (items (lb_pipes q))"
    using ok act by (auto simp: lb_ok_def)
  have "array_index (lb_pipes q) (items (lb_pipes q) ! lb_current q) = int (lb_current q)"
    using ok lt by (simp add: lb_ok_def array_okD)
  then have "array_swap (lb_current q) (lb_current q) (lb_pipes q) = Some (lb_pipes q)"
    using lt by (simp add: array_swap_def set_array_index_def Let_def fun_upd_idem)
  with False c show ?thesis by (simp add: lb_deactivate_swap_def lb_deactivate_def Let_def)
qed

section \<open>What the load balancer relies on\<close>

text \<open>
  The interface of outbound pipes: \<open>out s p\<close> are the frames written to pipe \<open>p\<close>, \<open>flushed s p\<close> those
  of them the peer can already see. Writing succeeds exactly on a writable pipe, appends one frame
  and keeps the pipe writable in the middle of a message; flushing a pipe that holds whole messages
  publishes all of them.
\<close>

locale outbound =
  fixes wr :: "'p \<Rightarrow> frame \<Rightarrow> 's \<Rightarrow> (bool \<times> 's) option"
    and fl :: "'p \<Rightarrow> 's \<Rightarrow> 's option"
    and chk :: "'p \<Rightarrow> 's \<Rightarrow> (bool \<times> 's) option"
    and writable :: "'s \<Rightarrow> 'p \<Rightarrow> bool"
    and out :: "'s \<Rightarrow> 'p \<Rightarrow> frame list"
    and flushed :: "'s \<Rightarrow> 'p \<Rightarrow> frame list"
    and valid :: "'s \<Rightarrow> 'p \<Rightarrow> bool"
  assumes wr_ok: "valid s p \<Longrightarrow> writable s p \<Longrightarrow>
      \<exists>s'. wr p m s = Some (True, s') \<and> out s' = (out s)(p := out s p @ [m]) \<and> flushed s' = flushed s \<and>
        valid s' = valid s \<and> (\<forall>r. r \<noteq> p \<longrightarrow> writable s' r = writable s r) \<and>
        (frame_more m \<longrightarrow> writable s' p)"
    and wr_full: "valid s p \<Longrightarrow> \<not> writable s p \<Longrightarrow>
      \<exists>s'. wr p m s = Some (False, s') \<and> out s' = out s \<and> flushed s' = flushed s \<and>
        valid s' = valid s \<and> writable s' = writable s"
    and fl_all: "valid s p \<Longrightarrow> whole (out s p) \<Longrightarrow>
      \<exists>s'. fl p s = Some s' \<and> out s' = out s \<and> flushed s' = (flushed s)(p := out s p) \<and>
        valid s' = valid s \<and> writable s' = writable s"
    and chk_writable: "valid s p \<Longrightarrow>
      \<exists>s'. chk p s = Some (writable s p, s') \<and> out s' = out s \<and> flushed s' = flushed s \<and>
        valid s' = valid s \<and> writable s' = writable s"
begin

abbreviation cur :: "'p lb_t \<Rightarrow> 'p" where
  "cur q \<equiv> items (lb_pipes q) ! lb_current q"

text \<open>
  Only the current pipe may hold an unfinished message, and it can take the rest of it.
\<close>

definition lb_sync :: "'p lb_t \<Rightarrow> 's \<Rightarrow> bool" where
  "lb_sync q s \<longleftrightarrow> lb_ok q \<and> (\<forall>p \<in> lb_all q. valid s p) \<and>
     (\<forall>p \<in> lb_all q. whole (out s p) \<or> (lb_more q \<and> \<not> lb_dropping q \<and> p = cur q)) \<and>
     (lb_more q \<and> \<not> lb_dropping q \<longrightarrow> lb_active q \<noteq> 0 \<and> writable s (cur q)) \<and>
     (lb_dropping q \<longrightarrow> lb_more q)"

definition write_post :: "frame \<Rightarrow> 'p lb_t \<Rightarrow> 's \<Rightarrow> 'p lb_t \<Rightarrow> 's \<Rightarrow> bool" where
  "write_post m q s q' s' \<longleftrightarrow> lb_ok q' \<and> lb_all q' = lb_all q \<and> valid s' = valid s \<and>
     flushed s' = flushed s \<and> lb_more q' = lb_more q \<and> lb_dropping q' = lb_dropping q \<and>
     (if lb_active q' = 0 then (\<forall>p \<in> lb_actives q. \<not> writable s p) \<and> out s' = out s \<and> \<not> lb_more q
      else cur q' \<in> lb_actives q \<and> writable s (cur q') \<and>
        out s' = (out s)(cur q' := out s (cur q') @ [m]) \<and>
        (frame_more m \<longrightarrow> writable s' (cur q')) \<and> (lb_more q \<longrightarrow> cur q' = cur q))"

lemma lb_write_correct:
  assumes "lb_ok q" "\<forall>p \<in> lb_all q. valid s p"
    "lb_more q \<Longrightarrow> lb_active q \<noteq> 0 \<and> writable s (cur q)"
  shows "\<exists>q' s'. lb_write wr m q s = Some (q', s') \<and> write_post m q s q' s'"
  using assms
proof (induction "lb_active q" arbitrary: q s)
  case 0
  then have "lb_actives q = {}" by (simp add: lb_actives_def prefix_set_def)
  with 0 show ?case by (auto simp: lb_write.simps[of wr m q s] write_post_def)
next
  case (Suc n)
  have act: "lb_active q \<noteq> 0" using Suc.hyps by simp
  have get: "array_get (lb_pipes q) (lb_current q) = Some (cur q)" and pa: "cur q \<in> lb_actives q"
    using lb_current_get[OF Suc.prems(1) act] by auto
  have v: "valid s (cur q)" using Suc.prems(2) pa lb_actives_sub[of q] by auto
  show ?case
  proof (cases "writable s (cur q)")
    case True
    obtain s' where "wr (cur q) m s = Some (True, s')"
      "out s' = (out s)(cur q := out s (cur q) @ [m])" "flushed s' = flushed s"
      "valid s' = valid s" "frame_more m \<longrightarrow> writable s' (cur q)"
      using wr_ok[OF v True] by blast
    with True act get pa Suc.prems show ?thesis
      by (auto simp: lb_write.simps[of wr m q s] write_post_def)
  next
    case False
    obtain s' where s': "wr (cur q) m s = Some (False, s')" "out s' = out s" "flushed s' = flushed s"
      "valid s' = valid s" "writable s' = writable s"
      using wr_full[OF v False] by blast
    have nm: "\<not> lb_more q" using False Suc.prems(3) by auto
    obtain q' where q': "lb_deactivate q = Some q'" "lb_ok q'" "lb_all q' = lb_all q"
      "lb_actives q' = lb_actives q - {cur q}"
      using Suc.prems(1) act by (rule lb_deactivate_ok)
    have fr: "lb_more q' = lb_more q" "lb_dropping q' = lb_dropping q"
      using lb_deactivate_frame[OF q'(1)] by auto
    have step: "lb_write wr m q s = lb_write wr m q' s'"
      using act get s'(1) nm q'(1) by (simp add: lb_write.simps[of wr m q s])
    have "n = lb_active q'" using Suc.hyps lb_deactivate_active[OF q'(1)] by simp
    moreover have "\<forall>p \<in> lb_all q'. valid s' p" using Suc.prems(2) q'(3) s'(4) by simp
    ultimately obtain q'' s'' where ih: "lb_write wr m q' s' = Some (q'', s'')"
      "write_post m q' s' q'' s''"
      using Suc.hyps(1)[of q' s'] q'(2) fr nm by auto
    have "write_post m q s q'' s''"
      using ih(2) q'(3,4) s' fr nm False by (auto simp: write_post_def split: if_splits)
    with ih(1) step show ?thesis by auto
  qed
qed

text \<open>What one \<open>send\<close> call does.\<close>

definition send_post :: "frame \<Rightarrow> 'p lb_t \<Rightarrow> 's \<Rightarrow> 'p lb_t \<Rightarrow> 's \<Rightarrow> unit outcome \<Rightarrow> bool" where
  "send_post m q s q' s' r \<longleftrightarrow>
     (if lb_dropping q then r = Inr () \<and> s' = s
      else case r of
        Inl e \<Rightarrow> e = EAGAIN \<and> (\<forall>p \<in> lb_actives q. \<not> writable s p) \<and>
          out s' = out s \<and> flushed s' = flushed s
      | Inr _ \<Rightarrow> \<exists>p \<in> lb_actives q. writable s p \<and> (lb_more q \<longrightarrow> p = cur q) \<and>
          out s' = (out s)(p := out s p @ [m]) \<and>
          (if frame_more m then flushed s' = flushed s \<and> cur q' = p
           else flushed s' = (flushed s)(p := out s p @ [m])))"

theorem send_correct:
  assumes sync: "lb_sync q s"
  shows "\<exists>q' s' r. lb_send wr fl m q s = Some (q', s', r) \<and> send_post m q s q' s' r \<and>
    lb_sync q' s' \<and> lb_all q' = lb_all q"
proof (cases "lb_dropping q")
  case True
  then show ?thesis using sync by (auto simp: lb_send_def send_post_def lb_sync_def lb_ok_def)
next
  case False
  have ok: "lb_ok q" "\<forall>p \<in> lb_all q. valid s p"
    and more: "lb_more q \<Longrightarrow> lb_active q \<noteq> 0 \<and> writable s (cur q)"
    and wh: "\<forall>p \<in> lb_all q. whole (out s p) \<or> (lb_more q \<and> p = cur q)"
    using sync False by (auto simp: lb_sync_def)
  obtain q1 s1 where w: "lb_write wr m q s = Some (q1, s1)" "write_post m q s q1 s1"
    using lb_write_correct[OF ok more] by blast
  note post = w(2)[unfolded write_post_def]
  show ?thesis
  proof (cases "lb_active q1 = 0")
    case True
    then show ?thesis using w False post ok wh
      by (auto simp: lb_send_def send_post_def lb_sync_def)
  next
    case act: False
    let ?p = "cur q1"
    have p: "?p \<in> lb_actives q" "writable s ?p" "out s1 = (out s)(?p := out s ?p @ [m])"
      "lb_more q \<longrightarrow> ?p = cur q" "flushed s1 = flushed s" "lb_all q1 = lb_all q" "lb_ok q1"
      "valid s1 = valid s" "\<not> lb_dropping q1" "frame_more m \<longrightarrow> writable s1 ?p"
      using post act False by auto
    have others: "whole (out s1 r)" if "r \<in> lb_all q" "r \<noteq> ?p" for r
      using wh that p by auto
    show ?thesis
    proof (cases "frame_more m")
      case True
      let ?q = "q1\<lparr>lb_more := True\<rparr>"
      have "lb_send wr fl m q s = Some (?q, s1, Inr ())"
        using w(1) False act True by (simp add: lb_send_def)
      moreover have "send_post m q s ?q s1 (Inr ())"
        using p False True by (auto simp: send_post_def)
      moreover have "lb_sync ?q s1"
        using p act True others ok by (auto simp: lb_sync_def lb_ok_def)
      ultimately show ?thesis using p by auto
    next
      case last: False
      let ?q = "q1\<lparr>lb_more := False, lb_current := (lb_current q1 + 1) mod lb_active q1\<rparr>"
      have get: "array_get (lb_pipes q1) (lb_current q1) = Some ?p"
        using lb_current_get[OF p(7) act] by simp
      have v: "valid s1 ?p" using ok p(1,8) lb_actives_sub[of q] by auto
      have who: "whole (out s1 ?p)" using p(3) last by (simp add: whole_def)
      obtain s2 where f: "fl ?p s1 = Some s2" "out s2 = out s1" "flushed s2 = (flushed s1)(?p := out s1 ?p)"
        "valid s2 = valid s1" "writable s2 = writable s1"
        using fl_all[OF v who] by blast
      have "lb_send wr fl m q s = Some (?q, s2, Inr ())"
        using w(1) False act last get f(1) by (simp add: lb_send_def)
      moreover have "send_post m q s ?q s2 (Inr ())"
        using p False last f by (auto simp: send_post_def)
      moreover have "lb_ok ?q" using p(7) act by (auto simp: lb_ok_def)
      then have "lb_sync ?q s2"
        using p f others who ok by (auto simp: lb_sync_def)
      ultimately show ?thesis using p by auto
    qed
  qed
qed

theorem has_out_correct:
  assumes "lb_sync q s" "\<not> lb_more q"
  shows "\<exists>q' s'. lb_has_out chk q s = Some (q', s', \<exists>p \<in> lb_actives q. writable s p) \<and>
    lb_sync q' s' \<and> out s' = out s \<and> flushed s' = flushed s \<and> lb_all q' = lb_all q"
  using assms
proof (induction "lb_active q" arbitrary: q s)
  case 0
  then have "lb_actives q = {}" by (simp add: lb_actives_def prefix_set_def)
  with 0 show ?case by (auto simp: lb_has_out.simps[of chk q s])
next
  case (Suc n)
  have act: "lb_active q \<noteq> 0" using Suc.hyps by simp
  have ok: "lb_ok q" using Suc.prems by (simp add: lb_sync_def)
  have get: "array_get (lb_pipes q) (lb_current q) = Some (cur q)" and pa: "cur q \<in> lb_actives q"
    using lb_current_get[OF ok act] by auto
  have v: "valid s (cur q)" using Suc.prems(1) pa lb_actives_sub[of q] by (auto simp: lb_sync_def)
  obtain s' where s': "chk (cur q) s = Some (writable s (cur q), s')" "out s' = out s"
    "flushed s' = flushed s" "valid s' = valid s" "writable s' = writable s"
    using chk_writable[OF v] by blast
  show ?case
  proof (cases "writable s (cur q)")
    case True
    then show ?thesis using act get s' pa Suc.prems
      by (auto simp: lb_has_out.simps[of chk q s] lb_sync_def)
  next
    case False
    obtain q' where q': "lb_deactivate q = Some q'" "lb_ok q'" "lb_all q' = lb_all q"
      "lb_actives q' = lb_actives q - {cur q}"
      using ok act by (rule lb_deactivate_ok)
    have fr: "\<not> lb_more q'" "lb_dropping q' = lb_dropping q"
      using lb_deactivate_frame[OF q'(1)] Suc.prems by auto
    have sy: "lb_sync q' s'" using Suc.prems q'(2,3) s' fr by (auto simp: lb_sync_def)
    have step: "lb_has_out chk q s = lb_has_out chk q' s'"
      using act get s'(1) Suc.prems q'(1) False
      by (simp add: lb_has_out.simps[of chk q s] lb_deactivate_swap_eq[OF ok act])
    have "n = lb_active q'" using Suc.hyps lb_deactivate_active[OF q'(1)] by simp
    from Suc.hyps(1)[OF this sy fr(1)] show ?thesis
      using step q'(3,4) s' False by auto
  qed
qed

end

section \<open>Properties\<close>

text \<open>
  Attaching, activating and terminating a pipe keeps the invariant of the load balancer and
  changes its sets of pipes by exactly that pipe; if the pipe that terminates is the one a multipart
  message is being written to, the rest of that message is marked to be dropped.
\<close>

theorem lb_membership:
  assumes "lb_ok q"
  shows "(p \<notin> lb_all q \<longrightarrow> (\<exists>q'. lb_attach p q = Some q' \<and> lb_ok q' \<and>
      lb_all q' = insert p (lb_all q) \<and> lb_actives q' = insert p (lb_actives q))) \<and>
    (p \<in> lb_all q - lb_actives q \<longrightarrow> (\<exists>q'. lb_activated p q = Some q' \<and> lb_ok q' \<and>
      lb_all q' = lb_all q \<and> lb_actives q' = insert p (lb_actives q))) \<and>
    (p \<in> lb_all q \<longrightarrow> (\<exists>q'. lb_terminated p q = Some q' \<and> lb_ok q' \<and>
      lb_all q' = lb_all q - {p} \<and> lb_actives q' = lb_actives q - {p} \<and>
      (lb_more q \<and> lb_active q \<noteq> 0 \<and> items (lb_pipes q) ! lb_current q = p \<longrightarrow> lb_dropping q')))"
proof (intro conjI impI, goal_cases)
  case 1
  then show ?case by (rule lb_attach_ok[OF assms]) auto
next
  case 2
  then have "p \<in> lb_all q" "p \<notin> lb_actives q" by auto
  then show ?case by (rule lb_activated_ok[OF assms]) auto
next
  case 3
  have lt: "lb_active q \<noteq> 0 \<Longrightarrow> lb_current q < length (items (lb_pipes q))"
    using assms by (auto simp: lb_ok_def)
  from 3 show ?case by (rule lb_terminated_ok[OF assms]) (use lt in auto)
qed

theorem lb_membership_witness:
  "\<exists>q'. lb_terminated 8 \<lparr>lb_pipes = \<lparr>items = [7, 8 :: nat], array_index = (\<lambda>p. int p - 7)\<rparr>,
     lb_active = 2, lb_current = 1, lb_more = True, lb_dropping = False\<rparr> = Some q' \<and>
     lb_dropping q' \<and> lb_all q' = {7}"
proof -
  let ?q = "\<lparr>lb_pipes = \<lparr>items = [7, 8 :: nat], array_index = (\<lambda>p. int p - 7)\<rparr>,
     lb_active = 2, lb_current = 1, lb_more = True, lb_dropping = False\<rparr>"
  have "lb_ok ?q" by (simp add: lb_ok_def array_ok_def less_Suc_eq all_conj_distrib numeral_2_eq_2)
  from lb_membership[OF this, of 8] show ?thesis by auto
qed

end
