(* ===== verification/Dist.thy ===== *)
theory Dist
  imports Load_Balancer
begin

text \<open>
  Distribution of messages to many outbound pipes: \<open>dist_t\<close> of \<open>dist.hpp\<close> and \<open>dist.cpp\<close>. The pipe
  array has three nested prefixes: \<open>matching\<close> (the pipes the next message goes to), \<open>active\<close> (the pipes
  messages can be sent to now) and \<open>eligible\<close> (also the pipes that joined in the middle of a multipart
  message). The pipe methods are passed in as for the load balancer.
\<close>

section \<open>State and operations\<close>

record 'p dist_t =
  di_pipes :: "'p array_t"
  di_matching :: nat
  di_active :: nat
  di_eligible :: nat
  di_more :: bool

definition dist_init :: "'p dist_t" where
  "dist_init = \<lparr>di_pipes = array_init, di_matching = 0, di_active = 0, di_eligible = 0,
     di_more = False\<rparr>"

definition dist_attach :: "'p \<Rightarrow> 'p dist_t \<Rightarrow> 'p dist_t option" where
  "dist_attach p d =
     (let a = array_push_back p (di_pipes d) in
      if di_more d then do {
        a \<leftarrow> array_swap (di_eligible d) (array_size a - 1) a;
        Some (d\<lparr>di_pipes := a, di_eligible := di_eligible d + 1\<rparr>) }
      else do {
        a \<leftarrow> array_swap (di_active d) (array_size a - 1) a;
        Some (d\<lparr>di_pipes := a, di_active := di_active d + 1, di_eligible := di_eligible d + 1\<rparr>) })"

definition dist_match :: "'p \<Rightarrow> 'p dist_t \<Rightarrow> 'p dist_t option" where
  "dist_match p d = do {
     index \<leftarrow> array_pos p (di_pipes d);
     if index < di_matching d then Some d
     else if di_eligible d \<le> index then Some d
     else do {
       a \<leftarrow> array_swap index (di_matching d) (di_pipes d);
       Some (d\<lparr>di_pipes := a, di_matching := di_matching d + 1\<rparr>) } }"

definition dist_unmatch :: "'p dist_t \<Rightarrow> 'p dist_t" where
  "dist_unmatch d = d\<lparr>di_matching := 0\<rparr>"

definition dist_terminated :: "'p \<Rightarrow> 'p dist_t \<Rightarrow> 'p dist_t option" where
  "dist_terminated p d = do {
     index \<leftarrow> array_pos p (di_pipes d);
     a \<leftarrow> array_erase p (di_pipes d);
     Some (d\<lparr>di_pipes := a,
             di_matching := (if index < di_matching d then di_matching d - 1 else di_matching d),
             di_active := (if index < di_active d then di_active d - 1 else di_active d),
             di_eligible := (if index < di_eligible d then di_eligible d - 1 else di_eligible d)\<rparr>) }"

definition dist_activated :: "'p \<Rightarrow> 'p dist_t \<Rightarrow> 'p dist_t option" where
  "dist_activated p d = do {
     index \<leftarrow> array_pos p (di_pipes d);
     a \<leftarrow> array_swap index (di_eligible d) (di_pipes d);
     let d = d\<lparr>di_pipes := a, di_eligible := di_eligible d + 1\<rparr>;
     if di_more d then Some d
     else do {
       a \<leftarrow> array_swap (di_eligible d - 1) (di_active d) (di_pipes d);
       Some (d\<lparr>di_pipes := a, di_active := di_active d + 1\<rparr>) } }"

text \<open>
  \<open>write\<close>: on failure the pipe leaves the matching, the active and the eligible pipes. The counters
  are unsigned: a decrement of a zero counter would index the array out of range.
\<close>

definition dist_write ::
    "('p \<Rightarrow> frame \<Rightarrow> 's \<Rightarrow> (bool \<times> 's) option) \<Rightarrow> ('p \<Rightarrow> 's \<Rightarrow> 's option) \<Rightarrow> 'p \<Rightarrow> frame \<Rightarrow> 'p dist_t \<Rightarrow> 's \<Rightarrow>
     ('p dist_t \<times> 's \<times> bool) option" where
  "dist_write wr fl p m d s =
     (case wr p m s of
        None \<Rightarrow> None
      | Some (False, s') \<Rightarrow>
          if di_matching d = 0 \<or> di_active d = 0 \<or> di_eligible d = 0 then None
          else do {
            i \<leftarrow> array_pos p (di_pipes d);
            a \<leftarrow> array_swap i (di_matching d - 1) (di_pipes d);
            i \<leftarrow> array_pos p a;
            a \<leftarrow> array_swap i (di_active d - 1) a;
            a \<leftarrow> array_swap (di_active d - 1) (di_eligible d - 1) a;
            Some (d\<lparr>di_pipes := a, di_matching := di_matching d - 1,
                    di_active := di_active d - 1, di_eligible := di_eligible d - 1\<rparr>, s', False) }
      | Some (True, s') \<Rightarrow>
          if frame_more m then Some (d, s', True)
          else do { s'' \<leftarrow> fl p s'; Some (d, s'', True) })"

text \<open>
  The loop of \<open>distribute\<close>. A failed write swaps another pipe to position \<open>i\<close>, so the position is
  retried. The result also counts the failures; the loop ends because every round either advances
  \<open>i\<close> or shrinks \<open>matching\<close>.
\<close>

lemma dist_write_matching:
  "dist_write wr fl p m d s = Some (d', s', ok) \<Longrightarrow>
   di_matching d' = (if ok then di_matching d else di_matching d - 1) \<and> (\<not> ok \<longrightarrow> di_matching d \<noteq> 0)"
  by (auto simp: dist_write_def bind_eq_Some split: option.splits prod.splits bool.splits if_splits)

function dist_loop ::
    "('p \<Rightarrow> frame \<Rightarrow> 's \<Rightarrow> (bool \<times> 's) option) \<Rightarrow> ('p \<Rightarrow> 's \<Rightarrow> 's option) \<Rightarrow> frame \<Rightarrow> nat \<Rightarrow> int \<Rightarrow> 'p dist_t \<Rightarrow> 's \<Rightarrow>
     ('p dist_t \<times> 's \<times> int) option" where
  "dist_loop wr fl m i failed d s =
     (if i < di_matching d then
        (case array_get (di_pipes d) i of
           None \<Rightarrow> None
         | Some p \<Rightarrow>
            (case dist_write wr fl p m d s of
               None \<Rightarrow> None
             | Some (d', s', True) \<Rightarrow> dist_loop wr fl m (i + 1) failed d' s'
             | Some (d', s', False) \<Rightarrow> dist_loop wr fl m i (failed + 1) d' s'))
      else Some (d, s, failed))"
  by pat_completeness auto
termination
  by (relation "measure (\<lambda>(wr, fl, m, i, failed, d, s). di_matching d - i)")
    (auto dest!: dist_write_matching)

declare dist_loop.simps [simp del]

text \<open>
  \<open>distribute\<close>. A long message gets \<open>matching - 1\<close> additional references before the loop and gives
  back one per failed write; the last two components of the result are these two numbers.
\<close>

definition dist_distribute ::
    "('p \<Rightarrow> frame \<Rightarrow> 's \<Rightarrow> (bool \<times> 's) option) \<Rightarrow> ('p \<Rightarrow> 's \<Rightarrow> 's option) \<Rightarrow> frame \<Rightarrow> 'p dist_t \<Rightarrow> 's \<Rightarrow>
     ('p dist_t \<times> 's \<times> int \<times> int) option" where
  "dist_distribute wr fl m d s =
     (if di_matching d = 0 then Some (d, s, 0, 0)
      else do {
        let added = int (di_matching d) - 1;
        (d, s, failed) \<leftarrow> dist_loop wr fl m 0 0 d s;
        Some (d, s, added, failed) })"

definition dist_send_to_matching ::
    "('p \<Rightarrow> frame \<Rightarrow> 's \<Rightarrow> (bool \<times> 's) option) \<Rightarrow> ('p \<Rightarrow> 's \<Rightarrow> 's option) \<Rightarrow> frame \<Rightarrow> 'p dist_t \<Rightarrow> 's \<Rightarrow>
     ('p dist_t \<times> 's) option" where
  "dist_send_to_matching wr fl m d s = do {
     (d, s, _) \<leftarrow> dist_distribute wr fl m d s;
     Some (d\<lparr>di_active := (if frame_more m then di_active d else di_eligible d),
             di_more := frame_more m\<rparr>, s) }"

definition dist_send_to_all ::
    "('p \<Rightarrow> frame \<Rightarrow> 's \<Rightarrow> (bool \<times> 's) option) \<Rightarrow> ('p \<Rightarrow> 's \<Rightarrow> 's option) \<Rightarrow> frame \<Rightarrow> 'p dist_t \<Rightarrow> 's \<Rightarrow>
     ('p dist_t \<times> 's) option" where
  "dist_send_to_all wr fl m d s =
     dist_send_to_matching wr fl m (d\<lparr>di_matching := di_active d\<rparr>) s"

definition dist_has_out :: "'p dist_t \<Rightarrow> bool" where
  "dist_has_out d = True"

section \<open>The invariant\<close>

definition dist_ok :: "'p dist_t \<Rightarrow> bool" where
  "dist_ok d \<longleftrightarrow> array_ok (di_pipes d) \<and> di_matching d \<le> di_active d \<and>
     di_active d \<le> di_eligible d \<and> di_eligible d \<le> length (items (di_pipes d)) \<and>
     (\<not> di_more d \<longrightarrow> di_active d = di_eligible d)"

abbreviation dist_all :: "'p dist_t \<Rightarrow> 'p set" where
  "dist_all d \<equiv> set (items (di_pipes d))"

definition matching_set :: "'p dist_t \<Rightarrow> 'p set" where
  "matching_set d = prefix_set (di_matching d) (di_pipes d)"

definition active_set :: "'p dist_t \<Rightarrow> 'p set" where
  "active_set d = prefix_set (di_active d) (di_pipes d)"

definition eligible_set :: "'p dist_t \<Rightarrow> 'p set" where
  "eligible_set d = prefix_set (di_eligible d) (di_pipes d)"

lemmas dist_sets = matching_set_def active_set_def eligible_set_def

lemma dist_ok_init [simp]: "dist_ok dist_init"
  by (simp add: dist_ok_def dist_init_def array_init_def array_ok_def)

lemma prefix_set_mono: "n \<le> k \<Longrightarrow> prefix_set n a \<subseteq> prefix_set k a"
  by (simp add: prefix_set_def set_take_subset_set_take)

text \<open>The three swaps of a failed write, on the list of pipes.\<close>

lemma swap3_prefixes:
  assumes d: "distinct xs" and i: "i < k" and le: "k \<le> n" "n \<le> e" "e \<le> length xs"
  defines "ys \<equiv> swap_at (swap_at (swap_at xs i (k - 1)) (k - 1) (n - 1)) (n - 1) (e - 1)"
  shows "set (take (k - 1) ys) = set (take k xs) - {xs ! i}"
    and "set (take (n - 1) ys) = set (take n xs) - {xs ! i}"
    and "set (take (e - 1) ys) = set (take e xs) - {xs ! i}"
    and "take i ys = take i xs" "set ys = set xs" "length ys = length xs"
proof -
  let ?x1 = "swap_at xs i (k - 1)"
  let ?x2 = "swap_at ?x1 (k - 1) (n - 1)"
  have b: "i \<le> k - 1" "k - 1 \<le> n - 1" "n - 1 \<le> e - 1" "Suc (k - 1) = k" "Suc (n - 1) = n"
    "Suc (e - 1) = e" "k - 1 < length xs" "n - 1 < length xs" "e - 1 < length xs" "i < length xs"
    using i le by auto
  have d1: "distinct ?x1" and d2: "distinct ?x2" using d b by simp_all
  have p1: "?x1 ! (k - 1) = xs ! i" and p2: "?x2 ! (n - 1) = xs ! i"
    using b by (simp_all add: nth_swap_at)
  have "set (take (k - 1) ?x1) = set (take k xs) - {xs ! i}"
    using set_take_pred_swap_at[OF d b(1,7)] b(4) by simp
  then show "set (take (k - 1) ys) = set (take k xs) - {xs ! i}"
    using b by (simp add: ys_def set_take_swap_at_outside)
  have "set (take (n - 1) ?x2) = set (take n ?x1) - {xs ! i}"
    using set_take_pred_swap_at[OF d1 b(2)] b p1 by simp
  moreover have "set (take n ?x1) = set (take n xs)"
    using set_take_swap_at_inside[of i n "k - 1" xs] b i le by simp
  ultimately show "set (take (n - 1) ys) = set (take n xs) - {xs ! i}"
    using b by (simp add: ys_def set_take_swap_at_outside)
  have "set (take (e - 1) ys) = set (take e ?x2) - {xs ! i}"
    using set_take_pred_swap_at[OF d2 b(3)] b p2 by (simp add: ys_def)
  moreover have "set (take e ?x2) = set (take e ?x1)" "set (take e ?x1) = set (take e xs)"
    using set_take_swap_at_inside[of "k - 1" e "n - 1" ?x1]
      set_take_swap_at_inside[of i e "k - 1" xs] b i le by simp_all
  ultimately show "set (take (e - 1) ys) = set (take e xs) - {xs ! i}" by simp
  show "take i ys = take i xs" using b by (simp add: ys_def set_take_swap_at_outside)
  show "set ys = set xs" "length ys = length xs" using b by (simp_all add: ys_def)
qed

lemma dist_write_fail:
  assumes ok: "dist_ok d" and i: "i < di_matching d" and w: "wr (items (di_pipes d) ! i) m s = Some (False, s')"
  obtains d' where "dist_write wr fl (items (di_pipes d) ! i) m d s = Some (d', s', False)"
    "dist_ok d'" "di_matching d' = di_matching d - 1"
    "matching_set d' = matching_set d - {items (di_pipes d) ! i}"
    "active_set d' = active_set d - {items (di_pipes d) ! i}"
    "eligible_set d' = eligible_set d - {items (di_pipes d) ! i}"
    "take i (items (di_pipes d')) = take i (items (di_pipes d))"
    "dist_all d' = dist_all d" "di_more d' = di_more d"
proof -
  let ?a = "di_pipes d" and ?p = "items (di_pipes d) ! i"
  let ?k = "di_matching d" and ?n = "di_active d" and ?e = "di_eligible d"
  have aok: "array_ok ?a" and le: "?k \<le> ?n" "?n \<le> ?e" "?e \<le> length (items ?a)"
    using ok by (auto simp: dist_ok_def)
  have b: "i < length (items ?a)" "?k - 1 < length (items ?a)" "?n - 1 < length (items ?a)"
    "?e - 1 < length (items ?a)" using i le by auto
  obtain a1 where a1: "array_swap i (?k - 1) ?a = Some a1" "array_ok a1"
    "items a1 = swap_at (items ?a) i (?k - 1)" using aok b(1,2) by (rule array_swapE)
  have p1: "items a1 ! (?k - 1) = ?p" using a1(3) b by (simp add: nth_swap_at)
  have l1: "?k - 1 < length (items a1)" "?n - 1 < length (items a1)" using a1(3) b by auto
  have pos1: "array_pos ?p a1 = Some (?k - 1)" using array_pos_nth[OF a1(2) l1(1)] p1 by simp
  obtain a2 where a2: "array_swap (?k - 1) (?n - 1) a1 = Some a2" "array_ok a2"
    "items a2 = swap_at (items a1) (?k - 1) (?n - 1)" using a1(2) l1 by (rule array_swapE)
  have l2: "?n - 1 < length (items a2)" "?e - 1 < length (items a2)" using a1(3) a2(3) b by auto
  obtain a3 where a3: "array_swap (?n - 1) (?e - 1) a2 = Some a3" "array_ok a3"
    "items a3 = swap_at (items a2) (?n - 1) (?e - 1)" using a2(2) l2 by (rule array_swapE)
  note sets = swap3_prefixes[OF array_okD(1)[OF aok] i le, folded a1(3), folded a2(3), folded a3(3)]
  let ?d = "d\<lparr>di_pipes := a3, di_matching := ?k - 1, di_active := ?n - 1, di_eligible := ?e - 1\<rparr>"
  have "dist_write wr fl ?p m d s = Some (?d, s', False)"
    using w i le array_pos_nth[OF aok b(1)] a1(1) pos1 a2(1) a3(1) by (simp add: dist_write_def)
  moreover have "dist_ok ?d"
    using ok i a3(2) sets(6) by (auto simp: dist_ok_def)
  moreover have "matching_set ?d = matching_set d - {?p}" "active_set ?d = active_set d - {?p}"
    "eligible_set ?d = eligible_set d - {?p}"
    using sets(1,2,3) by (simp_all add: dist_sets prefix_set_def)
  ultimately show ?thesis using sets(4,5) by (intro that[of ?d]) auto
qed

section \<open>Distribution\<close>

text \<open>
  The effect of the loop on a set \<open>T\<close> of target pipes: the writable ones get the frame (and are
  flushed at the end of a message), the others leave all three prefixes and are counted.
\<close>

context outbound
begin

definition delivered ::
    "frame \<Rightarrow> 'p set \<Rightarrow> 's \<Rightarrow> 's \<Rightarrow> bool" where
  "delivered m T s s' \<longleftrightarrow> valid s' = valid s \<and>
     (\<forall>p. out s' p = (if p \<in> T \<and> writable s p then out s p @ [m] else out s p)) \<and>
     (\<forall>p. flushed s' p =
        (if p \<in> T \<and> writable s p \<and> \<not> frame_more m then out s p @ [m] else flushed s p)) \<and>
     (\<forall>p. p \<notin> T \<longrightarrow> writable s' p = writable s p) \<and>
     (frame_more m \<longrightarrow> (\<forall>p \<in> T. writable s' p = writable s p))"

definition dropped :: "'p set \<Rightarrow> 's \<Rightarrow> 'p dist_t \<Rightarrow> 'p dist_t \<Rightarrow> bool" where
  "dropped T s d d' \<longleftrightarrow> dist_ok d' \<and> dist_all d' = dist_all d \<and> di_more d' = di_more d \<and>
     matching_set d' = matching_set d - {p \<in> T. \<not> writable s p} \<and>
     active_set d' = active_set d - {p \<in> T. \<not> writable s p} \<and>
     eligible_set d' = eligible_set d - {p \<in> T. \<not> writable s p}"

definition targets :: "nat \<Rightarrow> 'p dist_t \<Rightarrow> 'p set" where
  "targets i d = matching_set d - set (take i (items (di_pipes d)))"

lemma targets_step:
  assumes ok: "dist_ok d" and i: "i < di_matching d"
  defines "p \<equiv> items (di_pipes d) ! i"
  shows "p \<in> targets i d" "targets (Suc i) d = targets i d - {p}" "p \<in> dist_all d"
proof -
  let ?xs = "items (di_pipes d)"
  have len: "i < length ?xs" "di_matching d \<le> length ?xs" and aok: "array_ok (di_pipes d)"
    using ok i by (auto simp: dist_ok_def)
  have "p \<in> matching_set d" using i len by (simp add: matching_set_def p_def prefix_set_nth)
  moreover have "p \<notin> set (take i ?xs)"
    using prefix_set_pos[OF aok _ len(1), of i] len by (simp add: prefix_set_def p_def)
  ultimately show "p \<in> targets i d" by (simp add: targets_def)
  show "targets (Suc i) d = targets i d - {p}"
    using len by (auto simp: targets_def p_def take_Suc_conv_app_nth)
  show "p \<in> dist_all d" using len by (simp add: p_def)
qed

lemma write_full_pipe:
  assumes "valid s p" "writable s p"
  obtains s1 s2 where "wr p m s = Some (True, s1)" "(if frame_more m then Some s1 else fl p s1) = Some s2"
    "delivered m {p} s s2"
proof -
  obtain s' where s': "wr p m s = Some (True, s')" "out s' = (out s)(p := out s p @ [m])"
    "flushed s' = flushed s" "valid s' = valid s" "\<forall>r. r \<noteq> p \<longrightarrow> writable s' r = writable s r"
    "frame_more m \<longrightarrow> writable s' p"
    using wr_ok[OF assms] by blast
  show ?thesis
  proof (cases "frame_more m")
    case True
    then show ?thesis using s' assms by (intro that[of s' s']) (simp_all add: delivered_def)
  next
    case False
    then have "whole (out s' p)" using s'(2) by (simp add: whole_def)
    moreover have "valid s' p" using s'(4) assms(1) by simp
    ultimately obtain s'' where "fl p s' = Some s''" "out s'' = out s'"
      "flushed s'' = (flushed s')(p := out s' p)" "valid s'' = valid s'" "writable s'' = writable s'"
      using fl_all by blast
    with s' assms False show ?thesis by (intro that[of s' s'']) (simp_all add: delivered_def)
  qed
qed

lemma delivered_step:
  assumes "delivered m {p} s s1" "delivered m (T - {p}) s1 s2" "writable s p" "p \<in> T"
  shows "delivered m T s s2"
  using assms unfolding delivered_def by (auto split: if_splits)

theorem dist_loop_correct:
  assumes "dist_ok d" "\<forall>p \<in> dist_all d. valid s p" "i \<le> di_matching d"
  shows "\<exists>d' s'. dist_loop wr fl m i f d s =
      Some (d', s', f + int (card {p \<in> targets i d. \<not> writable s p})) \<and>
    delivered m (targets i d) s s' \<and> dropped (targets i d) s d d'"
  using assms
proof (induction "di_matching d - i" arbitrary: i f d s)
  case 0
  then have i: "i = di_matching d" by simp
  then have "targets i d = {}" by (simp add: targets_def matching_set_def prefix_set_def)
  moreover have "dist_loop wr fl m i f d s = Some (d, s, f)"
    using i by (subst dist_loop.simps) simp
  ultimately show ?case using 0 by (auto simp: delivered_def dropped_def)
next
  case (Suc k)
  let ?p = "items (di_pipes d) ! i"
  have i: "i < di_matching d" using Suc.hyps by simp
  have get: "array_get (di_pipes d) i = Some ?p"
    using i Suc.prems(1) by (simp add: array_get_def dist_ok_def)
  note t = targets_step[OF Suc.prems(1) i]
  have v: "valid s ?p" using Suc.prems(2) t(3) by blast
  have fin: "finite (targets j e)" for j e
    by (rule finite_subset[of _ "set (items (di_pipes e))"])
      (use prefix_set_sub[of "di_matching e" "di_pipes e"] in \<open>auto simp: targets_def matching_set_def\<close>)
  show ?case
  proof (cases "writable s ?p")
    case True
    obtain s1 s2 where s1: "wr ?p m s = Some (True, s1)" "delivered m {?p} s s2"
      and s2: "(if frame_more m then Some s1 else fl ?p s1) = Some s2"
      using v True by (rule write_full_pipe)
    have w: "dist_write wr fl ?p m d s = Some (d, s2, True)"
      using s1(1) s2 by (simp add: dist_write_def split: if_splits)
    have step: "dist_loop wr fl m i f d s = dist_loop wr fl m (i + 1) f d s2"
      using i get w by (simp add: dist_loop.simps[of wr fl m i f d s])
    have val: "\<forall>p \<in> dist_all d. valid s2 p"
      using Suc.prems(2) s1(2) by (simp add: delivered_def)
    have k: "k = di_matching d - (i + 1)" using Suc.hyps by simp
    have le: "i + 1 \<le> di_matching d" using i by simp
    have same: "writable s2 p = writable s p" if "p \<noteq> ?p" for p
      using s1(2) that by (simp add: delivered_def)
    obtain d' s' where ih: "dist_loop wr fl m (i + 1) f d s2 =
        Some (d', s', f + int (card {p \<in> targets (i + 1) d. \<not> writable s2 p}))"
      "delivered m (targets (i + 1) d) s2 s'" "dropped (targets (i + 1) d) s2 d d'"
      using Suc.hyps(1)[OF k Suc.prems(1) val le] by blast
    have eq: "{p \<in> targets (i + 1) d. \<not> writable s2 p} = {p \<in> targets i d. \<not> writable s p}"
      using t(2) same True by auto
    have "delivered m (targets i d) s s'"
      using delivered_step[OF _ _ True t(1)] s1(2) ih(2) t(2) by simp
    moreover have "dropped (targets i d) s d d'" using ih(3) eq by (simp add: dropped_def)
    ultimately show ?thesis using step ih(1) eq by auto
  next
    case False
    obtain s1 where s1: "wr ?p m s = Some (False, s1)" "out s1 = out s" "flushed s1 = flushed s"
      "valid s1 = valid s" "writable s1 = writable s"
      using wr_full[OF v False] by blast
    obtain d1 where d1: "dist_write wr fl ?p m d s = Some (d1, s1, False)" "dist_ok d1"
      "di_matching d1 = di_matching d - 1" "matching_set d1 = matching_set d - {?p}"
      "active_set d1 = active_set d - {?p}" "eligible_set d1 = eligible_set d - {?p}"
      "take i (items (di_pipes d1)) = take i (items (di_pipes d))"
      "dist_all d1 = dist_all d" "di_more d1 = di_more d"
      using Suc.prems(1) i s1(1) by (rule dist_write_fail)
    have step: "dist_loop wr fl m i f d s = dist_loop wr fl m i (f + 1) d1 s1"
      using i get d1(1) by (simp add: dist_loop.simps[of wr fl m i f d s])
    have k: "k = di_matching d1 - i" "i \<le> di_matching d1" using Suc.hyps d1(3) i by auto
    have val: "\<forall>p \<in> dist_all d1. valid s1 p" using Suc.prems(2) d1(8) s1(4) by simp
    have T: "targets i d1 = targets i d - {?p}" using d1(4,7) by (auto simp: targets_def)
    obtain d' s' where ih: "dist_loop wr fl m i (f + 1) d1 s1 =
        Some (d', s', f + 1 + int (card {p \<in> targets i d1. \<not> writable s1 p}))"
      "delivered m (targets i d1) s1 s'" "dropped (targets i d1) s1 d1 d'"
      using Suc.hyps(1)[OF k(1) d1(2) val k(2)] by blast
    have eq: "{p \<in> targets i d. \<not> writable s p} = insert ?p {p \<in> targets i d1. \<not> writable s1 p}"
      "?p \<notin> {p \<in> targets i d1. \<not> writable s1 p}"
      using t(1) False s1(5) T by auto
    have "f + 1 + int (card {p \<in> targets i d1. \<not> writable s1 p}) =
        f + int (card {p \<in> targets i d. \<not> writable s p})"
      using eq fin[of i d1] by simp
    moreover have "delivered m (targets i d) s s'"
      using ih(2) s1 False T unfolding delivered_def by (auto split: if_splits)
    moreover have "dropped (targets i d) s d d'"
      using ih(3) d1 eq(1) s1(5) by (auto simp: dropped_def)
    ultimately show ?thesis using step ih(1) by auto
  qed
qed

text \<open>
  \<open>send_to_matching\<close>: every matching pipe that can take the frame gets it, the full ones leave all
  the prefixes; the number of references added to a long message and given back leaves one reference
  per pipe that got it.
\<close>

lemma distribute_correct:
  assumes "dist_ok d" "\<forall>p \<in> dist_all d. valid s p"
  shows "\<exists>d' s' added failed. dist_distribute wr fl m d s = Some (d', s', added, failed) \<and>
    delivered m (matching_set d) s s' \<and> dropped (matching_set d) s d d' \<and>
    (matching_set d \<noteq> {} \<longrightarrow> 1 + added - failed = int (card {p \<in> matching_set d. writable s p}))"
proof (cases "di_matching d = 0")
  case True
  then have "matching_set d = {}" by (simp add: matching_set_def prefix_set_def)
  with True assms show ?thesis
    by (auto simp: dist_distribute_def delivered_def dropped_def)
next
  case False
  have T: "targets 0 d = matching_set d" by (simp add: targets_def)
  obtain d' s' where l: "dist_loop wr fl m 0 0 d s =
      Some (d', s', int (card {p \<in> matching_set d. \<not> writable s p}))"
    "delivered m (matching_set d) s s'" "dropped (matching_set d) s d d'"
    using dist_loop_correct[OF assms, of 0 m 0] unfolding T by auto
  have fin: "finite (matching_set d)" by (simp add: matching_set_def prefix_set_def)
  have "card (matching_set d) = di_matching d"
    using assms(1) by (simp add: matching_set_def prefix_set_def dist_ok_def array_okD distinct_card)
  moreover have "card (matching_set d) =
      card {p \<in> matching_set d. writable s p} + card {p \<in> matching_set d. \<not> writable s p}"
    using fin by (subst card_Un_disjoint[symmetric]) (auto intro!: arg_cong[where f = card])
  ultimately have "1 + (int (di_matching d) - 1) - int (card {p \<in> matching_set d. \<not> writable s p}) =
      int (card {p \<in> matching_set d. writable s p})" by linarith
  then show ?thesis using l False by (simp add: dist_distribute_def)
qed

theorem send_to_matching_correct:
  assumes "dist_ok d" "\<forall>p \<in> dist_all d. valid s p"
  shows "\<exists>d' s'. dist_send_to_matching wr fl m d s = Some (d', s') \<and> dist_ok d' \<and>
    delivered m (matching_set d) s s' \<and> dist_all d' = dist_all d \<and> di_more d' = frame_more m \<and>
    eligible_set d' = eligible_set d - {p \<in> matching_set d. \<not> writable s p} \<and>
    active_set d' = (if frame_more m then active_set d - {p \<in> matching_set d. \<not> writable s p}
                     else eligible_set d') \<and>
    matching_set d' = {p \<in> matching_set d. writable s p}"
proof -
  obtain d' s' added failed where l: "dist_distribute wr fl m d s = Some (d', s', added, failed)"
    "delivered m (matching_set d) s s'" "dropped (matching_set d) s d d'"
    using distribute_correct[OF assms] by blast
  have "dist_ok (d'\<lparr>di_active := (if frame_more m then di_active d' else di_eligible d'),
      di_more := frame_more m\<rparr>)"
    using l(3) by (auto simp: dropped_def dist_ok_def)
  then show ?thesis using l by (auto simp: dist_send_to_matching_def dropped_def dist_sets)
qed

theorem send_to_all_correct:
  assumes "dist_ok d" "\<forall>p \<in> dist_all d. valid s p"
  shows "\<exists>d' s'. dist_send_to_all wr fl m d s = Some (d', s') \<and> dist_ok d' \<and>
    delivered m (active_set d) s s' \<and> dist_all d' = dist_all d \<and> di_more d' = frame_more m \<and>
    matching_set d' = {p \<in> active_set d. writable s p}"
proof -
  let ?d = "d\<lparr>di_matching := di_active d\<rparr>"
  have "dist_ok ?d" "\<forall>p \<in> dist_all ?d. valid s p" using assms by (auto simp: dist_ok_def)
  from send_to_matching_correct[OF this, of m] show ?thesis
    by (auto simp: dist_send_to_all_def dist_sets)
qed

end

section \<open>Membership\<close>

lemma dist_attach_ok:
  assumes ok: "dist_ok d" and p: "p \<notin> dist_all d"
  obtains d' where "dist_attach p d = Some d'" "dist_ok d'" "dist_all d' = insert p (dist_all d)"
    "matching_set d' = matching_set d" "eligible_set d' = insert p (eligible_set d)"
    "active_set d' = (if di_more d then active_set d else insert p (active_set d))"
proof -
  let ?a = "array_push_back p (di_pipes d)" and ?n = "length (items (di_pipes d))"
  have aok: "array_ok ?a" and it: "items ?a = items (di_pipes d) @ [p]"
    using ok p array_push_back_ok[of "di_pipes d" p] by (auto simp: dist_ok_def)
  have le: "di_matching d \<le> di_active d" "di_active d \<le> di_eligible d" "di_eligible d \<le> ?n"
    "\<not> di_more d \<Longrightarrow> di_active d = di_eligible d" using ok by (auto simp: dist_ok_def)
  have sw: "\<exists>b. array_swap e ?n ?a = Some b \<and> array_ok b \<and>
      set (items b) = insert p (dist_all d) \<and> length (items b) = Suc ?n \<and>
      (\<forall>k \<le> e. prefix_set k b = prefix_set k (di_pipes d)) \<and>
      prefix_set (Suc e) b = insert p (prefix_set e (di_pipes d))" if e: "e \<le> ?n" for e
  proof -
    have lt: "e < length (items ?a)" "?n < length (items ?a)" using e by (simp_all add: it)
    obtain b where b: "array_swap e ?n ?a = Some b" "array_ok b" "items b = swap_at (items ?a) e ?n"
      using aok lt by (rule array_swapE)
    have "set (take (Suc e) (items b)) = insert p (set (take e (items (di_pipes d))))"
      using set_take_Suc_swap_at[of e ?n "items ?a"] e b(3) by (simp add: it swap_at_commute)
    then show ?thesis using b e
      by (auto simp: prefix_set_def it set_take_swap_at_outside)
  qed
  show ?thesis
  proof (cases "di_more d")
    case True
    obtain b where "array_swap (di_eligible d) ?n ?a = Some b" "array_ok b"
      "set (items b) = insert p (dist_all d)" "length (items b) = Suc ?n"
      "\<forall>k \<le> di_eligible d. prefix_set k b = prefix_set k (di_pipes d)"
      "prefix_set (Suc (di_eligible d)) b = insert p (prefix_set (di_eligible d) (di_pipes d))"
      using sw[OF le(3)] by blast
    with True le show ?thesis
      by (intro that[of "d\<lparr>di_pipes := b, di_eligible := di_eligible d + 1\<rparr>"])
        (auto simp: dist_attach_def Let_def array_size_def it dist_ok_def dist_sets)
  next
    case False
    have e: "di_active d = di_eligible d" using le(4) False by simp
    obtain b where "array_swap (di_eligible d) ?n ?a = Some b" "array_ok b"
      "set (items b) = insert p (dist_all d)" "length (items b) = Suc ?n"
      "\<forall>k \<le> di_eligible d. prefix_set k b = prefix_set k (di_pipes d)"
      "prefix_set (Suc (di_eligible d)) b = insert p (prefix_set (di_eligible d) (di_pipes d))"
      using sw[OF le(3)] by blast
    with False le e show ?thesis
      by (intro that[of "d\<lparr>di_pipes := b, di_active := di_active d + 1,
            di_eligible := di_eligible d + 1\<rparr>"])
        (auto simp: dist_attach_def Let_def array_size_def it dist_ok_def dist_sets)
  qed
qed

lemma dist_match_ok:
  assumes ok: "dist_ok d" and p: "p \<in> dist_all d" and nm: "\<not> di_more d"
  obtains d' where "dist_match p d = Some d'" "dist_ok d'" "dist_all d' = dist_all d"
    "matching_set d' = (if p \<in> eligible_set d then insert p (matching_set d) else matching_set d)"
    "active_set d' = active_set d" "eligible_set d' = eligible_set d" "di_more d' = di_more d"
proof -
  let ?a = "di_pipes d" and ?k = "di_matching d"
  have aok: "array_ok ?a" and le: "?k \<le> di_active d" "di_active d = di_eligible d"
    "di_eligible d \<le> length (items ?a)" "?k \<le> length (items ?a)"
    using ok nm by (auto simp: dist_ok_def)
  obtain i where i: "array_pos p ?a = Some i" "i < length (items ?a)" "items ?a ! i = p"
    using aok p by (rule array_pos_in)
  have pe: "p \<in> eligible_set d \<longleftrightarrow> i < di_eligible d" and pm: "p \<in> matching_set d \<longleftrightarrow> i < ?k"
    using prefix_set_pos[OF aok _ i(2)] le i(3) by (auto simp: dist_sets)
  show ?thesis
  proof (cases "i < ?k \<or> di_eligible d \<le> i")
    case True
    then show ?thesis using ok i pe pm by (intro that[of d]) (auto simp: dist_match_def)
  next
    case False
    then have np: "p \<notin> prefix_set ?k ?a" using pm by (simp add: dist_sets)
    obtain j a' where a': "array_pos p ?a = Some j" "array_swap j ?k ?a = Some a'" "array_ok a'"
      "items a' = swap_at (items ?a) j ?k" "set (items a') = set (items ?a)"
      "prefix_set (Suc ?k) a' = insert p (prefix_set ?k ?a)"
      using aok p np le(4) by (rule array_activate)
    have j: "j = i" using a'(1) i(1) by simp
    have "prefix_set (di_eligible d) a' = prefix_set (di_eligible d) ?a"
      using False le a'(4) j set_take_swap_at_inside[of i "di_eligible d" ?k "items ?a"]
      by (simp add: prefix_set_def)
    then show ?thesis using False ok i a' le pe j
      by (intro that[of "d\<lparr>di_pipes := a', di_matching := ?k + 1\<rparr>"])
        (auto simp: dist_match_def dist_ok_def dist_sets)
  qed
qed

lemma dist_activated_ok:
  assumes ok: "dist_ok d" and p: "p \<in> dist_all d" "p \<notin> eligible_set d"
  obtains d' where "dist_activated p d = Some d'" "dist_ok d'" "dist_all d' = dist_all d"
    "matching_set d' = matching_set d" "eligible_set d' = insert p (eligible_set d)"
    "active_set d' = (if di_more d then active_set d else insert p (active_set d))"
proof -
  let ?a = "di_pipes d" and ?e = "di_eligible d"
  have aok: "array_ok ?a" and le: "di_matching d \<le> di_active d" "di_active d \<le> ?e"
    "?e \<le> length (items ?a)" and eq: "\<not> di_more d \<Longrightarrow> di_active d = ?e"
    using ok by (auto simp: dist_ok_def)
  have np: "p \<notin> prefix_set ?e ?a" using p by (simp add: dist_sets)
  obtain j a' where a': "array_pos p ?a = Some j" "array_swap j ?e ?a = Some a'" "array_ok a'"
    "?e < length (items ?a)" "?e \<le> j" "items a' = swap_at (items ?a) j ?e"
    "set (items a') = set (items ?a)" "prefix_set (Suc ?e) a' = insert p (prefix_set ?e ?a)"
    using aok p(1) np le(3) by (rule array_activate)
  have pre: "prefix_set k a' = prefix_set k ?a" if "k \<le> ?e" for k
    using that a'(5,6) by (simp add: prefix_set_def set_take_swap_at_outside)
  have len: "length (items a') = length (items ?a)" using a'(6) by simp
  show ?thesis
  proof (cases "di_more d")
    case True
    then show ?thesis using a' le pre len
      by (intro that[of "d\<lparr>di_pipes := a', di_eligible := ?e + 1\<rparr>"])
        (auto simp: dist_activated_def dist_ok_def dist_sets)
  next
    case False
    have lt: "?e < length (items a')" using a'(4) len by simp
    obtain b where b: "array_swap ?e ?e a' = Some b" "array_ok b" "items b = swap_at (items a') ?e ?e"
      using a'(3) lt lt by (rule array_swapE)
    have "items b = items a'" using b(3) lt by simp
    then show ?thesis using a' le pre len b False eq
      by (intro that[of "d\<lparr>di_pipes := b, di_active := ?e + 1, di_eligible := ?e + 1\<rparr>"])
        (auto simp: dist_activated_def dist_ok_def dist_sets prefix_set_def)
  qed
qed

text \<open>
  Removing a pipe moves the last pipe of the array to its position. A prefix that contains the
  position loses exactly that pipe only if the position was its last one or the prefix was the whole
  array.
\<close>

lemma prefix_set_erase:
  assumes d: "distinct xs" and i: "i < length xs" and n: "n \<le> length xs"
  defines "ys \<equiv> butlast (xs[i := last xs])"
  shows "set (take (if i < n then n - 1 else n) ys) = set (take n xs) - {xs ! i} \<longleftrightarrow>
    n \<le> Suc i \<or> n = length xs"
proof (cases "Suc i < n")
  case False
  have eq: "take k ys = take k xs" if "k \<le> i" for k
    using that i by (simp add: ys_def take_butlast_update)
  have "xs ! i \<notin> set (take k xs)" if "k \<le> i" for k
    using that d i by (auto simp: in_set_conv_nth nth_eq_iff_index_eq)
  moreover have "set (take (Suc i) xs) = insert (xs ! i) (set (take i xs))"
    using i by (simp add: take_Suc_conv_app_nth)
  ultimately have "set (take (if i < n then n - 1 else n) ys) = set (take n xs) - {xs ! i}"
    using False eq by (cases "n = Suc i") auto
  with False show ?thesis by simp
next
  case True
  have len: "n - 1 < length xs" "length ys = length xs - 1" using True n by (simp_all add: ys_def)
  show ?thesis
  proof (cases "n = length xs")
    case True
    then have "take (n - 1) ys = ys" using len by simp
    then show ?thesis using True set_butlast_update_last[OF d i] i by (simp add: ys_def)
  next
    case False
    have "xs ! (n - 1) \<in> set (take n xs) - {xs ! i}"
      using True n d by (auto simp: in_set_conv_nth nth_eq_iff_index_eq intro!: exI[of _ "n - 1"])
    moreover have "last xs \<noteq> xs ! (n - 1)"
    proof -
      have "xs \<noteq> []" "length xs - 1 \<noteq> n - 1" using True False n by auto
      with d n True show ?thesis by (simp add: last_conv_nth nth_eq_iff_index_eq)
    qed
    then have "xs ! (n - 1) \<notin> set (take (n - 1) ys)"
      using True False n d i by (auto simp: in_set_conv_nth ys_def nth_butlast nth_list_update
          nth_eq_iff_index_eq split: if_splits)
    ultimately show ?thesis using True False by auto
  qed
qed

lemma dist_terminated_ok:
  assumes ok: "dist_ok d" and i: "i < length (items (di_pipes d))" and p: "p = items (di_pipes d) ! i"
  obtains d' where "dist_terminated p d = Some d'" "dist_ok d'" "dist_all d' = dist_all d - {p}" "di_more d' = di_more d"
    "items (di_pipes d') = butlast ((items (di_pipes d))[i := last (items (di_pipes d))])"
    "di_matching d' = (if i < di_matching d then di_matching d - 1 else di_matching d)"
    "di_active d' = (if i < di_active d then di_active d - 1 else di_active d)"
    "di_eligible d' = (if i < di_eligible d then di_eligible d - 1 else di_eligible d)"
proof -
  let ?a = "di_pipes d" and ?dec = "\<lambda>n. if i < n then n - 1 else n"
  have aok: "array_ok ?a" using ok by (auto simp: dist_ok_def)
  obtain a' where a': "array_erase p ?a = Some a'" "array_ok a'"
    "items a' = butlast ((items ?a)[i := last (items ?a)])" "set (items a') = set (items ?a) - {p}"
    using aok i p[symmetric] by (rule array_eraseE)
  define d' where "d' = d\<lparr>di_pipes := a', di_matching := ?dec (di_matching d),
    di_active := ?dec (di_active d), di_eligible := ?dec (di_eligible d)\<rparr>"
  have "dist_terminated p d = Some d'"
    using array_pos_nth[OF aok i] a'(1) p by (simp add: dist_terminated_def d'_def)
  moreover have "dist_ok d'" using ok a'(2,3) i by (auto simp: dist_ok_def d'_def)
  ultimately show ?thesis using a'(3,4) by (intro that[of d']) (simp_all add: d'_def)
qed

section \<open>Properties\<close>

text \<open>
  Attaching, matching and activating a pipe are memory safe, keep the invariant of the three
  nested prefixes and change the sets of matching, active and eligible pipes by exactly that pipe. A
  pipe that arrives in the middle of a multipart message becomes eligible but not active, so it gets
  no tail of a message.
\<close>

theorem dist_membership:
  assumes "dist_ok d"
  shows "(p \<notin> dist_all d \<longrightarrow> (\<exists>d'. dist_attach p d = Some d' \<and> dist_ok d' \<and>
      dist_all d' = insert p (dist_all d) \<and> matching_set d' = matching_set d \<and>
      eligible_set d' = insert p (eligible_set d) \<and>
      active_set d' = (if di_more d then active_set d else insert p (active_set d)))) \<and>
    (p \<in> dist_all d \<and> \<not> di_more d \<longrightarrow> (\<exists>d'. dist_match p d = Some d' \<and> dist_ok d' \<and>
      active_set d' = active_set d \<and> eligible_set d' = eligible_set d \<and>
      matching_set d' =
        (if p \<in> eligible_set d then insert p (matching_set d) else matching_set d))) \<and>
    (p \<in> dist_all d - eligible_set d \<longrightarrow> (\<exists>d'. dist_activated p d = Some d' \<and> dist_ok d' \<and>
      dist_all d' = dist_all d \<and> matching_set d' = matching_set d \<and>
      eligible_set d' = insert p (eligible_set d) \<and>
      active_set d' = (if di_more d then active_set d else insert p (active_set d))))"
proof (intro conjI impI, goal_cases)
  case 1
  show ?case by (rule dist_attach_ok[OF assms 1]) auto
next
  case 2
  then have "p \<in> dist_all d" "\<not> di_more d" by auto
  then show ?case by (rule dist_match_ok[OF assms]) auto
next
  case 3
  then have "p \<in> dist_all d" "p \<notin> eligible_set d" by auto
  then show ?case by (rule dist_activated_ok[OF assms]) auto
qed

theorem dist_membership_witness:
  "\<exists>d1 d2. dist_attach (5 :: nat) dist_init = Some d1 \<and> dist_match 5 d1 = Some d2 \<and>
     matching_set d2 = {5}"
proof -
  have e: "dist_all dist_init = ({} :: nat set)" "matching_set dist_init = ({} :: nat set)"
    "eligible_set dist_init = ({} :: nat set)"
    by (simp_all add: dist_init_def array_init_def dist_sets prefix_set_def)
  then have "(5 :: nat) \<notin> dist_all dist_init" by simp
  from dist_membership[OF dist_ok_init, THEN conjunct1, rule_format, OF this] obtain d1 where
    d1: "dist_attach (5 :: nat) dist_init = Some d1" "dist_ok d1" "dist_all d1 = {5}"
    "matching_set d1 = {}" "eligible_set d1 = {5}"
    unfolding e by (elim exE conjE)
  have "\<not> di_more d1" using d1(1)
    by (auto simp: dist_attach_def dist_init_def bind_eq_Some Let_def split: if_splits)
  then have "5 \<in> dist_all d1 \<and> \<not> di_more d1" using d1 by simp
  from dist_membership[OF d1(2), THEN conjunct2, THEN conjunct1, rule_format, OF this] d1
  show ?thesis by auto
qed

text \<open>
  what \<open>terminated\<close> does to the prefixes. The pipe at position \<open>i\<close> is removed and the invariant is
  kept, but a prefix that contained it loses exactly that pipe if and only if the pipe was the last
  one of the prefix or the prefix was the whole array; otherwise the last pipe of the prefix drops
  out of it too and the last pipe of the array, which was not in the prefix, becomes part of it.
\<close>

theorem dist_terminated_prefixes:
  assumes ok: "dist_ok d" and i: "i < length (items (di_pipes d))" and p: "p = items (di_pipes d) ! i"
  shows "\<exists>d'. dist_terminated p d = Some d' \<and> dist_ok d' \<and> dist_all d' = dist_all d - {p} \<and>
    (matching_set d' = matching_set d - {p} \<longleftrightarrow>
       di_matching d \<le> Suc i \<or> di_matching d = length (items (di_pipes d))) \<and>
    (active_set d' = active_set d - {p} \<longleftrightarrow>
       di_active d \<le> Suc i \<or> di_active d = length (items (di_pipes d))) \<and>
    (eligible_set d' = eligible_set d - {p} \<longleftrightarrow>
       di_eligible d \<le> Suc i \<or> di_eligible d = length (items (di_pipes d)))"
proof -
  obtain d' where d': "dist_terminated p d = Some d'" "dist_ok d'" "dist_all d' = dist_all d - {p}" "di_more d' = di_more d"
    "items (di_pipes d') = butlast ((items (di_pipes d))[i := last (items (di_pipes d))])"
    "di_matching d' = (if i < di_matching d then di_matching d - 1 else di_matching d)"
    "di_active d' = (if i < di_active d then di_active d - 1 else di_active d)"
    "di_eligible d' = (if i < di_eligible d then di_eligible d - 1 else di_eligible d)"
    using assms by (rule dist_terminated_ok)
  have le: "di_matching d \<le> length (items (di_pipes d))" "di_active d \<le> length (items (di_pipes d))"
    "di_eligible d \<le> length (items (di_pipes d))" "distinct (items (di_pipes d))"
    using ok by (auto simp: dist_ok_def array_okD)
  note pre = prefix_set_erase[OF le(4) i, folded d'(5) p]
  show ?thesis using pre[OF le(1)] pre[OF le(2)] pre[OF le(3)] d'(1,2,3)
    by (intro exI[of _ d']) (simp add: dist_sets prefix_set_def d'(6,7,8))
qed

text \<open>
  Four pipes, three of them active and the last one full: after pipe 10 terminates, the full pipe 13
  is active and pipe 12, which is not full, has become passive.
\<close>

theorem dist_terminated_prefixes_witness:
  "let d = \<lparr>di_pipes = \<lparr>items = [10, 11, 12, 13 :: nat], array_index = (\<lambda>p. int p - 10)\<rparr>,
            di_matching = 0, di_active = 3, di_eligible = 3, di_more = False\<rparr> in
   \<exists>d'. dist_terminated 10 d = Some d' \<and> active_set d = {10, 11, 12} \<and>
     active_set d' \<noteq> active_set d - {10}"
proof -
  let ?d = "\<lparr>di_pipes = \<lparr>items = [10, 11, 12, 13 :: nat], array_index = (\<lambda>p. int p - 10)\<rparr>,
            di_matching = 0, di_active = 3, di_eligible = 3, di_more = False\<rparr>"
  have "dist_ok ?d"
    by (simp add: dist_ok_def array_ok_def less_Suc_eq eval_nat_numeral all_conj_distrib)
  from dist_terminated_prefixes[OF this, of 0 10] show ?thesis
    by (auto simp: Let_def active_set_def prefix_set_def eval_nat_numeral)
qed

end
