(* ===== verification/Pipe.thy ===== *)
theory Pipe
  imports Ypipe Fair_Queue Dist "HOL-Library.Signed_Division"
begin

text \<open>
  Message pipes: \<open>pipe_t\<close> and \<open>pipepair\<close> of \<open>pipe.hpp\<close> and \<open>pipe.cpp\<close>. A pipe object is one end of a
  bidirectional connection between a socket and a session or another socket. The state of the model
  is a heap of pipe objects, a heap of the channels (\<open>upipe_t\<close>, specified in \<open>Ypipe\<close>) they share, one
  queue of undelivered commands per pipe object (commands from one thread to another arrive in the
  order they were sent) and the log of events the sinks were notified of. Following a null or dangling
  pointer, sending a command to a deallocated pipe and failing an assertion are \<open>None\<close>. The addresses
  that \<open>new\<close> returns are arguments.
\<close>

section \<open>State\<close>

datatype pstate = Active | Delimited | Pending | Terminating | Terminated | Double_terminated

record pipe_t =
  inpipe :: nat
  outpipe :: "nat option"
  in_active :: bool
  out_active :: bool
  hwm :: int
  lwm :: int
  msgs_read :: uint64
  msgs_written :: uint64
  peers_msgs_read :: uint64
  peer :: "nat option"
  sink :: "nat option"
  state :: pstate
  delay :: bool
  identity :: bytes

datatype pipe_cmd =
    Activate_read | Activate_write uint64 | Hiccup nat | Pipe_term | Pipe_term_ack

datatype pipe_event = Read_activated | Write_activated | Hiccuped | Pipe_terminated

record world =
  pipes :: "nat \<rightharpoonup> pipe_t"
  upipes :: "nat \<rightharpoonup> frame chan"
  cmds :: "nat \<Rightarrow> pipe_cmd list"
  events :: "(nat \<times> pipe_event \<times> nat) list"

definition put_pipe :: "nat \<Rightarrow> pipe_t \<Rightarrow> world \<Rightarrow> world" where
  "put_pipe p x s = s\<lparr>pipes := (pipes s)(p \<mapsto> x)\<rparr>"

definition put_upipe :: "nat \<Rightarrow> frame chan \<Rightarrow> world \<Rightarrow> world" where
  "put_upipe c ch s = s\<lparr>upipes := (upipes s)(c \<mapsto> ch)\<rparr>"

text \<open>
  \<open>send_activate_read\<close> and its siblings of \<open>object.cpp\<close>: the thread of the destination is read from the
  destination object, so the object has to exist.
\<close>

definition send_cmd :: "nat option \<Rightarrow> pipe_cmd \<Rightarrow> world \<Rightarrow> world option" where
  "send_cmd dst c s = do {
     d \<leftarrow> dst;
     _ \<leftarrow> pipes s d;
     Some (s\<lparr>cmds := (cmds s)(d := cmds s d @ [c])\<rparr>) }"

definition notify :: "nat option \<Rightarrow> pipe_event \<Rightarrow> nat \<Rightarrow> world \<Rightarrow> world option" where
  "notify snk e p s = do { k \<leftarrow> snk; Some (s\<lparr>events := events s @ [(k, e, p)]\<rparr>) }"

section \<open>Creation\<close>

definition max_wm_delta :: int where
  "max_wm_delta = 1024"

definition compute_lwm :: "int \<Rightarrow> int" where
  "compute_lwm h = (if h > max_wm_delta * 2 then h - max_wm_delta else (h + 1) sdiv 2)"

definition pipe_init :: "nat \<Rightarrow> nat \<Rightarrow> int \<Rightarrow> int \<Rightarrow> bool \<Rightarrow> pipe_t" where
  "pipe_init inp outp inhwm outhwm dly =
     \<lparr>inpipe = inp, outpipe = Some outp, in_active = True, out_active = True, hwm = outhwm,
      lwm = compute_lwm inhwm, msgs_read = 0, msgs_written = 0, peers_msgs_read = 0, peer = None,
      sink = None, state = Active, delay = dly, identity = []\<rparr>"

definition pipe_set_peer :: "nat \<Rightarrow> nat \<Rightarrow> world \<Rightarrow> world option" where
  "pipe_set_peer q p s = do {
     x \<leftarrow> pipes s p;
     if peer x \<noteq> None then None else Some (put_pipe p (x\<lparr>peer := Some q\<rparr>) s) }"

definition pipe_set_event_sink :: "nat \<Rightarrow> nat \<Rightarrow> world \<Rightarrow> world option" where
  "pipe_set_event_sink k p s = do {
     x \<leftarrow> pipes s p;
     if sink x \<noteq> None then None else Some (put_pipe p (x\<lparr>sink := Some k\<rparr>) s) }"

definition pipe_set_identity :: "bytes \<Rightarrow> nat \<Rightarrow> world \<Rightarrow> world option" where
  "pipe_set_identity b p s = do { x \<leftarrow> pipes s p; Some (put_pipe p (x\<lparr>identity := b\<rparr>) s) }"

definition pipe_get_identity :: "nat \<Rightarrow> world \<Rightarrow> bytes option" where
  "pipe_get_identity p s = do { x \<leftarrow> pipes s p; Some (identity x) }"

definition new_upipe :: "nat \<Rightarrow> world \<Rightarrow> world option" where
  "new_upipe c s = (if upipes s c = None then Some (put_upipe c chan_empty s) else None)"

definition new_pipe :: "nat \<Rightarrow> pipe_t \<Rightarrow> world \<Rightarrow> world option" where
  "new_pipe p x s = (if pipes s p = None then Some (put_pipe p x s) else None)"

text \<open>\<open>p0\<close>, \<open>p1\<close> are the addresses of the two pipe objects, \<open>c1\<close>, \<open>c2\<close> those of the two channels.\<close>

definition pipepair ::
    "nat \<Rightarrow> nat \<Rightarrow> nat \<Rightarrow> nat \<Rightarrow> int \<times> int \<Rightarrow> bool \<times> bool \<Rightarrow> world \<Rightarrow> world option" where
  "pipepair p0 p1 c1 c2 hwms delays s = do {
     s \<leftarrow> new_upipe c1 s;
     s \<leftarrow> new_upipe c2 s;
     s \<leftarrow> new_pipe p0 (pipe_init c1 c2 (snd hwms) (fst hwms) (fst delays)) s;
     s \<leftarrow> new_pipe p1 (pipe_init c2 c1 (fst hwms) (snd hwms) (snd delays)) s;
     s \<leftarrow> pipe_set_peer p1 p0 s;
     pipe_set_peer p0 p1 s }"

section \<open>Reading\<close>

definition pipe_delimit :: "nat \<Rightarrow> world \<Rightarrow> world option" where
  "pipe_delimit p s = do {
     x \<leftarrow> pipes s p;
     (case state x of
        Active \<Rightarrow> Some (put_pipe p (x\<lparr>state := Delimited\<rparr>) s)
      | Pending \<Rightarrow> do {
          s \<leftarrow> send_cmd (peer x) Pipe_term_ack s;
          Some (put_pipe p (x\<lparr>outpipe := None, state := Terminating\<rparr>) s) }
      | _ \<Rightarrow> None) }"

definition can_read :: "pipe_t \<Rightarrow> bool" where
  "can_read x \<longleftrightarrow> in_active x \<and> (state x = Active \<or> state x = Pending)"

definition pipe_check_read :: "nat \<Rightarrow> world \<Rightarrow> (bool \<times> world) option" where
  "pipe_check_read p s = do {
     x \<leftarrow> pipes s p;
     if \<not> can_read x then Some (False, s)
     else do {
       ch \<leftarrow> upipes s (inpipe x);
       let (ch, ok) = chan_check_read ch;
       if \<not> ok then Some (False, put_pipe p (x\<lparr>in_active := False\<rparr>) (put_upipe (inpipe x) ch s))
       else do {
         (ch, d) \<leftarrow> chan_probe fdelim ch;
         if d then
           (case chan_read ch of
              (ch, Some m) \<Rightarrow> do { s \<leftarrow> pipe_delimit p (put_upipe (inpipe x) ch s); Some (False, s) }
            | (ch, None) \<Rightarrow> None)
         else Some (True, put_upipe (inpipe x) ch s) } } }"

text \<open>
  The peer is told how many messages were read whenever that number is a multiple of the low
  watermark. The code tests this after every frame, also after one that is not the last of its message.
\<close>

definition pipe_read :: "nat \<Rightarrow> world \<Rightarrow> (frame option \<times> world) option" where
  "pipe_read p s = do {
     x \<leftarrow> pipes s p;
     if \<not> can_read x then Some (None, s)
     else do {
       ch \<leftarrow> upipes s (inpipe x);
       (case chan_read ch of
          (ch, None) \<Rightarrow>
            Some (None, put_pipe p (x\<lparr>in_active := False\<rparr>) (put_upipe (inpipe x) ch s))
        | (ch, Some m) \<Rightarrow>
            let s = put_upipe (inpipe x) ch s in
            if fdelim m then do { s \<leftarrow> pipe_delimit p s; Some (None, s) }
            else do {
              let x = (if frame_more m then x else x\<lparr>msgs_read := msgs_read x + 1\<rparr>);
              let s = put_pipe p x s;
              s \<leftarrow> (if lwm x > 0 \<and> msgs_read x mod word_of_int (lwm x) = 0
                    then send_cmd (peer x) (Activate_write (msgs_read x)) s else Some s);
              Some (Some m, s) }) } }"

section \<open>Writing\<close>

definition full :: "pipe_t \<Rightarrow> bool" where
  "full x \<longleftrightarrow> hwm x > 0 \<and> msgs_written x - peers_msgs_read x = word_of_int (hwm x)"

definition pipe_check_write :: "nat \<Rightarrow> world \<Rightarrow> (bool \<times> world) option" where
  "pipe_check_write p s = do {
     x \<leftarrow> pipes s p;
     if \<not> out_active x \<or> state x \<noteq> Active then Some (False, s)
     else if full x then Some (False, put_pipe p (x\<lparr>out_active := False\<rparr>) s)
     else Some (True, s) }"

definition pipe_write :: "nat \<Rightarrow> frame \<Rightarrow> world \<Rightarrow> (bool \<times> world) option" where
  "pipe_write p m s = do {
     (ok, s) \<leftarrow> pipe_check_write p s;
     if \<not> ok then Some (False, s)
     else do {
       x \<leftarrow> pipes s p;
       c \<leftarrow> outpipe x;
       ch \<leftarrow> upipes s c;
       let s = put_upipe c (chan_write m (frame_more m) ch) s;
       Some (True, if frame_more m then s
                   else put_pipe p (x\<lparr>msgs_written := msgs_written x + 1\<rparr>) s) } }"

text \<open>The loop of \<open>rollback\<close>: only frames with the \<open>more\<close> flag may be taken back.\<close>

function rollback_loop :: "frame chan \<Rightarrow> frame chan option" where
  "rollback_loop ch =
     (case chan_unwrite ch of
        (ch', None) \<Rightarrow> Some ch'
      | (ch', Some m) \<Rightarrow> if frame_more m then rollback_loop ch' else None)"
  by pat_completeness auto
termination
  by (relation "measure (\<lambda>ch. length (partial ch))") (auto simp: chan_unwrite_def split: if_splits)

declare rollback_loop.simps [simp del]

definition pipe_rollback :: "nat \<Rightarrow> world \<Rightarrow> world option" where
  "pipe_rollback p s = do {
     x \<leftarrow> pipes s p;
     (case outpipe x of
        None \<Rightarrow> Some s
      | Some c \<Rightarrow> do {
          ch \<leftarrow> upipes s c;
          ch \<leftarrow> rollback_loop ch;
          Some (put_upipe c ch s) }) }"

definition pipe_flush :: "nat \<Rightarrow> world \<Rightarrow> world option" where
  "pipe_flush p s = do {
     x \<leftarrow> pipes s p;
     if state x = Terminating then Some s
     else (case outpipe x of
        None \<Rightarrow> Some s
      | Some c \<Rightarrow> do {
          ch \<leftarrow> upipes s c;
          let (ch, ok) = chan_flush ch;
          let s = put_upipe c ch s;
          if ok then Some s else send_cmd (peer x) Activate_read s }) }"

section \<open>Commands\<close>

definition process_activate_read :: "nat \<Rightarrow> world \<Rightarrow> world option" where
  "process_activate_read p s = do {
     x \<leftarrow> pipes s p;
     if \<not> in_active x \<and> (state x = Active \<or> state x = Pending)
     then notify (sink x) Read_activated p (put_pipe p (x\<lparr>in_active := True\<rparr>) s)
     else Some s }"

definition process_activate_write :: "uint64 \<Rightarrow> nat \<Rightarrow> world \<Rightarrow> world option" where
  "process_activate_write n p s = do {
     x \<leftarrow> pipes s p;
     let x = x\<lparr>peers_msgs_read := n\<rparr>;
     if \<not> out_active x \<and> state x = Active
     then notify (sink x) Write_activated p (put_pipe p (x\<lparr>out_active := True\<rparr>) s)
     else Some (put_pipe p x s) }"

text \<open>\<open>while (pipe->read (&msg)) msg.close ()\<close>: the messages that are dropped and the channel left.\<close>

function drain_loop :: "frame chan \<Rightarrow> frame list \<times> frame chan" where
  "drain_loop ch =
     (case chan_read ch of
        (ch', None) \<Rightarrow> ([], ch')
      | (ch', Some m) \<Rightarrow> (let (ms, ch'') = drain_loop ch' in (m # ms, ch'')))"
  by pat_completeness auto
termination
  by (relation "measure (\<lambda>ch. length (readable ch))") (auto simp: chan_read_def split: if_splits)

declare drain_loop.simps [simp del]

definition delete_upipe :: "nat \<Rightarrow> world \<Rightarrow> world option" where
  "delete_upipe c s = do {
     _ \<leftarrow> upipes s c;
     Some (s\<lparr>upipes := (upipes s)(c := None)\<rparr>) }"

definition process_hiccup :: "nat \<Rightarrow> nat \<Rightarrow> world \<Rightarrow> world option" where
  "process_hiccup new p s = do {
     x \<leftarrow> pipes s p;
     c \<leftarrow> outpipe x;
     ch \<leftarrow> upipes s c;
     let ch = snd (drain_loop (fst (chan_flush ch)));
     s \<leftarrow> delete_upipe c (put_upipe c ch s);
     let s = put_pipe p (x\<lparr>outpipe := Some new, out_active := True\<rparr>) s;
     if state x = Active then notify (sink x) Hiccuped p s else Some s }"

definition process_pipe_term :: "nat \<Rightarrow> world \<Rightarrow> world option" where
  "process_pipe_term p s = do {
     x \<leftarrow> pipes s p;
     (case state x of
        Active \<Rightarrow>
          if \<not> delay x then
            send_cmd (peer x) Pipe_term_ack (put_pipe p (x\<lparr>state := Terminating, outpipe := None\<rparr>) s)
          else Some (put_pipe p (x\<lparr>state := Pending\<rparr>) s)
      | Delimited \<Rightarrow>
          send_cmd (peer x) Pipe_term_ack (put_pipe p (x\<lparr>state := Terminating, outpipe := None\<rparr>) s)
      | Terminated \<Rightarrow>
          send_cmd (peer x) Pipe_term_ack
            (put_pipe p (x\<lparr>state := Double_terminated, outpipe := None\<rparr>) s)
      | _ \<Rightarrow> None) }"

definition process_pipe_term_ack :: "nat \<Rightarrow> world \<Rightarrow> world option" where
  "process_pipe_term_ack p s = do {
     x \<leftarrow> pipes s p;
     s \<leftarrow> notify (sink x) Pipe_terminated p s;
     s \<leftarrow> (if state x = Terminated
           then send_cmd (peer x) Pipe_term_ack (put_pipe p (x\<lparr>outpipe := None\<rparr>) s)
           else if state x = Terminating \<or> state x = Double_terminated then Some s else None);
     ch \<leftarrow> upipes s (inpipe x);
     let ch = snd (drain_loop ch);
     s \<leftarrow> delete_upipe (inpipe x) (put_upipe (inpipe x) ch s);
     Some (s\<lparr>pipes := (pipes s)(p := None)\<rparr>) }"

text \<open>Delivery of the oldest command of a pipe object.\<close>

definition process_cmd :: "pipe_cmd \<Rightarrow> nat \<Rightarrow> world \<Rightarrow> world option" where
  "process_cmd c p s =
     (case c of
        Activate_read \<Rightarrow> process_activate_read p s
      | Activate_write n \<Rightarrow> process_activate_write n p s
      | Hiccup new \<Rightarrow> process_hiccup new p s
      | Pipe_term \<Rightarrow> process_pipe_term p s
      | Pipe_term_ack \<Rightarrow> process_pipe_term_ack p s)"

section \<open>Termination and hiccups\<close>

definition write_delimiter :: "nat \<Rightarrow> world \<Rightarrow> world option" where
  "write_delimiter p s = do {
     x \<leftarrow> pipes s p;
     (case outpipe x of
        None \<Rightarrow> Some s
      | Some c \<Rightarrow> do {
          s \<leftarrow> pipe_rollback p s;
          ch \<leftarrow> upipes s c;
          pipe_flush p (put_upipe c (chan_write frame_delimiter False ch) s) }) }"

definition pipe_terminate :: "bool \<Rightarrow> nat \<Rightarrow> world \<Rightarrow> world option" where
  "pipe_terminate dly p s = do {
     x \<leftarrow> pipes s p;
     let x = x\<lparr>delay := dly\<rparr>;
     if state x = Terminated \<or> state x = Double_terminated \<or> state x = Terminating
     then Some (put_pipe p x s)
     else do {
       (x, s) \<leftarrow>
         (if state x = Active \<or> state x = Delimited then do {
            s \<leftarrow> send_cmd (peer x) Pipe_term s;
            Some (x\<lparr>state := Terminated\<rparr>, s) }
          else if state x = Pending \<and> \<not> delay x then do {
            s \<leftarrow> send_cmd (peer x) Pipe_term_ack s;
            Some (x\<lparr>outpipe := None, state := Terminating\<rparr>, s) }
          else Some (x, s));
       write_delimiter p (put_pipe p (x\<lparr>out_active := False\<rparr>) s) } }"

definition pipe_hiccup :: "nat \<Rightarrow> nat \<Rightarrow> world \<Rightarrow> world option" where
  "pipe_hiccup new p s = do {
     x \<leftarrow> pipes s p;
     if state x \<noteq> Active then Some s
     else do {
       s \<leftarrow> new_upipe new s;
       send_cmd (peer x) (Hiccup new) (put_pipe p (x\<lparr>inpipe := new, in_active := True\<rparr>) s) } }"

section \<open>Well-formed states\<close>

definition chan_ok :: "frame chan \<Rightarrow> bool" where
  "chan_ok ch \<longleftrightarrow> (\<forall>m \<in> set (partial ch). frame_more m) \<and> whole (readable ch) \<and> whole (pending ch)"

definition final :: "pstate \<Rightarrow> bool" where
  "final st \<longleftrightarrow> st = Terminating \<or> st = Double_terminated"

text \<open>
  Channels are allocated as long as a pipe object points to them, no two objects share an end of a
  channel, and the peer of an object that has not acknowledged the termination exists.
\<close>

definition pipe_ok :: "world \<Rightarrow> pipe_t \<Rightarrow> bool" where
  "pipe_ok s x \<longleftrightarrow> upipes s (inpipe x) \<noteq> None \<and> (outpipe x = None \<longleftrightarrow> final (state x)) \<and>
     (\<forall>c. outpipe x = Some c \<longrightarrow> upipes s c \<noteq> None) \<and>
     (\<not> final (state x) \<longrightarrow> (\<exists>q. peer x = Some q \<and> pipes s q \<noteq> None))"

definition world_ok :: "world \<Rightarrow> bool" where
  "world_ok s \<longleftrightarrow> (\<forall>p x. pipes s p = Some x \<longrightarrow> pipe_ok s x) \<and>
     (\<forall>p q x y. pipes s p = Some x \<longrightarrow> pipes s q = Some y \<longrightarrow> p \<noteq> q \<longrightarrow>
        inpipe x \<noteq> inpipe y \<and> (outpipe x = None \<or> outpipe x \<noteq> outpipe y)) \<and>
     (\<forall>c ch. upipes s c = Some ch \<longrightarrow> chan_ok ch)"

definition valid :: "world \<Rightarrow> nat \<Rightarrow> bool" where
  "valid s p \<longleftrightarrow> world_ok s \<and> pipes s p \<noteq> None"

text \<open>The frames a pipe can deliver, those written to it, and those of them the peer can see.\<close>

definition avail :: "world \<Rightarrow> nat \<Rightarrow> frame list" where
  "avail s p =
     (case pipes s p of
        None \<Rightarrow> []
      | Some x \<Rightarrow> if can_read x
          then (case upipes s (inpipe x) of
                  None \<Rightarrow> [] | Some ch \<Rightarrow> takeWhile (\<lambda>m. \<not> fdelim m) (readable ch))
          else [])"

definition out_chan :: "world \<Rightarrow> nat \<Rightarrow> frame chan" where
  "out_chan s p =
     (case pipes s p of
        None \<Rightarrow> chan_empty
      | Some x \<Rightarrow> (case outpipe x of
          None \<Rightarrow> chan_empty
        | Some c \<Rightarrow> (case upipes s c of None \<Rightarrow> chan_empty | Some ch \<Rightarrow> ch)))"

definition out :: "world \<Rightarrow> nat \<Rightarrow> frame list" where
  "out s p = (let ch = out_chan s p in readable ch @ pending ch @ partial ch)"

definition flushed :: "world \<Rightarrow> nat \<Rightarrow> frame list" where
  "flushed s p = readable (out_chan s p)"

definition writable :: "world \<Rightarrow> nat \<Rightarrow> bool" where
  "writable s p \<longleftrightarrow>
     (case pipes s p of None \<Rightarrow> False | Some x \<Rightarrow> out_active x \<and> state x = Active \<and> \<not> full x)"

lemma world_okD:
  assumes "world_ok s" "pipes s p = Some x"
  shows "pipe_ok s x" "pipes s q = Some y \<Longrightarrow> p \<noteq> q \<Longrightarrow> inpipe x \<noteq> inpipe y"
    "pipes s q = Some y \<Longrightarrow> p \<noteq> q \<Longrightarrow> outpipe x = Some c \<Longrightarrow> outpipe y \<noteq> Some c"
    "upipes s c = Some ch \<Longrightarrow> chan_ok ch"
proof -
  show "pipe_ok s x" using assms unfolding world_ok_def by blast
  show "inpipe x \<noteq> inpipe y" if "pipes s q = Some y" "p \<noteq> q"
    using assms that unfolding world_ok_def by blast
  show "outpipe y \<noteq> Some c" if "pipes s q = Some y" "p \<noteq> q" "outpipe x = Some c"
    using assms that unfolding world_ok_def by (metis option.distinct(1))
  show "chan_ok ch" if "upipes s c = Some ch" using assms that unfolding world_ok_def by blast
qed

text \<open>A step that keeps the pointers, or drops an outbound one, keeps the state well formed.\<close>

definition keeps :: "pipe_t \<Rightarrow> pipe_t \<Rightarrow> bool" where
  "keeps x y \<longleftrightarrow> inpipe y = inpipe x \<and> peer y = peer x \<and> (outpipe y = outpipe x \<or> outpipe y = None) \<and>
     (outpipe y = None \<longleftrightarrow> final (state y)) \<and> (final (state x) \<longrightarrow> final (state y))"

lemma world_ok_step:
  assumes ok: "world_ok s" and dp: "dom (pipes s') = dom (pipes s)"
    and du: "dom (upipes s) \<subseteq> dom (upipes s')"
    and k: "\<And>q x y. pipes s q = Some x \<Longrightarrow> pipes s' q = Some y \<Longrightarrow> keeps x y"
    and c: "\<And>c ch. upipes s' c = Some ch \<Longrightarrow> chan_ok ch"
  shows "world_ok s'"
proof -
  have old: "\<exists>x. pipes s q = Some x \<and> keeps x y" if "pipes s' q = Some y" for q y
  proof -
    have "q \<in> dom (pipes s)" using that dp by blast
    then obtain x where "pipes s q = Some x" by blast
    then show ?thesis using k[OF _ that] by blast
  qed
  have "pipe_ok s' y" if y: "pipes s' q = Some y" for q y
  proof -
    obtain x where x: "pipes s q = Some x" "keeps x y" using old[OF y] by blast
    have po: "pipe_ok s x" using ok x(1) by (rule world_okD)
    have up: "upipes s' c \<noteq> None" if "upipes s c \<noteq> None" for c using that du by blast
    have pp: "pipes s' r \<noteq> None" if "pipes s r \<noteq> None" for r using that dp by blast
    note k' = x(2)[unfolded keeps_def] and o' = po[unfolded pipe_ok_def]
    show ?thesis unfolding pipe_ok_def
    proof (intro conjI allI impI)
      show "upipes s' (inpipe y) \<noteq> None" using k' o' up[of "inpipe x"] by simp
      show "(outpipe y = None) = final (state y)" using k' by blast
      show "upipes s' c \<noteq> None" if "outpipe y = Some c" for c
      proof -
        have "outpipe x = Some c" using that k' by auto
        then show ?thesis using o' up by blast
      qed
      show "\<exists>q. peer y = Some q \<and> pipes s' q \<noteq> None" if nf: "\<not> final (state y)"
      proof -
        obtain q where "peer x = Some q" "pipes s q \<noteq> None" using nf k' o' by blast
        then show ?thesis using k' pp[of q] by simp
      qed
    qed
  qed
  moreover have "inpipe y \<noteq> inpipe z \<and> (outpipe y = None \<or> outpipe y \<noteq> outpipe z)"
    if pq: "pipes s' p = Some y" "pipes s' q = Some z" "p \<noteq> q" for p q y z
  proof -
    obtain x where x: "pipes s p = Some x" "keeps x y" using old[OF pq(1)] by blast
    obtain w where w: "pipes s q = Some w" "keeps w z" using old[OF pq(2)] by blast
    have "inpipe x \<noteq> inpipe w \<and> (outpipe x = None \<or> outpipe x \<noteq> outpipe w)"
      using ok x(1) w(1) pq(3) unfolding world_ok_def by blast
    then show ?thesis using x(2) w(2) by (auto simp: keeps_def)
  qed
  ultimately show ?thesis using c unfolding world_ok_def by blast
qed

lemma keeps_refl: "world_ok s \<Longrightarrow> pipes s p = Some x \<Longrightarrow> keeps x x"
  using world_okD(1)[of s p x] by (simp add: keeps_def pipe_ok_def)

text \<open>
  What most operations do to the heaps: one pipe object and one channel get new values (commands and
  events may be added).
\<close>

definition touched :: "nat \<Rightarrow> pipe_t \<Rightarrow> nat \<Rightarrow> frame chan \<Rightarrow> world \<Rightarrow> world \<Rightarrow> bool" where
  "touched p y c ch s s' \<longleftrightarrow> pipes s' = (pipes s)(p \<mapsto> y) \<and> upipes s' = (upipes s)(c \<mapsto> ch)"

lemma touched_valid:
  assumes ok: "world_ok s" and x: "pipes s p = Some x" and k: "keeps x y" and ch: "chan_ok ch"
    and c: "upipes s c \<noteq> None" and t: "touched p y c ch s s'"
  shows "world_ok s'" "valid s' = valid s"
proof -
  show "world_ok s'"
    using ok
  proof (rule world_ok_step, goal_cases)
    case (3 q u v)
    then show ?case using x k keeps_refl[OF ok, of q] t by (auto simp: touched_def split: if_splits)
  next
    case (4 c' ch')
    then show ?case using ch ok t by (auto simp: world_ok_def touched_def split: if_splits)
  qed (use x c t in \<open>auto simp: touched_def\<close>)
  then show "valid s' = valid s" using ok t x by (auto simp: valid_def touched_def fun_eq_iff)
qed

lemma touched_avail:
  assumes ok: "world_ok s" and x: "pipes s p = Some x" and k: "keeps x y"
    and t: "touched p y (inpipe x) ch s s'"
  shows "avail s' = (avail s)(p := if can_read y then takeWhile (\<lambda>m. \<not> fdelim m) (readable ch) else [])"
proof
  fix r
  show "avail s' r = ((avail s)(p := if can_read y then takeWhile (\<lambda>m. \<not> fdelim m) (readable ch) else [])) r"
  proof (cases "r = p")
    case True
    then show ?thesis using t k by (simp add: avail_def touched_def keeps_def)
  next
    case False
    then show ?thesis using t world_okD(2)[OF ok x, of r]
      by (auto simp: avail_def touched_def split: option.splits)
  qed
qed

lemma touched_out_chan:
  assumes ok: "world_ok s" and x: "pipes s p = Some x" and oc: "outpipe x = Some c" "outpipe y = Some c"
    and t: "touched p y c ch s s'"
  shows "out_chan s' = (out_chan s)(p := ch)"
proof
  fix r
  show "out_chan s' r = ((out_chan s)(p := ch)) r"
  proof (cases "r = p")
    case True
    then show ?thesis using t oc by (simp add: out_chan_def touched_def)
  next
    case False
    then show ?thesis using t world_okD(3)[OF ok x _ _ oc(1), of r]
      by (auto simp: out_chan_def touched_def split: option.splits)
  qed
qed

lemma send_cmd_ok:
  "peer x = Some q \<Longrightarrow> pipes s q \<noteq> None \<Longrightarrow>
   send_cmd (peer x) c s = Some (s\<lparr>cmds := (cmds s)(q := cmds s q @ [c])\<rparr>)"
  by (auto simp: send_cmd_def)

lemma can_readD: "can_read x \<Longrightarrow> \<not> final (state x)"
  by (auto simp: can_read_def final_def)

lemma chan_ok_empty [simp]: "chan_ok chan_empty"
  by (simp add: chan_ok_def chan_empty_def)

lemma chan_ok_sleep [simp]: "chan_ok (ch\<lparr>asleep := b\<rparr>) = chan_ok ch"
  by (simp add: chan_ok_def)

lemma chan_ok_read: "chan_ok ch \<Longrightarrow> chan_ok (fst (chan_read ch))"
  by (cases "readable ch") (auto simp: chan_ok_def chan_read_def dest: whole_Cons)

lemma chan_ok_check: "chan_ok ch \<Longrightarrow> chan_ok (fst (chan_check_read ch))"
  by (simp add: chan_check_read_def)

lemma chan_ok_write: "chan_ok ch \<Longrightarrow> chan_ok (chan_write m (frame_more m) ch)"
  by (auto simp: chan_ok_def chan_write_def whole_def)

lemma chan_ok_flush: "chan_ok ch \<Longrightarrow> chan_ok (fst (chan_flush ch))"
  by (auto simp: chan_ok_def chan_flush_def whole_def)

section \<open>Pipes as inbound pipes\<close>

text \<open>The three outcomes of a read, and the effect of meeting the delimiter.\<close>

lemma pipe_delimit_effect:
  assumes ok: "world_ok s" and x: "pipes s p = Some x" and r: "can_read x"
  obtains s' y where "pipe_delimit p s = Some s'" "pipes s' = (pipes s)(p \<mapsto> y)" "upipes s' = upipes s"
    "keeps x y" "\<not> can_read y"
proof -
  have ps: "pipe_ok s x" using ok x by (rule world_okD)
  then obtain q where q: "peer x = Some q" "pipes s q \<noteq> None" "outpipe x \<noteq> None"
    using can_readD[OF r] by (auto simp: pipe_ok_def)
  from r consider "state x = Active" | "state x = Pending" by (auto simp: can_read_def)
  then show ?thesis
  proof cases
    case 1
    then show ?thesis using x q
      by (intro that[of "put_pipe p (x\<lparr>state := Delimited\<rparr>) s"])
        (auto simp: pipe_delimit_def put_pipe_def keeps_def final_def can_read_def)
  next
    case 2
    then show ?thesis using x send_cmd_ok[OF q(1,2)]
      by (intro that[of "put_pipe p (x\<lparr>outpipe := None, state := Terminating\<rparr>)
            (s\<lparr>cmds := (cmds s)(q := cmds s q @ [Pipe_term_ack])\<rparr>)"])
        (auto simp: pipe_delimit_def put_pipe_def keeps_def final_def can_read_def)
  qed
qed

lemma put_upipe_ok:
  assumes "world_ok s" "chan_ok ch" "upipes s c \<noteq> None"
  shows "world_ok (put_upipe c ch s)"
  using assms(1)
proof (rule world_ok_step, goal_cases)
  case (3 q x y)
  then show ?case using keeps_refl[OF assms(1), of q x] by (simp add: put_upipe_def)
next
  case (4 c' ch')
  then show ?case using assms by (auto simp: put_upipe_def world_ok_def split: if_splits)
qed (use assms(3) in \<open>auto simp: put_upipe_def\<close>)

lemma pipe_read_cases:
  assumes ok: "world_ok s" and x: "pipes s p = Some x" "can_read x" "upipes s (inpipe x) = Some ch"
  obtains (none) s' where "readable ch = []" "pipe_read p s = Some (None, s')"
      "touched p (x\<lparr>in_active := False\<rparr>) (inpipe x) (ch\<lparr>asleep := True\<rparr>) s s'"
    | (delim) m ms s' y where "readable ch = m # ms" "fdelim m" "pipe_read p s = Some (None, s')"
      "touched p y (inpipe x) (ch\<lparr>readable := ms\<rparr>) s s'" "keeps x y" "\<not> can_read y"
    | (some) m ms s' y where "readable ch = m # ms" "\<not> fdelim m" "pipe_read p s = Some (Some m, s')"
      "touched p y (inpipe x) (ch\<lparr>readable := ms\<rparr>) s s'" "keeps x y" "can_read y" "\<exists>n. y = x\<lparr>msgs_read := n\<rparr>"
proof (cases "readable ch")
  case Nil
  then show ?thesis using x
    by (intro none[of "put_pipe p (x\<lparr>in_active := False\<rparr>) (put_upipe (inpipe x) (ch\<lparr>asleep := True\<rparr>) s)"])
      (auto simp: pipe_read_def chan_read_def put_pipe_def put_upipe_def touched_def)
next
  case (Cons m ms)
  let ?ch = "ch\<lparr>readable := ms\<rparr>" and ?s = "put_upipe (inpipe x) (ch\<lparr>readable := ms\<rparr>) s"
  have rd: "chan_read ch = (?ch, Some m)" using Cons by (simp add: chan_read_def)
  have "chan_ok ?ch" using chan_ok_read[of ch] world_okD(4)[OF ok x(1,3)] rd by simp
  then have ok': "world_ok ?s" using ok x(3) by (simp add: put_upipe_ok)
  have x': "pipes ?s p = Some x" using x(1) by (simp add: put_upipe_def)
  show ?thesis
  proof (cases "fdelim m")
    case True
    obtain s' y where "pipe_delimit p ?s = Some s'" "pipes s' = (pipes ?s)(p \<mapsto> y)"
      "upipes s' = upipes ?s" "keeps x y" "\<not> can_read y"
      using ok' x' x(2) by (rule pipe_delimit_effect)
    then show ?thesis using x rd True Cons
      by (intro delim[of m ms s' y]) (auto simp: pipe_read_def touched_def put_upipe_def)
  next
    case False
    define y where "y = (if frame_more m then x else x\<lparr>msgs_read := msgs_read x + 1\<rparr>)"
    obtain q where q: "peer x = Some q" "pipes s q \<noteq> None"
      using world_okD(1)[OF ok x(1)] can_readD[OF x(2)] by (auto simp: pipe_ok_def)
    define s1 where "s1 = put_pipe p y ?s"
    have q': "peer y = Some q" "pipes s1 q \<noteq> None"
      using q by (auto simp: s1_def y_def put_pipe_def put_upipe_def)
    define r where "r = (if lwm y > 0 \<and> msgs_read y mod word_of_int (lwm y) = 0
        then send_cmd (peer y) (Activate_write (msgs_read y)) s1 else Some s1)"
    have "\<exists>s'. r = Some s' \<and> pipes s' = pipes s1 \<and> upipes s' = upipes s1"
      using send_cmd_ok[OF q', of "Activate_write (msgs_read y)"] by (simp add: r_def)
    then obtain s' where s': "r = Some s'" "pipes s' = pipes s1" "upipes s' = upipes s1" by blast
    have "pipe_read p s = Some (Some m, s')"
      using x rd False s'(1) unfolding r_def s1_def y_def by (simp add: pipe_read_def Let_def)
    moreover have "keeps x y" using keeps_refl[OF ok x(1)] by (simp add: keeps_def y_def)
    moreover have "can_read y" using x(2) by (simp add: can_read_def y_def)
    moreover have "x = x\<lparr>msgs_read := msgs_read x\<rparr>" by simp
    then have "\<exists>n. y = x\<lparr>msgs_read := n\<rparr>" unfolding y_def by metis
    ultimately show ?thesis using Cons False s'(2,3)
      by (intro some[of m ms s' y]) (auto simp: s1_def touched_def put_pipe_def put_upipe_def)
  qed
qed

lemma pipe_check_read_cases:
  assumes ok: "world_ok s" and x: "pipes s p = Some x" "can_read x" "upipes s (inpipe x) = Some ch"
  obtains (none) s' where "readable ch = []" "pipe_check_read p s = Some (False, s')"
      "touched p (x\<lparr>in_active := False\<rparr>) (inpipe x) (ch\<lparr>asleep := True\<rparr>) s s'"
    | (delim) m ms s' y where "readable ch = m # ms" "fdelim m" "pipe_check_read p s = Some (False, s')"
      "touched p y (inpipe x) (ch\<lparr>readable := ms\<rparr>) s s'" "keeps x y" "\<not> can_read y"
    | (some) m ms s' where "readable ch = m # ms" "\<not> fdelim m" "pipe_check_read p s = Some (True, s')"
      "touched p x (inpipe x) ch s s'"
proof (cases "readable ch")
  case Nil
  then show ?thesis using x
    by (intro none[of "put_pipe p (x\<lparr>in_active := False\<rparr>) (put_upipe (inpipe x) (ch\<lparr>asleep := True\<rparr>) s)"])
      (auto simp: pipe_check_read_def chan_check_read_def put_pipe_def put_upipe_def touched_def)
next
  case (Cons m ms)
  then have chk: "chan_check_read ch = (ch, True)" "chan_probe fdelim ch = Some (ch, fdelim m)"
    "chan_read ch = (ch\<lparr>readable := ms\<rparr>, Some m)"
    by (simp_all add: chan_check_read_def chan_probe_def chan_read_def)
  show ?thesis
  proof (cases "fdelim m")
    case True
    let ?s = "put_upipe (inpipe x) (ch\<lparr>readable := ms\<rparr>) s"
    have "chan_ok (ch\<lparr>readable := ms\<rparr>)" using chan_ok_read[of ch] world_okD(4)[OF ok x(1,3)] chk by simp
    then have ok': "world_ok ?s" using ok x(3) by (simp add: put_upipe_ok)
    have x': "pipes ?s p = Some x" using x(1) by (simp add: put_upipe_def)
    obtain s' y where "pipe_delimit p ?s = Some s'" "pipes s' = (pipes ?s)(p \<mapsto> y)"
      "upipes s' = upipes ?s" "keeps x y" "\<not> can_read y"
      using ok' x' x(2) by (rule pipe_delimit_effect)
    then show ?thesis using x chk True Cons
      by (intro delim[of m ms s' y]) (auto simp: pipe_check_read_def touched_def put_upipe_def)
  next
    case False
    then show ?thesis using x chk Cons
      by (intro some[of m ms "put_upipe (inpipe x) ch s"])
        (auto simp: pipe_check_read_def touched_def put_upipe_def)
  qed
qed

lemma avail_open:
  assumes "pipes s p = Some x" "can_read x" "upipes s (inpipe x) = Some ch"
  shows "avail s p = takeWhile (\<lambda>m. \<not> fdelim m) (readable ch)"
  using assms by (simp add: avail_def)

text \<open>A pipe that is asleep keeps its pointers.\<close>

lemma keeps_inactive: "world_ok s \<Longrightarrow> pipes s p = Some x \<Longrightarrow> keeps x (x\<lparr>in_active := b\<rparr>)"
  using keeps_refl[of s p x] by (simp add: keeps_def)

lemma pipe_read_law:
  assumes "valid s p"
  shows "\<exists>s'. valid s' = valid s \<and>
    (case avail s p of
       [] \<Rightarrow> pipe_read p s = Some (None, s') \<and> avail s' = avail s
     | m # ms \<Rightarrow> pipe_read p s = Some (Some m, s') \<and> avail s' = (avail s)(p := ms))"
proof -
  obtain x where ok: "world_ok s" and x: "pipes s p = Some x" using assms by (auto simp: valid_def)
  show ?thesis
  proof (cases "can_read x")
    case False
    then have "avail s p = []" "pipe_read p s = Some (None, s)" using x by (simp_all add: avail_def pipe_read_def)
    then show ?thesis by auto
  next
    case True
    obtain ch where ch: "upipes s (inpipe x) = Some ch"
      using world_okD(1)[OF ok x] by (auto simp: pipe_ok_def)
    have cok: "chan_ok ch" using ok x ch by (rule world_okD)
    note av = avail_open[OF x True ch]
    from ok x True ch show ?thesis
    proof (cases rule: pipe_read_cases)
      case (none s')
      note t = none(3)
      have "valid s' = valid s" using touched_valid(2)[OF ok x keeps_inactive[OF ok x] _ _ t] cok ch by simp
      moreover have "avail s' = avail s"
        using touched_avail[OF ok x keeps_inactive[OF ok x] t] none(1) av by (auto simp: can_read_def)
      ultimately show ?thesis using none av by (intro exI[of _ s']) auto
    next
      case (delim m ms s' y)
      have "chan_ok (ch\<lparr>readable := ms\<rparr>)" using chan_ok_read[OF cok] delim(1) by (simp add: chan_read_def)
      then have "valid s' = valid s" using touched_valid(2)[OF ok x delim(5) _ _ delim(4)] ch by simp
      moreover have "avail s' = avail s"
        using touched_avail[OF ok x delim(5,4)] delim(1,2,6) av by auto
      ultimately show ?thesis using delim av by (intro exI[of _ s']) auto
    next
      case (some m ms s' y)
      have "chan_ok (ch\<lparr>readable := ms\<rparr>)" using chan_ok_read[OF cok] some(1) by (simp add: chan_read_def)
      then have "valid s' = valid s" using touched_valid(2)[OF ok x some(5) _ _ some(4)] ch by simp
      moreover have "avail s' = (avail s)(p := takeWhile (\<lambda>m. \<not> fdelim m) ms)"
        using touched_avail[OF ok x some(5,4)] some(6) by simp
      ultimately show ?thesis using some av by (intro exI[of _ s']) auto
    qed
  qed
qed

lemma pipe_check_read_law:
  assumes "valid s p"
  shows "\<exists>s'. pipe_check_read p s = Some (avail s p \<noteq> [], s') \<and> avail s' = avail s \<and> valid s' = valid s"
proof -
  obtain x where ok: "world_ok s" and x: "pipes s p = Some x" using assms by (auto simp: valid_def)
  show ?thesis
  proof (cases "can_read x")
    case False
    then have "avail s p = []" "pipe_check_read p s = Some (False, s)"
      using x by (simp_all add: avail_def pipe_check_read_def)
    then show ?thesis by auto
  next
    case True
    obtain ch where ch: "upipes s (inpipe x) = Some ch"
      using world_okD(1)[OF ok x] by (auto simp: pipe_ok_def)
    have cok: "chan_ok ch" using ok x ch by (rule world_okD)
    note av = avail_open[OF x True ch]
    from ok x True ch show ?thesis
    proof (cases rule: pipe_check_read_cases)
      case (none s')
      have "valid s' = valid s" using touched_valid(2)[OF ok x keeps_inactive[OF ok x] _ _ none(3)] cok ch by simp
      moreover have "avail s' = avail s"
        using touched_avail[OF ok x keeps_inactive[OF ok x] none(3)] none(1) av by (auto simp: can_read_def)
      ultimately show ?thesis using none av by auto
    next
      case (delim m ms s' y)
      have "chan_ok (ch\<lparr>readable := ms\<rparr>)" using chan_ok_read[OF cok] delim(1) by (simp add: chan_read_def)
      then have "valid s' = valid s" using touched_valid(2)[OF ok x delim(5) _ _ delim(4)] ch by simp
      moreover have "avail s' = avail s"
        using touched_avail[OF ok x delim(5,4)] delim(1,2,6) av by auto
      ultimately show ?thesis using delim av by auto
    next
      case (some m ms s')
      have "valid s' = valid s" using touched_valid(2)[OF ok x keeps_refl[OF ok x] cok _ some(4)] ch by simp
      moreover have "avail s' = avail s"
        using touched_avail[OF ok x keeps_refl[OF ok x] some(4)] True av by auto
      ultimately show ?thesis using some av by auto
    qed
  qed
qed

interpretation pin: inbound pipe_read pipe_check_read avail valid
proof
  fix s p m ms
  show "valid s p \<Longrightarrow> avail s p = [] \<Longrightarrow>
      \<exists>s'. pipe_read p s = Some (None, s') \<and> avail s' = avail s \<and> valid s' = valid s"
    using pipe_read_law[of s p] by auto
  show "valid s p \<Longrightarrow> avail s p = m # ms \<Longrightarrow>
      \<exists>s'. pipe_read p s = Some (Some m, s') \<and> avail s' = (avail s)(p := ms) \<and> valid s' = valid s"
    using pipe_read_law[of s p] by auto
  show "valid s p \<Longrightarrow>
      \<exists>s'. pipe_check_read p s = Some (avail s p \<noteq> [], s') \<and> avail s' = avail s \<and> valid s' = valid s"
    by (rule pipe_check_read_law)
qed

section \<open>Pipes as outbound pipes\<close>

text \<open>Pipe objects whose fields other than \<open>out_active\<close> are the same write to the same channels.\<close>

lemma put_pipe_inactive:
  assumes ok: "world_ok s" and x: "pipes s p = Some x"
  defines "s' \<equiv> put_pipe p (x\<lparr>out_active := False\<rparr>) s"
  shows "valid s' = valid s" "out_chan s' = out_chan s"
    "writable s' = (writable s)(p := False)"
proof -
  have "world_ok s'"
    using ok
  proof (rule world_ok_step, goal_cases)
    case (3 q u v)
    then show ?case using keeps_refl[OF ok, of q] x
      by (auto simp: s'_def put_pipe_def keeps_def split: if_splits)
  next
    case (4 c ch)
    then show ?case using ok by (simp add: s'_def put_pipe_def world_ok_def)
  qed (use x in \<open>auto simp: s'_def put_pipe_def\<close>)
  then show "valid s' = valid s" using ok x by (auto simp: valid_def fun_eq_iff s'_def put_pipe_def)
  show "out_chan s' = out_chan s" "writable s' = (writable s)(p := False)"
    using x by (auto simp: fun_eq_iff out_chan_def writable_def s'_def put_pipe_def
        split: option.splits)
qed

lemma pipe_check_write_law:
  assumes "valid s p"
  shows "\<exists>s'. pipe_check_write p s = Some (writable s p, s') \<and> out_chan s' = out_chan s \<and>
    valid s' = valid s \<and> writable s' = writable s \<and> (writable s p \<longrightarrow> s' = s)"
proof -
  obtain x where ok: "world_ok s" and x: "pipes s p = Some x" using assms by (auto simp: valid_def)
  note pin = put_pipe_inactive[OF ok x]
  show ?thesis
  proof (cases "out_active x \<and> state x = Active \<and> full x")
    case True
    then have "\<not> writable s p" using x by (simp add: writable_def)
    then have "(writable s)(p := False) = writable s" by (simp add: fun_eq_iff)
    then show ?thesis using True x pin \<open>\<not> writable s p\<close> by (simp add: pipe_check_write_def)
  next
    case False
    then show ?thesis using x by (auto simp: pipe_check_write_def writable_def)
  qed
qed

lemma pipe_write_effect:
  assumes v: "valid s p" and w: "writable s p"
  obtains s' x c ch y where "pipe_write p m s = Some (True, s')" "pipes s p = Some x"
    "outpipe x = Some c" "upipes s c = Some ch" "keeps x y" "outpipe y = Some c"
    "touched p y c (chan_write m (frame_more m) ch) s s'"
    "frame_more m \<longrightarrow> y = x"
proof -
  obtain x where ok: "world_ok s" and x: "pipes s p = Some x" using v by (auto simp: valid_def)
  have st: "out_active x" "state x = Active" "\<not> full x" using w x by (auto simp: writable_def)
  then obtain c where c: "outpipe x = Some c" "upipes s c \<noteq> None"
    using world_okD(1)[OF ok x] by (auto simp: pipe_ok_def final_def)
  then obtain ch where ch: "upipes s c = Some ch" by blast
  let ?y = "if frame_more m then x else x\<lparr>msgs_written := msgs_written x + 1\<rparr>"
  have k: "keeps x ?y" using keeps_refl[OF ok x] by (simp add: keeps_def)
  have "\<exists>s'. pipe_write p m s = Some (True, s') \<and> touched p ?y c (chan_write m (frame_more m) ch) s s'"
    using x c ch st by (auto simp: pipe_write_def pipe_check_write_def touched_def put_pipe_def put_upipe_def)
  then show ?thesis using that[OF _ x c(1) ch k] c(1) by auto
qed

lemma pipe_write_law:
  assumes v: "valid s p" and w: "writable s p"
  shows "\<exists>s'. pipe_write p m s = Some (True, s') \<and> out s' = (out s)(p := out s p @ [m]) \<and>
    flushed s' = flushed s \<and> valid s' = valid s \<and> (\<forall>r. r \<noteq> p \<longrightarrow> writable s' r = writable s r) \<and>
    (frame_more m \<longrightarrow> writable s' p)"
proof -
  have ok: "world_ok s" using v by (simp add: valid_def)
  obtain s' x c ch y where e: "pipe_write p m s = Some (True, s')" and x: "pipes s p = Some x"
    and c: "outpipe x = Some c" "upipes s c = Some ch" "keeps x y" "outpipe y = Some c"
    and t: "touched p y c (chan_write m (frame_more m) ch) s s'" "frame_more m \<longrightarrow> y = x"
    using v w by (rule pipe_write_effect)
  have cok: "chan_ok ch" using ok x c(2) by (rule world_okD)
  have oc: "out_chan s p = ch" using x c by (simp add: out_chan_def)
  note och = touched_out_chan[OF ok x c(1,4) t(1)]
  have "valid s' = valid s"
    using touched_valid(2)[OF ok x c(3) chan_ok_write[OF cok] _ t(1)] c(2) by simp
  moreover have "out s' = (out s)(p := out s p @ [m])"
    using oc unfolding fun_eq_iff out_def och by (simp add: chan_write_def)
  moreover have "flushed s' = flushed s"
    using oc unfolding fun_eq_iff flushed_def och by (simp add: chan_write_def)
  moreover have "writable s' r = writable s r" if "r \<noteq> p" for r
    using that t by (simp add: writable_def touched_def)
  moreover have "writable s' p" if "frame_more m" using that t w x by (simp add: writable_def touched_def)
  ultimately show ?thesis using e by blast
qed

lemma pipe_flush_touched:
  assumes v: "valid s p" and x: "pipes s p = Some x" and c: "outpipe x = Some c"
  obtains s' ch where "pipe_flush p s = Some s'" "touched p x c (fst (chan_flush ch)) s s'" "out_chan s p = ch" "chan_ok ch"
    "valid s' = valid s" "out s' = out s" "writable s' = writable s"
proof -
  have ok: "world_ok s" using v by (auto simp: valid_def)
  have pok: "pipe_ok s x" using ok x by (rule world_okD)
  obtain ch where ch: "upipes s c = Some ch" using pok c by (auto simp: pipe_ok_def)
  have nf: "\<not> final (state x)" using pok c by (auto simp: pipe_ok_def)
  then obtain q where q: "peer x = Some q" "pipes s q \<noteq> None" using pok by (auto simp: pipe_ok_def)
  let ?ch = "fst (chan_flush ch)"
  have q': "pipes (put_upipe c ?ch s) q \<noteq> None" using q(2) by (simp add: put_upipe_def)
  have "\<exists>s'. pipe_flush p s = Some s' \<and> touched p x c ?ch s s'"
    using x c ch nf send_cmd_ok[OF q(1) q', of Activate_read]
    by (cases "chan_flush ch")
      (auto simp: pipe_flush_def final_def touched_def put_upipe_def Let_def)
  then obtain s' where s': "pipe_flush p s = Some s'" "touched p x c ?ch s s'" by blast
  have cok: "chan_ok ch" using ok x ch by (rule world_okD)
  have oc: "out_chan s p = ch" using x c ch by (simp add: out_chan_def)
  have same: "readable ?ch @ pending ?ch @ partial ?ch = out s p" using oc by (auto simp: chan_flush_def out_def)
  have "valid s' = valid s"
    using touched_valid(2)[OF ok x keeps_refl[OF ok x] chan_ok_flush[OF cok] _ s'(2)] ch by simp
  moreover have "out s' = out s"
    using same unfolding fun_eq_iff out_def touched_out_chan[OF ok x c c s'(2)] by (simp add: Let_def)
  moreover have "writable s' = writable s"
    using s'(2) x by (auto simp: fun_eq_iff writable_def touched_def)
  ultimately show ?thesis by (intro that[OF s' oc cok])
qed

text \<open>A flush never fails and keeps what was written, also in the middle of a message.\<close>

lemma pipe_flush_keeps:
  assumes "valid s p"
  shows "\<exists>s'. pipe_flush p s = Some s' \<and> out s' = out s \<and> valid s' = valid s \<and> writable s' = writable s"
proof -
  obtain x where x: "pipes s p = Some x" using assms by (auto simp: valid_def)
  show ?thesis
  proof (cases "outpipe x")
    case None
    then show ?thesis using x by (simp add: pipe_flush_def)
  next
    case (Some c)
    show ?thesis using pipe_flush_touched[OF assms x Some] by metis
  qed
qed

lemma pipe_flush_law:
  assumes v: "valid s p" and w: "whole (out s p)"
  shows "\<exists>s'. pipe_flush p s = Some s' \<and> out s' = out s \<and> flushed s' = (flushed s)(p := out s p) \<and>
    valid s' = valid s \<and> writable s' = writable s"
proof -
  obtain x where ok: "world_ok s" and x: "pipes s p = Some x" using v by (auto simp: valid_def)
  show ?thesis
  proof (cases "outpipe x")
    case None
    then have "out_chan s p = chan_empty" using x by (simp add: out_chan_def)
    then have "(flushed s)(p := out s p) = flushed s"
      by (simp add: fun_eq_iff flushed_def out_def chan_empty_def)
    then show ?thesis using x None by (simp add: pipe_flush_def)
  next
    case (Some c)
    obtain s' ch where s': "pipe_flush p s = Some s'" "touched p x c (fst (chan_flush ch)) s s'" and oc: "out_chan s p = ch"
      and cok: "chan_ok ch" and keep: "valid s' = valid s" "out s' = out s" "writable s' = writable s"
      using v x Some by (rule pipe_flush_touched)
    let ?ch = "fst (chan_flush ch)"
    have "partial ch = []"
    proof (rule ccontr)
      assume ne: "partial ch \<noteq> []"
      then have "last (partial ch) \<in> set (partial ch)" by simp
      then have "frame_more (last (partial ch))" using cok by (simp add: chan_ok_def)
      moreover have "last (out s p) = last (partial ch)" "out s p \<noteq> []"
        using oc ne by (simp_all add: out_def Let_def)
      ultimately show False using w by (simp add: whole_def)
    qed
    then have "readable ?ch = out s p" using oc by (auto simp: chan_flush_def out_def)
    then have "flushed s' = (flushed s)(p := out s p)"
      unfolding fun_eq_iff flushed_def touched_out_chan[OF ok x Some Some s'(2)] by simp
    then show ?thesis using s'(1) keep by blast
  qed
qed

interpretation pout: outbound pipe_write pipe_flush pipe_check_write writable out flushed valid
proof
  fix s p m
  show "valid s p \<Longrightarrow> writable s p \<Longrightarrow>
      \<exists>s'. pipe_write p m s = Some (True, s') \<and> out s' = (out s)(p := out s p @ [m]) \<and> flushed s' = flushed s \<and>
        valid s' = valid s \<and> (\<forall>r. r \<noteq> p \<longrightarrow> writable s' r = writable s r) \<and>
        (frame_more m \<longrightarrow> writable s' p)"
    by (rule pipe_write_law)
  show "valid s p \<Longrightarrow> \<not> writable s p \<Longrightarrow>
      \<exists>s'. pipe_write p m s = Some (False, s') \<and> out s' = out s \<and> flushed s' = flushed s \<and>
        valid s' = valid s \<and> writable s' = writable s"
    using pipe_check_write_law[of s p]
    by (auto simp: pipe_write_def out_def [abs_def] flushed_def [abs_def])
  show "valid s p \<Longrightarrow> whole (out s p) \<Longrightarrow>
      \<exists>s'. pipe_flush p s = Some s' \<and> out s' = out s \<and> flushed s' = (flushed s)(p := out s p) \<and>
        valid s' = valid s \<and> writable s' = writable s"
    by (rule pipe_flush_law)
  show "valid s p \<Longrightarrow>
      \<exists>s'. pipe_check_write p s = Some (writable s p, s') \<and> out s' = out s \<and> flushed s' = flushed s \<and>
        valid s' = valid s \<and> writable s' = writable s"
    using pipe_check_write_law[of s p] by (auto simp: out_def [abs_def] flushed_def [abs_def])
qed

end
