(* ===== verification/Routing.thy ===== *)
theory Routing
  imports Pipe
begin

text \<open>
  The message distribution policies over real pipes: the theorems that the fair queue, the load
  balancer and the distributor prove against their interfaces, instantiated with the pipe operations,
  and the creation of a connected pair of pipes that these states start from.
\<close>

section \<open>Creating pipes\<close>

definition empty_world :: world where
  "empty_world = \<lparr>pipes = Map.empty, upipes = Map.empty, cmds = (\<lambda>_. []), events = []\<rparr>"

lemma world_ok_empty [simp]: "world_ok empty_world"
  by (simp add: world_ok_def empty_world_def)

definition end0 :: "nat \<Rightarrow> nat \<Rightarrow> nat \<Rightarrow> int \<times> int \<Rightarrow> bool \<times> bool \<Rightarrow> pipe_t" where
  "end0 p1 c1 c2 h d = (pipe_init c1 c2 (snd h) (fst h) (fst d))\<lparr>peer := Some p1\<rparr>"

definition end1 :: "nat \<Rightarrow> nat \<Rightarrow> nat \<Rightarrow> int \<times> int \<Rightarrow> bool \<times> bool \<Rightarrow> pipe_t" where
  "end1 p0 c1 c2 h d = (pipe_init c2 c1 (fst h) (snd h) (snd d))\<lparr>peer := Some p0\<rparr>"

lemma pipepair_eq:
  assumes "pipes s p0 = None" "pipes s p1 = None" "p0 \<noteq> p1"
    "upipes s c1 = None" "upipes s c2 = None" "c1 \<noteq> c2"
  obtains s' where "pipepair p0 p1 c1 c2 h d s = Some s'"
    "pipes s' = (pipes s)(p0 \<mapsto> end0 p1 c1 c2 h d, p1 \<mapsto> end1 p0 c1 c2 h d)"
    "upipes s' = (upipes s)(c1 \<mapsto> chan_empty, c2 \<mapsto> chan_empty)" "cmds s' = cmds s"
proof -
  have "\<exists>s'. pipepair p0 p1 c1 c2 h d s = Some s' \<and>
      pipes s' = (pipes s)(p0 \<mapsto> end0 p1 c1 c2 h d, p1 \<mapsto> end1 p0 c1 c2 h d) \<and>
      upipes s' = (upipes s)(c1 \<mapsto> chan_empty, c2 \<mapsto> chan_empty) \<and> cmds s' = cmds s"
    using assms
    by (auto simp: pipepair_def new_upipe_def new_pipe_def pipe_set_peer_def put_pipe_def
        put_upipe_def pipe_init_def end0_def end1_def fun_upd_twist)
  then show ?thesis using that by blast
qed

lemma pipe_ok_mono:
  assumes "pipe_ok s x" "dom (pipes s) \<subseteq> dom (pipes s')" "dom (upipes s) \<subseteq> dom (upipes s')"
  shows "pipe_ok s' x"
proof -
  have "upipes s' c \<noteq> None" if "upipes s c \<noteq> None" for c using that assms(3) by blast
  moreover have "pipes s' c \<noteq> None" if "pipes s c \<noteq> None" for c using that assms(2) by blast
  ultimately show ?thesis using assms(1) unfolding pipe_ok_def by blast
qed

lemma pipepair_valid:
  assumes ok: "world_ok s" and f: "pipes s p0 = None" "pipes s p1 = None" "p0 \<noteq> p1"
    "upipes s c1 = None" "upipes s c2 = None" "c1 \<noteq> c2"
    and s': "pipes s' = (pipes s)(p0 \<mapsto> end0 p1 c1 c2 h d, p1 \<mapsto> end1 p0 c1 c2 h d)"
    "upipes s' = (upipes s)(c1 \<mapsto> chan_empty, c2 \<mapsto> chan_empty)"
  shows "world_ok s'"
proof -
  have old: "pipe_ok s x \<and> inpipe x \<notin> {c1, c2} \<and> outpipe x \<notin> {Some c1, Some c2}"
    if "pipes s p = Some x" for p x
    using world_okD(1)[OF ok that] f by (auto simp: pipe_ok_def)
  have new: "pipe_ok s' (end0 p1 c1 c2 h d)" "pipe_ok s' (end1 p0 c1 c2 h d)"
    using s' by (auto simp: pipe_ok_def end0_def end1_def pipe_init_def final_def)
  have "pipe_ok s' x" if "pipes s' p = Some x" for p x
    using that new s' old[of p x] pipe_ok_mono[of s x s'] by (auto split: if_splits)
  moreover have sep: "inpipe x \<noteq> inpipe y \<and> (outpipe x = None \<or> outpipe x \<noteq> outpipe y)"
    if "pipes s p = Some x" "pipes s q = Some y" "p \<noteq> q" for p q x y
    using that ok unfolding world_ok_def by blast
  have "inpipe x \<noteq> inpipe y \<and> (outpipe x = None \<or> outpipe x \<noteq> outpipe y)"
    if "pipes s' p = Some x" "pipes s' q = Some y" "p \<noteq> q" for p q x y
    using that s' old[of p x] old[of q y] f sep[of p x q y]
    by (auto simp: end0_def end1_def pipe_init_def split: if_splits)
  moreover have "chan_ok ch" if "upipes s' c = Some ch" for c ch
    using that s'(2) ok by (auto simp: world_ok_def split: if_splits)
  ultimately show ?thesis unfolding world_ok_def by blast
qed

section \<open>Receiving one frame\<close>

text \<open>
  One receive as a case distinction, and the number of frames the pipes of a fair queue can deliver, which
  shows that loops over receives end.
\<close>

definition backlog_size :: "nat fq_t \<Rightarrow> world \<Rightarrow> nat" where
  "backlog_size q w = (\<Sum>p \<in> fq_all q. length (avail w p))"

lemma backlog_decreases:
  assumes "p \<in> fq_all q" "avail w p = m # avail w' p" "\<forall>r. r \<noteq> p \<longrightarrow> avail w' r = avail w r" "fq_all q' = fq_all q"
  shows "backlog_size q' w' < backlog_size q w"
  unfolding backlog_size_def assms(4)
proof (rule sum_strict_mono_ex1)
  show "finite (fq_all q)" by simp
  show "\<forall>r \<in> fq_all q. length (avail w' r) \<le> length (avail w r)"
  proof
    fix r show "length (avail w' r) \<le> length (avail w r)"
      using assms(2,3) by (cases "r = p") auto
  qed
  show "\<exists>r \<in> fq_all q. length (avail w' r) < length (avail w r)"
    using assms(1,2) by (intro bexI[of _ p]) auto
qed

lemma fq_recvpipe_step:
  assumes "pin.in_sync q w"
  obtains q' w' where "fq_recvpipe pipe_read q w = Some (q', w', Inl EAGAIN)" "pin.in_sync q' w'" "fq_all q' = fq_all q"
      "avail w' = avail w" "\<forall>p \<in> fq_actives q. avail w p = []" "\<not> fq_more q" "\<not> fq_more q'" "fq_actives q' = {}"
  | q' w' m p where "fq_recvpipe pipe_read q w = Some (q', w', Inr (m, p))" "pin.in_sync q' w'" "fq_all q' = fq_all q"
      "p \<in> fq_all q" "avail w p = m # avail w' p" "\<forall>r. r \<noteq> p \<longrightarrow> avail w' r = avail w r"
      "p \<in> fq_actives q" "fq_more q' = frame_more m" "frame_more m \<longrightarrow> items (fq_pipes q') ! fq_current q' = p"
      "fq_more q \<longrightarrow> p = items (fq_pipes q) ! fq_current q" "\<forall>r \<in> fq_actives q - fq_actives q'. avail w r = []"
proof -
  obtain q' w' r where r: "fq_recvpipe pipe_read q w = Some (q', w', r)" "pin.recv_post q w (q', w', r)"
    "pin.in_sync q' w'" "fq_all q' = fq_all q" using pin.recvpipe_correct[OF assms] by blast
  show ?thesis
  proof (cases r)
    case (Inl e)
    then have post: "e = EAGAIN" "\<forall>p \<in> fq_actives q. avail w p = []" "avail w' = avail w" "\<not> fq_more q'" "fq_actives q' = {}"
      using r(2) by (auto simp: pin.recv_post_def)
    have "\<not> fq_more q"
    proof
      assume more: "fq_more q"
      then have act: "fq_active q \<noteq> 0" "avail w (items (fq_pipes q) ! fq_current q) \<noteq> []" "fq_ok q"
        using assms by (auto simp: pin.in_sync_def)
      then show False using fq_current_get[OF act(3,1)] post(2) by auto
    qed
    then show ?thesis using that(1)[of q' w'] r Inl post by simp
  next
    case (Inr mp)
    obtain m p where mp: "mp = (m, p)" by fastforce
    have "p \<in> fq_actives q" "avail w p = m # avail w' p" "\<forall>r. r \<noteq> p \<longrightarrow> avail w' r = avail w r"
      "fq_more q' = frame_more m" "frame_more m \<longrightarrow> items (fq_pipes q') ! fq_current q' = p"
      "fq_more q \<longrightarrow> p = items (fq_pipes q) ! fq_current q" "\<forall>r \<in> fq_actives q - fq_actives q'. avail w r = []"
      using r(2) Inr mp by (auto simp: pin.recv_post_def)
    then show ?thesis using that(2)[of q' w' m p] r Inr mp fq_actives_sub[of q] by auto
  qed
qed

lemma fq_recv_step:
  assumes "pin.in_sync q w"
  obtains q' w' where "fq_recv pipe_read q w = Some (q', w', Inl EAGAIN)" "pin.in_sync q' w'" "fq_all q' = fq_all q"
      "avail w' = avail w" "\<forall>p \<in> fq_actives q. avail w p = []" "\<not> fq_more q" "\<not> fq_more q'" "fq_actives q' = {}"
  | q' w' m p where "fq_recv pipe_read q w = Some (q', w', Inr m)" "pin.in_sync q' w'" "fq_all q' = fq_all q"
      "p \<in> fq_all q" "avail w p = m # avail w' p" "\<forall>r. r \<noteq> p \<longrightarrow> avail w' r = avail w r"
      "p \<in> fq_actives q" "fq_more q' = frame_more m" "frame_more m \<longrightarrow> items (fq_pipes q') ! fq_current q' = p"
      "fq_more q \<longrightarrow> p = items (fq_pipes q) ! fq_current q" "\<forall>r \<in> fq_actives q - fq_actives q'. avail w r = []"
  using assms
proof (cases rule: fq_recvpipe_step)
  case (1 q' w')
  then show ?thesis by (intro that(1)[of q' w']) (simp_all add: fq_recv_def)
next
  case (2 q' w' m p)
  then show ?thesis by (intro that(2)[of q' w' m p]) (simp_all add: fq_recv_def)
qed

section \<open>Properties\<close>

text \<open>
  \<open>pipepair\<close> with unused addresses never fails, adds two pipe objects whose channels are crossed
  and keeps the state well formed; both ends can be written to and have nothing to read, and the high
  watermark of each direction is the one its low watermark is computed from.
\<close>

theorem pipepair_connects:
  assumes "world_ok s" "pipes s p0 = None" "pipes s p1 = None" "p0 \<noteq> p1"
    "upipes s c1 = None" "upipes s c2 = None" "c1 \<noteq> c2" "0 \<le> fst h" "fst h < 2 ^ 31" "0 \<le> snd h" "snd h < 2 ^ 31"
  shows "\<exists>s' x y. pipepair p0 p1 c1 c2 h d s = Some s' \<and> world_ok s' \<and>
    pipes s' = (pipes s)(p0 \<mapsto> x, p1 \<mapsto> y) \<and> outpipe x = Some (inpipe y) \<and> outpipe y = Some (inpipe x) \<and>
    peer x = Some p1 \<and> peer y = Some p0 \<and> lwm y = compute_lwm (hwm x) \<and> lwm x = compute_lwm (hwm y) \<and>
    avail s' p0 = [] \<and> avail s' p1 = [] \<and> writable s' p0 \<and> writable s' p1"
proof -
  obtain s' where s': "pipepair p0 p1 c1 c2 h d s = Some s'"
    "pipes s' = (pipes s)(p0 \<mapsto> end0 p1 c1 c2 h d, p1 \<mapsto> end1 p0 c1 c2 h d)"
    "upipes s' = (upipes s)(c1 \<mapsto> chan_empty, c2 \<mapsto> chan_empty)"
    using assms(2-7) by (rule pipepair_eq)
  have ok: "world_ok s'" using assms(1-7) s'(2,3) by (rule pipepair_valid)
  have w: "(0 :: uint64) \<noteq> word_of_int k" if "0 < k" "k < 2 ^ 31" for k :: int
  proof
    assume "(0 :: uint64) = word_of_int k"
    then have "uint (0 :: uint64) = uint (word_of_int k :: uint64)" by simp
    then have "k mod 2 ^ 64 = 0" by (simp add: uint_word_of_int)
    moreover have "k mod 2 ^ 64 = k" using that by (intro mod_pos_pos_trivial) auto
    ultimately show False using that by simp
  qed
  then have nf: "\<not> full (end0 p1 c1 c2 h d)" "\<not> full (end1 p0 c1 c2 h d)"
    using w[of "fst h"] w[of "snd h"] assms(8-11)
    by (auto simp: full_def end0_def end1_def pipe_init_def)
  show ?thesis
    by (rule exI[of _ s'], rule exI[of _ "end0 p1 c1 c2 h d"], rule exI[of _ "end1 p0 c1 c2 h d"])
      (use s' ok assms(4,7) nf in \<open>simp add: avail_def writable_def end0_def end1_def pipe_init_def
        chan_empty_def\<close>)
qed

theorem pipepair_connects_witness:
  "\<exists>s' x y. pipepair 0 1 2 3 (1000, 0) (True, False) empty_world = Some s' \<and>
    pipes s' = [0 \<mapsto> x, 1 \<mapsto> y] \<and> outpipe x = Some (inpipe y) \<and> writable s' 0"
  using pipepair_connects[of empty_world 0 1 2 3 "(1000, 0)" "(True, False)"]
  by (auto simp: empty_world_def world_ok_def)

text \<open>
  C5: receiving through the fair queue. If the fair queue agrees with its pipes, a receive does not
  fail internally; it reports that nothing is available only if no active pipe has a frame, otherwise
  it returns the first frame of an active pipe and takes it from that pipe only, and the parts of one
  message all come from the same pipe. The agreement holds afterwards again.
\<close>

theorem fq_receive:
  assumes "fq_ok q" "\<forall>p \<in> fq_all q. valid s p \<and> whole (avail s p)"
    "fq_more q \<longrightarrow> fq_active q \<noteq> 0 \<and> avail s (items (fq_pipes q) ! fq_current q) \<noteq> []"
  shows "\<exists>q' s' r. fq_recvpipe pipe_read q s = Some (q', s', r) \<and>
    (case r of
       Inl e \<Rightarrow> e = EAGAIN \<and> (\<forall>p \<in> fq_actives q. avail s p = []) \<and> avail s' = avail s
     | Inr (m, p) \<Rightarrow> p \<in> fq_actives q \<and> avail s p = m # avail s' p \<and>
         (\<forall>r. r \<noteq> p \<longrightarrow> avail s' r = avail s r) \<and>
         (fq_more q \<longrightarrow> p = items (fq_pipes q) ! fq_current q) \<and>
         (frame_more m \<longrightarrow> items (fq_pipes q') ! fq_current q' = p)) \<and>
    fq_ok q' \<and> (\<forall>p \<in> fq_all q'. valid s' p \<and> whole (avail s' p)) \<and>
    (fq_more q' \<longrightarrow> fq_active q' \<noteq> 0 \<and> avail s' (items (fq_pipes q') ! fq_current q') \<noteq> [])"
proof -
  have "pin.in_sync q s" using assms by (simp add: pin.in_sync_def)
  from pin.recvpipe_correct[OF this] obtain q' s' r where
    r: "fq_recvpipe pipe_read q s = Some (q', s', r)" "pin.recv_post q s (q', s', r)" "pin.in_sync q' s'"
    by blast
  show ?thesis
    by (rule exI[of _ q'], rule exI[of _ s'], rule exI[of _ r])
      (use r in \<open>auto simp: pin.recv_post_def pin.in_sync_def split: sum.splits\<close>)
qed

text \<open>
  A world with two pipes: the first can deliver a message of two parts, the second one of one part.
\<close>

definition demo_pipe :: pipe_t where
  "demo_pipe = (pipe_init 2 3 0 0 False)\<lparr>peer := Some 1\<rparr>"

definition demo_pipe' :: pipe_t where
  "demo_pipe' = (pipe_init 4 5 0 0 False)\<lparr>peer := Some 0\<rparr>"

definition demo_world :: world where
  "demo_world = empty_world\<lparr>pipes := [0 \<mapsto> demo_pipe, 1 \<mapsto> demo_pipe'],
     upipes := [2 \<mapsto> chan_empty\<lparr>readable := [frame_of 1 [5], frame_of 0 [6]]\<rparr>, 3 \<mapsto> chan_empty,
       4 \<mapsto> chan_empty\<lparr>readable := [frame_of 0 [7]]\<rparr>, 5 \<mapsto> chan_empty]\<rparr>"

lemmas demo_defs = demo_world_def empty_world_def demo_pipe_def demo_pipe'_def pipe_init_def chan_empty_def

lemma demo_world_ok: "world_ok demo_world"
  by (auto simp: world_ok_def demo_defs pipe_ok_def final_def chan_ok_def whole_def frame_of_def
      frame_more_def split: if_splits)

lemma demo_avail: "avail demo_world 0 = [frame_of 1 [5], frame_of 0 [6]]"
  "avail demo_world (Suc 0) = [frame_of 0 [7]]"
  by (simp_all add: avail_def demo_defs can_read_def frame_of_def)

lemma demo_valid: "valid demo_world 0" "valid demo_world (Suc 0)"
  using demo_world_ok by (simp_all add: valid_def demo_world_def)

lemma demo_writable: "writable demo_world 0"
  by (simp add: writable_def demo_defs full_def)

lemma demo_out: "out demo_world 0 = []" "flushed demo_world 0 = []"
  by (simp_all add: out_def flushed_def out_chan_def demo_defs)

lemma demo_whole: "whole [frame_of 1 [5], frame_of 0 [6]]" "whole [frame_of 0 [7]]"
  by (simp_all add: whole_def frame_of_def frame_more_def)

definition demo_array :: "nat array_t" where
  "demo_array = \<lparr>items = [0], array_index = (\<lambda>_. 0)\<rparr>"

lemma demo_array_ok: "array_ok demo_array"
  by (simp add: demo_array_def array_ok_def)

definition demo_fq :: "nat fq_t" where
  "demo_fq = \<lparr>fq_pipes = demo_array, fq_active = 1, fq_current = 0, fq_more = False\<rparr>"

lemma demo_fq_ok: "fq_ok demo_fq" "fq_actives demo_fq = {0}" "fq_all demo_fq = {0}" "\<not> fq_more demo_fq"
  using demo_array_ok
  by (simp_all add: fq_ok_def fq_actives_def prefix_set_def demo_fq_def demo_array_def)

theorem fq_receive_witness:
  "\<exists>q' s'. fq_recvpipe pipe_read demo_fq demo_world = Some (q', s', Inr (frame_of 1 [5], 0)) \<and>
     avail s' 0 = [frame_of 0 [6]]"
proof -
  have pre: "\<forall>p \<in> fq_all demo_fq. valid demo_world p \<and> whole (avail demo_world p)"
    "fq_more demo_fq \<longrightarrow> fq_active demo_fq \<noteq> 0 \<and>
       avail demo_world (items (fq_pipes demo_fq) ! fq_current demo_fq) \<noteq> []"
    using demo_fq_ok demo_valid demo_avail demo_whole by auto
  obtain q' s' r where r: "fq_recvpipe pipe_read demo_fq demo_world = Some (q', s', r)"
    "case r of
       Inl e \<Rightarrow> e = EAGAIN \<and> (\<forall>p \<in> fq_actives demo_fq. avail demo_world p = []) \<and> avail s' = avail demo_world
     | Inr (m, p) \<Rightarrow> p \<in> fq_actives demo_fq \<and> avail demo_world p = m # avail s' p \<and>
         (\<forall>r. r \<noteq> p \<longrightarrow> avail s' r = avail demo_world r) \<and>
         (fq_more demo_fq \<longrightarrow> p = items (fq_pipes demo_fq) ! fq_current demo_fq) \<and>
         (frame_more m \<longrightarrow> items (fq_pipes q') ! fq_current q' = p)"
    using fq_receive[OF demo_fq_ok(1) pre] by (elim exE conjE)
  show ?thesis
  proof (cases r)
    case (Inl e)
    then show ?thesis using r(2) demo_fq_ok(2) demo_avail by simp
  next
    case (Inr mp)
    then show ?thesis using r demo_fq_ok(2) demo_avail by (cases mp) simp
  qed
qed

text \<open>
  C6: fairness of the fair queue. While some active pipe has a frame to read, every whole message that
  is received from another pipe brings that pipe strictly closer to the round-robin pointer, so it is
  served after at most as many messages as there are active pipes.
\<close>

theorem fq_fairness:
  assumes "fq_ok q" "\<forall>p \<in> fq_all q. valid s p \<and> whole (avail s p)"
    "fq_more q \<longrightarrow> fq_active q \<noteq> 0 \<and> avail s (items (fq_pipes q) ! fq_current q) \<noteq> []"
    "i < fq_active q" "avail s (items (fq_pipes q) ! i) \<noteq> []"
    "fq_recvpipe pipe_read q s = Some (q', s', Inr (m, r))" "\<not> frame_more m"
    "r \<noteq> items (fq_pipes q) ! i"
  shows "\<exists>j < fq_active q'. items (fq_pipes q') ! j = items (fq_pipes q) ! i \<and>
    fq_distance q' j < fq_distance q i"
proof -
  have "pin.in_sync q s" using assms(1-3) by (simp add: pin.in_sync_def)
  then show ?thesis using assms(4-8) by (rule pin.recv_fair)
qed

definition demo_fq2 :: "nat fq_t" where
  "demo_fq2 = \<lparr>fq_pipes = \<lparr>items = [0, 1], array_index = int\<rparr>, fq_active = 2, fq_current = 1, fq_more = False\<rparr>"

theorem fq_fairness_witness:
  "\<exists>q' s' j. fq_recvpipe pipe_read demo_fq2 demo_world = Some (q', s', Inr (frame_of 0 [7], 1)) \<and>
     j < fq_active q' \<and> items (fq_pipes q') ! j = 0 \<and> fq_distance q' j < fq_distance demo_fq2 0"
proof -
  have it: "items (fq_pipes demo_fq2) = [0, 1]" "fq_active demo_fq2 = 2" "fq_current demo_fq2 = 1"
    "\<not> fq_more demo_fq2" by (simp_all add: demo_fq2_def)
  have ok: "fq_ok demo_fq2"
    by (simp add: fq_ok_def array_ok_def demo_fq2_def less_Suc_eq numeral_2_eq_2 all_conj_distrib)
  have pre: "\<forall>p \<in> fq_all demo_fq2. valid demo_world p \<and> whole (avail demo_world p)"
    "fq_more demo_fq2 \<longrightarrow> fq_active demo_fq2 \<noteq> 0 \<and>
       avail demo_world (items (fq_pipes demo_fq2) ! fq_current demo_fq2) \<noteq> []"
    using demo_valid demo_avail demo_whole it by auto
  have sync: "pin.in_sync demo_fq2 demo_world" using ok pre by (simp add: pin.in_sync_def)
  obtain q' s' where r: "fq_recvpipe pipe_read demo_fq2 demo_world = Some (q', s', Inr (frame_of 0 [7], 1))"
    by (rule pin.recv_hit[OF sync, of 1 "frame_of 0 [7]" "[]"]) (use it demo_avail in simp_all)
  have "\<exists>j < fq_active q'. items (fq_pipes q') ! j = items (fq_pipes demo_fq2) ! 0 \<and>
      fq_distance q' j < fq_distance demo_fq2 0"
    by (rule fq_fairness[OF ok pre _ _ r])
      (use it demo_avail in \<open>simp_all add: frame_of_def frame_more_def\<close>)
  then show ?thesis using r it by auto
qed

text \<open>
  C7: sending through the load balancer. If only the current pipe holds an unfinished message, a send
  does not fail internally: it fails with \<open>EAGAIN\<close> and writes nothing only if no active pipe can be
  written to; otherwise it appends the frame to one writable active pipe, in the middle of a message
  to the same pipe as before, and the peer sees the message exactly when its last part is sent. While
  the rest of a message is dropped, nothing is written. The agreement holds afterwards again.
\<close>

theorem lb_send_pipes:
  assumes "lb_ok q" "\<forall>p \<in> lb_all q. valid s p"
    "\<forall>p \<in> lb_all q. whole (out s p) \<or> (lb_more q \<and> \<not> lb_dropping q \<and> p = items (lb_pipes q) ! lb_current q)"
    "lb_more q \<and> \<not> lb_dropping q \<longrightarrow> lb_active q \<noteq> 0 \<and> writable s (items (lb_pipes q) ! lb_current q)"
    "lb_dropping q \<longrightarrow> lb_more q"
  shows "\<exists>q' s' r. lb_send pipe_write pipe_flush m q s = Some (q', s', r) \<and>
    (if lb_dropping q then r = Inr () \<and> s' = s
     else case r of
       Inl e \<Rightarrow> e = EAGAIN \<and> (\<forall>p \<in> lb_actives q. \<not> writable s p) \<and> out s' = out s \<and> flushed s' = flushed s
     | Inr _ \<Rightarrow> \<exists>p \<in> lb_actives q. writable s p \<and>
         (lb_more q \<longrightarrow> p = items (lb_pipes q) ! lb_current q) \<and> out s' = (out s)(p := out s p @ [m]) \<and>
         (if frame_more m then flushed s' = flushed s \<and> items (lb_pipes q') ! lb_current q' = p
          else flushed s' = (flushed s)(p := out s p @ [m]))) \<and>
    lb_all q' = lb_all q \<and> pout.lb_sync q' s'"
proof -
  have "pout.lb_sync q s" using assms by (simp add: pout.lb_sync_def)
  from pout.send_correct[OF this, of m] obtain q' s' r where
    r: "lb_send pipe_write pipe_flush m q s = Some (q', s', r)" "pout.send_post m q s q' s' r"
    "pout.lb_sync q' s'" "lb_all q' = lb_all q" by blast
  show ?thesis
    by (rule exI[of _ q'], rule exI[of _ s'], rule exI[of _ r])
      (use r in \<open>simp add: pout.send_post_def\<close>)
qed

definition demo_lb :: "nat lb_t" where
  "demo_lb = \<lparr>lb_pipes = demo_array, lb_active = 1, lb_current = 0, lb_more = False, lb_dropping = False\<rparr>"

lemma demo_lb_ok: "lb_ok demo_lb" "lb_actives demo_lb = {0}" "lb_all demo_lb = {0}" "\<not> lb_more demo_lb"
  "\<not> lb_dropping demo_lb"
  using demo_array_ok
  by (simp_all add: lb_ok_def lb_actives_def prefix_set_def demo_lb_def demo_array_def)

theorem lb_send_pipes_witness:
  "\<exists>q' s'. lb_send pipe_write pipe_flush (frame_of 0 [9]) demo_lb demo_world = Some (q', s', Inr ()) \<and>
     flushed s' 0 = [frame_of 0 [9]]"
proof -
  have "\<forall>p \<in> lb_all demo_lb. valid demo_world p" "\<forall>p \<in> lb_all demo_lb. whole (out demo_world p) \<or>
      (lb_more demo_lb \<and> \<not> lb_dropping demo_lb \<and> p = items (lb_pipes demo_lb) ! lb_current demo_lb)"
    "lb_more demo_lb \<and> \<not> lb_dropping demo_lb \<longrightarrow> lb_active demo_lb \<noteq> 0 \<and>
       writable demo_world (items (lb_pipes demo_lb) ! lb_current demo_lb)" "lb_dropping demo_lb \<longrightarrow> lb_more demo_lb"
    using demo_lb_ok demo_valid demo_out by auto
  from lb_send_pipes[OF demo_lb_ok(1) this, of "frame_of 0 [9]"] obtain q' s' r where
    r: "lb_send pipe_write pipe_flush (frame_of 0 [9]) demo_lb demo_world = Some (q', s', r)"
    "case r of
       Inl e \<Rightarrow> e = EAGAIN \<and> (\<forall>p \<in> {0}. \<not> writable demo_world p) \<and> out s' = out demo_world \<and>
         flushed s' = flushed demo_world
     | Inr _ \<Rightarrow> \<exists>p \<in> {0}. writable demo_world p \<and>
         (lb_more demo_lb \<longrightarrow> p = items (lb_pipes demo_lb) ! lb_current demo_lb) \<and>
         out s' = (out demo_world)(p := out demo_world p @ [frame_of 0 [9]]) \<and>
         (if frame_more (frame_of 0 [9])
          then flushed s' = flushed demo_world \<and> items (lb_pipes q') ! lb_current q' = p
          else flushed s' = (flushed demo_world)(p := out demo_world p @ [frame_of 0 [9]]))"
    unfolding demo_lb_ok(2) if_not_P[OF demo_lb_ok(5)] by (elim exE conjE)
  then show ?thesis using demo_writable demo_out
    by (cases r) (simp_all add: frame_of_def frame_more_def)
qed

text \<open>
  Publishing a frame. Every matching pipe that can be written to gets the frame exactly once, at
  the end of a message its peer gets to see it, no other pipe is changed; a matching pipe that is full
  loses its place among the matching, active and eligible pipes until it is activated again. Exactly
  the pipes that got the first part of a message are matching for the next part.
\<close>

theorem dist_send_pipes:
  assumes "dist_ok d" "\<forall>p \<in> dist_all d. valid s p"
  shows "\<exists>d' s'. dist_send_to_matching pipe_write pipe_flush m d s = Some (d', s') \<and>
    (\<forall>p. out s' p = (if p \<in> matching_set d \<and> writable s p then out s p @ [m] else out s p)) \<and>
    (\<forall>p. flushed s' p =
       (if p \<in> matching_set d \<and> writable s p \<and> \<not> frame_more m then out s p @ [m] else flushed s p)) \<and>
    dist_ok d' \<and> dist_all d' = dist_all d \<and> di_more d' = frame_more m \<and>
    (\<forall>p \<in> dist_all d'. valid s' p) \<and>
    matching_set d' = {p \<in> matching_set d. writable s p} \<and>
    eligible_set d' = eligible_set d - {p \<in> matching_set d. \<not> writable s p} \<and>
    (\<not> frame_more m \<longrightarrow> active_set d' = eligible_set d')"
proof -
  obtain d' s' where r: "dist_send_to_matching pipe_write pipe_flush m d s = Some (d', s')" "dist_ok d'"
    "pout.delivered m (matching_set d) s s'" "dist_all d' = dist_all d" "di_more d' = frame_more m"
    "eligible_set d' = eligible_set d - {p \<in> matching_set d. \<not> writable s p}"
    "active_set d' = (if frame_more m then active_set d - {p \<in> matching_set d. \<not> writable s p}
                     else eligible_set d')" "matching_set d' = {p \<in> matching_set d. writable s p}"
    using pout.send_to_matching_correct[OF assms, of m] by (elim exE conjE)
  have v: "\<forall>p \<in> dist_all d'. valid s' p" using assms(2) r(3,4) by (simp add: pout.delivered_def)
  show ?thesis
    by (rule exI[of _ d'], rule exI[of _ s']) (use r v in \<open>simp add: pout.delivered_def\<close>)
qed

definition demo_dist :: "nat dist_t" where
  "demo_dist = \<lparr>di_pipes = demo_array, di_matching = 1, di_active = 1, di_eligible = 1, di_more = False\<rparr>"

theorem dist_send_pipes_witness:
  "\<exists>d' s'. dist_send_to_matching pipe_write pipe_flush (frame_of 0 [9]) demo_dist demo_world = Some (d', s') \<and>
     flushed s' 0 = [frame_of 0 [9]]"
proof -
  have ok: "dist_ok demo_dist" "matching_set demo_dist = {0}"
    using demo_array_ok by (simp_all add: dist_ok_def demo_dist_def demo_array_def dist_sets prefix_set_def)
  have v: "\<forall>p \<in> dist_all demo_dist. valid demo_world p"
    using demo_valid by (simp add: demo_dist_def demo_array_def)
  obtain d' s' where r: "dist_send_to_matching pipe_write pipe_flush (frame_of 0 [9]) demo_dist demo_world = Some (d', s')"
    "\<forall>p. flushed s' p = (if p \<in> matching_set demo_dist \<and> writable demo_world p \<and> \<not> frame_more (frame_of 0 [9])
        then out demo_world p @ [frame_of 0 [9]] else flushed demo_world p)"
    using dist_send_pipes[OF ok(1) v, of "frame_of 0 [9]"] by (elim exE conjE)
  then show ?thesis using r(2)[rule_format, of 0] ok(2) demo_writable demo_out
    by (simp add: frame_of_def frame_more_def)
qed

end
