(* ===== verification/Wire.thy ===== *)
theory Wire
  imports Prelude
begin

unbundle bit_operations_syntax

text \<open>
  The network byte order helpers of \<open>wire.hpp\<close>. A \<open>put\<close> function is modelled by the list of
  bytes it stores from \<open>buffer_\<close> on, a \<open>get\<close> function reads the first bytes of the buffer and is
  \<open>None\<close> when the buffer is too short for the access. Integers keep their width.
\<close>

section \<open>Definitions\<close>

definition put_uint8 :: "8 word \<Rightarrow> bytes" where
  "put_uint8 value = [value]"

fun get_uint8 :: "bytes \<Rightarrow> 8 word option" where
  "get_uint8 (b0 # _) = Some b0"
| "get_uint8 _ = None"

definition put_uint16 :: "16 word \<Rightarrow> bytes" where
  "put_uint16 value = [ucast (drop_bit 8 value AND 0xff), ucast (value AND 0xff)]"

fun get_uint16 :: "bytes \<Rightarrow> 16 word option" where
  "get_uint16 (b0 # b1 # _) = Some (push_bit 8 (ucast b0) OR ucast b1)"
| "get_uint16 _ = None"

definition put_uint32 :: "32 word \<Rightarrow> bytes" where
  "put_uint32 value =
     [ucast (drop_bit 24 value AND 0xff), ucast (drop_bit 16 value AND 0xff),
      ucast (drop_bit 8 value AND 0xff), ucast (value AND 0xff)]"

fun get_uint32 :: "bytes \<Rightarrow> 32 word option" where
  "get_uint32 (b0 # b1 # b2 # b3 # _) =
     Some (push_bit 24 (ucast b0) OR push_bit 16 (ucast b1) OR push_bit 8 (ucast b2) OR ucast b3)"
| "get_uint32 _ = None"

definition put_uint64 :: "64 word \<Rightarrow> bytes" where
  "put_uint64 value =
     [ucast (drop_bit 56 value AND 0xff), ucast (drop_bit 48 value AND 0xff),
      ucast (drop_bit 40 value AND 0xff), ucast (drop_bit 32 value AND 0xff),
      ucast (drop_bit 24 value AND 0xff), ucast (drop_bit 16 value AND 0xff),
      ucast (drop_bit 8 value AND 0xff), ucast (value AND 0xff)]"

fun get_uint64 :: "bytes \<Rightarrow> 64 word option" where
  "get_uint64 (b0 # b1 # b2 # b3 # b4 # b5 # b6 # b7 # _) =
     Some (push_bit 56 (ucast b0) OR push_bit 48 (ucast b1) OR push_bit 40 (ucast b2) OR
           push_bit 32 (ucast b3) OR push_bit 24 (ucast b4) OR push_bit 16 (ucast b5) OR
           push_bit 8 (ucast b6) OR ucast b7)"
| "get_uint64 _ = None"

section \<open>Bit-level lemmas\<close>

text \<open>
  Both directions are proved bit by bit: bit \<open>n\<close> of the reassembled word is bit \<open>n mod 8\<close> of the
  byte that carries it.
\<close>

lemma ucast_byte_mask [wire_simps]:
  fixes v :: "'a::len word"
  shows "(ucast (v AND 0xff) :: byte) = ucast v"
proof (rule bit_word_eqI)
  fix n assume "n < LENGTH(8)"
  moreover have "(0xff :: 'a word) = mask 8" by (simp add: mask_eq_exp_minus_1)
  ultimately show "bit (ucast (v AND 0xff) :: byte) n = bit (ucast v :: byte) n"
    by (simp only: bit_simps) (auto dest: bit_imp_le_length)
qed

lemma bit_ucast_byte [wire_simps]:
  fixes v :: "'a::len word"
  shows "bit (ucast v :: byte) n \<longleftrightarrow> n < 8 \<and> bit v n"
  by (auto simp: bit_simps)

lemma bit_ucast_from_byte [wire_simps]:
  fixes b :: byte
  assumes "8 \<le> LENGTH('a::len)"
  shows "bit (ucast b :: 'a word) n \<longleftrightarrow> bit b n"
  using assms by (auto simp: bit_simps dest: bit_imp_le_length)

lemma length_put_uint64 [simp]: "length (put_uint64 v) = 8"
  by (simp add: put_uint64_def)

lemma length_put_uint32 [simp]: "length (put_uint32 v) = 4"
  by (simp add: put_uint32_def)

lemma length_put_uint16 [simp]: "length (put_uint16 v) = 2"
  by (simp add: put_uint16_def)

text \<open>The byte stored for position \<open>k\<close>, shifted back, contributes exactly the bits \<open>k ..< k + 8\<close>.\<close>

lemma bit_slice [wire_simps]:
  fixes v :: "'a::len word"
  assumes "8 \<le> LENGTH('a)"
  shows "bit (push_bit k (ucast (ucast (drop_bit k v) :: byte)) :: 'a word) n
         \<longleftrightarrow> k \<le> n \<and> n < k + 8 \<and> bit v n"
proof (cases "k \<le> n")
  case True
  then obtain m where "n = k + m" using le_Suc_ex by blast
  then show ?thesis
    using assms by (auto simp: bit_push_bit_iff bit_ucast_from_byte bit_ucast_byte bit_drop_bit_eq
        dest: bit_imp_le_length)
qed (simp add: bit_push_bit_iff)

lemma bit_slice0 [wire_simps]:
  fixes v :: "'a::len word"
  assumes "8 \<le> LENGTH('a)"
  shows "bit (ucast (ucast v :: byte) :: 'a word) n \<longleftrightarrow> n < 8 \<and> bit v n"
  using assms by (simp add: bit_ucast_from_byte bit_ucast_byte)

lemma get_put_uint16 [simp]: "get_uint16 (put_uint16 v @ rest) = Some v"
proof -
  have "push_bit 8 (ucast (ucast (drop_bit 8 v) :: byte)) OR ucast (ucast v :: byte) = v"
    by (rule bit_word_eqI) (simp add: bit_or_iff bit_slice bit_slice0, arith)
  then show ?thesis by (simp add: put_uint16_def ucast_byte_mask)
qed

lemma get_put_uint32 [simp]: "get_uint32 (put_uint32 v @ rest) = Some v"
proof -
  have "push_bit 24 (ucast (ucast (drop_bit 24 v) :: byte)) OR
        push_bit 16 (ucast (ucast (drop_bit 16 v) :: byte)) OR
        push_bit 8 (ucast (ucast (drop_bit 8 v) :: byte)) OR ucast (ucast v :: byte) = v"
    by (rule bit_word_eqI) (simp add: bit_or_iff bit_slice bit_slice0, arith)
  then show ?thesis by (simp add: put_uint32_def ucast_byte_mask)
qed

lemma get_put_uint64 [simp]: "get_uint64 (put_uint64 v @ rest) = Some v"
proof -
  have "push_bit 56 (ucast (ucast (drop_bit 56 v) :: byte)) OR
        push_bit 48 (ucast (ucast (drop_bit 48 v) :: byte)) OR
        push_bit 40 (ucast (ucast (drop_bit 40 v) :: byte)) OR
        push_bit 32 (ucast (ucast (drop_bit 32 v) :: byte)) OR
        push_bit 24 (ucast (ucast (drop_bit 24 v) :: byte)) OR
        push_bit 16 (ucast (ucast (drop_bit 16 v) :: byte)) OR
        push_bit 8 (ucast (ucast (drop_bit 8 v) :: byte)) OR ucast (ucast v :: byte) = v"
    by (rule bit_word_eqI) (simp add: bit_or_iff bit_slice bit_slice0, arith)
  then show ?thesis by (simp add: put_uint64_def ucast_byte_mask)
qed

text \<open>Conversely, the bytes of a read word are the bytes it was read from.\<close>

lemma bit_byte_high [simp]: "8 \<le> n \<Longrightarrow> \<not> bit (b :: byte) n"
  by (auto dest: bit_imp_le_length)

lemmas unslice = bit_or_iff bit_push_bit_iff bit_drop_bit_eq bit_ucast_byte bit_ucast_from_byte

lemma put_get_uint64: "get_uint64 bs = Some v \<Longrightarrow> put_uint64 v = take 8 bs"
  by (induction bs rule: get_uint64.induct)
    (auto simp: put_uint64_def ucast_byte_mask unslice intro!: bit_word_eqI)

lemma put_get_uint32: "get_uint32 bs = Some v \<Longrightarrow> put_uint32 v = take 4 bs"
  by (induction bs rule: get_uint32.induct)
    (auto simp: put_uint32_def ucast_byte_mask unslice intro!: bit_word_eqI)

lemma put_get_uint16: "get_uint16 bs = Some v \<Longrightarrow> put_uint16 v = take 2 bs"
  by (induction bs rule: get_uint16.induct)
    (auto simp: put_uint16_def ucast_byte_mask unslice intro!: bit_word_eqI)

end
