(* ===== verification/Encoder.thy ===== *)
theory Encoder
  imports Wire Msg
begin

text \<open>
  The encoders of \<open>encoder.hpp\<close>, \<open>encoder.cpp\<close> and \<open>v1_encoder.cpp\<close>, which turn messages into batches of
  bytes for the network. Both protocols share the state machine of \<open>encoder_base_t\<close> and differ in the
  header of a message only. The pair of \<open>write_pos\<close> and \<open>to_write\<close> is the list of the bytes that are
  still to be written; messages are taken by value and the source of the messages is a function that
  is passed in, \<open>None\<close> for a null pointer.
\<close>

section \<open>Message headers\<close>

datatype proto = V0 | V1

definition more_flag :: byte where "more_flag = 1"
definition large_flag :: byte where "large_flag = 2"

definition header :: "proto \<Rightarrow> frame \<Rightarrow> bytes" where
  "header pr f = (case pr of
     V0 \<Rightarrow>
       let size = length (fdata f) + 1 in
       if size < 255 then [of_nat size, fflags f AND msg_more]
       else 0xff # put_uint64 (of_nat size) @ [fflags f AND msg_more]
   | V1 \<Rightarrow>
       let size = length (fdata f);
           protocol_flags = (if fflags f AND msg_more \<noteq> 0 then more_flag else 0);
           protocol_flags = (if size > 255 then protocol_flags OR large_flag else protocol_flags)
       in if size > 255 then protocol_flags # put_uint64 (of_nat size)
          else [protocol_flags, of_nat size])"

section \<open>State machine\<close>

datatype enc_step = E_size_ready | E_message_ready

record encoder =
  e_pending :: bytes
  e_next :: enc_step
  e_beginning :: bool
  e_bufsize :: nat
  e_in_progress :: frame

type_synonym 's pull = "'s \<Rightarrow> frame option \<times> 's"

definition encoder_init :: "nat \<Rightarrow> encoder" where
  "encoder_init bufsize = \<lparr>e_pending = [], e_next = E_message_ready, e_beginning = True,
     e_bufsize = bufsize, e_in_progress = frame_of 0 []\<rparr>"

definition e_next_step :: "bytes \<Rightarrow> enc_step \<Rightarrow> bool \<Rightarrow> encoder \<Rightarrow> encoder" where
  "e_next_step bs nxt beginning e = e\<lparr>e_pending := bs, e_next := nxt, e_beginning := beginning\<rparr>"

definition e_size_ready :: "encoder \<Rightarrow> bool \<times> encoder" where
  "e_size_ready e = (True, e_next_step (fdata (e_in_progress e)) E_message_ready
     (\<not> frame_more (e_in_progress e)) e)"

definition e_message_ready :: "proto \<Rightarrow> 's pull option \<Rightarrow> 's \<Rightarrow> encoder \<Rightarrow> bool \<times> encoder \<times> 's" where
  "e_message_ready pr src s e = (case src of
     None \<Rightarrow> (False, e\<lparr>e_in_progress := frame_of 0 []\<rparr>, s)
   | Some pull \<Rightarrow> (case pull s of
       (None, s) \<Rightarrow> (False, e\<lparr>e_in_progress := frame_of 0 []\<rparr>, s)
     | (Some f, s) \<Rightarrow> (True, e_next_step (header pr f) E_size_ready False (e\<lparr>e_in_progress := f\<rparr>), s)))"

definition enc_next :: "proto \<Rightarrow> 's pull option \<Rightarrow> 's \<Rightarrow> encoder \<Rightarrow> bool \<times> encoder \<times> 's" where
  "enc_next pr src s e = (case e_next e of
     E_size_ready \<Rightarrow> (let (ok, e) = e_size_ready e in (ok, e, s))
   | E_message_ready \<Rightarrow> e_message_ready pr src s e)"

definition has_data :: "encoder \<Rightarrow> bool" where
  "has_data e \<longleftrightarrow> e_pending e \<noteq> []"

section \<open>Filling a batch\<close>

text \<open>
  The loop of \<open>get_data\<close>: \<open>supplied\<close> tells whether the caller passed a buffer, \<open>out\<close> is the part of the
  buffer that is filled, \<open>offset\<close> the offset of the first message that begins in the batch.
\<close>

lemma header_not_Nil [simp]: "header pr f \<noteq> []"
  by (simp add: header_def Let_def split: proto.split)

text \<open>A step makes bytes to write available, or writes an empty body and moves on.\<close>

lemma enc_advance:
  assumes "(True, e', s') = (if e_pending e = [] then enc_next pr src s e else (True, e, s))"
  shows "e_pending e' \<noteq> [] \<or> e_next e = E_size_ready \<and> e_next e' = E_message_ready"
  using assms
  by (auto simp: enc_next_def e_size_ready_def e_message_ready_def e_next_step_def
      split: if_splits enc_step.splits option.splits prod.splits)

function enc_loop ::
    "proto \<Rightarrow> 's pull option \<Rightarrow> bool \<Rightarrow> nat \<Rightarrow> bytes \<Rightarrow> int \<Rightarrow> encoder \<Rightarrow> 's \<Rightarrow> bytes \<times> int \<times> encoder \<times> 's" where
  "enc_loop pr src supplied buffersize out offset e s = (
     if length out < buffersize then
       let offset' = (if e_pending e = [] \<and> e_beginning e \<and> offset = -1 then int (length out) else offset);
           (ok, e', s') = (if e_pending e = [] then enc_next pr src s e else (True, e, s))
       in if \<not> ok then (out, offset', e', s')
          else if out = [] \<and> \<not> supplied \<and> buffersize \<le> length (e_pending e')
          then (e_pending e', offset', e'\<lparr>e_pending := []\<rparr>, s')
          else let k = min (length (e_pending e')) (buffersize - length out) in
            enc_loop pr src supplied buffersize (out @ take k (e_pending e')) offset'
              (e'\<lparr>e_pending := drop k (e_pending e')\<rparr>) s'
     else (out, offset, e, s))"
  by pat_completeness auto
termination
proof (relation "measures [\<lambda>(pr, src, sup, buffersize, out, off, e, s). buffersize - length out,
    \<lambda>(pr, src, sup, buffersize, out, off, e, s). if e_next e = E_size_ready then 1 else 0]", simp, goal_cases)
  case (1 pr src supplied buffersize out offset e s offset' x ok y e' s' k)
  then have "e_pending e' \<noteq> [] \<or> e_next e = E_size_ready \<and> e_next e' = E_message_ready"
    by (intro enc_advance[of e' s' e pr src s]) simp
  moreover have "min (length (e_pending e')) (buffersize - length out) = 0 \<longleftrightarrow> e_pending e' = []"
    using 1 by (auto simp: min_def)
  ultimately show ?case using 1 by (cases "e_pending e' = []") (auto intro!: diff_less_mono2)
qed

declare enc_loop.simps [simp del]

definition get_data ::
    "proto \<Rightarrow> 's pull option \<Rightarrow> nat option \<Rightarrow> encoder \<Rightarrow> 's \<Rightarrow> bytes \<times> int \<times> encoder \<times> 's" where
  "get_data pr src data e s =
     enc_loop pr src (data \<noteq> None) (case data of None \<Rightarrow> e_bufsize e | Some buffersize \<Rightarrow> buffersize) [] (-1) e s"

section \<open>The stream of bytes\<close>

text \<open>A message on the wire, and the bytes an encoder has still to deliver.\<close>

definition wire :: "proto \<Rightarrow> frame \<Rightarrow> bytes" where
  "wire pr f = header pr f @ fdata f"

definition wires :: "proto \<Rightarrow> frame list \<Rightarrow> bytes" where
  "wires pr fs = concat (map (wire pr) fs)"

definition in_hand :: "encoder \<Rightarrow> bytes" where
  "in_hand e = e_pending e @ (if e_next e = E_size_ready then fdata (e_in_progress e) else [])"

lemma wires_simps [simp]: "wires pr [] = []" "wires pr (f # fs) = wire pr f @ wires pr fs"
  by (simp_all add: wires_def)

lemma in_hand_pending [simp]:
  "in_hand (e\<lparr>e_pending := bs\<rparr>) = bs @ (if e_next e = E_size_ready then fdata (e_in_progress e) else [])"
  by (simp add: in_hand_def)

text \<open>
  The interface \<open>i_msg_source\<close>: a source has a sequence of available messages, hands them out in order
  and fails when there is none.
\<close>

locale msg_source =
  fixes pull :: "'s \<Rightarrow> frame option \<times> 's" and avail :: "'s \<Rightarrow> frame list" and inv :: "'s \<Rightarrow> bool"
  assumes pull_empty: "inv s \<Longrightarrow> avail s = [] \<Longrightarrow> \<exists>s'. pull s = (None, s') \<and> inv s' \<and> avail s' = []"
    and pull_frame: "inv s \<Longrightarrow> avail s = f # fs \<Longrightarrow> \<exists>s'. pull s = (Some f, s') \<and> inv s' \<and> avail s' = fs"
begin

lemma enc_next_stream:
  assumes "inv s" "e_pending e = []" "enc_next pr (Some pull) s e = (ok, e', s')"
  shows "inv s' \<and> in_hand e @ wires pr (avail s) = in_hand e' @ wires pr (avail s') \<and>
    (\<not> ok \<longrightarrow> in_hand e' = [] \<and> avail s' = [])"
proof (cases "e_next e")
  case E_size_ready
  then show ?thesis using assms by (auto simp: enc_next_def e_size_ready_def e_next_step_def in_hand_def)
next
  case E_message_ready
  show ?thesis
  proof (cases "avail s")
    case Nil
    then show ?thesis using assms E_message_ready pull_empty[OF assms(1)]
      by (auto simp: enc_next_def e_message_ready_def in_hand_def)
  next
    case (Cons f fs)
    then obtain t where "pull s = (Some f, t)" "inv t" "avail t = fs" using pull_frame[OF assms(1)] by blast
    then show ?thesis using assms E_message_ready Cons
      by (auto simp: enc_next_def e_message_ready_def in_hand_def e_next_step_def wire_def)
  qed
qed

lemma enc_loop_stream:
  assumes "inv s" "length out \<le> n" "enc_loop pr (Some pull) supplied n out offs e s = (out', offs', e', s')"
  shows "inv s' \<and> out @ in_hand e @ wires pr (avail s) = out' @ in_hand e' @ wires pr (avail s') \<and>
    (length out' < n \<longrightarrow> in_hand e' = [] \<and> avail s' = []) \<and> (supplied \<longrightarrow> length out' \<le> n)"
  using assms
proof (induction pr "Some pull" supplied n out offs e s rule: enc_loop.induct)
  case (1 pr supplied n out offs e s)
  note eq = 1(4)[unfolded enc_loop.simps[of pr "Some pull" supplied n out offs e s]]
  show ?case
  proof (cases "length out < n")
    case False
    then show ?thesis using eq 1(2,3) by auto
  next
    case True
    define offs1 where "offs1 = (if e_pending e = [] \<and> e_beginning e \<and> offs = -1 then int (length out) else offs)"
    obtain ok e1 s1 where nx: "(if e_pending e = [] then enc_next pr (Some pull) s e else (True, e, s)) = (ok, e1, s1)"
      by (metis prod_cases3)
    have st: "inv s1" "in_hand e @ wires pr (avail s) = in_hand e1 @ wires pr (avail s1)"
      "\<not> ok \<longrightarrow> in_hand e1 = [] \<and> avail s1 = []"
      using enc_next_stream[OF 1(2)] nx 1(2) by (auto split: if_splits)
    define k where "k = min (length (e_pending e1)) (n - length out)"
    consider (stop) "\<not> ok" | (zero_copy) "ok" "out = []" "\<not> supplied" "n \<le> length (e_pending e1)"
      | (copy) "ok" "\<not> (out = [] \<and> \<not> supplied \<and> n \<le> length (e_pending e1))" by blast
    then show ?thesis
    proof cases
      case stop
      then show ?thesis using eq True nx st by (auto simp: Let_def)
    next
      case zero_copy
      then show ?thesis using eq True nx st by (auto simp: Let_def in_hand_def)
    next
      case copy
      let ?out = "out @ take k (e_pending e1)" and ?e = "e1\<lparr>e_pending := drop k (e_pending e1)\<rparr>"
      have rec: "enc_loop pr (Some pull) supplied n ?out offs1 ?e s1 = (out', offs', e', s')"
        using eq True nx copy by (auto simp: Let_def k_def offs1_def)
      have len: "length ?out \<le> n" using True by (auto simp: k_def)
      have ih: "inv s' \<and> ?out @ in_hand ?e @ wires pr (avail s1) = out' @ in_hand e' @ wires pr (avail s') \<and>
          (length out' < n \<longrightarrow> in_hand e' = [] \<and> avail s' = []) \<and> (supplied \<longrightarrow> length out' \<le> n)"
        using 1(1)[OF True offs1_def nx[symmetric] refl refl _ copy(2) k_def st(1) len rec] copy(1) by simp
      have "take k (e_pending e1) @ in_hand ?e = in_hand e1" by (simp add: in_hand_def)
      then show ?thesis using ih st(2) by (metis append.assoc)
    qed
  qed
qed

end

end
