(* ===== verification/Decoder.thy ===== *)
theory Decoder
  imports Encoder
begin

text \<open>
  The decoders of \<open>decoder.hpp\<close>, \<open>decoder.cpp\<close> and \<open>v1_decoder.cpp\<close>, which parse batches of bytes into
  messages. The pair of \<open>read_pos\<close> and \<open>to_read\<close> is the list of the bytes stored so far at the place that
  is being filled (the temporary buffer or the body of the message) and the number of bytes missing.
  Allocation of a message may fail and the sink of the messages may refuse them; both are functions
  that are passed in. \<open>None\<close> stands for undefined behaviour: the call of a null member pointer, a read
  of bytes that are not there, and a write beyond the place to fill.
\<close>

section \<open>State machine\<close>

datatype dec_step =
  D_one_byte_size_ready | D_eight_byte_size_ready | D_flags_ready | D_message_ready

record decoder =
  d_next :: "dec_step option"
  d_acc :: bytes
  d_to_read :: nat
  d_bufsize :: nat
  d_maxmsgsize :: int
  d_size :: nat
  d_flags :: byte
  d_msg_flags :: byte

text \<open>A sink returns an error code and the flags of the message; on success the message is consumed.\<close>

type_synonym 's push = "frame \<Rightarrow> 's \<Rightarrow> errno option \<times> byte \<times> 's"

definition d_next_step :: "nat \<Rightarrow> dec_step \<Rightarrow> decoder \<Rightarrow> decoder" where
  "d_next_step n st d = d\<lparr>d_acc := [], d_to_read := n, d_next := Some st\<rparr>"

definition decoding_error :: "decoder \<Rightarrow> decoder" where
  "decoding_error d = d\<lparr>d_next := None\<rparr>"

fun decoder_init :: "proto \<Rightarrow> nat \<Rightarrow> int \<Rightarrow> decoder" where
  "decoder_init pr bufsize maxmsgsize =
     \<lparr>d_next = Some (case pr of V0 \<Rightarrow> D_one_byte_size_ready | V1 \<Rightarrow> D_flags_ready), d_acc = [],
      d_to_read = 1, d_bufsize = bufsize, d_maxmsgsize = maxmsgsize, d_size = 0, d_flags = 0,
      d_msg_flags = 0\<rparr>"

text \<open>\<open>init_size\<close> of the message in progress; \<open>None\<close> stands for \<open>ENOMEM\<close>.\<close>

definition d_init_size :: "(nat \<Rightarrow> bool) \<Rightarrow> nat \<Rightarrow> decoder \<Rightarrow> decoder option" where
  "d_init_size alloc n d = (if alloc n then Some (d\<lparr>d_size := n, d_flags := 0\<rparr>) else None)"

definition d_set_flags :: "byte \<Rightarrow> decoder \<Rightarrow> decoder" where
  "d_set_flags f d = d\<lparr>d_flags := d_flags d OR f\<rparr>"

subsection \<open>The unversioned protocol\<close>

definition v0_one_byte_size_ready :: "(nat \<Rightarrow> bool) \<Rightarrow> decoder \<Rightarrow> (bool \<times> decoder) option" where
  "v0_one_byte_size_ready alloc d = do {
     b \<leftarrow> get_uint8 (d_acc d);
     if b = 0xff then Some (True, d_next_step 8 D_eight_byte_size_ready d)
     else if b = 0 then Some (False, decoding_error d)
     else if 0 \<le> d_maxmsgsize d \<and> d_maxmsgsize d < uint b - 1 then
       Some (False, decoding_error (d\<lparr>d_size := 0, d_flags := 0\<rparr>))
     else (case d_init_size alloc (unat b - 1) d of
         None \<Rightarrow> Some (False, decoding_error (d\<lparr>d_size := 0, d_flags := 0\<rparr>))
       | Some d \<Rightarrow> Some (True, d_next_step 1 D_flags_ready d)) }"

definition v0_eight_byte_size_ready :: "(nat \<Rightarrow> bool) \<Rightarrow> decoder \<Rightarrow> (bool \<times> decoder) option" where
  "v0_eight_byte_size_ready alloc d = do {
     payload_length \<leftarrow> get_uint64 (d_acc d);
     if payload_length = 0 then Some (False, decoding_error d)
     else if 0 \<le> d_maxmsgsize d \<and> of_int (d_maxmsgsize d) < payload_length - 1 then Some (False, decoding_error d)
     else if (- 1 :: uint64) < payload_length - 1 then Some (False, decoding_error d)
     else (case d_init_size alloc (unat (payload_length - 1)) d of
         None \<Rightarrow> Some (False, decoding_error (d\<lparr>d_size := 0, d_flags := 0\<rparr>))
       | Some d \<Rightarrow> Some (True, d_next_step 1 D_flags_ready d)) }"

definition v0_flags_ready :: "decoder \<Rightarrow> (bool \<times> decoder) option" where
  "v0_flags_ready d = do {
     b \<leftarrow> get_uint8 (d_acc d);
     let d = d_set_flags (b AND msg_more) d;
     Some (True, d_next_step (d_size d) D_message_ready d) }"

subsection \<open>The versioned protocol\<close>

definition v1_flags_ready :: "decoder \<Rightarrow> (bool \<times> decoder) option" where
  "v1_flags_ready d = do {
     b \<leftarrow> get_uint8 (d_acc d);
     let d = d\<lparr>d_msg_flags := (if b AND more_flag \<noteq> 0 then msg_more else 0)\<rparr>;
     if b AND large_flag \<noteq> 0 then Some (True, d_next_step 8 D_eight_byte_size_ready d)
     else Some (True, d_next_step 1 D_one_byte_size_ready d) }"

text \<open>The common part of the two functions that get the size of the message.\<close>

definition v1_size_ready :: "(nat \<Rightarrow> bool) \<Rightarrow> uint64 \<Rightarrow> decoder \<Rightarrow> (bool \<times> decoder) option" where
  "v1_size_ready alloc sz d =
     (if 0 \<le> d_maxmsgsize d \<and> of_int (d_maxmsgsize d) < sz then Some (False, decoding_error d)
      else if sz \<noteq> (ucast sz :: uint64) then Some (False, decoding_error d)
      else (case d_init_size alloc (unat sz) d of
          None \<Rightarrow> Some (False, decoding_error (d\<lparr>d_size := 0, d_flags := 0\<rparr>))
        | Some d \<Rightarrow>
            let d = d_set_flags (d_msg_flags d) d in
            Some (True, d_next_step (d_size d) D_message_ready d)))"

definition v1_one_byte_size_ready :: "(nat \<Rightarrow> bool) \<Rightarrow> decoder \<Rightarrow> (bool \<times> decoder) option" where
  "v1_one_byte_size_ready alloc d = do { b \<leftarrow> get_uint8 (d_acc d); v1_size_ready alloc (ucast b) d }"

definition v1_eight_byte_size_ready :: "(nat \<Rightarrow> bool) \<Rightarrow> decoder \<Rightarrow> (bool \<times> decoder) option" where
  "v1_eight_byte_size_ready alloc d = do { sz \<leftarrow> get_uint64 (d_acc d); v1_size_ready alloc sz d }"

subsection \<open>Delivery of a message\<close>

definition d_message_ready ::
    "proto \<Rightarrow> 's push option \<Rightarrow> decoder \<Rightarrow> 's \<Rightarrow> (bool \<times> decoder \<times> 's) option" where
  "d_message_ready pr snk d s = (case snk of
     None \<Rightarrow> Some (False, d, s)
   | Some push \<Rightarrow> (case push (frame_of (d_flags d) (d_acc d)) s of
       (None, _, s) \<Rightarrow> Some (True, d_next_step 1 (case pr of V0 \<Rightarrow> D_one_byte_size_ready | V1 \<Rightarrow> D_flags_ready)
           (d\<lparr>d_size := 0, d_flags := 0\<rparr>), s)
     | (Some e, flags, s) \<Rightarrow>
         let d = d\<lparr>d_flags := flags\<rparr> in Some (False, if e \<noteq> EAGAIN then decoding_error d else d, s)))"

definition dec_next ::
    "proto \<Rightarrow> (nat \<Rightarrow> bool) \<Rightarrow> 's push option \<Rightarrow> decoder \<Rightarrow> 's \<Rightarrow> (bool \<times> decoder \<times> 's) option" where
  "dec_next pr alloc snk d s = (case d_next d of
     None \<Rightarrow> None
   | Some D_message_ready \<Rightarrow> d_message_ready pr snk d s
   | Some D_one_byte_size_ready \<Rightarrow> map_option (\<lambda>(ok, d). (ok, d, s))
       (case pr of V0 \<Rightarrow> v0_one_byte_size_ready alloc d | V1 \<Rightarrow> v1_one_byte_size_ready alloc d)
   | Some D_eight_byte_size_ready \<Rightarrow> map_option (\<lambda>(ok, d). (ok, d, s))
       (case pr of V0 \<Rightarrow> v0_eight_byte_size_ready alloc d | V1 \<Rightarrow> v1_eight_byte_size_ready alloc d)
   | Some D_flags_ready \<Rightarrow> map_option (\<lambda>(ok, d). (ok, d, s))
       (case pr of V0 \<Rightarrow> v0_flags_ready d | V1 \<Rightarrow> v1_flags_ready d))"

section \<open>Processing a buffer\<close>

text \<open>The loop \<open>while (!to_read)\<close>, which runs the state machine until bytes are missing.\<close>

datatype settled = Ready | Stalled | Dead

lemma dec_next_advance:
  assumes "dec_next pr alloc snk d s = Some (True, d', s')" "d_to_read d' = 0"
  shows "d_next d' = Some D_message_ready \<and> d_next d \<noteq> Some D_message_ready"
  using assms
  by (auto simp: dec_next_def d_message_ready_def v0_one_byte_size_ready_def v0_eight_byte_size_ready_def
      v0_flags_ready_def v1_flags_ready_def v1_one_byte_size_ready_def v1_eight_byte_size_ready_def
      v1_size_ready_def d_next_step_def d_init_size_def Let_def decoding_error_def bind_eq_Some
      split: option.splits dec_step.splits proto.splits if_splits prod.splits)

function settle ::
    "proto \<Rightarrow> (nat \<Rightarrow> bool) \<Rightarrow> 's push option \<Rightarrow> decoder \<Rightarrow> 's \<Rightarrow> (settled \<times> decoder \<times> 's) option" where
  "settle pr alloc snk d s =
     (if d_to_read d \<noteq> 0 then Some (Ready, d, s)
      else case dec_next pr alloc snk d s of
        None \<Rightarrow> None
      | Some (ok, d', s') \<Rightarrow>
          if ok then settle pr alloc snk d' s'
          else if d_next d' = None then Some (Dead, d', s')
          else Some (Stalled, d', s'))"
  by pat_completeness auto
termination
  by (relation "measure (\<lambda>(pr, alloc, snk, d, s). if d_to_read d = 0
       then (if d_next d = Some D_message_ready then 1 else 2) else 0)")
    (auto dest: dec_next_advance)

declare settle.simps [simp del]

lemma settle_Ready: "settle pr alloc snk d s = Some (Ready, d', s') \<Longrightarrow> d_to_read d' \<noteq> 0"
  by (induction pr alloc snk d s rule: settle.induct)
    (subst (asm) (2) settle.simps, auto split: if_splits option.splits)

definition get_buffer :: "decoder \<Rightarrow> bool \<times> nat" where
  "get_buffer d = (if d_bufsize d \<le> d_to_read d then (True, d_to_read d) else (False, d_bufsize d))"

definition store :: "bytes \<Rightarrow> decoder \<Rightarrow> decoder" where
  "store bs d = d\<lparr>d_acc := d_acc d @ bs, d_to_read := d_to_read d - length bs\<rparr>"

function dec_loop ::
    "proto \<Rightarrow> (nat \<Rightarrow> bool) \<Rightarrow> 's push option \<Rightarrow> nat \<Rightarrow> bytes \<Rightarrow> decoder \<Rightarrow> 's \<Rightarrow> (nat option \<times> decoder \<times> 's) option" where
  "dec_loop pr alloc snk pos data d s =
     (case settle pr alloc snk d s of
        None \<Rightarrow> None
      | Some (r, d', s') \<Rightarrow>
          if r = Dead then Some (None, d', s')
          else if r = Stalled \<or> data = [] then Some (Some pos, d', s')
          else let k = min (d_to_read d') (length data) in
            dec_loop pr alloc snk (pos + k) (drop k data) (store (take k data) d') s')"
  by pat_completeness auto
termination
proof (relation "measure (\<lambda>(pr, alloc, snk, pos, data, d, s). length data)", simp, goal_cases)
  case (1 pr alloc snk pos data d s x r y d' s' k)
  then have "r = Ready" by (cases r) auto
  then have "d_to_read d' \<noteq> 0" using 1 settle_Ready[of pr alloc snk d s d' s'] by simp
  then show ?case using 1 by auto
qed

declare dec_loop.simps [simp del]

text \<open>
  The result \<open>None\<close> for the number of processed bytes is the value \<open>-1\<close>. With zero copy the bytes were
  already placed where they belong.
\<close>

definition process_buffer ::
    "proto \<Rightarrow> (nat \<Rightarrow> bool) \<Rightarrow> 's push option \<Rightarrow> bool \<Rightarrow> bytes \<Rightarrow> decoder \<Rightarrow> 's \<Rightarrow> (nat option \<times> decoder \<times> 's) option" where
  "process_buffer pr alloc snk zero_copy data d s =
     (if d_next d = None then Some (None, d, s)
      else if zero_copy then
        (if d_to_read d < length data then None
         else do {
           (r, d, s) \<leftarrow> settle pr alloc snk (store data d) s;
           Some (if r = Dead then None else Some (length data), d, s) })
      else dec_loop pr alloc snk 0 data d s)"

definition stalled :: "proto \<Rightarrow> (nat \<Rightarrow> bool) \<Rightarrow> 's push option \<Rightarrow> decoder \<Rightarrow> 's \<Rightarrow> (bool \<times> decoder \<times> 's) option" where
  "stalled pr alloc snk d s =
     (if d_next d = None then Some (False, d, s)
      else do { (r, d, s) \<leftarrow> settle pr alloc snk d s; Some (r = Stalled, d, s) })"

lemmas dec_steps = v0_one_byte_size_ready_def v0_eight_byte_size_ready_def v0_flags_ready_def
  v1_flags_ready_def v1_one_byte_size_ready_def v1_eight_byte_size_ready_def v1_size_ready_def

section \<open>Memory safety on arbitrary input\<close>

text \<open>
  The bytes stored and the bytes missing add up to the size of the place that is being filled, and the
  message in progress never exceeds the maximal size.
\<close>

definition region :: "decoder \<Rightarrow> dec_step \<Rightarrow> nat" where
  "region d st = (case st of D_eight_byte_size_ready \<Rightarrow> 8 | D_message_ready \<Rightarrow> d_size d | _ \<Rightarrow> 1)"

definition dec_ok :: "decoder \<Rightarrow> bool" where
  "dec_ok d \<longleftrightarrow> d_maxmsgsize d < 2 ^ 63 \<and> (0 \<le> d_maxmsgsize d \<longrightarrow> int (d_size d) \<le> d_maxmsgsize d) \<and>
     (\<forall>st. d_next d = Some st \<longrightarrow> length (d_acc d) + d_to_read d = region d st)"

lemma get_uint8_Some: "length bs = 1 \<Longrightarrow> \<exists>b. get_uint8 bs = Some b"
  by (cases bs) auto

lemma get_uint64_Some: "length bs = 8 \<Longrightarrow> \<exists>v. get_uint64 bs = Some v"
  by (cases bs rule: get_uint64.cases) auto

lemma max_word64: "0 \<le> m \<Longrightarrow> m < 2 ^ 63 \<Longrightarrow> \<not> of_int m < (v :: uint64) \<Longrightarrow> int (unat v) \<le> m"
  by (simp add: word_less_def uint_word_of_int_eq take_bit_int_eq_self)

lemma dec_next_ok:
  assumes ok: "dec_ok d" and rd: "d_to_read d = 0" "d_next d = Some st"
  shows "\<exists>b d' s'. dec_next pr alloc snk d s = Some (b, d', s') \<and> dec_ok d' \<and> d_maxmsgsize d' = d_maxmsgsize d \<and>
    d_bufsize d' = d_bufsize d \<and> (b \<longrightarrow> d_next d' \<noteq> None)"
proof -
  have len: "length (d_acc d) = region d st" using assms by (simp add: dec_ok_def)
  have mx: "d_maxmsgsize d < 2 ^ 63" "0 \<le> d_maxmsgsize d \<longrightarrow> int (d_size d) \<le> d_maxmsgsize d"
    using ok by (auto simp: dec_ok_def)
  note defs = dec_next_def rd(2) dec_ok_def region_def d_next_step_def decoding_error_def d_init_size_def
    d_set_flags_def
  show ?thesis
  proof (cases st)
    case D_one_byte_size_ready
    then obtain b where b: "get_uint8 (d_acc d) = Some b" using get_uint8_Some len by (auto simp: region_def)
    have "int (unat b - 1) \<le> d_maxmsgsize d" if "b \<noteq> 0" "\<not> d_maxmsgsize d < uint b - 1"
    proof -
      have "unat b \<noteq> 0" using that(1) by (simp add: unat_eq_0)
      then show ?thesis using that(2) by (simp add: of_nat_diff)
    qed
    moreover have "int (unat (ucast b :: uint64)) \<le> d_maxmsgsize d"
      if "0 \<le> d_maxmsgsize d" "\<not> of_int (d_maxmsgsize d) < (ucast b :: uint64)"
      using max_word64[OF that(1) mx(1) that(2)] .
    ultimately show ?thesis using D_one_byte_size_ready b mx
      by (cases pr) (auto simp: defs dec_steps Let_def)
  next
    case D_eight_byte_size_ready
    then obtain v where v: "get_uint64 (d_acc d) = Some v" using get_uint64_Some len by (auto simp: region_def)
    have "int (unat w) \<le> d_maxmsgsize d" if "0 \<le> d_maxmsgsize d" "\<not> of_int (d_maxmsgsize d) < w" for w :: uint64
      using max_word64[OF that(1) mx(1) that(2)] .
    then show ?thesis using D_eight_byte_size_ready v mx
      by (cases pr) (auto simp: defs dec_steps Let_def simp del: of_nat_unat)
  next
    case D_flags_ready
    then obtain b where b: "get_uint8 (d_acc d) = Some b" using get_uint8_Some len by (auto simp: region_def)
    then show ?thesis using D_flags_ready mx by (cases pr) (auto simp: defs dec_steps Let_def)
  next
    case D_message_ready
    then show ?thesis using mx ok rd len
      by (cases pr) (auto simp: defs d_message_ready_def Let_def split: option.splits prod.splits)
  qed
qed

lemma settle_ok:
  assumes "dec_ok d" "d_next d \<noteq> None"
  shows "\<exists>r d' s'. settle pr alloc snk d s = Some (r, d', s') \<and> dec_ok d' \<and> d_maxmsgsize d' = d_maxmsgsize d \<and>
    (r = Ready \<longrightarrow> d_to_read d' \<noteq> 0) \<and> (r = Dead \<longleftrightarrow> d_next d' = None)"
  using assms
proof (induction pr alloc snk d s rule: settle.induct)
  case (1 pr alloc snk d s)
  show ?case
  proof (cases "d_to_read d = 0")
    case False
    then show ?thesis using 1(2,3) by (auto simp: settle.simps[of pr alloc snk d s])
  next
    case True
    obtain st where st: "d_next d = Some st" using 1(3) by blast
    obtain b d1 s1 where n: "dec_next pr alloc snk d s = Some (b, d1, s1)" "dec_ok d1"
      "d_maxmsgsize d1 = d_maxmsgsize d" "b \<longrightarrow> d_next d1 \<noteq> None"
      using dec_next_ok[OF 1(2) True st, of pr alloc snk s] by (elim exE conjE) (rule that)
    show ?thesis
    proof (cases b)
      case b: True
      have "settle pr alloc snk d s = settle pr alloc snk d1 s1"
        using True n(1) b by (simp add: settle.simps[of pr alloc snk d s])
      then show ?thesis using 1(1)[OF _ n(1) refl refl b n(2)] True n(3,4) b by simp
    next
      case False
      then show ?thesis using True n by (cases "d_next d1") (simp_all add: settle.simps[of pr alloc snk d s])
    qed
  qed
qed

lemma store_ok: "dec_ok d \<Longrightarrow> length bs \<le> d_to_read d \<Longrightarrow> dec_ok (store bs d)"
  by (auto simp: dec_ok_def store_def region_def split: dec_step.splits)

lemma store_simps [simp]:
  "d_next (store bs d) = d_next d" "d_maxmsgsize (store bs d) = d_maxmsgsize d"
  "d_to_read (store bs d) = d_to_read d - length bs" "d_size (store bs d) = d_size d"
  "d_acc (store bs d) = d_acc d @ bs" "d_flags (store bs d) = d_flags d"
  "d_msg_flags (store bs d) = d_msg_flags d" "d_bufsize (store bs d) = d_bufsize d"
  by (simp_all add: store_def)

lemma dec_loop_ok:
  assumes "dec_ok d" "d_next d \<noteq> None"
  shows "\<exists>r d' s'. dec_loop pr alloc snk pos data d s = Some (r, d', s') \<and> dec_ok d' \<and>
    d_maxmsgsize d' = d_maxmsgsize d \<and> (r = None \<longleftrightarrow> d_next d' = None) \<and>
    (\<forall>n. r = Some n \<longrightarrow> pos \<le> n \<and> n \<le> pos + length data)"
  using assms
proof (induction pr alloc snk pos data d s rule: dec_loop.induct)
  case (1 pr alloc snk pos data d s)
  obtain r d1 s1 where st: "settle pr alloc snk d s = Some (r, d1, s1)" "dec_ok d1"
    "d_maxmsgsize d1 = d_maxmsgsize d" "r = Ready \<longrightarrow> d_to_read d1 \<noteq> 0" "r = Dead \<longleftrightarrow> d_next d1 = None"
    using settle_ok[OF 1(2,3), of pr alloc snk s] by (elim exE conjE) (rule that)
  show ?case
  proof (cases "r = Dead \<or> r = Stalled \<or> data = []")
    case True
    then show ?thesis using st by (auto simp: dec_loop.simps[of pr alloc snk pos data d s])
  next
    case False
    define k where "k = min (d_to_read d1) (length data)"
    have k: "k \<le> d_to_read d1" "k \<le> length data" by (auto simp: k_def)
    have eq: "dec_loop pr alloc snk pos data d s =
        dec_loop pr alloc snk (pos + k) (drop k data) (store (take k data) d1) s1"
      using st(1) False by (simp add: dec_loop.simps[of pr alloc snk pos data d s] k_def Let_def)
    have "\<exists>r d' s'. dec_loop pr alloc snk (pos + k) (drop k data) (store (take k data) d1) s1 = Some (r, d', s') \<and>
       dec_ok d' \<and> d_maxmsgsize d' = d_maxmsgsize (store (take k data) d1) \<and> (r = None \<longleftrightarrow> d_next d' = None) \<and>
       (\<forall>n. r = Some n \<longrightarrow> pos + k \<le> n \<and> n \<le> pos + k + length (drop k data))"
      using 1(1)[OF st(1) refl refl _ _ k_def] False st store_ok[OF st(2), of "take k data"] k by auto
    then show ?thesis unfolding eq using st(3) k by fastforce
  qed
qed

lemma process_buffer_ok:
  assumes "dec_ok d" "zero_copy \<longrightarrow> length data \<le> d_to_read d"
  shows "\<exists>r d' s'. process_buffer pr alloc snk zero_copy data d s = Some (r, d', s') \<and> dec_ok d' \<and>
    d_maxmsgsize d' = d_maxmsgsize d \<and> (r = None \<longleftrightarrow> d_next d' = None) \<and> (\<forall>n. r = Some n \<longrightarrow> n \<le> length data)"
proof (cases "d_next d = None \<or> \<not> zero_copy")
  case True
  then show ?thesis using assms dec_loop_ok[OF assms(1), of pr alloc snk 0 data s]
    by (auto simp: process_buffer_def)
next
  case False
  have ok: "dec_ok (store data d)" "d_next (store data d) \<noteq> None"
    using False assms by (auto intro: store_ok)
  then show ?thesis using False assms settle_ok[OF ok, of pr alloc snk s]
    by (auto simp: process_buffer_def)
qed

section \<open>Decoding what was encoded\<close>

text \<open>The message a frame becomes on the other side: only the flag for further parts is transmitted.\<close>

definition sent :: "frame \<Rightarrow> frame" where
  "sent f = frame_of (fflags f AND msg_more) (fdata f)"

definition sendable :: "(nat \<Rightarrow> bool) \<Rightarrow> int \<Rightarrow> frame \<Rightarrow> bool" where
  "sendable alloc m f \<longleftrightarrow> alloc (length (fdata f)) \<and> length (fdata f) < 2 ^ 64 - 1 \<and>
     (0 \<le> m \<longrightarrow> int (length (fdata f)) \<le> m)"

text \<open>
  The decoder has consumed a part of a stream: feeding it the rest \<open>bs\<close> is going to deliver the messages
  \<open>fs\<close>, the first of which may be in progress.
\<close>

definition body_left :: "decoder \<Rightarrow> bytes \<Rightarrow> proto \<Rightarrow> (frame \<Rightarrow> bool) \<Rightarrow> (frame \<Rightarrow> bytes) \<Rightarrow> frame list \<Rightarrow> bool" where
  "body_left d bs pr P hdr fs \<longleftrightarrow>
     (\<exists>f fs'. fs = f # fs' \<and> P f \<and> d_acc d @ bs = hdr f @ fdata f @ wires pr fs')"

definition expects :: "proto \<Rightarrow> decoder \<Rightarrow> bytes \<Rightarrow> frame list \<Rightarrow> bool" where
  "expects pr d bs fs \<longleftrightarrow> (case d_next d of
     None \<Rightarrow> False
   | Some D_message_ready \<Rightarrow>
       body_left d bs pr (\<lambda>f. d_size d = length (fdata f) \<and> d_flags d = fflags f AND msg_more) (\<lambda>f. []) fs
   | Some D_flags_ready \<Rightarrow> (case pr of
       V0 \<Rightarrow> body_left d bs pr (\<lambda>f. d_size d = length (fdata f) \<and> d_flags d = 0) (\<lambda>f. [fflags f AND msg_more]) fs
     | V1 \<Rightarrow> d_acc d @ bs = wires pr fs)
   | Some D_one_byte_size_ready \<Rightarrow> (case pr of
       V0 \<Rightarrow> d_acc d @ bs = wires pr fs
     | V1 \<Rightarrow> body_left d bs pr (\<lambda>f. length (fdata f) \<le> 255 \<and> d_msg_flags d = fflags f AND msg_more)
         (\<lambda>f. [of_nat (length (fdata f))]) fs)
   | Some D_eight_byte_size_ready \<Rightarrow> (case pr of
       V0 \<Rightarrow> body_left d bs pr (\<lambda>f. True)
         (\<lambda>f. put_uint64 (of_nat (length (fdata f) + 1)) @ [fflags f AND msg_more]) fs
     | V1 \<Rightarrow> body_left d bs pr (\<lambda>f. d_msg_flags d = fflags f AND msg_more)
         (\<lambda>f. put_uint64 (of_nat (length (fdata f)))) fs))"

lemma expects_store: "expects pr d (xs @ bs) fs \<longleftrightarrow> expects pr (store xs d) bs fs"
  by (simp add: expects_def body_left_def split: option.splits dec_step.splits proto.splits)

lemma expects_live: "expects pr d bs fs \<Longrightarrow> d_next d \<noteq> None"
  by (cases "d_next d") (simp_all add: expects_def)

lemma word64_small: "n < 2 ^ 64 \<Longrightarrow> unat (of_nat n :: uint64) = n"
  by (simp add: unat_of_nat)

lemma more_and_idem [simp]: "(b AND msg_more) AND msg_more = b AND (msg_more :: byte)"
  by (simp add: and.assoc)

lemma and_more_cases: "(b :: byte) AND msg_more = 0 \<or> b AND msg_more = msg_more"
proof -
  have "b AND 1 = (if odd b then 1 else 0)" by (simp add: and_one_eq odd_iff_mod_2_eq_one even_iff_mod_2_eq_zero)
  then show ?thesis by (simp add: msg_more_def)
qed

lemma sendable_word:
  assumes "sendable alloc m f" "m < 2 ^ 63"
  shows "unat (of_nat (length (fdata f)) :: uint64) = length (fdata f)"
    "\<not> (0 \<le> m \<and> of_int m < (of_nat (length (fdata f)) :: uint64))" "alloc (length (fdata f))"
proof -
  show u: "unat (of_nat (length (fdata f)) :: uint64) = length (fdata f)"
    using assms by (intro word64_small) (simp add: sendable_def)
  show "\<not> (0 \<le> m \<and> of_int m < (of_nat (length (fdata f)) :: uint64))"
  proof
    assume a: "0 \<le> m \<and> of_int m < (of_nat (length (fdata f)) :: uint64)"
    then have "m < int (unat (of_nat (length (fdata f)) :: uint64))"
      using assms(2) by (elim conjE) (simp add: word_less_def uint_word_of_int_eq take_bit_int_eq_self del: unat_of_nat)
    then show False using a assms(1) u by (simp add: sendable_def)
  qed
  show "alloc (length (fdata f))" using assms by (simp add: sendable_def)
qed

text \<open>The header functions of the unversioned protocol.\<close>

lemma length1: "length xs = Suc 0 \<Longrightarrow> \<exists>x. xs = [x]"
  by (cases xs) auto

lemma v0_one_byte_expects:
  assumes s: "sendable alloc (d_maxmsgsize d) f" and a: "d_acc d @ bs = wires V0 (f # fs)" "length (d_acc d) = 1"
    and m: "d_maxmsgsize d < 2 ^ 63"
  shows "\<exists>d'. v0_one_byte_size_ready alloc d = Some (True, d') \<and> expects V0 d' bs (f # fs)"
proof -
  let ?n = "length (fdata f)"
  obtain b where b: "d_acc d = [b]" using a(2) length1 by auto
  show ?thesis
  proof (cases "?n + 1 < 255")
    case True
    have bb: "b = of_nat (?n + 1)" "bs = [fflags f AND msg_more] @ fdata f @ wires V0 fs"
      using a(1) True by (auto simp: b wire_def header_def Let_def)
    have "unat (of_nat (?n + 1) :: byte) = ?n + 1" using True by (subst unat_of_nat) simp
    then have u: "unat b = ?n + 1" using bb(1) by argo
    then have "b \<noteq> 0xff" "b \<noteq> 0" "uint b - 1 = int ?n" using True
      by (auto simp: unat_eq_0 uint_nat simp del: of_nat_unat)
    then show ?thesis using u s bb(2)
      by (auto simp: v0_one_byte_size_ready_def b sendable_def d_init_size_def expects_def d_next_step_def body_left_def)
  next
    case False
    then have "b = 0xff" "bs = put_uint64 (of_nat (?n + 1)) @ [fflags f AND msg_more] @ fdata f @ wires V0 fs"
      using a(1) by (auto simp: b wire_def header_def Let_def)
    then show ?thesis by (auto simp: v0_one_byte_size_ready_def b expects_def d_next_step_def body_left_def)
  qed
qed

lemma get_whole64: "length xs = 8 \<Longrightarrow> xs @ bs = put_uint64 v @ ys \<Longrightarrow> get_uint64 xs = Some v \<and> bs = ys"
  using get_put_uint64[of v "[]"] by (simp add: append_eq_append_conv)

lemma v0_eight_byte_expects:
  assumes s: "sendable alloc (d_maxmsgsize d) f" and m: "d_maxmsgsize d < 2 ^ 63" and l: "length (d_acc d) = 8"
    and a: "d_acc d @ bs = put_uint64 (of_nat (length (fdata f) + 1)) @ [fflags f AND msg_more] @ fdata f @ wires V0 fs"
  shows "\<exists>d'. v0_eight_byte_size_ready alloc d = Some (True, d') \<and> expects V0 d' bs (f # fs)"
proof -
  let ?n = "length (fdata f)"
  have g: "get_uint64 (d_acc d) = Some (of_nat (?n + 1))" "bs = [fflags f AND msg_more] @ fdata f @ wires V0 fs"
    using get_whole64[OF l a] by auto
  have "?n + 1 < 2 ^ 64" using s by (simp add: sendable_def)
  then have "unat (of_nat (?n + 1) :: uint64) \<noteq> 0" using word64_small[of "?n + 1"] by linarith
  then have nz: "(of_nat (?n + 1) :: uint64) \<noteq> 0" by (metis unat_0)
  have sub: "(of_nat (?n + 1) :: uint64) - 1 = of_nat ?n" by simp
  have "\<not> (- 1 :: uint64) < of_nat ?n" by (simp add: not_less)
  then show ?thesis using g(2) sendable_word[OF s m] nz
    unfolding v0_eight_byte_size_ready_def g(1) bind.bind_lunit sub
    by (auto simp: d_init_size_def expects_def d_next_step_def body_left_def)
qed

lemma v0_flags_expects:
  assumes "length (d_acc d) = 1" "d_size d = length (fdata f)" "d_flags d = 0"
    "d_acc d @ bs = [fflags f AND msg_more] @ fdata f @ wires V0 fs"
  shows "\<exists>d'. v0_flags_ready d = Some (True, d') \<and> expects V0 d' bs (f # fs)"
  using assms length1[of "d_acc d"]
  by (auto simp: v0_flags_ready_def d_set_flags_def expects_def d_next_step_def body_left_def)

text \<open>The header functions of the versioned protocol.\<close>

lemma v1_flags_expects:
  assumes "length (d_acc d) = 1" "d_acc d @ bs = wires V1 (f # fs)"
  shows "\<exists>d'. v1_flags_ready d = Some (True, d') \<and> expects V1 d' bs (f # fs)"
proof -
  let ?n = "length (fdata f)" and ?m = "fflags f AND msg_more"
  obtain b where b: "d_acc d = [b]" using assms(1) length1 by auto
  have bb: "b = (if ?m \<noteq> 0 then 1 else 0) OR (if ?n > 255 then 2 else 0)"
    using assms(2) by (simp add: b wire_def header_def Let_def more_flag_def large_flag_def split: if_splits)
  have m: "(if b AND more_flag \<noteq> 0 then msg_more else 0) = ?m"
    using and_more_cases[of "fflags f"] by (auto simp: bb more_flag_def msg_more_def)
  have l: "b AND large_flag \<noteq> 0 \<longleftrightarrow> ?n > 255" by (auto simp: bb large_flag_def)
  have bs: "bs = (if ?n > 255 then put_uint64 (of_nat ?n) else [of_nat ?n]) @ fdata f @ wires V1 fs"
    using assms(2) by (simp add: b wire_def header_def Let_def split: if_splits)
  show ?thesis
    using l bs by (cases "?n > 255") (auto simp: v1_flags_ready_def b m Let_def expects_def d_next_step_def body_left_def)
qed

lemma v1_size_expects:
  assumes s: "sendable alloc (d_maxmsgsize d) f" and m: "d_maxmsgsize d < 2 ^ 63"
    and d: "d_msg_flags d = fflags f AND msg_more" "bs = fdata f @ wires V1 fs"
  shows "\<exists>d'. v1_size_ready alloc (of_nat (length (fdata f))) d = Some (True, d') \<and> expects V1 d' bs (f # fs)"
  using sendable_word[OF s m] d
  by (auto simp: v1_size_ready_def d_init_size_def d_set_flags_def expects_def d_next_step_def body_left_def)

lemma dec_next_expects:
  assumes ok: "dec_ok d" and rd: "d_to_read d = 0" and ex: "expects pr d bs fs"
    and s: "list_all (sendable alloc (d_maxmsgsize d)) fs" and nm: "d_next d \<noteq> Some D_message_ready"
  shows "\<exists>d'. dec_next pr alloc snk d s = Some (True, d', s) \<and> expects pr d' bs fs"
proof -
  obtain st where st: "d_next d = Some st" using ex by (auto simp: expects_def split: option.splits)
  have m: "d_maxmsgsize d < 2 ^ 63" and len: "length (d_acc d) = region d st"
    using ok rd st by (auto simp: dec_ok_def)
  have nil: "fs \<noteq> []" if "d_acc d @ bs = wires pr fs" "length (d_acc d) = 1" using that by auto
  show ?thesis
  proof (cases st)
    case D_one_byte_size_ready
    then have l: "length (d_acc d) = 1" using len by (simp add: region_def)
    show ?thesis
    proof (cases pr)
      case V0
      then obtain f fs' where f: "fs = f # fs'" using ex st D_one_byte_size_ready nil l
        by (cases fs) (auto simp: expects_def)
      moreover have "d_acc d @ bs = wires V0 fs" using ex st D_one_byte_size_ready V0 by (simp add: expects_def)
      ultimately show ?thesis using v0_one_byte_expects[of alloc d f bs fs'] st D_one_byte_size_ready V0 s l m
        by (auto simp: dec_next_def)
    next
      case V1
      then obtain f fs' where f: "fs = f # fs'" "length (fdata f) \<le> 255" "d_msg_flags d = fflags f AND msg_more"
        "d_acc d @ bs = [of_nat (length (fdata f))] @ fdata f @ wires pr fs'"
        using ex st D_one_byte_size_ready by (auto simp: expects_def body_left_def)
      then have a: "d_acc d = [of_nat (length (fdata f))]" "bs = fdata f @ wires pr fs'"
        using l by (auto dest!: length1)
      have "unat (ucast (of_nat (length (fdata f)) :: byte) :: uint64) = length (fdata f)"
        using f(2) by (simp add: unsigned_ucast_eq take_bit_word_eq_self unat_of_nat take_bit_nat_eq_self)
      then have "(ucast (of_nat (length (fdata f)) :: byte) :: uint64) = of_nat (length (fdata f))"
        by (metis of_nat_unat ucast_id)
      then show ?thesis using v1_size_expects[of alloc d f bs fs'] f a s m st D_one_byte_size_ready V1
        by (auto simp: dec_next_def v1_one_byte_size_ready_def)
    qed
  next
    case D_eight_byte_size_ready
    then have l: "length (d_acc d) = 8" using len by (simp add: region_def)
    show ?thesis
    proof (cases pr)
      case V0
      then obtain f fs' where f: "fs = f # fs'"
        "d_acc d @ bs = put_uint64 (of_nat (length (fdata f) + 1)) @ [fflags f AND msg_more] @ fdata f @ wires V0 fs'"
        using ex st D_eight_byte_size_ready by (simp add: expects_def body_left_def) blast
      then show ?thesis using v0_eight_byte_expects[of alloc d f bs fs'] s m l st D_eight_byte_size_ready V0
        by (auto simp: dec_next_def)
    next
      case V1
      then obtain f fs' where f: "fs = f # fs'" "d_msg_flags d = fflags f AND msg_more"
        "d_acc d @ bs = put_uint64 (of_nat (length (fdata f))) @ fdata f @ wires pr fs'"
        using ex st D_eight_byte_size_ready by (auto simp: expects_def body_left_def)
      then show ?thesis using get_whole64[OF l f(3)] v1_size_expects[of alloc d f bs fs'] s m st D_eight_byte_size_ready V1
        by (auto simp: dec_next_def v1_eight_byte_size_ready_def)
    qed
  next
    case D_flags_ready
    then have l: "length (d_acc d) = 1" using len by (simp add: region_def)
    show ?thesis
    proof (cases pr)
      case V0
      then obtain f fs' where f: "fs = f # fs'" "d_size d = length (fdata f)" "d_flags d = 0"
        "d_acc d @ bs = [fflags f AND msg_more] @ fdata f @ wires V0 fs'"
        using ex st D_flags_ready by (auto simp: expects_def body_left_def)
      then show ?thesis using v0_flags_expects[OF l f(2,3,4)] st D_flags_ready V0 by (auto simp: dec_next_def)
    next
      case V1
      then obtain f fs' where f: "fs = f # fs'" using ex st D_flags_ready nil l
        by (cases fs) (auto simp: expects_def)
      moreover have "d_acc d @ bs = wires V1 fs" using ex st D_flags_ready V1 by (simp add: expects_def)
      ultimately show ?thesis using v1_flags_expects[OF l, of bs f fs'] st D_flags_ready V1
        by (auto simp: dec_next_def)
    qed
  qed (use st nm in auto)
qed

section \<open>The interface to the sink\<close>

text \<open>
  A sink takes the messages in order or refuses one for the time being (\<open>i_msg_sink\<close>).
\<close>

locale msg_sink =
  fixes push :: "'s push" and got :: "'s \<Rightarrow> frame list" and inv :: "'s \<Rightarrow> bool"
  assumes push_accepted: "inv s \<Longrightarrow> push f s = (None, fl, s') \<Longrightarrow> inv s' \<and> got s' = got s @ [f]"
    and push_refused: "inv s \<Longrightarrow> push f s = (Some e, fl, s') \<Longrightarrow>
      e = EAGAIN \<and> fl = fflags f \<and> inv s' \<and> got s' = got s"
begin

text \<open>
  The decoder and the sink together: \<open>msgs\<close> has the messages the sink had at the beginning, and the
  messages of the stream, of which some were delivered since then and the others are still to come.
\<close>

definition track :: "proto \<Rightarrow> (nat \<Rightarrow> bool) \<Rightarrow> decoder \<Rightarrow> 's \<Rightarrow> bytes \<Rightarrow> frame list \<times> frame list \<Rightarrow> bool" where
  "track pr alloc d s bs msgs \<longleftrightarrow> dec_ok d \<and> inv s \<and>
     (\<exists>del fs. snd msgs = del @ fs \<and> got s = fst msgs @ map sent del \<and> expects pr d bs fs \<and>
        list_all (sendable alloc (d_maxmsgsize d)) fs)"

lemma track_next:
  assumes t: "track pr alloc d s bs msgs" and rd: "d_to_read d = 0"
  obtains b d' s' where "dec_next pr alloc (Some push) d s = Some (b, d', s')" "track pr alloc d' s' bs msgs"
    "d_next d' \<noteq> None" "b \<or> d' = d"
proof -
  obtain del fs where fs: "expects pr d bs fs" "list_all (sendable alloc (d_maxmsgsize d)) fs"
    "snd msgs = del @ fs" "got s = fst msgs @ map sent del" and ok: "dec_ok d" "inv s" using t by (auto simp: track_def)
  obtain st where st: "d_next d = Some st" using fs(1) by (auto simp: expects_def split: option.splits)
  obtain b d' s' where n: "dec_next pr alloc (Some push) d s = Some (b, d', s')" "dec_ok d'"
    "d_maxmsgsize d' = d_maxmsgsize d"
    using dec_next_ok[OF ok(1) rd st, of pr alloc "Some push" s] by blast
  note live = expects_live[of pr _ bs]
  show ?thesis
  proof (cases "st = D_message_ready")
    case False
    then obtain d1 where d1: "dec_next pr alloc (Some push) d s = Some (True, d1, s)" "expects pr d1 bs fs"
      using dec_next_expects[OF ok(1) rd fs(1,2), of "Some push" s] st by auto
    then have "d' = d1" "s' = s" "b" using n(1) by auto
    then show ?thesis using that[OF n(1)] d1(2) fs ok n live by (auto simp: track_def)
  next
    case True
    then obtain f fs' where f: "fs = f # fs'" "d_size d = length (fdata f)" "d_flags d = fflags f AND msg_more"
      "d_acc d @ bs = fdata f @ wires pr fs'" using fs(1) st by (auto simp: expects_def body_left_def)
    have "length (d_acc d) = d_size d" using ok(1) rd st True by (simp add: dec_ok_def region_def)
    then have a: "d_acc d = fdata f" "bs = wires pr fs'" using f(2,4) by (auto simp: append_eq_append_conv)
    have fr: "frame_of (d_flags d) (d_acc d) = sent f" using f(3) a(1) by (simp add: sent_def)
    obtain r fl s1 where p: "push (sent f) s = (r, fl, s1)" by (metis prod_cases3)
    show ?thesis
    proof (cases r)
      case None
      then have s1: "inv s1" "got s1 = got s @ [sent f]" using push_accepted[OF ok(2)] p by auto
      have eq: "d' = d_next_step 1 (case pr of V0 \<Rightarrow> D_one_byte_size_ready | V1 \<Rightarrow> D_flags_ready) (d\<lparr>d_size := 0, d_flags := 0\<rparr>)"
        "s' = s1" "b" using n(1) st True p None fr by (auto simp: dec_next_def d_message_ready_def)
      then have "expects pr d' bs fs'" using a(2) by (cases pr) (auto simp: expects_def d_next_step_def)
      moreover have "snd msgs = (del @ [f]) @ fs'" "got s' = fst msgs @ map sent (del @ [f])"
        using fs(3,4) f(1) s1 eq by auto
      ultimately have "track pr alloc d' s' bs msgs" unfolding track_def
        using s1 eq n(2,3) fs(2) f(1) by (intro conjI exI[of _ "del @ [f]"] exI[of _ fs']) simp_all
      then show ?thesis using that[OF n(1)] live eq(3) \<open>expects pr d' bs fs'\<close> by blast
    next
      case (Some e)
      then have s1: "e = EAGAIN" "fl = d_flags d" "inv s1" "got s1 = got s"
        using push_refused[OF ok(2), of "sent f" e fl s1] p f(3) by (simp_all add: sent_def frame_of_def)
      then have "d' = d" "s' = s1" using n(1) st True p Some fr by (auto simp: dec_next_def d_message_ready_def Let_def)
      then show ?thesis using that[OF n(1)] s1 ok fs st by (auto simp: track_def)
    qed
  qed
qed

lemma track_settle:
  assumes "track pr alloc d s bs msgs"
  shows "\<exists>r d' s'. settle pr alloc (Some push) d s = Some (r, d', s') \<and> r \<noteq> Dead \<and> track pr alloc d' s' bs msgs \<and>
    (r = Ready \<longrightarrow> d_to_read d' \<noteq> 0)"
  using assms
proof (induction pr alloc "Some push" d s rule: settle.induct)
  case (1 pr alloc d s)
  show ?case
  proof (cases "d_to_read d = 0")
    case False
    then show ?thesis using 1(2) by (simp add: settle.simps[of pr alloc _ d s])
  next
    case True
    obtain b d' s' where n: "dec_next pr alloc (Some push) d s = Some (b, d', s')" "track pr alloc d' s' bs msgs"
      "d_next d' \<noteq> None" "b \<or> d' = d" using 1(2) True by (rule track_next)
    show ?thesis
    proof (cases b)
      case b: True
      have "settle pr alloc (Some push) d s = settle pr alloc (Some push) d' s'"
        using True n(1) b by (simp add: settle.simps[of pr alloc _ d s])
      then show ?thesis using 1(1)[OF _ n(1) refl refl b n(2)] True by simp
    next
      case False
      then show ?thesis using True n by (simp add: settle.simps[of pr alloc _ d s])
    qed
  qed
qed

lemma track_store:
  "track pr alloc d s (xs @ bs) msgs \<Longrightarrow> length xs \<le> d_to_read d \<Longrightarrow> track pr alloc (store xs d) s bs msgs"
  by (auto simp: track_def store_ok expects_store)

lemma track_loop:
  assumes "track pr alloc d s (data @ later) msgs"
  shows "\<exists>n d' s'. dec_loop pr alloc (Some push) pos data d s = Some (Some (pos + n), d', s') \<and> n \<le> length data \<and>
    track pr alloc d' s' (drop n data @ later) msgs"
  using assms
proof (induction pr alloc "Some push" pos data d s rule: dec_loop.induct)
  case (1 pr alloc pos data d s)
  obtain r d1 s1 where st: "settle pr alloc (Some push) d s = Some (r, d1, s1)" "r \<noteq> Dead"
    "track pr alloc d1 s1 (data @ later) msgs" "r = Ready \<longrightarrow> d_to_read d1 \<noteq> 0"
    using track_settle[OF 1(2)] by blast
  show ?case
  proof (cases "r = Stalled \<or> data = []")
    case True
    then show ?thesis using st by (auto simp: dec_loop.simps[of pr alloc _ pos data d s] intro!: exI[of _ 0])
  next
    case False
    define k where "k = min (d_to_read d1) (length data)"
    have k: "k \<le> d_to_read d1" "k \<le> length data" by (auto simp: k_def)
    have eq: "dec_loop pr alloc (Some push) pos data d s =
        dec_loop pr alloc (Some push) (pos + k) (drop k data) (store (take k data) d1) s1"
      using st(1,2) False by (simp add: dec_loop.simps[of pr alloc _ pos data d s] k_def Let_def)
    have "track pr alloc (store (take k data) d1) s1 (drop k data @ later) msgs"
      using st(3) k by (intro track_store) (simp_all flip: append.assoc)
    then obtain n d' s' where "dec_loop pr alloc (Some push) (pos + k) (drop k data) (store (take k data) d1) s1 =
        Some (Some (pos + k + n), d', s')" "n \<le> length (drop k data)"
      "track pr alloc d' s' (drop n (drop k data) @ later) msgs"
      using 1(1)[OF st(1) refl refl st(2) _ k_def] False by blast
    then show ?thesis unfolding eq using k
      by (intro exI[of _ "k + n"] exI[of _ d'] exI[of _ s']) (simp add: add.assoc add.commute)
  qed
qed

lemma track_process:
  assumes "track pr alloc d s (data @ later) msgs" "zero_copy \<longrightarrow> length data \<le> d_to_read d"
  shows "\<exists>n d' s'. process_buffer pr alloc (Some push) zero_copy data d s = Some (Some n, d', s') \<and> n \<le> length data \<and>
    track pr alloc d' s' (drop n data @ later) msgs"
proof -
  have live: "d_next d \<noteq> None" using assms(1) expects_live unfolding track_def by blast
  show ?thesis
  proof (cases zero_copy)
    case True
    then have "track pr alloc (store data d) s later msgs" using assms by (intro track_store) auto
    then obtain r d' s' where "settle pr alloc (Some push) (store data d) s = Some (r, d', s')" "r \<noteq> Dead"
      "track pr alloc d' s' later msgs" using track_settle by blast
    then show ?thesis using True live assms(2) by (simp add: process_buffer_def)
  next
    case False
    then show ?thesis using live track_loop[OF assms(1), of 0] by (simp add: process_buffer_def)
  qed
qed

end

end
