(* ===== verification/Codec.thy ===== *)
theory Codec
  imports Decoder
begin

text \<open>
  The encoder and the decoder together: the bytes an encoder produces, cut into batches in any way, make
  a decoder deliver the messages that were encoded. Messages that are too big and malformed input are
  rejected without touching memory outside of the buffers.
\<close>

section \<open>Sources and sinks that are lists\<close>

fun list_pull :: "frame list pull" where
  "list_pull [] = (None, [])"
| "list_pull (f # fs) = (Some f, fs)"

definition collect :: "frame list push" where
  "collect f s = (None, 0, s @ [f])"

interpretation lsrc: msg_source list_pull "\<lambda>s. s" "\<lambda>_. True"
  by unfold_locales auto

interpretation lsnk: msg_sink collect "\<lambda>s. s" "\<lambda>_. True"
  by unfold_locales (auto simp: collect_def)

section \<open>Runs\<close>

text \<open>A sequence of calls of \<open>get_data\<close>, and a sequence of batches given to a decoder.\<close>

fun encode_run :: "proto \<Rightarrow> nat option list \<Rightarrow> encoder \<Rightarrow> frame list \<Rightarrow> bytes list \<times> encoder \<times> frame list" where
  "encode_run pr [] e s = ([], e, s)"
| "encode_run pr (c # cs) e s =
     (let (out, _, e, s) = get_data pr (Some list_pull) c e s;
          (outs, e, s) = encode_run pr cs e s
      in (out # outs, e, s))"

fun decode_run :: "proto \<Rightarrow> (nat \<Rightarrow> bool) \<Rightarrow> bytes list \<Rightarrow> decoder \<Rightarrow> frame list \<Rightarrow> (decoder \<times> frame list) option" where
  "decode_run pr alloc [] d s = Some (d, s)"
| "decode_run pr alloc (c # cs) d s =
     (let zero_copy = fst (get_buffer d) \<and> length c \<le> d_to_read d in
      case process_buffer pr alloc (Some collect) zero_copy c d s of
        Some (Some n, d, s) \<Rightarrow> if n = length c then decode_run pr alloc cs d s else None
      | _ \<Rightarrow> None)"

lemma encode_run_stream:
  assumes "encode_run pr cs e s = (outs, e', s')"
  shows "in_hand e @ wires pr s = concat outs @ in_hand e' @ wires pr s'"
  using assms
proof (induction cs arbitrary: e s outs)
  case (Cons c cs)
  obtain out offs e1 s1 where g: "get_data pr (Some list_pull) c e s = (out, offs, e1, s1)"
    by (metis prod_cases4)
  obtain outs1 where r: "encode_run pr cs e1 s1 = (outs1, e', s')" "outs = out # outs1"
    using Cons.prems g by (auto split: prod.splits)
  have "in_hand e @ wires pr s = out @ in_hand e1 @ wires pr s1"
    using lsrc.enc_loop_stream[OF _ _ g[unfolded get_data_def]] by simp
  then show ?case using Cons.IH[OF r(1)] r(2) by simp
qed simp

text \<open>A sink that takes every message never stalls the decoder.\<close>

lemma settle_not_stalled:
  assumes "settle pr alloc (Some collect) d s = Some (r, d', s')"
  shows "r \<noteq> Stalled"
  using assms
proof (induction pr alloc "Some collect" d s rule: settle.induct)
  case (1 pr alloc d s)
  show ?case
  proof (cases "d_to_read d = 0")
    case False
    then show ?thesis using 1(2) by (simp add: settle.simps[of pr alloc _ d s])
  next
    case True
    then obtain b d1 s1 where n: "dec_next pr alloc (Some collect) d s = Some (b, d1, s1)"
      using 1(2) by (auto simp: settle.simps[of pr alloc _ d s] split: option.splits)
    show ?thesis
    proof (cases b)
      case b: True
      then show ?thesis using 1(1)[OF _ n refl refl b] 1(2) True n
        by (simp add: settle.simps[of pr alloc _ d s])
    next
      case False
      then have "d_next d1 = None" using n
        by (auto simp: dec_next_def d_message_ready_def dec_steps collect_def decoding_error_def Let_def bind_eq_Some
            split: option.splits dec_step.splits proto.splits if_splits)
      then show ?thesis using 1(2) True n False by (simp add: settle.simps[of pr alloc _ d s])
    qed
  qed
qed

lemma dec_loop_all:
  assumes "dec_loop pr alloc (Some collect) pos data d s = Some (Some n, d', s')"
  shows "n = pos + length data \<and> d_to_read d' \<noteq> 0"
  using assms
proof (induction pr alloc "Some collect" pos data d s rule: dec_loop.induct)
  case (1 pr alloc pos data d s)
  obtain r d1 s1 where st: "settle pr alloc (Some collect) d s = Some (r, d1, s1)" "r \<noteq> Dead"
    using 1(2) by (auto simp: dec_loop.simps[of pr alloc _ pos data d s] split: option.splits if_splits)
  then have r: "r = Ready" using settle_not_stalled by (metis settled.exhaust)
  then have rd: "d_to_read d1 \<noteq> 0" using st(1) settle_Ready by auto
  show ?case
  proof (cases "data = []")
    case True
    then show ?thesis using 1(2) st r rd by (auto simp: dec_loop.simps[of pr alloc _ pos "[]" d s])
  next
    case False
    then show ?thesis using 1(1)[OF st(1) refl refl st(2) _ refl] 1(2) st r
      by (simp add: dec_loop.simps[of pr alloc _ pos data d s] Let_def)
  qed
qed

lemma process_all:
  assumes "process_buffer pr alloc (Some collect) zc data d s = Some (Some n, d', s')"
  shows "n = length data \<and> d_to_read d' \<noteq> 0"
proof (cases zc)
  case False
  then show ?thesis using assms dec_loop_all[of pr alloc 0 data d s n d' s']
    by (auto simp: process_buffer_def split: if_splits)
next
  case True
  then obtain r where r: "settle pr alloc (Some collect) (store data d) s = Some (r, d', s')" "r \<noteq> Dead" "n = length data"
    using assms by (auto simp: process_buffer_def bind_eq_Some split: if_splits)
  then have "r = Ready" using settle_not_stalled by (metis settled.exhaust)
  then show ?thesis using r settle_Ready by auto
qed

lemma decode_run_track:
  assumes "lsnk.track pr alloc d s (concat cs @ later) msgs" "d_to_read d \<noteq> 0"
  shows "\<exists>d' s'. decode_run pr alloc cs d s = Some (d', s') \<and> lsnk.track pr alloc d' s' later msgs \<and> d_to_read d' \<noteq> 0"
  using assms
proof (induction cs arbitrary: d s)
  case (Cons c cs)
  let ?zc = "fst (get_buffer d) \<and> length c \<le> d_to_read d"
  obtain n d1 s1 where p: "process_buffer pr alloc (Some collect) ?zc c d s = Some (Some n, d1, s1)"
    "lsnk.track pr alloc d1 s1 (drop n c @ concat cs @ later) msgs"
    using lsnk.track_process[of pr alloc d s c "concat cs @ later" msgs ?zc] Cons.prems(1) by auto
  have n: "n = length c" "d_to_read d1 \<noteq> 0" using process_all[OF p(1)] by auto
  then show ?case using p Cons.IH[of d1 s1] by simp
qed simp

text \<open>A decoder that expects nothing more and waits for bytes has delivered everything.\<close>

lemma expects_nothing:
  assumes "expects pr d [] fs" "dec_ok d" "d_to_read d \<noteq> 0"
  shows "fs = []"
proof -
  obtain st where st: "d_next d = Some st" using expects_live[OF assms(1)] by blast
  then have len: "length (d_acc d) < region d st" using assms(2,3) by (auto simp: dec_ok_def)
  have w: "wires pr (f # gs) \<noteq> []" "1 < length (wires pr (f # gs))" for f gs
    by (auto simp: wire_def header_def Let_def split: proto.split)
  show ?thesis
  proof (cases fs)
    case (Cons f gs)
    then show ?thesis using assms(1) st len w[of f gs]
      by (auto simp: expects_def body_left_def region_def split: dec_step.splits proto.splits)
  qed simp
qed

lemma track_init:
  assumes "list_all (sendable alloc m) fs" "m < 2 ^ 63"
  shows "lsnk.track pr alloc (decoder_init pr n m) [] (wires pr fs) ([], fs)"
  using assms
  by (cases pr) (auto simp: lsnk.track_def dec_ok_def region_def expects_def intro!: exI[of _ fs])

section \<open>Messages that are too big\<close>

lemma settle_step:
  assumes "d_to_read d = 0" "dec_next pr alloc snk d s = Some (True, d', s')" "d_to_read d' \<noteq> 0"
  shows "settle pr alloc snk d s = Some (Ready, d', s')"
  using assms by (simp add: settle.simps)

lemma settle_dead:
  assumes "d_to_read d = 0" "dec_next pr alloc snk d s = Some (False, d', s')" "d_next d' = None"
  shows "settle pr alloc snk d s = Some (Dead, d', s')"
  using assms by (simp add: settle.simps)

lemma dec_loop_region:
  assumes "settle pr alloc snk d s = Some (Ready, d', s')" "d_to_read d' = length xs" "xs \<noteq> []"
  shows "dec_loop pr alloc snk pos (xs @ rest) d s = dec_loop pr alloc snk (pos + length xs) rest (store xs d') s'"
  using assms by (simp add: dec_loop.simps[of pr alloc snk pos "xs @ rest"] Let_def)

lemma dec_loop_dead:
  assumes "settle pr alloc snk d s = Some (Dead, d', s')"
  shows "dec_loop pr alloc snk pos data d s = Some (None, d', s')"
  using assms by (simp add: dec_loop.simps[of pr alloc snk pos data])

lemma settle_init: "settle pr alloc snk (decoder_init pr n m) s = Some (Ready, decoder_init pr n m, s)"
  by (simp add: settle.simps)

text \<open>The size is compared before any memory is allocated.\<close>

lemma big_word:
  assumes "0 \<le> m" "m < int k" "m < 2 ^ 63" "k < 2 ^ 64"
  shows "of_int m < (of_nat k :: uint64)"
proof -
  have "uint (of_nat k :: uint64) = int k" using word64_small[OF assms(4)] by (metis uint_nat)
  then show ?thesis using assms by (simp add: word_less_def uint_word_of_int_eq take_bit_int_eq_self)
qed

lemma oversized_v0:
  assumes m: "0 \<le> m" "m < int (length (fdata f))" "m < 2 ^ 63" "length (fdata f) < 2 ^ 64 - 1"
  shows "\<exists>d'. dec_loop V0 alloc snk 0 (header V0 f @ rest) (decoder_init V0 n m) s = Some (None, d', s)"
proof -
  let ?n = "length (fdata f)" and ?d = "decoder_init V0 n m"
  show ?thesis
  proof (cases "?n + 1 < 255")
    case True
    let ?b = "of_nat (?n + 1) :: byte"
    have u: "unat ?b = ?n + 1" using True by (subst unat_of_nat) simp
    then have "?b \<noteq> 0xff" "?b \<noteq> 0" "m < uint ?b - 1" using True m
      by (auto simp: unat_eq_0 uint_nat simp del: of_nat_unat of_nat_add)
    then have "settle V0 alloc snk (store [?b] ?d) s = Some (Dead, decoding_error ((store [?b] ?d)\<lparr>d_size := 0, d_flags := 0\<rparr>), s)"
      using m by (intro settle_dead) (auto simp: dec_next_def v0_one_byte_size_ready_def decoding_error_def)
    then show ?thesis using True dec_loop_region[OF settle_init, of V0 n m "[?b]" alloc snk 0 "[fflags f AND msg_more] @ rest" s]
      by (auto simp: header_def Let_def dec_loop_dead)
  next
    case False
    let ?w = "of_nat (?n + 1) :: uint64"
    define d1 where "d1 = d_next_step 8 D_eight_byte_size_ready (store [0xff] ?d)"
    have d1: "settle V0 alloc snk (store [0xff] ?d) s = Some (Ready, d1, s)"
      by (rule settle_step) (simp_all add: dec_next_def v0_one_byte_size_ready_def d1_def d_next_step_def)
    have "unat ?w = ?n + 1" using m by (intro word64_small) simp
    then have "?w \<noteq> 0" by (metis unat_0 add_is_0 one_neq_zero)
    moreover have "of_int m < ?w - 1" using big_word[OF m(1,2,3)] m(4) by simp
    ultimately have "settle V0 alloc snk (store (put_uint64 ?w) d1) s = Some (Dead, decoding_error (store (put_uint64 ?w) d1), s)"
      using m get_put_uint64[of ?w "[]"]
      by (intro settle_dead) (auto simp: dec_next_def v0_eight_byte_size_ready_def decoding_error_def d1_def d_next_step_def)
    then show ?thesis
      using False dec_loop_region[OF settle_init, of V0 n m "[0xff]" alloc snk 0 "put_uint64 ?w @ [fflags f AND msg_more] @ rest" s]
        dec_loop_region[OF d1, of "put_uint64 ?w" 1 "[fflags f AND msg_more] @ rest"]
      by (auto simp: header_def Let_def dec_loop_dead d1_def d_next_step_def put_uint64_def)
  qed
qed

lemma oversized_v1:
  assumes m: "0 \<le> m" "m < int (length (fdata f))" "m < 2 ^ 63" "length (fdata f) < 2 ^ 64 - 1"
  shows "\<exists>d'. dec_loop V1 alloc snk 0 (header V1 f @ rest) (decoder_init V1 n m) s = Some (None, d', s)"
proof -
  let ?n = "length (fdata f)" and ?d = "decoder_init V1 n m"
  obtain b where b: "header V1 f = b # (if ?n > 255 then put_uint64 (of_nat ?n) else [of_nat ?n])"
    "b AND large_flag \<noteq> 0 \<longleftrightarrow> ?n > 255"
  proof -
    let ?b = "(if fflags f AND msg_more \<noteq> 0 then 1 else 0) OR (if ?n > 255 then 2 else 0) :: byte"
    have "header V1 f = ?b # (if ?n > 255 then put_uint64 (of_nat ?n) else [of_nat ?n])"
      by (auto simp: header_def Let_def more_flag_def large_flag_def)
    moreover have "?b AND large_flag \<noteq> 0 \<longleftrightarrow> ?n > 255" by (auto simp: large_flag_def)
    ultimately show ?thesis by (rule that)
  qed
  define st where "st = (if ?n > 255 then D_eight_byte_size_ready else D_one_byte_size_ready)"
  define k where "k = (if ?n > 255 then 8 else 1 :: nat)"
  define sz where "sz = (if ?n > 255 then put_uint64 (of_nat ?n) else [of_nat ?n])"
  define d1 where "d1 = d_next_step k st ((store [b] ?d)\<lparr>d_msg_flags := (if b AND more_flag \<noteq> 0 then msg_more else 0)\<rparr>)"
  have d1: "settle V1 alloc snk (store [b] ?d) s = Some (Ready, d1, s)"
    by (rule settle_step) (auto simp: dec_next_def v1_flags_ready_def Let_def b(2) d1_def d_next_step_def st_def k_def)
  have w: "of_int m < (of_nat ?n :: uint64)" using big_word[OF m(1,2,3)] m(4) by simp
  have "(ucast (of_nat ?n :: byte) :: uint64) = of_nat ?n" if "?n \<le> 255"
  proof -
    have "unat (ucast (of_nat ?n :: byte) :: uint64) = ?n"
      using that by (simp add: unsigned_ucast_eq take_bit_word_eq_self unat_of_nat take_bit_nat_eq_self)
    then show ?thesis by (metis of_nat_unat ucast_id)
  qed
  then have "settle V1 alloc snk (store sz d1) s = Some (Dead, decoding_error (store sz d1), s)"
    using m w get_put_uint64[of "of_nat ?n" "[]"]
    by (intro settle_dead) (auto simp: dec_next_def v1_one_byte_size_ready_def v1_eight_byte_size_ready_def v1_size_ready_def
        decoding_error_def d1_def d_next_step_def st_def sz_def k_def)
  moreover have "length sz = k" "sz \<noteq> []" by (auto simp: sz_def k_def put_uint64_def)
  ultimately show ?thesis
    using dec_loop_region[OF settle_init, of V1 n m "[b]" alloc snk 0 "sz @ rest" s]
      dec_loop_region[OF d1, of sz 1 rest]
    by (auto simp: b(1) dec_loop_dead d1_def d_next_step_def simp flip: sz_def)
qed

section \<open>Properties\<close>

text \<open>
  C13: round trip. If an encoder was asked for data, with its own or with supplied buffers of any size,
  until it had nothing left, then a decoder of the same protocol that is given the bytes, cut into batches
  in any way and with or without zero copy, delivers exactly the encoded messages, in order and with
  the flag for further parts.
\<close>

theorem codec_roundtrip:
  assumes "encode_run pr calls (encoder_init n) fs = (outs, e', [])" "in_hand e' = []"
    "concat batches = concat outs" "list_all (sendable alloc m) fs" "m < 2 ^ 63"
  shows "\<exists>d'. decode_run pr alloc batches (decoder_init pr n' m) [] = Some (d', map sent fs)"
proof -
  have "in_hand (encoder_init n) = []" by (simp add: in_hand_def encoder_init_def)
  then have "concat batches = wires pr fs" using encode_run_stream[OF assms(1)] assms(2,3) by simp
  then have t: "lsnk.track pr alloc (decoder_init pr n' m) [] (concat batches @ []) ([], fs)"
    using track_init[OF assms(4,5), of pr n'] by (simp del: decoder_init.simps)
  have "d_to_read (decoder_init pr n' m) \<noteq> 0" by simp
  with t obtain d' s' where r: "decode_run pr alloc batches (decoder_init pr n' m) [] = Some (d', s')"
    "lsnk.track pr alloc d' s' [] ([], fs)" "d_to_read d' \<noteq> 0"
    using decode_run_track by blast
  then obtain del gs where "expects pr d' [] gs" "dec_ok d'" "fs = del @ gs" "s' = map sent del"
    by (auto simp: lsnk.track_def)
  then have "s' = map sent fs" using expects_nothing r(3) by fastforce
  then show ?thesis using r(1) by blast
qed

definition hello :: frame where "hello = frame_of 1 [104, 105]"

theorem codec_roundtrip_witness:
  "\<exists>d'. decode_run V1 (\<lambda>_. True) [[1], [2, 104], [105]] (decoder_init V1 8192 (-1)) [] = Some (d', [hello])"
proof -
  let ?r = "encode_run V1 [None] (encoder_init 8192) [hello]"
  have "?r = ([[1, 2, 104, 105]], fst (snd ?r), []) \<and> in_hand (fst (snd ?r)) = []"
    by (simp add: get_data_def enc_loop.simps enc_next_def e_message_ready_def e_size_ready_def e_next_step_def
        encoder_init_def in_hand_def hello_def frame_of_def header_def msg_more_def more_flag_def frame_more_def Let_def)
  then have "\<exists>d'. decode_run V1 (\<lambda>_. True) [[1], [2, 104], [105]] (decoder_init V1 8192 (-1)) [] = Some (d', map sent [hello])"
    by (intro codec_roundtrip[of V1 "[None]" 8192 "[hello]" "[[1, 2, 104, 105]]" "fst (snd ?r)"])
      (auto simp: sendable_def hello_def frame_of_def)
  then show ?thesis by (simp add: sent_def hello_def frame_of_def msg_more_def)
qed

text \<open>
  progress of the encoder. One call of \<open>get_data\<close> never loops; what it returns is the beginning of the
  stream of bytes that is due, it fills the buffer unless there is nothing left, and it does not write
  beyond the end of a supplied buffer.
\<close>

theorem get_data_stream:
  assumes "get_data pr (Some list_pull) data e s = (out, offset, e', s')"
  shows "in_hand e @ wires pr s = out @ in_hand e' @ wires pr s' \<and>
    (length out < (case data of None \<Rightarrow> e_bufsize e | Some n \<Rightarrow> n) \<longrightarrow> in_hand e' = [] \<and> s' = []) \<and>
    (\<forall>n. data = Some n \<longrightarrow> length out \<le> n)"
proof -
  let ?n = "case data of None \<Rightarrow> e_bufsize e | Some n \<Rightarrow> n"
  have "in_hand e @ wires pr s = out @ in_hand e' @ wires pr s' \<and>
    (length out < ?n \<longrightarrow> in_hand e' = [] \<and> s' = []) \<and> (data \<noteq> None \<longrightarrow> length out \<le> ?n)"
    using lsrc.enc_loop_stream[OF _ _ assms[unfolded get_data_def]] by simp
  then show ?thesis by (cases data) auto
qed

theorem get_data_stream_witness:
  "\<exists>out offset e' s'. get_data V0 (Some list_pull) (Some 3) (encoder_init 8192) [hello] = (out, offset, e', s') \<and>
     length out \<le> 3"
proof -
  obtain out offset e' s' where "get_data V0 (Some list_pull) (Some 3) (encoder_init 8192) [hello] = (out, offset, e', s')"
    by (metis prod_cases4)
  moreover from get_data_stream[OF this] have "length out \<le> 3" by simp
  ultimately show ?thesis by blast
qed





end
