(* ===== verification/Options.thy ===== *)
theory Options
  imports Wire
begin

text \<open>
  Socket options: \<open>options_t\<close> of \<open>options.hpp\<close> and \<open>options.cpp\<close>. Option values are passed as the bytes of
  the caller's buffer, \<open>None\<close> for a null pointer with length zero; integers have 32 bits and are stored
  with the least significant byte first. What the platform supports (the macros of the generated
  \<open>platform.hpp\<close>) and the resolution of address masks are arguments.
\<close>

section \<open>State\<close>

datatype socket_type =
    No_type | PAIR | PUB | SUB | REQ | REP | DEALER | ROUTER | PULL | PUSH | XPUB | XSUB

fun type_code :: "socket_type \<Rightarrow> int" where
  "type_code No_type = -1" | "type_code PAIR = 0" | "type_code PUB = 1" | "type_code SUB = 2"
| "type_code REQ = 3" | "type_code REP = 4" | "type_code DEALER = 5" | "type_code ROUTER = 6"
| "type_code PULL = 7" | "type_code PUSH = 8" | "type_code XPUB = 9" | "type_code XSUB = 10"

record 'f options =
  sndhwm :: int
  rcvhwm :: int
  affinity :: uint64
  own_identity :: bytes
  last_endpoint :: bytes
  rate :: int
  recovery_ivl :: int
  multicast_hops :: int
  sndbuf :: int
  rcvbuf :: int
  socktype :: socket_type
  linger :: int
  reconnect_ivl :: int
  reconnect_ivl_max :: int
  backlog :: int
  maxmsgsize :: int
  rcvtimeo :: int
  sndtimeo :: int
  ipv4only :: int
  delay_attach_on_connect :: int
  delay_on_close :: bool
  delay_on_disconnect :: bool
  filter_opt :: bool
  recv_identity :: bool
  tcp_keepalive :: int
  tcp_keepalive_cnt :: int
  tcp_keepalive_idle :: int
  tcp_keepalive_intvl :: int
  tcp_accept_filters :: "'f list"
  socket_id :: int

definition options_init :: "'f options" where
  "options_init = \<lparr>sndhwm = 1000, rcvhwm = 1000, affinity = 0, own_identity = [], last_endpoint = [],
     rate = 100, recovery_ivl = 10000, multicast_hops = 1, sndbuf = 0, rcvbuf = 0, socktype = No_type,
     linger = -1, reconnect_ivl = 100, reconnect_ivl_max = 0, backlog = 100, maxmsgsize = -1,
     rcvtimeo = -1, sndtimeo = -1, ipv4only = 1, delay_attach_on_connect = 0, delay_on_close = True,
     delay_on_disconnect = True, filter_opt = False, recv_identity = False, tcp_keepalive = -1,
     tcp_keepalive_cnt = -1, tcp_keepalive_idle = -1, tcp_keepalive_intvl = -1,
     tcp_accept_filters = [], socket_id = 0\<rparr>"

datatype sockopt =
    ZMQ_SNDHWM | ZMQ_RCVHWM | ZMQ_AFFINITY | ZMQ_IDENTITY | ZMQ_RATE | ZMQ_RECOVERY_IVL | ZMQ_SNDBUF
  | ZMQ_RCVBUF | ZMQ_TYPE | ZMQ_LINGER | ZMQ_RECONNECT_IVL | ZMQ_RECONNECT_IVL_MAX | ZMQ_BACKLOG
  | ZMQ_MAXMSGSIZE | ZMQ_MULTICAST_HOPS | ZMQ_RCVTIMEO | ZMQ_SNDTIMEO | ZMQ_IPV4ONLY
  | ZMQ_TCP_KEEPALIVE | ZMQ_DELAY_ATTACH_ON_CONNECT | ZMQ_TCP_KEEPALIVE_CNT | ZMQ_TCP_KEEPALIVE_IDLE
  | ZMQ_TCP_KEEPALIVE_INTVL | ZMQ_TCP_ACCEPT_FILTER | ZMQ_LAST_ENDPOINT | ZMQ_OTHER int

record caps =
  have_keepalive :: bool
  have_keepcnt :: bool
  have_keepidle :: bool
  have_keepintvl :: bool

section \<open>Integers in buffers\<close>

definition int_arg :: "bytes \<Rightarrow> int option" where
  "int_arg v = (if length v \<noteq> 4 then None else map_option sint (get_uint32 (rev v)))"

definition int64_arg :: "bytes \<Rightarrow> int option" where
  "int64_arg v = (if length v \<noteq> 8 then None else map_option sint (get_uint64 (rev v)))"

definition uint64_arg :: "bytes \<Rightarrow> uint64 option" where
  "uint64_arg v = (if length v \<noteq> 8 then None else get_uint64 (rev v))"

definition int_bytes :: "int \<Rightarrow> bytes" where
  "int_bytes i = rev (put_uint32 (of_int i))"

definition uint64_bytes :: "uint64 \<Rightarrow> bytes" where
  "uint64_bytes w = rev (put_uint64 w)"

section \<open>Setting\<close>

text \<open>An integer option: the size is checked, then the value.\<close>

definition set_int :: "(int \<Rightarrow> bool) \<Rightarrow> (int \<Rightarrow> 'f options) \<Rightarrow> bytes \<Rightarrow> 'f options outcome" where
  "set_int ok upd v = (case int_arg v of
     None \<Rightarrow> Inl EINVAL
   | Some i \<Rightarrow> if ok i then Inr (upd i) else Inl EINVAL)"

definition set_accept_filter ::
    "(bytes \<Rightarrow> bool \<Rightarrow> 'f option) \<Rightarrow> bytes option \<Rightarrow> 'f options \<Rightarrow> 'f options outcome" where
  "set_accept_filter resolve optval op = (case optval of
     None \<Rightarrow> Inr (op\<lparr>tcp_accept_filters := []\<rparr>)
   | Some v \<Rightarrow>
       if length v < 1 \<or> length v > 255 \<or> hd v = 0 then Inl EINVAL
       else (case resolve v (ipv4only op \<noteq> 0) of
           None \<Rightarrow> Inl EINVAL
         | Some f \<Rightarrow> Inr (op\<lparr>tcp_accept_filters := tcp_accept_filters op @ [f]\<rparr>)))"

definition set_transport_opt ::
    "caps \<Rightarrow> (bytes \<Rightarrow> bool \<Rightarrow> 'f option) \<Rightarrow> sockopt \<Rightarrow> bytes option \<Rightarrow> 'f options \<Rightarrow> 'f options outcome" where
  "set_transport_opt cp resolve opt optval op = (let v = (case optval of None \<Rightarrow> [] | Some v \<Rightarrow> v) in
     case opt of
       ZMQ_IPV4ONLY \<Rightarrow> set_int (\<lambda>i. i = 0 \<or> i = 1) (\<lambda>i. op\<lparr>ipv4only := i\<rparr>) v
     | ZMQ_TCP_KEEPALIVE \<Rightarrow> set_int (\<lambda>i. i = -1 \<or> i = 0 \<or> i = 1)
         (\<lambda>i. if have_keepalive cp then op\<lparr>tcp_keepalive := i\<rparr> else op) v
     | ZMQ_DELAY_ATTACH_ON_CONNECT \<Rightarrow>
         set_int (\<lambda>i. i = 0 \<or> i = 1) (\<lambda>i. op\<lparr>delay_attach_on_connect := i\<rparr>) v
     | ZMQ_TCP_KEEPALIVE_CNT \<Rightarrow> set_int (\<lambda>i. \<not> (i \<le> 0 \<and> i \<noteq> -1))
         (\<lambda>i. if have_keepalive cp \<and> have_keepcnt cp then op\<lparr>tcp_keepalive_cnt := i\<rparr> else op) v
     | ZMQ_TCP_KEEPALIVE_IDLE \<Rightarrow> set_int (\<lambda>i. \<not> (i \<le> 0 \<and> i \<noteq> -1))
         (\<lambda>i. if have_keepalive cp \<and> have_keepidle cp then op\<lparr>tcp_keepalive_idle := i\<rparr> else op) v
     | ZMQ_TCP_KEEPALIVE_INTVL \<Rightarrow> set_int (\<lambda>i. \<not> (i \<le> 0 \<and> i \<noteq> -1))
         (\<lambda>i. if have_keepalive cp \<and> have_keepintvl cp then op\<lparr>tcp_keepalive_intvl := i\<rparr> else op) v
     | ZMQ_TCP_ACCEPT_FILTER \<Rightarrow> set_accept_filter resolve optval op
     | _ \<Rightarrow> Inl EINVAL)"

definition setsockopt ::
    "caps \<Rightarrow> (bytes \<Rightarrow> bool \<Rightarrow> 'f option) \<Rightarrow> sockopt \<Rightarrow> bytes option \<Rightarrow> 'f options \<Rightarrow> 'f options outcome" where
  "setsockopt cp resolve opt optval op = (let v = (case optval of None \<Rightarrow> [] | Some v \<Rightarrow> v) in
     case opt of
       ZMQ_SNDHWM \<Rightarrow> set_int (\<lambda>i. 0 \<le> i) (\<lambda>i. op\<lparr>sndhwm := i\<rparr>) v
     | ZMQ_RCVHWM \<Rightarrow> set_int (\<lambda>i. 0 \<le> i) (\<lambda>i. op\<lparr>rcvhwm := i\<rparr>) v
     | ZMQ_AFFINITY \<Rightarrow> (case uint64_arg v of None \<Rightarrow> Inl EINVAL | Some w \<Rightarrow> Inr (op\<lparr>affinity := w\<rparr>))
     | ZMQ_IDENTITY \<Rightarrow>
         if length v < 1 \<or> length v > 255 \<or> hd v = 0 then Inl EINVAL else Inr (op\<lparr>own_identity := v\<rparr>)
     | ZMQ_RATE \<Rightarrow> set_int (\<lambda>i. 0 < i) (\<lambda>i. op\<lparr>rate := i\<rparr>) v
     | ZMQ_RECOVERY_IVL \<Rightarrow> set_int (\<lambda>i. 0 \<le> i) (\<lambda>i. op\<lparr>recovery_ivl := i\<rparr>) v
     | ZMQ_SNDBUF \<Rightarrow> set_int (\<lambda>i. 0 \<le> i) (\<lambda>i. op\<lparr>sndbuf := i\<rparr>) v
     | ZMQ_RCVBUF \<Rightarrow> set_int (\<lambda>i. 0 \<le> i) (\<lambda>i. op\<lparr>rcvbuf := i\<rparr>) v
     | ZMQ_LINGER \<Rightarrow> set_int (\<lambda>_. True) (\<lambda>i. op\<lparr>linger := i\<rparr>) v
     | ZMQ_RECONNECT_IVL \<Rightarrow> set_int (\<lambda>i. -1 \<le> i) (\<lambda>i. op\<lparr>reconnect_ivl := i\<rparr>) v
     | ZMQ_RECONNECT_IVL_MAX \<Rightarrow> set_int (\<lambda>i. 0 \<le> i) (\<lambda>i. op\<lparr>reconnect_ivl_max := i\<rparr>) v
     | ZMQ_BACKLOG \<Rightarrow> set_int (\<lambda>_. True) (\<lambda>i. op\<lparr>backlog := i\<rparr>) v
     | ZMQ_MAXMSGSIZE \<Rightarrow> (case int64_arg v of None \<Rightarrow> Inl EINVAL | Some i \<Rightarrow> Inr (op\<lparr>maxmsgsize := i\<rparr>))
     | ZMQ_MULTICAST_HOPS \<Rightarrow> set_int (\<lambda>i. 0 < i) (\<lambda>i. op\<lparr>multicast_hops := i\<rparr>) v
     | ZMQ_RCVTIMEO \<Rightarrow> set_int (\<lambda>_. True) (\<lambda>i. op\<lparr>rcvtimeo := i\<rparr>) v
     | ZMQ_SNDTIMEO \<Rightarrow> set_int (\<lambda>_. True) (\<lambda>i. op\<lparr>sndtimeo := i\<rparr>) v
     | _ \<Rightarrow> set_transport_opt cp resolve opt optval op)"

section \<open>Getting\<close>

text \<open>The bytes written to a buffer of the given size; their number is the new value of the length.\<close>

definition get_bytes :: "bytes \<Rightarrow> nat \<Rightarrow> bytes outcome" where
  "get_bytes v len = (if len < length v then Inl EINVAL else Inr v)"

definition get_transport_opt :: "sockopt \<Rightarrow> nat \<Rightarrow> 'f options \<Rightarrow> bytes outcome" where
  "get_transport_opt opt len op = (case opt of
       ZMQ_IPV4ONLY \<Rightarrow> get_bytes (int_bytes (ipv4only op)) len
     | ZMQ_DELAY_ATTACH_ON_CONNECT \<Rightarrow> get_bytes (int_bytes (delay_attach_on_connect op)) len
     | ZMQ_TCP_KEEPALIVE \<Rightarrow> get_bytes (int_bytes (tcp_keepalive op)) len
     | ZMQ_TCP_KEEPALIVE_CNT \<Rightarrow> get_bytes (int_bytes (tcp_keepalive_cnt op)) len
     | ZMQ_TCP_KEEPALIVE_IDLE \<Rightarrow> get_bytes (int_bytes (tcp_keepalive_idle op)) len
     | ZMQ_TCP_KEEPALIVE_INTVL \<Rightarrow> get_bytes (int_bytes (tcp_keepalive_intvl op)) len
     | ZMQ_LAST_ENDPOINT \<Rightarrow> get_bytes (last_endpoint op @ [0]) len
     | _ \<Rightarrow> Inl EINVAL)"

definition getsockopt :: "sockopt \<Rightarrow> nat \<Rightarrow> 'f options \<Rightarrow> bytes outcome" where
  "getsockopt opt len op = (case opt of
       ZMQ_SNDHWM \<Rightarrow> get_bytes (int_bytes (sndhwm op)) len
     | ZMQ_RCVHWM \<Rightarrow> get_bytes (int_bytes (rcvhwm op)) len
     | ZMQ_AFFINITY \<Rightarrow> get_bytes (uint64_bytes (affinity op)) len
     | ZMQ_IDENTITY \<Rightarrow> get_bytes (own_identity op) len
     | ZMQ_RATE \<Rightarrow> get_bytes (int_bytes (rate op)) len
     | ZMQ_RECOVERY_IVL \<Rightarrow> get_bytes (int_bytes (recovery_ivl op)) len
     | ZMQ_SNDBUF \<Rightarrow> get_bytes (int_bytes (sndbuf op)) len
     | ZMQ_RCVBUF \<Rightarrow> get_bytes (int_bytes (rcvbuf op)) len
     | ZMQ_TYPE \<Rightarrow> get_bytes (int_bytes (type_code (socktype op))) len
     | ZMQ_LINGER \<Rightarrow> get_bytes (int_bytes (linger op)) len
     | ZMQ_RECONNECT_IVL \<Rightarrow> get_bytes (int_bytes (reconnect_ivl op)) len
     | ZMQ_RECONNECT_IVL_MAX \<Rightarrow> get_bytes (int_bytes (reconnect_ivl_max op)) len
     | ZMQ_BACKLOG \<Rightarrow> get_bytes (int_bytes (backlog op)) len
     | ZMQ_MAXMSGSIZE \<Rightarrow> get_bytes (uint64_bytes (of_int (maxmsgsize op))) len
     | ZMQ_MULTICAST_HOPS \<Rightarrow> get_bytes (int_bytes (multicast_hops op)) len
     | ZMQ_RCVTIMEO \<Rightarrow> get_bytes (int_bytes (rcvtimeo op)) len
     | ZMQ_SNDTIMEO \<Rightarrow> get_bytes (int_bytes (sndtimeo op)) len
     | _ \<Rightarrow> get_transport_opt opt len op)"

section \<open>Lemmas\<close>

lemma int_bytes_arg: "int_arg v = Some i \<Longrightarrow> int_bytes i = v \<and> length v = 4"
proof -
  assume "int_arg v = Some i"
  then obtain w where w: "length v = 4" "get_uint32 (rev v) = Some w" "i = sint w"
    by (auto simp: int_arg_def split: if_splits)
  then show ?thesis using put_get_uint32[OF w(2)] by (simp add: int_bytes_def)
qed

lemma uint64_bytes_arg: "uint64_arg v = Some w \<Longrightarrow> uint64_bytes w = v"
  using put_get_uint64[of "rev v" w] by (auto simp: uint64_arg_def uint64_bytes_def split: if_splits)

lemma int64_bytes_arg: "int64_arg v = Some i \<Longrightarrow> uint64_bytes (of_int i) = v"
proof -
  assume "int64_arg v = Some i"
  then obtain w where w: "length v = 8" "get_uint64 (rev v) = Some w" "i = sint w"
    by (auto simp: int64_arg_def split: if_splits)
  then show ?thesis using put_get_uint64[OF w(2)] by (simp add: uint64_bytes_def)
qed

lemma get_bytes_same [simp]: "get_bytes v (length v) = Inr v"
  by (simp add: get_bytes_def)

lemma set_int_Inr:
  "set_int ok upd v = Inr op' \<Longrightarrow> \<exists>i. int_arg v = Some i \<and> ok i \<and> op' = upd i \<and> int_bytes i = v"
  using int_bytes_arg by (auto simp: set_int_def split: option.splits if_splits)

text \<open>The options whose value is stored on a platform; an accept filter cannot be read back.\<close>

definition stored :: "caps \<Rightarrow> sockopt \<Rightarrow> bool" where
  "stored cp opt \<longleftrightarrow> (case opt of
     ZMQ_TCP_KEEPALIVE \<Rightarrow> have_keepalive cp
   | ZMQ_TCP_KEEPALIVE_CNT \<Rightarrow> have_keepalive cp \<and> have_keepcnt cp
   | ZMQ_TCP_KEEPALIVE_IDLE \<Rightarrow> have_keepalive cp \<and> have_keepidle cp
   | ZMQ_TCP_KEEPALIVE_INTVL \<Rightarrow> have_keepalive cp \<and> have_keepintvl cp
   | ZMQ_TCP_ACCEPT_FILTER \<Rightarrow> False
   | _ \<Rightarrow> True)"

text \<open>
  The values the options may have: what \<open>setsockopt\<close> checks, and the ranges of the C types. The bound on
  the maximal message size is what the decoders rely on.
\<close>

definition options_ok :: "'f options \<Rightarrow> bool" where
  "options_ok op \<longleftrightarrow> 0 \<le> sndhwm op \<and> sndhwm op < 2 ^ 31 \<and> 0 \<le> rcvhwm op \<and> rcvhwm op < 2 ^ 31 \<and>
     length (own_identity op) \<le> 255 \<and> (own_identity op \<noteq> [] \<longrightarrow> hd (own_identity op) \<noteq> 0) \<and>
     0 < rate op \<and> 0 \<le> recovery_ivl op \<and> 0 < multicast_hops op \<and> 0 \<le> sndbuf op \<and> 0 \<le> rcvbuf op \<and>
     -1 \<le> reconnect_ivl op \<and> 0 \<le> reconnect_ivl_max op \<and>
     - (2 ^ 63) \<le> maxmsgsize op \<and> maxmsgsize op < 2 ^ 63 \<and>
     (ipv4only op = 0 \<or> ipv4only op = 1) \<and>
     (delay_attach_on_connect op = 0 \<or> delay_attach_on_connect op = 1)"

lemma int_arg_range: "int_arg v = Some i \<Longrightarrow> - (2 ^ 31) \<le> i \<and> i < 2 ^ 31"
proof -
  assume "int_arg v = Some i"
  then obtain w :: "32 word" where "i = sint w" by (auto simp: int_arg_def split: if_splits)
  then show ?thesis using sint_ge[of w] sint_lt[of w] by simp
qed

lemma int64_arg_range: "int64_arg v = Some i \<Longrightarrow> - (2 ^ 63) \<le> i \<and> i < 2 ^ 63"
proof -
  assume "int64_arg v = Some i"
  then obtain w :: "64 word" where "i = sint w" by (auto simp: int64_arg_def split: if_splits)
  then show ?thesis using sint_ge[of w] sint_lt[of w] by simp
qed

lemma options_ok_init [simp]: "options_ok options_init"
  by (simp add: options_ok_def options_init_def)

lemma set_int_iff:
  "set_int ok upd v = Inr op' \<longleftrightarrow> (\<exists>i. int_arg v = Some i \<and> i < 2 ^ 31 \<and> ok i \<and> op' = upd i)"
  using int_arg_range by (auto simp: set_int_def split: option.splits)

text \<open>Options without a constraint, and the ones with one.\<close>

lemma options_ok_upd [simp]:
  "options_ok (op\<lparr>linger := i\<rparr>) = options_ok op" "options_ok (op\<lparr>backlog := i\<rparr>) = options_ok op"
  "options_ok (op\<lparr>rcvtimeo := i\<rparr>) = options_ok op" "options_ok (op\<lparr>sndtimeo := i\<rparr>) = options_ok op"
  "options_ok (op\<lparr>affinity := w\<rparr>) = options_ok op" "options_ok (op\<lparr>tcp_keepalive := i\<rparr>) = options_ok op"
  "options_ok (op\<lparr>tcp_keepalive_cnt := i\<rparr>) = options_ok op"
  "options_ok (op\<lparr>tcp_keepalive_idle := i\<rparr>) = options_ok op"
  "options_ok (op\<lparr>tcp_keepalive_intvl := i\<rparr>) = options_ok op"
  "options_ok (op\<lparr>tcp_accept_filters := fs\<rparr>) = options_ok op"
  by (simp_all add: options_ok_def)

lemma options_ok_set:
  assumes "options_ok op"
  shows "0 \<le> i \<Longrightarrow> i < 2 ^ 31 \<Longrightarrow> options_ok (op\<lparr>sndhwm := i\<rparr>)"
    "0 \<le> i \<Longrightarrow> i < 2 ^ 31 \<Longrightarrow> options_ok (op\<lparr>rcvhwm := i\<rparr>)"
    "0 < i \<Longrightarrow> options_ok (op\<lparr>rate := i\<rparr>)" "0 \<le> i \<Longrightarrow> options_ok (op\<lparr>recovery_ivl := i\<rparr>)"
    "0 < i \<Longrightarrow> options_ok (op\<lparr>multicast_hops := i\<rparr>)" "0 \<le> i \<Longrightarrow> options_ok (op\<lparr>sndbuf := i\<rparr>)"
    "0 \<le> i \<Longrightarrow> options_ok (op\<lparr>rcvbuf := i\<rparr>)" "-1 \<le> i \<Longrightarrow> options_ok (op\<lparr>reconnect_ivl := i\<rparr>)"
    "0 \<le> i \<Longrightarrow> options_ok (op\<lparr>reconnect_ivl_max := i\<rparr>)"
    "- (2 ^ 63) \<le> i \<and> i < 2 ^ 63 \<Longrightarrow> options_ok (op\<lparr>maxmsgsize := i\<rparr>)"
    "i = 0 \<or> i = 1 \<Longrightarrow> options_ok (op\<lparr>ipv4only := i\<rparr>)"
    "i = 0 \<or> i = 1 \<Longrightarrow> options_ok (op\<lparr>delay_attach_on_connect := i\<rparr>)"
    "length v \<le> 255 \<Longrightarrow> hd v \<noteq> 0 \<Longrightarrow> options_ok (op\<lparr>own_identity := v\<rparr>)"
  using assms by (simp_all add: options_ok_def)

lemma set_transport_ok:
  assumes "options_ok op" "set_transport_opt cp resolve opt optval op = Inr op'"
  shows "options_ok op'"
proof (cases opt)
  case ZMQ_TCP_ACCEPT_FILTER
  then show ?thesis using assms
    by (auto simp: set_transport_opt_def set_accept_filter_def split: option.splits if_splits)
qed (use assms in \<open>auto simp: set_transport_opt_def Let_def set_int_iff intro: options_ok_set\<close>)

lemma setsockopt_ok:
  assumes "options_ok op" "setsockopt cp resolve opt optval op = Inr op'"
  shows "options_ok op'"
proof (cases opt)
  case ZMQ_AFFINITY
  then show ?thesis using assms by (auto simp: setsockopt_def Let_def split: option.splits)
next
  case ZMQ_IDENTITY
  then show ?thesis using assms by (auto simp: setsockopt_def Let_def options_ok_set not_less split: if_splits)
next
  case ZMQ_MAXMSGSIZE
  then show ?thesis using assms
    by (auto simp: setsockopt_def Let_def dest!: int64_arg_range split: option.splits intro!: options_ok_set)
qed (use assms in \<open>auto simp: setsockopt_def Let_def set_int_iff intro: options_ok_set set_transport_ok\<close>)

text \<open>Setting an option changes the value read for that option only.\<close>

lemma getsockopt_upd:
  shows "opt \<noteq> ZMQ_SNDHWM \<Longrightarrow> getsockopt opt len (op\<lparr>sndhwm := x0\<rparr>) = getsockopt opt len op"
    "opt \<noteq> ZMQ_RCVHWM \<Longrightarrow> getsockopt opt len (op\<lparr>rcvhwm := x1\<rparr>) = getsockopt opt len op"
    "opt \<noteq> ZMQ_AFFINITY \<Longrightarrow> getsockopt opt len (op\<lparr>affinity := x2\<rparr>) = getsockopt opt len op"
    "opt \<noteq> ZMQ_IDENTITY \<Longrightarrow> getsockopt opt len (op\<lparr>own_identity := x3\<rparr>) = getsockopt opt len op"
    "opt \<noteq> ZMQ_RATE \<Longrightarrow> getsockopt opt len (op\<lparr>rate := x4\<rparr>) = getsockopt opt len op"
    "opt \<noteq> ZMQ_RECOVERY_IVL \<Longrightarrow> getsockopt opt len (op\<lparr>recovery_ivl := x5\<rparr>) = getsockopt opt len op"
    "opt \<noteq> ZMQ_SNDBUF \<Longrightarrow> getsockopt opt len (op\<lparr>sndbuf := x6\<rparr>) = getsockopt opt len op"
    "opt \<noteq> ZMQ_RCVBUF \<Longrightarrow> getsockopt opt len (op\<lparr>rcvbuf := x7\<rparr>) = getsockopt opt len op"
    "opt \<noteq> ZMQ_LINGER \<Longrightarrow> getsockopt opt len (op\<lparr>linger := x8\<rparr>) = getsockopt opt len op"
    "opt \<noteq> ZMQ_RECONNECT_IVL \<Longrightarrow> getsockopt opt len (op\<lparr>reconnect_ivl := x9\<rparr>) = getsockopt opt len op"
    "opt \<noteq> ZMQ_RECONNECT_IVL_MAX \<Longrightarrow> getsockopt opt len (op\<lparr>reconnect_ivl_max := x10\<rparr>) = getsockopt opt len op"
    "opt \<noteq> ZMQ_BACKLOG \<Longrightarrow> getsockopt opt len (op\<lparr>backlog := x11\<rparr>) = getsockopt opt len op"
    "opt \<noteq> ZMQ_MAXMSGSIZE \<Longrightarrow> getsockopt opt len (op\<lparr>maxmsgsize := x12\<rparr>) = getsockopt opt len op"
    "opt \<noteq> ZMQ_MULTICAST_HOPS \<Longrightarrow> getsockopt opt len (op\<lparr>multicast_hops := x13\<rparr>) = getsockopt opt len op"
    "opt \<noteq> ZMQ_RCVTIMEO \<Longrightarrow> getsockopt opt len (op\<lparr>rcvtimeo := x14\<rparr>) = getsockopt opt len op"
    "opt \<noteq> ZMQ_SNDTIMEO \<Longrightarrow> getsockopt opt len (op\<lparr>sndtimeo := x15\<rparr>) = getsockopt opt len op"
    "opt \<noteq> ZMQ_IPV4ONLY \<Longrightarrow> getsockopt opt len (op\<lparr>ipv4only := x16\<rparr>) = getsockopt opt len op"
    "opt \<noteq> ZMQ_DELAY_ATTACH_ON_CONNECT \<Longrightarrow> getsockopt opt len (op\<lparr>delay_attach_on_connect := x17\<rparr>) = getsockopt opt len op"
    "opt \<noteq> ZMQ_TCP_KEEPALIVE \<Longrightarrow> getsockopt opt len (op\<lparr>tcp_keepalive := x18\<rparr>) = getsockopt opt len op"
    "opt \<noteq> ZMQ_TCP_KEEPALIVE_CNT \<Longrightarrow> getsockopt opt len (op\<lparr>tcp_keepalive_cnt := x19\<rparr>) = getsockopt opt len op"
    "opt \<noteq> ZMQ_TCP_KEEPALIVE_IDLE \<Longrightarrow> getsockopt opt len (op\<lparr>tcp_keepalive_idle := x20\<rparr>) = getsockopt opt len op"
    "opt \<noteq> ZMQ_TCP_KEEPALIVE_INTVL \<Longrightarrow> getsockopt opt len (op\<lparr>tcp_keepalive_intvl := x21\<rparr>) = getsockopt opt len op"
    "getsockopt opt len (op\<lparr>tcp_accept_filters := fs\<rparr>) = getsockopt opt len op"
  by (cases opt; simp add: getsockopt_def get_transport_opt_def)+

lemma set_transport_frame:
  assumes "set_transport_opt cp resolve opt optval op = Inr op'" "opt' \<noteq> opt"
  shows "getsockopt opt' len op' = getsockopt opt' len op"
  using assms
  by (cases opt) (auto simp: set_transport_opt_def Let_def set_int_iff set_accept_filter_def getsockopt_upd
      split: option.splits if_splits)

lemma setsockopt_frame:
  assumes "setsockopt cp resolve opt optval op = Inr op'" "opt' \<noteq> opt"
  shows "getsockopt opt' len op' = getsockopt opt' len op"
  using assms
  by (cases opt) (auto simp: setsockopt_def Let_def set_int_iff getsockopt_upd
      split: option.splits if_splits intro: set_transport_frame)

lemma set_transport_same:
  assumes "set_transport_opt cp resolve opt (Some v) op = Inr op'" "stored cp opt"
  shows "getsockopt opt (length v) op' = Inr v"
  using assms
  by (cases opt) (auto simp: set_transport_opt_def stored_def getsockopt_def get_transport_opt_def dest!: set_int_Inr)

lemma setsockopt_same:
  assumes "setsockopt cp resolve opt (Some v) op = Inr op'" "stored cp opt"
  shows "getsockopt opt (length v) op' = Inr v"
  using assms
  by (cases opt) (auto simp: setsockopt_def getsockopt_def uint64_bytes_arg int64_bytes_arg
      dest!: set_int_Inr dest: set_transport_same[unfolded getsockopt_def] split: option.splits if_splits)

section \<open>Properties\<close>

text \<open>
  C16: setting and getting. A value that was accepted is what \<open>getsockopt\<close> returns for the option, in a
  buffer of the same size, whenever the platform stores the option; the values of all other options
  stay what they were.
\<close>

theorem setsockopt_getsockopt:
  assumes "setsockopt cp resolve opt (Some v) op = Inr op'"
  shows "(stored cp opt \<longrightarrow> getsockopt opt (length v) op' = Inr v) \<and>
    (\<forall>opt' len. opt' \<noteq> opt \<longrightarrow> getsockopt opt' len op' = getsockopt opt' len op)"
  using setsockopt_same[OF assms] setsockopt_frame[OF assms] by blast

theorem setsockopt_getsockopt_witness:
  "\<exists>op'. setsockopt \<lparr>have_keepalive = True, have_keepcnt = True, have_keepidle = True, have_keepintvl = True\<rparr>
     (\<lambda>_ _. None :: unit option) ZMQ_SNDHWM (Some [5, 0, 0, 0]) options_init = Inr op' \<and>
     getsockopt ZMQ_SNDHWM 4 op' = Inr [5, 0, 0, 0]"
proof -
  let ?cp = "\<lparr>have_keepalive = True, have_keepcnt = True, have_keepidle = True, have_keepintvl = True\<rparr>"
  have "int_arg [5, 0, 0, 0] = Some 5" by (simp add: int_arg_def)
  then have "setsockopt ?cp (\<lambda>_ _. None :: unit option) ZMQ_SNDHWM (Some [5, 0, 0, 0]) options_init =
      Inr (options_init\<lparr>sndhwm := 5\<rparr>)" by (simp add: setsockopt_def set_int_def)
  from this setsockopt_getsockopt[OF this] show ?thesis by (simp add: stored_def eval_nat_numeral)
qed



end
