(* ===== verification/Session.thy ===== *)
theory Session
  imports Routing Codec Options
begin

text \<open>
  Sessions: \<open>session_base_t\<close> of \<open>session_base.hpp\<close> and \<open>session_base.cpp\<close>. A session sits between the engine
  of a connection and the pipe to the socket; it is the source of the messages for the encoder and the
  sink of the messages of the decoder. Its state contains the world of the pipes and the log of the calls
  it makes of objects that are not part of the model (engine, timers, connecters, the ownership tree),
  in their order. A failing assertion is \<open>None\<close>.
\<close>

section \<open>State\<close>

datatype protocol = Tcp | Ipc | Pgm | Epgm | Other_protocol

datatype session_call =
    Engine_activate_out | Engine_activate_in | Engine_plug | Engine_terminate
  | Add_linger_timer int | Cancel_linger_timer | Send_bind nat
  | Launch_connecter protocol bool | Own_terminate | Own_process_term int

record session =
  s_self :: nat
  s_connect :: bool
  s_pipe :: "nat option"
  terminating_pipes :: "nat set"
  incomplete_in :: bool
  s_pending :: bool
  s_engine :: bool
  has_linger_timer :: bool
  identity_sent :: bool
  identity_received :: bool
  s_terminating :: bool
  s_addr :: protocol
  s_options :: "unit options"
  wld :: world
  s_calls :: "session_call list"

definition session_init :: "nat \<Rightarrow> bool \<Rightarrow> protocol \<Rightarrow> unit options \<Rightarrow> world \<Rightarrow> session" where
  "session_init self connect addr op w =
     \<lparr>s_self = self, s_connect = connect, s_pipe = None, terminating_pipes = {}, incomplete_in = False,
      s_pending = False, s_engine = False, has_linger_timer = False, identity_sent = False,
      identity_received = False, s_terminating = False, s_addr = addr, s_options = op, wld = w, s_calls = []\<rparr>"

definition call :: "session_call \<Rightarrow> session \<Rightarrow> session" where
  "call c s = s\<lparr>s_calls := s_calls s @ [c]\<rparr>"

definition attach_pipe :: "nat \<Rightarrow> session \<Rightarrow> session option" where
  "attach_pipe p s =
     (if s_terminating s \<or> s_pipe s \<noteq> None then None
      else do {
        w \<leftarrow> pipe_set_event_sink (s_self s) p (wld s);
        Some (s\<lparr>s_pipe := Some p, wld := w\<rparr>) })"

section \<open>Messages\<close>

text \<open>\<open>flags\<close> are the flags of the message object that is passed in; no message is \<open>EAGAIN\<close>.\<close>

definition pull_msg :: "byte \<Rightarrow> session \<Rightarrow> (frame option \<times> session) option" where
  "pull_msg flags s =
     (if \<not> identity_sent s then
        (if flags AND msg_more \<noteq> 0 then None
         else Some (Some (frame_of 0 (own_identity (s_options s))), s\<lparr>identity_sent := True, incomplete_in := False\<rparr>))
      else (case s_pipe s of
          None \<Rightarrow> Some (None, s)
        | Some p \<Rightarrow> do {
            (m, w) \<leftarrow> pipe_read p (wld s);
            (case m of
               None \<Rightarrow> Some (None, s\<lparr>wld := w\<rparr>)
             | Some f \<Rightarrow> Some (Some f, s\<lparr>wld := w, incomplete_in := frame_more f\<rparr>)) }))"

text \<open>The error code and the flags of the message, which keeps the identity flag if it is refused.\<close>

definition push_msg :: "frame \<Rightarrow> session \<Rightarrow> (errno option \<times> byte \<times> session) option" where
  "push_msg f s = (
     let f' = (if identity_received s then f else f\<lparr>fflags := fflags f OR msg_identity\<rparr>);
         s' = s\<lparr>identity_received := True\<rparr>
     in if \<not> identity_received s \<and> \<not> recv_identity (s_options s) then Some (None, 0, s')
        else (case s_pipe s' of
            None \<Rightarrow> Some (Some EAGAIN, fflags f', s')
          | Some p \<Rightarrow> do {
              (ok, w) \<leftarrow> pipe_write p f' (wld s');
              Some (if ok then None else Some EAGAIN, if ok then 0 else fflags f', s'\<lparr>wld := w\<rparr>) }))"

definition session_reset :: "session \<Rightarrow> session" where
  "session_reset s = s\<lparr>identity_sent := False, identity_received := False\<rparr>"

definition session_flush :: "session \<Rightarrow> session option" where
  "session_flush s = (case s_pipe s of
     None \<Rightarrow> Some s
   | Some p \<Rightarrow> do { w \<leftarrow> pipe_flush p (wld s); Some (s\<lparr>wld := w\<rparr>) })"

text \<open>\<open>while (incomplete_in)\<close>: the rest of a message that was read in part is dropped.\<close>

partial_function (option) clean_loop :: "session \<Rightarrow> session option" where
  "clean_loop s =
     (if incomplete_in s then
        (case pull_msg 0 s of
           None \<Rightarrow> None
         | Some (None, s) \<Rightarrow> if incomplete_in s then None else Some s
         | Some (Some f, s) \<Rightarrow> clean_loop s)
      else Some s)"

definition clean_pipes :: "session \<Rightarrow> session option" where
  "clean_pipes s = (case s_pipe s of
     None \<Rightarrow> Some s
   | Some p \<Rightarrow> do {
       w \<leftarrow> pipe_rollback p (wld s);
       w \<leftarrow> pipe_flush p w;
       clean_loop (s\<lparr>wld := w\<rparr>) })"

section \<open>Pipe events\<close>

definition proceed_with_term :: "session \<Rightarrow> session" where
  "proceed_with_term s = call (Own_process_term 0) (s\<lparr>s_pending := False\<rparr>)"

definition session_terminated :: "nat \<Rightarrow> session \<Rightarrow> session option" where
  "session_terminated p s =
     (if \<not> (s_pipe s = Some p \<or> p \<in> terminating_pipes s) then None
      else
        let s = (if s_pipe s = Some p then s\<lparr>s_pipe := None\<rparr>
                 else s\<lparr>terminating_pipes := terminating_pipes s - {p}\<rparr>)
        in Some (if s_pending s \<and> s_pipe s = None \<and> terminating_pipes s = {} then proceed_with_term s else s))"

definition session_read_activated :: "nat \<Rightarrow> session \<Rightarrow> session option" where
  "session_read_activated p s =
     (if s_pipe s \<noteq> Some p then (if p \<in> terminating_pipes s then Some s else None)
      else if s_engine s then Some (call Engine_activate_out s)
      else do { (_, w) \<leftarrow> pipe_check_read p (wld s); Some (s\<lparr>wld := w\<rparr>) })"

definition session_write_activated :: "nat \<Rightarrow> session \<Rightarrow> session option" where
  "session_write_activated p s =
     (if s_pipe s \<noteq> Some p then (if p \<in> terminating_pipes s then Some s else None)
      else Some (if s_engine s then call Engine_activate_in s else s))"

definition session_hiccuped :: "nat \<Rightarrow> session \<Rightarrow> session option" where
  "session_hiccuped p s = None"

section \<open>Connection and termination\<close>

definition start_connecting :: "bool \<Rightarrow> session \<Rightarrow> session option" where
  "start_connecting wait s =
     (if \<not> s_connect s then None
      else if s_addr s = Tcp \<or> s_addr s = Ipc then Some (call (Launch_connecter (s_addr s) wait) s)
      else None)"

definition process_plug :: "session \<Rightarrow> session option" where
  "process_plug s = (if s_connect s then start_connecting False s else Some s)"

text \<open>\<open>p0\<close>, \<open>p1\<close>, \<open>c1\<close>, \<open>c2\<close> are the addresses of the objects that are allocated.\<close>

definition process_attach :: "nat \<Rightarrow> nat \<Rightarrow> nat \<Rightarrow> nat \<Rightarrow> session \<Rightarrow> session option" where
  "process_attach p0 p1 c1 c2 s = do {
     s \<leftarrow> (if s_pipe s = None \<and> \<not> s_terminating s then do {
            let op = s_options s;
            w \<leftarrow> pipepair p0 p1 c1 c2 (rcvhwm op, sndhwm op) (delay_on_close op, delay_on_disconnect op) (wld s);
            w \<leftarrow> pipe_set_event_sink (s_self s) p0 w;
            Some (call (Send_bind p1) (s\<lparr>s_pipe := Some p0, wld := w\<rparr>)) }
          else Some s);
     if s_engine s then None else Some (call Engine_plug (s\<lparr>s_engine := True\<rparr>)) }"

text \<open>\<open>c\<close> is the address of the channel a hiccup allocates.\<close>

definition detached :: "nat \<Rightarrow> session \<Rightarrow> session option" where
  "detached c s =
     (if \<not> s_connect s then Some (call Own_terminate s)
      else do {
        s \<leftarrow> (case s_pipe s of
            Some p \<Rightarrow>
              if delay_attach_on_connect (s_options s) = 1 \<and> s_addr s \<noteq> Pgm \<and> s_addr s \<noteq> Epgm then do {
                w \<leftarrow> pipe_hiccup c p (wld s);
                w \<leftarrow> pipe_terminate False p w;
                Some (s\<lparr>wld := w, terminating_pipes := insert p (terminating_pipes s), s_pipe := None\<rparr>) }
              else Some s
          | None \<Rightarrow> Some s);
        let s = session_reset s;
        s \<leftarrow> (if reconnect_ivl (s_options s) \<noteq> -1 then start_connecting True s else Some s);
        (case s_pipe s of
           Some p \<Rightarrow>
             if socktype (s_options s) = SUB \<or> socktype (s_options s) = XSUB
             then do { w \<leftarrow> pipe_hiccup c p (wld s); Some (s\<lparr>wld := w\<rparr>) }
             else Some s
         | None \<Rightarrow> Some s) })"

definition detach :: "nat \<Rightarrow> session \<Rightarrow> session option" where
  "detach c s = do {
     s \<leftarrow> clean_pipes (s\<lparr>s_engine := False\<rparr>);
     s \<leftarrow> detached c s;
     (case s_pipe s of
        None \<Rightarrow> Some s
      | Some p \<Rightarrow> do { (_, w) \<leftarrow> pipe_check_read p (wld s); Some (s\<lparr>wld := w\<rparr>) }) }"

definition session_process_term :: "int \<Rightarrow> session \<Rightarrow> session option" where
  "session_process_term lg s =
     (if s_pending s then None
      else (case s_pipe s of
          None \<Rightarrow> Some (proceed_with_term s)
        | Some p \<Rightarrow> do {
            let s = s\<lparr>s_pending := True\<rparr>;
            s \<leftarrow> (if lg > 0 then
                   (if has_linger_timer s then None
                    else Some ((call (Add_linger_timer lg) s)\<lparr>has_linger_timer := True\<rparr>))
                 else Some s);
            w \<leftarrow> pipe_terminate (lg \<noteq> 0) p (wld s);
            (_, w) \<leftarrow> pipe_check_read p w;
            Some (s\<lparr>wld := w\<rparr>) }))"

definition session_timer_event :: "session \<Rightarrow> session option" where
  "session_timer_event s = (case s_pipe s of
     None \<Rightarrow> None
   | Some p \<Rightarrow> do {
       w \<leftarrow> pipe_terminate False p (wld s);
       Some (s\<lparr>has_linger_timer := False, wld := w\<rparr>) })"

definition session_destroy :: "session \<Rightarrow> session option" where
  "session_destroy s =
     (if s_pipe s \<noteq> None then None
      else
        let s = (if has_linger_timer s then (call Cancel_linger_timer s)\<lparr>has_linger_timer := False\<rparr> else s)
        in Some (if s_engine s then call Engine_terminate s else s))"

section \<open>Sessions as sources and sinks of messages\<close>

definition s_valid :: "session \<Rightarrow> bool" where
  "s_valid s \<longleftrightarrow> (\<forall>p. s_pipe s = Some p \<longrightarrow> valid (wld s) p)"

definition s_avail :: "session \<Rightarrow> frame list" where
  "s_avail s = (if identity_sent s then [] else [frame_of 0 (own_identity (s_options s))]) @
     (case s_pipe s of None \<Rightarrow> [] | Some p \<Rightarrow> avail (wld s) p)"

definition s_out :: "session \<Rightarrow> frame list" where
  "s_out s = (case s_pipe s of None \<Rightarrow> [] | Some p \<Rightarrow> out (wld s) p)"

text \<open>The two operations as the engine sees them; on the states considered below they do not abort.\<close>

definition session_pull :: "session pull" where
  "session_pull s = (case pull_msg 0 s of Some r \<Rightarrow> r | None \<Rightarrow> (None, s))"

definition session_push :: "session push" where
  "session_push f s = (case push_msg f s of Some r \<Rightarrow> r | None \<Rightarrow> (None, 0, s))"

lemma pull_msg_law:
  assumes "s_valid s"
  shows "case s_avail s of
      [] \<Rightarrow> \<exists>s'. pull_msg 0 s = Some (None, s') \<and> s_valid s' \<and> s_avail s' = [] \<and> s_pipe s' = s_pipe s \<and>
        incomplete_in s' = incomplete_in s \<and> identity_sent s' = identity_sent s
    | f # fs \<Rightarrow> \<exists>s'. pull_msg 0 s = Some (Some f, s') \<and> s_valid s' \<and> s_avail s' = fs \<and> s_pipe s' = s_pipe s \<and>
        identity_sent s' \<and> (identity_sent s \<longrightarrow> incomplete_in s' = frame_more f)"
proof (cases "identity_sent s")
  case False
  then show ?thesis using assms by (auto simp: pull_msg_def s_avail_def s_valid_def split: option.split)
next
  case True
  show ?thesis
  proof (cases "s_pipe s")
    case None
    then show ?thesis using True assms by (simp add: pull_msg_def s_avail_def)
  next
    case (Some p)
    then have v: "valid (wld s) p" using assms by (simp add: s_valid_def)
    show ?thesis
    proof (cases "avail (wld s) p")
      case Nil
      then obtain w where "pipe_read p (wld s) = Some (None, w)" "avail w = avail (wld s)" "valid w = valid (wld s)"
        using pin.rd_none[OF v] by blast
      then show ?thesis using True Some Nil v by (simp add: pull_msg_def s_avail_def s_valid_def)
    next
      case (Cons f fs)
      then obtain w where "pipe_read p (wld s) = Some (Some f, w)" "avail w = (avail (wld s))(p := fs)"
        "valid w = valid (wld s)" using pin.rd_some[OF v] by blast
      then show ?thesis using True Some Cons v by (simp add: pull_msg_def s_avail_def s_valid_def)
    qed
  qed
qed

interpretation ssrc: msg_source session_pull s_avail s_valid
proof
  fix s f fs
  show "s_valid s \<Longrightarrow> s_avail s = [] \<Longrightarrow> \<exists>s'. session_pull s = (None, s') \<and> s_valid s' \<and> s_avail s' = []"
    using pull_msg_law[of s] by (auto simp: session_pull_def)
  show "s_valid s \<Longrightarrow> s_avail s = f # fs \<Longrightarrow> \<exists>s'. session_pull s = (Some f, s') \<and> s_valid s' \<and> s_avail s' = fs"
    using pull_msg_law[of s] by (auto simp: session_pull_def)
qed

lemma push_msg_law:
  assumes "s_valid s" "identity_received s"
  shows "\<exists>s'. push_msg f s = Some (if \<exists>p. s_pipe s = Some p \<and> writable (wld s) p then (None, 0, s')
      else (Some EAGAIN, fflags f, s')) \<and> s_valid s' \<and> identity_received s' \<and>
    s_out s' = (if \<exists>p. s_pipe s = Some p \<and> writable (wld s) p then s_out s @ [f] else s_out s)"
proof (cases "s_pipe s")
  case None
  then show ?thesis using assms by (auto simp: push_msg_def s_valid_def s_out_def Let_def)
next
  case (Some p)
  then have v: "valid (wld s) p" using assms by (simp add: s_valid_def)
  show ?thesis
  proof (cases "writable (wld s) p")
    case True
    then obtain w where "pipe_write p f (wld s) = Some (True, w)" "out w = (out (wld s))(p := out (wld s) p @ [f])"
      "valid w = valid (wld s)" using pout.wr_ok[OF v] by blast
    then show ?thesis using Some True assms v by (simp add: push_msg_def Let_def s_valid_def s_out_def)
  next
    case False
    then obtain w where "pipe_write p f (wld s) = Some (False, w)" "out w = out (wld s)" "valid w = valid (wld s)"
      using pout.wr_full[OF v] by blast
    then show ?thesis using Some False assms v by (simp add: push_msg_def Let_def s_valid_def s_out_def)
  qed
qed

lemma session_flush_law:
  assumes "s_valid s"
  shows "\<exists>s'. session_flush s = Some s' \<and> s_valid s' \<and> s_out s' = s_out s \<and> identity_received s' = identity_received s"
proof (cases "s_pipe s")
  case None
  then show ?thesis using assms by (simp add: session_flush_def)
next
  case (Some p)
  then have "valid (wld s) p" using assms by (simp add: s_valid_def)
  from pipe_flush_keeps[OF this] obtain w where "pipe_flush p (wld s) = Some w" "out w = out (wld s)" "valid w = valid (wld s)"
    by blast
  then show ?thesis using Some assms by (simp add: session_flush_def s_valid_def s_out_def)
qed

interpretation ssnk: msg_sink session_push s_out "\<lambda>s. s_valid s \<and> identity_received s"
proof
  fix s f s' e fl
  assume i: "s_valid s \<and> identity_received s"
  show "session_push f s = (None, fl, s') \<Longrightarrow> (s_valid s' \<and> identity_received s') \<and> s_out s' = s_out s @ [f]"
    using push_msg_law[of s f] i by (auto simp: session_push_def split: if_splits)
  show "session_push f s = (Some e, fl, s') \<Longrightarrow>
      e = EAGAIN \<and> fl = fflags f \<and> (s_valid s' \<and> identity_received s') \<and> s_out s' = s_out s"
    using push_msg_law[of s f] i by (auto simp: session_push_def split: if_splits)
qed

section \<open>Properties\<close>

text \<open>
  a hop over the network. What an encoder takes from one session, its identity first and then the
  messages in its pipe, and a decoder gives to another session reaches the pipe of that session in
  order and without loss: the pipe grows by the first of the messages, and by all of them once the encoder
  has nothing left and the decoder has accepted all bytes and waits for more.
\<close>

theorem session_hop:
  assumes "get_data pr (Some session_pull) data (encoder_init n) A = (bytes, offset, e', A')"
    "s_valid A" "s_valid B" "identity_received B" "list_all (sendable alloc m) (s_avail A)" "m < 2 ^ 63"
  shows "\<exists>j d' B' k. process_buffer pr alloc (Some session_push) False bytes (decoder_init pr n' m) B = Some (Some j, d', B') \<and>
    s_valid A' \<and> s_valid B' \<and> j \<le> length bytes \<and> s_out B' = s_out B @ map sent (take k (s_avail A)) \<and>
    (in_hand e' = [] \<and> s_avail A' = [] \<and> j = length bytes \<and> d_to_read d' \<noteq> 0 \<longrightarrow> take k (s_avail A) = s_avail A)"
proof -
  let ?later = "in_hand e' @ wires pr (s_avail A')"
  have st: "s_valid A'" "wires pr (s_avail A) = bytes @ ?later"
    using ssrc.enc_loop_stream[OF assms(2) _ assms(1)[unfolded get_data_def], simplified]
    by (simp_all add: in_hand_def encoder_init_def)
  have "ssnk.track pr alloc (decoder_init pr n' m) B (bytes @ ?later) (s_out B, s_avail A)"
    using assms(3-6) st(2)[symmetric]
    by (cases pr) (auto simp: ssnk.track_def dec_ok_def region_def expects_def)
  from ssnk.track_process[OF this, of False]
  obtain j d' B' where p: "process_buffer pr alloc (Some session_push) False bytes (decoder_init pr n' m) B = Some (Some j, d', B')"
    "j \<le> length bytes" "ssnk.track pr alloc d' B' (drop j bytes @ ?later) (s_out B, s_avail A)" by auto
  then obtain del fs where fs: "expects pr d' (drop j bytes @ ?later) fs" "dec_ok d'" "s_valid B'"
    "s_avail A = del @ fs" "s_out B' = s_out B @ map sent del" by (auto simp: ssnk.track_def)
  have "del = s_avail A" if "in_hand e' = [] \<and> s_avail A' = [] \<and> j = length bytes \<and> d_to_read d' \<noteq> 0"
    using expects_nothing[of pr d' fs] fs that by simp
  then show ?thesis using p(1,2) st(1) fs
    by (intro exI[of _ j] exI[of _ d'] exI[of _ B'] exI[of _ "length del"]) auto
qed

definition demo_session :: session where
  "demo_session = (session_init 7 True Tcp options_init demo_world)\<lparr>s_pipe := Some 0, identity_received := True\<rparr>"

lemma demo_session_ok: "s_valid demo_session" "identity_received demo_session"
  "s_avail demo_session = [frame_of 0 [], frame_of 1 [5], frame_of 0 [6]]"
  using demo_valid demo_avail
  by (simp_all add: demo_session_def session_init_def s_valid_def s_avail_def options_init_def)

theorem session_hop_witness:
  "\<exists>bytes offset e' A' j d' B' k. get_data V1 (Some session_pull) None (encoder_init 8192) demo_session = (bytes, offset, e', A') \<and>
     process_buffer V1 (\<lambda>_. True) (Some session_push) False bytes (decoder_init V1 8192 (-1)) demo_session = Some (Some j, d', B') \<and>
     s_out B' = s_out demo_session @ map sent (take k [frame_of 0 [], frame_of 1 [5], frame_of 0 [6]])"
proof -
  obtain bytes offset e' A' where g:
    "get_data V1 (Some session_pull) None (encoder_init 8192) demo_session = (bytes, offset, e', A')" by (metis prod_cases4)
  have "list_all (sendable (\<lambda>_. True) (-1)) (s_avail demo_session)"
    by (simp add: demo_session_ok sendable_def frame_of_def)
  from session_hop[OF g demo_session_ok(1,1,2) this, of 8192] g show ?thesis
    unfolding demo_session_ok(3) by (simp del: decoder_init.simps) blast
qed



end
