(* ===== verification/Req.thy ===== *)
theory Req
  imports Session
begin

text \<open>
  DEALER and REQ sockets: \<open>dealer_t\<close> of \<open>dealer.cpp\<close> and \<open>req_t\<close>, \<open>req_session_t\<close> of \<open>req.cpp\<close>. A dealer
  receives by fair queueing and sends by load balancing; a REQ socket is a dealer (a record extension, as
  the class is derived) that alternates between sending a request and receiving a reply and puts an
  empty part, the bottom of the address stack, in front of a request.
\<close>

section \<open>Dealer\<close>

record dealer =
  dl_fq :: "nat fq_t"
  dl_lb :: "nat lb_t"
  prefetched :: bool
  prefetched_msg :: frame

definition dealer_init :: dealer where
  "dealer_init = \<lparr>dl_fq = fq_init, dl_lb = lb_init, prefetched = False, prefetched_msg = frame_of 0 []\<rparr>"

text \<open>What the constructor sets in the options of the socket.\<close>

definition dealer_options :: "'f options \<Rightarrow> 'f options" where
  "dealer_options opts = opts\<lparr>socktype := DEALER, recv_identity := True\<rparr>"

definition dealer_xattach_pipe :: "nat \<Rightarrow> 'a dealer_scheme \<Rightarrow> 'a dealer_scheme option" where
  "dealer_xattach_pipe p d = do {
     q \<leftarrow> fq_attach p (dl_fq d);
     l \<leftarrow> lb_attach p (dl_lb d);
     Some (d\<lparr>dl_fq := q, dl_lb := l\<rparr>) }"

definition dealer_xsend :: "frame \<Rightarrow> 'a dealer_scheme \<Rightarrow> world \<Rightarrow> ('a dealer_scheme \<times> world \<times> unit outcome) option" where
  "dealer_xsend m d w = do {
     (l, w, r) \<leftarrow> lb_send pipe_write pipe_flush m (dl_lb d) w;
     Some (d\<lparr>dl_lb := l\<rparr>, w, r) }"

text \<open>The loop that drops identities.\<close>

partial_function (option) dealer_recv_loop :: "nat fq_t \<Rightarrow> world \<Rightarrow> (nat fq_t \<times> world \<times> frame outcome) option" where
  "dealer_recv_loop q w =
     (case fq_recv pipe_read q w of
        None \<Rightarrow> None
      | Some (q, w, Inl e) \<Rightarrow> Some (q, w, Inl e)
      | Some (q, w, Inr m) \<Rightarrow>
          if fflags m AND msg_identity = 0 then Some (q, w, Inr m) else dealer_recv_loop q w)"

definition dealer_xrecv :: "'a dealer_scheme \<Rightarrow> world \<Rightarrow> ('a dealer_scheme \<times> world \<times> frame outcome) option" where
  "dealer_xrecv d w =
     (if prefetched d then Some (d\<lparr>prefetched := False, prefetched_msg := frame_of 0 []\<rparr>, w, Inr (prefetched_msg d))
      else do {
        (q, w, r) \<leftarrow> dealer_recv_loop (dl_fq d) w;
        Some (d\<lparr>dl_fq := q\<rparr>, w, r) })"

definition dealer_xhas_in :: "'a dealer_scheme \<Rightarrow> world \<Rightarrow> ('a dealer_scheme \<times> world \<times> bool) option" where
  "dealer_xhas_in d w =
     (if prefetched d then Some (d, w, True)
      else do {
        (d, w, r) \<leftarrow> dealer_xrecv d w;
        (case r of
           Inl e \<Rightarrow> if e = EAGAIN then Some (d, w, False) else None
         | Inr m \<Rightarrow> Some (d\<lparr>prefetched := True, prefetched_msg := m\<rparr>, w, True)) })"

definition dealer_xhas_out :: "'a dealer_scheme \<Rightarrow> world \<Rightarrow> ('a dealer_scheme \<times> world \<times> bool) option" where
  "dealer_xhas_out d w = do {
     (l, w, b) \<leftarrow> lb_has_out pipe_check_write (dl_lb d) w;
     Some (d\<lparr>dl_lb := l\<rparr>, w, b) }"

definition dealer_xread_activated :: "nat \<Rightarrow> 'a dealer_scheme \<Rightarrow> 'a dealer_scheme option" where
  "dealer_xread_activated p d = do { q \<leftarrow> fq_activated p (dl_fq d); Some (d\<lparr>dl_fq := q\<rparr>) }"

definition dealer_xwrite_activated :: "nat \<Rightarrow> 'a dealer_scheme \<Rightarrow> 'a dealer_scheme option" where
  "dealer_xwrite_activated p d = do { l \<leftarrow> lb_activated p (dl_lb d); Some (d\<lparr>dl_lb := l\<rparr>) }"

definition dealer_xterminated :: "nat \<Rightarrow> 'a dealer_scheme \<Rightarrow> 'a dealer_scheme option" where
  "dealer_xterminated p d = do {
     q \<leftarrow> fq_terminated p (dl_fq d);
     l \<leftarrow> lb_terminated p (dl_lb d);
     Some (d\<lparr>dl_fq := q, dl_lb := l\<rparr>) }"

section \<open>Request\<close>

record req = dealer +
  receiving_reply :: bool
  message_begins :: bool

definition req_init :: req where
  "req_init = dealer.extend dealer_init (req.fields False True)"

definition req_options :: "'f options \<Rightarrow> 'f options" where
  "req_options opts = (dealer_options opts)\<lparr>socktype := REQ\<rparr>"

definition bottom_frame :: frame where
  "bottom_frame = frame_of msg_more []"

definition req_xsend :: "frame \<Rightarrow> req \<Rightarrow> world \<Rightarrow> (req \<times> world \<times> unit outcome) option" where
  "req_xsend m r w =
     (if receiving_reply r then Some (r, w, Inl EFSM)
      else do {
        (r, w, res) \<leftarrow>
          (if message_begins r then do {
             (r, w, res) \<leftarrow> dealer_xsend bottom_frame r w;
             (case res of Inl e \<Rightarrow> Some (r, w, Inl e) | Inr _ \<Rightarrow> Some (r\<lparr>message_begins := False\<rparr>, w, Inr ())) }
           else Some (r, w, Inr ()));
        (case res of
           Inl e \<Rightarrow> Some (r, w, Inl e)
         | Inr _ \<Rightarrow> do {
             (r, w, res) \<leftarrow> dealer_xsend m r w;
             (case res of
                Inl e \<Rightarrow> Some (r, w, Inl e)
              | Inr _ \<Rightarrow>
                  Some (if frame_more m then r else r\<lparr>receiving_reply := True, message_begins := True\<rparr>, w, Inr ())) }) })"

text \<open>The loop that discards the rest of a malformed reply; it insists on getting further parts.\<close>

partial_function (option) req_discard :: "req \<Rightarrow> world \<Rightarrow> (req \<times> world) option" where
  "req_discard r w =
     (case dealer_xrecv r w of
        None \<Rightarrow> None
      | Some (r, w, Inl e) \<Rightarrow> None
      | Some (r, w, Inr m) \<Rightarrow> if frame_more m then req_discard r w else Some (r, w))"

definition req_xrecv :: "req \<Rightarrow> world \<Rightarrow> (req \<times> world \<times> frame outcome) option" where
  "req_xrecv r w =
     (if \<not> receiving_reply r then Some (r, w, Inl EFSM)
      else do {
        (r, w, res) \<leftarrow>
          (if message_begins r then do {
             (r, w, res) \<leftarrow> dealer_xrecv r w;
             (case res of
                Inl e \<Rightarrow> Some (r, w, Inl e)
              | Inr m \<Rightarrow>
                  if \<not> frame_more m \<or> fdata m \<noteq> [] then do {
                    (r, w) \<leftarrow> req_discard r w;
                    Some (r, w, Inl EAGAIN) }
                  else Some (r\<lparr>message_begins := False\<rparr>, w, Inr ())) }
           else Some (r, w, Inr ()));
        (case res of
           Inl e \<Rightarrow> Some (r, w, Inl e)
         | Inr _ \<Rightarrow> do {
             (r, w, res) \<leftarrow> dealer_xrecv r w;
             (case res of
                Inl e \<Rightarrow> Some (r, w, Inl e)
              | Inr m \<Rightarrow>
                  Some (if frame_more m then r else r\<lparr>receiving_reply := False, message_begins := True\<rparr>, w, Inr m)) }) })"

definition req_xhas_in :: "req \<Rightarrow> world \<Rightarrow> (req \<times> world \<times> bool) option" where
  "req_xhas_in r w = (if \<not> receiving_reply r then Some (r, w, False) else dealer_xhas_in r w)"

definition req_xhas_out :: "req \<Rightarrow> world \<Rightarrow> (req \<times> world \<times> bool) option" where
  "req_xhas_out r w = (if receiving_reply r then Some (r, w, False) else dealer_xhas_out r w)"

section \<open>Sessions of REQ sockets\<close>

datatype rs_state = Rs_identity | Rs_bottom | Rs_body

definition req_push_msg :: "frame \<Rightarrow> rs_state \<times> session \<Rightarrow> (errno option \<times> byte \<times> rs_state \<times> session) option" where
  "req_push_msg f x = (
     let (st, s) = x;
         forward = (\<lambda>st'. map_option (\<lambda>(e, fl, s). (e, fl, st', s)) (push_msg f s))
     in case st of
          Rs_bottom \<Rightarrow>
            if fflags f = msg_more \<and> fdata f = [] then forward Rs_body else Some (Some EFAULT, fflags f, st, s)
        | Rs_body \<Rightarrow>
            if fflags f = msg_more then forward Rs_body
            else if fflags f = 0 then forward Rs_bottom
            else Some (Some EFAULT, fflags f, st, s)
        | Rs_identity \<Rightarrow>
            if fflags f = 0 then forward Rs_bottom else Some (Some EFAULT, fflags f, st, s))"

definition req_reset :: "rs_state \<times> session \<Rightarrow> rs_state \<times> session" where
  "req_reset x = (Rs_identity, session_reset (snd x))"

section \<open>Receiving\<close>

text \<open>
  What is left in the pipes after a receive: identities may have been dropped from any pipe, and at most
  one other frame was taken.
\<close>

definition is_id :: "frame \<Rightarrow> bool" where
  "is_id m \<longleftrightarrow> fflags m AND msg_identity \<noteq> 0"

definition took :: "frame list \<Rightarrow> world \<Rightarrow> world \<Rightarrow> bool" where
  "took ms w w' \<longleftrightarrow> (\<exists>p0. \<forall>p. \<exists>ids. (\<forall>m \<in> set ids. is_id m) \<and>
     avail w p = ids @ (if p = p0 then ms else []) @ avail w' p)"

lemma took_id:
  assumes "avail w p = m # avail w1 p" "\<forall>r. r \<noteq> p \<longrightarrow> avail w1 r = avail w r" "is_id m" "took ms w1 w'"
  shows "took ms w w'"
proof -
  obtain p0 where p0: "\<forall>p. \<exists>ids. (\<forall>m \<in> set ids. is_id m) \<and> avail w1 p = ids @ (if p = p0 then ms else []) @ avail w' p"
    using assms(4) by (auto simp: took_def)
  show ?thesis unfolding took_def
  proof (intro exI[of _ p0] allI)
    fix r
    obtain ids where ids: "\<forall>m \<in> set ids. is_id m" "avail w1 r = ids @ (if r = p0 then ms else []) @ avail w' r"
      using p0 by blast
    show "\<exists>ids. (\<forall>m \<in> set ids. is_id m) \<and> avail w r = ids @ (if r = p0 then ms else []) @ avail w' r"
    proof (cases "r = p")
      case True
      then show ?thesis using ids assms(1,3) by (intro exI[of _ "m # ids"]) auto
    next
      case False
      then show ?thesis using ids assms(2) by (intro exI[of _ ids]) auto
    qed
  qed
qed

lemma dealer_recv_loop_ok:
  assumes "pin.in_sync q w"
  shows "\<exists>q' w' r. dealer_recv_loop q w = Some (q', w', r) \<and> pin.in_sync q' w' \<and> fq_all q' = fq_all q \<and>
    (case r of Inl e \<Rightarrow> e = EAGAIN \<and> took [] w w'
     | Inr m \<Rightarrow> \<not> is_id m \<and> took [m] w w')"
  using assms
proof (induction "backlog_size q w" arbitrary: q w rule: less_induct)
  case less
  show ?case
    using less.prems
  proof (cases rule: fq_recv_step)
    case (1 q' w')
    moreover have "took [] w w'" using 1(4) by (auto simp: took_def intro!: exI[of _ "[]"])
    ultimately show ?thesis by (auto simp: dealer_recv_loop.simps)
  next
    case (2 q' w' m p)
    have lt: "backlog_size q' w' < backlog_size q w" using backlog_decreases[OF 2(4,5,6,3)] .
    show ?thesis
    proof (cases "is_id m")
      case True
      obtain q2 w2 r where ih: "dealer_recv_loop q' w' = Some (q2, w2, r)" "pin.in_sync q2 w2" "fq_all q2 = fq_all q'"
        "case r of Inl e \<Rightarrow> e = EAGAIN \<and> took [] w' w2 | Inr m \<Rightarrow> \<not> is_id m \<and> took [m] w' w2"
        using less.hyps[OF lt 2(2)] by blast
      have "dealer_recv_loop q w = Some (q2, w2, r)"
        using 2(1) True ih(1) by (simp add: dealer_recv_loop.simps[of q w] is_id_def)
      then show ?thesis using ih 2(3) took_id[OF 2(5,6) True] by (cases r) auto
    next
      case False
      have "took [m] w w'" unfolding took_def using 2(5,6) by (intro exI[of _ p]) (auto intro!: exI[of _ "[]"])
      then show ?thesis using 2 False by (auto simp: dealer_recv_loop.simps is_id_def)
    qed
  qed
qed

section \<open>Sending\<close>

lemma frame_more_bottom [simp]: "frame_more bottom_frame"
  by (simp add: bottom_frame_def frame_more_def frame_of_def msg_more_def)

lemma lb_write_flags:
  "lb_write wr m q s = Some (q', s') \<Longrightarrow> lb_more q' = lb_more q \<and> lb_dropping q' = lb_dropping q"
proof (induction "lb_active q" arbitrary: q s)
  case 0
  then show ?case by (simp add: lb_write.simps)
next
  case (Suc n)
  then obtain p where p: "array_get (lb_pipes q) (lb_current q) = Some p"
    by (auto simp: lb_write.simps[of wr m q s] split: option.splits if_splits)
  then obtain ok s1 where wr: "wr p m s = Some (ok, s1)"
    using Suc by (auto simp: lb_write.simps[of wr m q s] split: option.splits if_splits)
  show ?case
  proof (cases ok)
    case True
    then show ?thesis using Suc p wr by (auto simp: lb_write.simps[of wr m q s])
  next
    case False
    then obtain q1 where q1: "lb_deactivate q = Some q1" "lb_write wr m q1 s1 = Some (q', s')"
      using Suc p wr by (auto simp: lb_write.simps[of wr m q s] split: option.splits if_splits)
    have "n = lb_active q1" using Suc.hyps(2) lb_deactivate_active[OF q1(1)] by simp
    then show ?thesis using Suc.hyps(1)[OF _ q1(2)] lb_deactivate_frame[OF q1(1)] by simp
  qed
qed

lemma lb_send_flags:
  assumes "lb_send wr fl m q s = Some (q', s', r)" "\<not> lb_dropping q"
  shows "\<not> lb_dropping q' \<and> lb_more q' = (case r of Inl _ \<Rightarrow> lb_more q | Inr _ \<Rightarrow> frame_more m)"
  using assms by (auto simp: lb_send_def bind_eq_Some dest: lb_write_flags split: if_splits)

lemma dealer_xsend_ok:
  assumes "pout.lb_sync (dl_lb d) w" "\<not> lb_dropping (dl_lb d)"
  obtains l w' where "dealer_xsend m d w = Some (d\<lparr>dl_lb := l\<rparr>, w', Inl EAGAIN)" "pout.lb_sync l w'" "lb_all l = lb_all (dl_lb d)"
      "\<not> lb_more (dl_lb d)" "\<not> lb_more l" "\<not> lb_dropping l" "out w' = out w" "\<forall>p \<in> lb_actives (dl_lb d). \<not> writable w p"
  | l w' p where "dealer_xsend m d w = Some (d\<lparr>dl_lb := l\<rparr>, w', Inr ())" "pout.lb_sync l w'" "lb_all l = lb_all (dl_lb d)"
      "lb_more l = frame_more m" "\<not> lb_dropping l" "p \<in> lb_actives (dl_lb d)" "writable w p"
      "lb_more (dl_lb d) \<longrightarrow> p = pout.cur (dl_lb d)" "out w' = (out w)(p := out w p @ [m])"
      "frame_more m \<longrightarrow> pout.cur l = p"
proof -
  obtain l w' r where s: "lb_send pipe_write pipe_flush m (dl_lb d) w = Some (l, w', r)"
    "pout.send_post m (dl_lb d) w l w' r" "pout.lb_sync l w'" "lb_all l = lb_all (dl_lb d)"
    using pout.send_correct[OF assms(1), of m] by blast
  have x: "dealer_xsend m d w = Some (d\<lparr>dl_lb := l\<rparr>, w', r)" using s(1) by (simp add: dealer_xsend_def)
  note fl = lb_send_flags[OF s(1) assms(2)]
  show ?thesis
  proof (cases r)
    case (Inl e)
    then have no: "e = EAGAIN" "\<forall>p \<in> lb_actives (dl_lb d). \<not> writable w p" "out w' = out w"
      using s(2) assms(2) by (auto simp: pout.send_post_def)
    have "\<not> lb_more (dl_lb d)"
      using no(2) assms lb_current_get(2)[of "dl_lb d"] by (auto simp: pout.lb_sync_def)
    then show ?thesis using that(1)[of l w'] x s no fl Inl by simp
  next
    case (Inr u)
    then obtain p where "p \<in> lb_actives (dl_lb d)" "writable w p" "lb_more (dl_lb d) \<longrightarrow> p = pout.cur (dl_lb d)"
      "out w' = (out w)(p := out w p @ [m])" "frame_more m \<longrightarrow> pout.cur l = p"
      using s(2) assms(2) by (auto simp: pout.send_post_def split: if_splits)
    then show ?thesis using that(2)[of l w' p] x s fl Inr by simp
  qed
qed

section \<open>Properties\<close>

text \<open>
  C20: sending a request. While a reply is awaited nothing can be sent (\<open>EFSM\<close>). Otherwise a send either
  fails with \<open>EAGAIN\<close>, because no pipe can be written to, and changes nothing that matters, or the part is
  appended to one pipe, after the empty bottom part if it is the first one; the parts of a request go to one
  pipe, and with the last part the socket turns to waiting for the reply.
\<close>

theorem req_send:
  assumes "pout.lb_sync (dl_lb r) w" "\<not> lb_dropping (dl_lb r)" "message_begins r \<longleftrightarrow> \<not> lb_more (dl_lb r)"
  shows "\<exists>r' w' res. req_xsend m r w = Some (r', w', res) \<and>
    (if receiving_reply r then res = Inl EFSM \<and> r' = r \<and> w' = w
     else pout.lb_sync (dl_lb r') w' \<and> \<not> lb_dropping (dl_lb r') \<and> (message_begins r' \<longleftrightarrow> \<not> lb_more (dl_lb r')) \<and>
       (case res of
          Inl e \<Rightarrow> e = EAGAIN \<and> message_begins r \<and> message_begins r' \<and> \<not> receiving_reply r' \<and> out w' = out w \<and>
            (\<forall>p \<in> lb_actives (dl_lb r). \<not> writable w p)
        | Inr _ \<Rightarrow> receiving_reply r' = (\<not> frame_more m) \<and> message_begins r' = (\<not> frame_more m) \<and>
            (\<exists>p \<in> lb_actives (dl_lb r). writable w p \<and> (\<not> message_begins r \<longrightarrow> p = pout.cur (dl_lb r)) \<and>
              out w' = (out w)(p := out w p @ (if message_begins r then [bottom_frame] else []) @ [m]))))"
proof (cases "receiving_reply r")
  case True
  then show ?thesis by (simp add: req_xsend_def)
next
  case False
  show ?thesis
  proof (cases "message_begins r")
    case body: False
    then have more: "lb_more (dl_lb r)" using assms(3) by simp
    show ?thesis using assms(1,2)
    proof (cases rule: dealer_xsend_ok[where m = m])
      case (1 l w')
      then show ?thesis using more by simp
    next
      case (2 l w' p)
      then show ?thesis using False body more by (simp add: req_xsend_def)
    qed
  next
    case begins: True
    then have nm: "\<not> lb_more (dl_lb r)" using assms(3) by simp
    show ?thesis using assms(1,2)
    proof (cases rule: dealer_xsend_ok[where m = bottom_frame])
      case (1 l w')
      then show ?thesis using False begins by (simp add: req_xsend_def)
    next
      case b: (2 l w1 p)
      let ?r = "r\<lparr>dl_lb := l, message_begins := False\<rparr>"
      have l: "lb_more l" using b(4) by simp
      have sy: "pout.lb_sync (dl_lb ?r) w1" "\<not> lb_dropping (dl_lb ?r)" using b by simp_all
      show ?thesis using sy
      proof (cases rule: dealer_xsend_ok[where m = m])
        case (1 l' w')
        then show ?thesis using l by simp
      next
        case (2 l' w' p')
        have p: "p' = p" using 2(8) l b(10) by simp
        then have "out w' = (out w)(p := out w p @ [bottom_frame] @ [m])" using 2(9) b(9) by simp
        moreover have "req_xsend m r w = Some (if frame_more m then ?r\<lparr>dl_lb := l'\<rparr>
            else ?r\<lparr>dl_lb := l', receiving_reply := True, message_begins := True\<rparr>, w', Inr ())"
          using False begins b(1) 2(1) by (simp add: req_xsend_def)
        ultimately show ?thesis using 2(2,4,5) b(6,7) False begins by (cases "frame_more m") (auto intro!: bexI[of _ p])
      qed
    qed
  qed
qed

definition demo_req :: req where
  "demo_req = \<lparr>dl_fq = demo_fq, dl_lb = demo_lb, prefetched = False, prefetched_msg = frame_of 0 [],
     receiving_reply = False, message_begins = True\<rparr>"

theorem req_send_witness:
  "\<exists>r' w' res. req_xsend (frame_of 0 [7]) demo_req demo_world = Some (r', w', res) \<and>
     pout.lb_sync (dl_lb r') w'"
proof -
  have sy: "pout.lb_sync (dl_lb demo_req) demo_world"
    using demo_lb_ok demo_valid demo_out by (simp add: pout.lb_sync_def demo_req_def demo_lb_def)
  have "\<not> lb_dropping (dl_lb demo_req)" "message_begins demo_req \<longleftrightarrow> \<not> lb_more (dl_lb demo_req)"
    "\<not> receiving_reply demo_req"
    by (simp_all add: demo_req_def demo_lb_def)
  from req_send[OF sy this(1,2), of "frame_of 0 [7]"] this(3) show ?thesis by auto
qed

text \<open>
  C21: a malformed reply. If the only frame that is available is a message of a single part (so it does not
  begin with the empty bottom part), receiving the reply aborts the process: the loop that discards the rest of
  the message expects a further part although the frame was the last one of its message, and the assertion on
  its receive fails with \<open>EAGAIN\<close>.
\<close>

theorem req_reply_abort:
  assumes "pin.in_sync (dl_fq r) w" "receiving_reply r" "message_begins r" "\<not> prefetched r"
    "p \<in> fq_actives (dl_fq r)" "avail w p = [m]" "\<forall>q. q \<noteq> p \<longrightarrow> avail w q = []" "\<not> frame_more m" "\<not> is_id m"
  shows "req_xrecv r w = None \<and>
    (\<exists>r1 w1 r2 w2. dealer_xrecv r w = Some (r1, w1, Inr m) \<and> dealer_xrecv r1 w1 = Some (r2, w2, Inl EAGAIN))"
  using assms(1)
proof (cases rule: fq_recv_step)
  case (1 q' w')
  then show ?thesis using assms(5,6) by simp
next
  case (2 q1 w1 m' p')
  have p: "p' = p" using 2(5) assms(7) by (cases "p' = p") auto
  then have m: "m' = m" "avail w1 p = []" using 2(5) assms(6) by auto
  let ?r = "r\<lparr>dl_fq := q1\<rparr>"
  have first: "dealer_xrecv r w = Some (?r, w1, Inr m)"
    using 2(1) m(1) assms(4,9) by (simp add: dealer_xrecv_def dealer_recv_loop.simps is_id_def)
  have none: "avail w1 q = []" for q using m(2) 2(6) p assms(7) by (cases "q = p") auto
  obtain r2 w2 where second: "dealer_xrecv ?r w1 = Some (r2, w2, Inl EAGAIN)" using 2(2)
  proof (cases rule: fq_recv_step)
    case (1 q2 w2)
    then show ?thesis using assms(4) by (intro that) (simp add: dealer_xrecv_def dealer_recv_loop.simps)
  next
    case (2 q2 w2 m2 p2)
    then show ?thesis using none[of p2] by simp
  qed
  then have "req_discard ?r w1 = None" by (simp add: req_discard.simps)
  then show ?thesis using assms(2,3,8) first second by (auto simp: req_xrecv_def)
qed

definition lone_world :: world where
  "lone_world = demo_world\<lparr>upipes := (upipes demo_world)(2 \<mapsto> chan_empty\<lparr>readable := [frame_of 0 [7]]\<rparr>,
     4 \<mapsto> chan_empty)\<rparr>"

lemma lone_world_ok: "world_ok lone_world"
  by (auto simp: world_ok_def lone_world_def demo_defs pipe_ok_def final_def chan_ok_def whole_def frame_of_def
      frame_more_def split: if_splits)

lemma lone_avail: "avail lone_world p = (if p = 0 then [frame_of 0 [7]] else [])"
  by (simp add: lone_world_def avail_def demo_defs can_read_def frame_of_def)

theorem req_reply_abort_witness: "req_xrecv (demo_req\<lparr>receiving_reply := True\<rparr>) lone_world = None"
proof (rule conjunct1[OF req_reply_abort[where p = 0 and m = "frame_of 0 [7]"]])
  have "valid lone_world 0" using lone_world_ok by (simp add: valid_def lone_world_def demo_world_def)
  then show "pin.in_sync (dl_fq (demo_req\<lparr>receiving_reply := True\<rparr>)) lone_world"
    using demo_fq_ok demo_whole by (simp add: pin.in_sync_def demo_req_def lone_avail)
qed (use demo_fq_ok in \<open>simp_all add: demo_req_def lone_avail frame_more_def is_id_def frame_of_def\<close>)

end
