(* ===== verification/Watermark.thy ===== *)
theory Watermark
  imports Pipe
begin

text \<open>
  The flow control of message pipes: the high watermark bounds the number of messages that were written
  and are not yet known to be read, and the low watermark makes the reader announce its progress early
  enough for the writer not to stay blocked.
\<close>

section \<open>The window\<close>

text \<open>The number of messages the writer counts as unread; 64-bit counters that wrap around.\<close>

definition in_flight :: "pipe_t \<Rightarrow> nat" where
  "in_flight x = unat (msgs_written x - peers_msgs_read x)"

definition within_hwm :: "pipe_t \<Rightarrow> bool" where
  "within_hwm x \<longleftrightarrow> hwm x > 0 \<longrightarrow> int (in_flight x) \<le> hwm x"

lemma hwm_word: "0 < h \<Longrightarrow> h < 2 ^ 31 \<Longrightarrow> unat (word_of_int h :: uint64) = nat h"
  by (simp add: unat_eq_nat_uint uint_word_of_int_eq take_bit_int_eq_self)

lemma full_iff:
  assumes "0 < hwm x" "hwm x < 2 ^ 31"
  shows "full x \<longleftrightarrow> int (in_flight x) = hwm x"
proof -
  have "full x \<longleftrightarrow> unat (msgs_written x - peers_msgs_read x) = unat (word_of_int (hwm x) :: uint64)"
    using assms by (simp add: full_def word_unat_eq_iff)
  then show ?thesis using hwm_word[OF assms] assms(1) unfolding in_flight_def by linarith
qed

lemma in_flight_write:
  assumes "int (in_flight x) < 2 ^ 31"
  shows "in_flight (x\<lparr>msgs_written := msgs_written x + 1\<rparr>) = in_flight x + 1"
proof -
  let ?d = "msgs_written x - peers_msgs_read x"
  have "unat (msgs_written x + 1 - peers_msgs_read x) = unat (?d + 1)" by (simp add: algebra_simps)
  moreover have "unat ?d + unat (1 :: uint64) < 2 ^ LENGTH(64)" using assms by (simp add: in_flight_def del: of_nat_unat)
  then have "unat (?d + 1) = unat ?d + 1" using unat_add_lem[of ?d "1 :: uint64"] by simp
  ultimately show ?thesis unfolding in_flight_def by simp
qed

lemma check_write_pipe:
  assumes "pipe_check_write p s = Some (ok, s')" "pipes s p = Some x"
  shows "\<exists>x'. pipes s' p = Some x' \<and> msgs_written x' = msgs_written x \<and> peers_msgs_read x' = peers_msgs_read x \<and>
    hwm x' = hwm x \<and> (ok \<longrightarrow> \<not> full x)"
  using assms by (auto simp: pipe_check_write_def put_pipe_def split: if_splits)

section \<open>Properties\<close>

text \<open>
  C19: a write never lets the number of unread messages exceed the high watermark, not even when the
  64-bit counters wrap around.
\<close>

theorem hwm_bound:
  assumes "pipes s p = Some x" "within_hwm x" "hwm x < 2 ^ 31" "pipe_write p m s = Some (ok, s')"
  shows "\<exists>x'. pipes s' p = Some x' \<and> hwm x' = hwm x \<and> within_hwm x'"
proof -
  obtain ok1 s1 where c: "pipe_check_write p s = Some (ok1, s1)"
    using assms(4) by (auto simp: pipe_write_def bind_eq_Some)
  obtain x1 where x1: "pipes s1 p = Some x1" "msgs_written x1 = msgs_written x"
    "peers_msgs_read x1 = peers_msgs_read x" "hwm x1 = hwm x" "ok1 \<longrightarrow> \<not> full x"
    using check_write_pipe[OF c assms(1)] by blast
  then have fl: "in_flight x1 = in_flight x" by (simp add: in_flight_def)
  show ?thesis
  proof (cases "ok1 \<and> \<not> frame_more m")
    case False
    then have "pipes s' p = Some x1" using assms(4) c x1
      by (auto simp: pipe_write_def bind_eq_Some put_upipe_def Let_def split: if_splits)
    then show ?thesis using assms(2) fl x1(4) by (simp add: within_hwm_def)
  next
    case True
    then have s': "pipes s' p = Some (x1\<lparr>msgs_written := msgs_written x1 + 1\<rparr>)" using assms(4) c x1
      by (auto simp: pipe_write_def bind_eq_Some put_upipe_def put_pipe_def Let_def)
    have "within_hwm (x1\<lparr>msgs_written := msgs_written x1 + 1\<rparr>)"
    proof (cases "0 < hwm x")
      case h: True
      then have "int (in_flight x) \<noteq> hwm x" using True x1(5) full_iff[OF h assms(3)] by blast
      then have "int (in_flight x) < hwm x" using assms(2) h by (simp add: within_hwm_def)
      then show ?thesis using in_flight_write[of x1] fl x1(4) assms(3) by (simp add: within_hwm_def)
    qed (simp add: within_hwm_def x1(4))
    then show ?thesis using s' x1(4) by simp
  qed
qed

lemma sdiv_half: "0 < h \<Longrightarrow> (h + 1 :: int) sdiv 2 = (h + 1) div 2"
  by (simp add: signed_divide_int_def)

theorem hwm_bound_witness:
  "\<exists>s x'. pipe_write 0 \<lparr>fflags = 0, fdata = [], fdelim = False\<rparr>
      \<lparr>pipes = [0 \<mapsto> (pipe_init 0 1 1 1 True)], upipes = [1 \<mapsto> chan_empty], cmds = (\<lambda>_. []), events = []\<rparr> = Some (True, s) \<and>
     pipes s 0 = Some x' \<and> within_hwm x'"
proof -
  let ?m = "\<lparr>fflags = 0, fdata = [], fdelim = False\<rparr>"
  let ?s = "\<lparr>pipes = [0 \<mapsto> (pipe_init 0 1 1 1 True)], upipes = [1 \<mapsto> chan_empty], cmds = (\<lambda>_. []), events = []\<rparr>"
  obtain s where s: "pipe_write 0 ?m ?s = Some (True, s)"
    by (simp add: pipe_write_def pipe_check_write_def pipe_init_def full_def Let_def)
  have "pipes ?s 0 = Some (pipe_init 0 1 1 1 True)" "within_hwm (pipe_init 0 1 1 1 True)" "hwm (pipe_init 0 1 1 1 True) < 2 ^ 31"
    by (simp_all add: pipe_init_def within_hwm_def in_flight_def)
  from hwm_bound[OF this s] s show ?thesis by blast
qed

text \<open>
  no deadlock by flow control. For a positive high watermark the low watermark the reader is created
  with is positive and not larger; so a writer whose messages were all read, and that was told the count
  at the last multiple of the low watermark, is not blocked.
\<close>

theorem lwm_credit:
  assumes "0 < h" "h < 2 ^ 31" "lwm x = compute_lwm h" "hwm y = h" "msgs_written y = msgs_read x"
    "peers_msgs_read y = msgs_read x - msgs_read x mod word_of_int (lwm x)"
  shows "0 < lwm x \<and> lwm x \<le> h \<and> \<not> full y"
proof -
  have l: "0 < lwm x" "lwm x \<le> h"
    using assms(1,3) sdiv_half[OF assms(1)] by (auto simp: compute_lwm_def max_wm_delta_def)
  have w: "unat (word_of_int (lwm x) :: uint64) = nat (lwm x)" using l assms(2) by (intro hwm_word) auto
  have "in_flight y = unat (msgs_read x mod word_of_int (lwm x))" using assms(5,6) by (simp add: in_flight_def)
  also have "\<dots> < nat (lwm x)" using l(1) by (simp add: unat_mod w)
  finally show ?thesis using l full_iff[of y] assms(1,2,4) by auto
qed

theorem lwm_credit_witness:
  "\<not> full ((pipe_init 0 1 1000 1000 True)\<lparr>msgs_written := 600, peers_msgs_read := 500\<rparr>)"
proof -
  let ?x = "(pipe_init 1 0 1000 1000 True)\<lparr>msgs_read := 600\<rparr>"
  let ?y = "(pipe_init 0 1 1000 1000 True)\<lparr>msgs_written := 600, peers_msgs_read := 500\<rparr>"
  have "compute_lwm 1000 = 500" by (simp add: compute_lwm_def max_wm_delta_def signed_divide_int_def)
  then show ?thesis using lwm_credit[of 1000 ?x ?y] by (simp add: pipe_init_def)
qed

end
