(* ===== verification/Trie.thy ===== *)
theory Trie
  imports Prelude "HOL-Library.Sublist"
begin

text \<open>
  The subscription trie \<open>trie_t\<close> of \<open>trie.hpp\<close> and \<open>trie.cpp\<close>, which a SUB socket filters messages
  with. The nodes are polymorphic in what is stored at a node: the multi-trie \<open>mtrie_t\<close>, whose node
  layout is the same, is an instance in the next theory. A node keeps its children in a table for a contiguous range of characters, or without a table
  if there is only one; both representations share a union. Reading the member of the union that is
  not in use, indexing a table out of range and failing an assertion are \<open>None\<close>. Reference counts are
  32-bit words; the number of table entries is an \<open>unsigned short\<close> in the code and a natural number
  here, and the invariant bounds it by 256.
\<close>

section \<open>Nodes\<close>

datatype 'v trie =
    Trie (payload: 'v) (tmin: byte) (tcount: nat) (live_nodes: nat) (tnext: "'v tnext")
and 'v tnext = No_next | Node "'v trie option" | Table "'v trie option list"

definition trie_init :: "'v \<Rightarrow> 'v trie" where
  "trie_init d = Trie d 0 0 0 No_next"

definition read_node :: "'v tnext \<Rightarrow> 'v trie option option" where
  "read_node nx = (case nx of Node u \<Rightarrow> Some u | _ \<Rightarrow> None)"

definition read_table :: "'v tnext \<Rightarrow> 'v trie option list option" where
  "read_table nx = (case nx of Table tab \<Rightarrow> Some tab | _ \<Rightarrow> None)"

definition read_slot :: "'v tnext \<Rightarrow> nat \<Rightarrow> 'v trie option option" where
  "read_slot nx i = do { tab \<leftarrow> read_table nx; if i < length tab then Some (tab ! i) else None }"

definition write_slot :: "'v tnext \<Rightarrow> nat \<Rightarrow> 'v trie option \<Rightarrow> 'v tnext option" where
  "write_slot nx i u = do {
     tab \<leftarrow> read_table nx; if i < length tab then Some (Table (tab[i := u])) else None }"

text \<open>The test \<open>c < min || c >= min + count\<close>, negated.\<close>

definition in_range :: "byte \<Rightarrow> nat \<Rightarrow> byte \<Rightarrow> bool" where
  "in_range m n c \<longleftrightarrow> unat m \<le> unat c \<and> unat c < unat m + n"

definition is_redundant :: "'v \<Rightarrow> 'v trie \<Rightarrow> bool" where
  "is_redundant d t \<longleftrightarrow> payload t = d \<and> live_nodes t = 0"

section \<open>Adding a key\<close>

text \<open>The extension of the range of characters by a character outside of it.\<close>

definition trie_extend :: "byte \<Rightarrow> byte \<Rightarrow> nat \<Rightarrow> 'v tnext \<Rightarrow> (byte \<times> nat \<times> 'v tnext) option" where
  "trie_extend c m n nx =
     (if n = 0 then Some (c, 1, Node None)
      else if n = 1 then do {
        oldp \<leftarrow> read_node nx;
        let n' = (if m < c then unat c - unat m else unat m - unat c) + 1;
        let m' = min m c;
        Some (m', n', Table ((replicate n' None)[unat m - unat m' := oldp])) }
      else if m < c then do {
        tab \<leftarrow> read_table nx;
        let n' = unat c - unat m + 1;
        Some (m, n', Table (take n' tab @ replicate (n' - n) None)) }
      else do {
        tab \<leftarrow> read_table nx;
        let n' = (unat m + n) - unat c;
        Some (c, n', Table (replicate (unat m - unat c) None @ tab)) })"

fun trie_add :: "bytes \<Rightarrow> uint32 trie \<Rightarrow> (bool \<times> uint32 trie) option" where
  "trie_add [] (Trie r m n l nx) = Some (r + 1 = 1, Trie (r + 1) m n l nx)"
| "trie_add (c # cs) (Trie r m n l nx) = do {
     (m, n, nx) \<leftarrow> (if \<not> in_range m n c then trie_extend c m n nx else Some (m, n, nx));
     if n = 1 then do {
       u \<leftarrow> read_node nx;
       (u, l) \<leftarrow> (case u of
          Some u \<Rightarrow> Some (u, l)
        | None \<Rightarrow> if l + 1 = 1 then Some (trie_init 0, l + 1) else None);
       (b, u) \<leftarrow> trie_add cs u;
       Some (b, Trie r m n l (Node (Some u))) }
     else do {
       u \<leftarrow> read_slot nx (unat c - unat m);
       (u, l) \<leftarrow> (case u of
          Some u \<Rightarrow> Some (u, l)
        | None \<Rightarrow> if l + 1 > 1 then Some (trie_init 0, l + 1) else None);
       (b, u) \<leftarrow> trie_add cs u;
       nx \<leftarrow> write_slot nx (unat c - unat m) (Some u);
       Some (b, Trie r m n l nx) } }"

section \<open>Removing a key\<close>

text \<open>Removal of the node for character \<open>c\<close>, with the compaction of the table.\<close>

definition trie_prune ::
    "byte \<Rightarrow> byte \<Rightarrow> nat \<Rightarrow> nat \<Rightarrow> 'v tnext \<Rightarrow> (byte \<times> nat \<times> nat \<times> 'v tnext) option" where
  "trie_prune c m n l nx =
     (if n = 1 then (if l = 1 then Some (m, 0, 0, Node None) else None)
      else do {
        tab \<leftarrow> read_table nx;
        tab \<leftarrow> (if unat c - unat m < length tab then Some (tab[unat c - unat m := None]) else None);
        let l' = l - 1;
        if \<not> 1 < l \<or> length tab \<noteq> n then None
        else if l' = 1 then
          (if c = m then
             (case tab ! (n - 1) of
                Some u \<Rightarrow> Some (m + of_nat (n - 1), 1, l', Node (Some u))
              | None \<Rightarrow> None)
           else if unat c = unat m + n - 1 then
             (case tab ! 0 of Some u \<Rightarrow> Some (m, 1, l', Node (Some u)) | None \<Rightarrow> None)
           else None)
        else if c = m then
          (case find (\<lambda>i. tab ! i \<noteq> None) [1 ..< n] of
             None \<Rightarrow> None
           | Some i \<Rightarrow>
              let new_min = of_nat i + m in
              if m < new_min \<and> unat new_min - unat m < n
              then Some (new_min, n - (unat new_min - unat m), l', Table (drop (unat new_min - unat m) tab))
              else None)
        else if unat c = unat m + n - 1 then
          (case find (\<lambda>i. tab ! (n - 1 - i) \<noteq> None) [1 ..< n] of
             None \<Rightarrow> None
           | Some i \<Rightarrow> Some (m, n - i, l', Table (take (n - i) tab)))
        else Some (m, n, l', Table tab) })"

fun trie_rm :: "bytes \<Rightarrow> uint32 trie \<Rightarrow> (bool \<times> uint32 trie) option" where
  "trie_rm [] (Trie r m n l nx) =
     Some (if r = 0 then (False, Trie r m n l nx) else (r - 1 = 0, Trie (r - 1) m n l nx))"
| "trie_rm (c # cs) (Trie r m n l nx) =
     (if n = 0 \<or> \<not> in_range m n c then Some (False, Trie r m n l nx)
      else do {
        u \<leftarrow> (if n = 1 then read_node nx else read_slot nx (unat c - unat m));
        (case u of
           None \<Rightarrow> Some (False, Trie r m n l nx)
         | Some u \<Rightarrow> do {
             (ret, u) \<leftarrow> trie_rm cs u;
             if is_redundant 0 u then do {
               (m, n, l, nx) \<leftarrow> trie_prune c m n l nx;
               Some (ret, Trie r m n l nx) }
             else do {
               nx \<leftarrow> (if n = 1 then Some (Node (Some u)) else write_slot nx (unat c - unat m) (Some u));
               Some (ret, Trie r m n l nx) } }) })"

section \<open>Matching and enumeration\<close>

fun trie_check :: "bytes \<Rightarrow> uint32 trie \<Rightarrow> bool option" where
  "trie_check data (Trie r m n l nx) =
     (if r \<noteq> 0 then Some True
      else case data of
        [] \<Rightarrow> Some False
      | c # cs \<Rightarrow>
          if \<not> in_range m n c then Some False
          else if n = 1 then do { u \<leftarrow> read_node nx; u \<leftarrow> u; trie_check cs u }
          else do {
            u \<leftarrow> read_slot nx (unat c - unat m);
            (case u of None \<Rightarrow> Some False | Some u \<Rightarrow> trie_check cs u) })"

text \<open>
  \<open>apply\<close> calls a function for every key in the trie; the result is the list of the keys in the order of
  the calls. The buffer that holds the current key is its list of bytes.
\<close>

lemma enumerate_size:
  "(i, Some u) \<in> set (enumerate k tab) \<Longrightarrow> size u < size_list (size_option size) tab"
proof -
  assume "(i, Some u) \<in> set (enumerate k tab)"
  then have "tab ! (i - k) = Some u" "i - k < length tab" by (auto simp: in_set_enumerate_eq)
  then have "Some u \<in> set tab" by (metis nth_mem)
  then show ?thesis by (rule size_list_estimation) simp
qed

function (sequential) apply_helper :: "bytes \<Rightarrow> uint32 trie \<Rightarrow> bytes list option" where
  "apply_helper buff (Trie r m n l nx) = (
     let here = (if r \<noteq> 0 then [buff] else []) in
     if n = 0 then Some here
     else if n = 1 then
       (case nx of
          Node (Some u) \<Rightarrow> map_option ((@) here) (apply_helper (buff @ [m]) u)
        | _ \<Rightarrow> None)
     else
       (case nx of
          Table tab \<Rightarrow>
            if length tab \<noteq> n then None
            else map_option (\<lambda>kss. here @ concat kss)
              (those (map (\<lambda>(i, e). case e of
                   None \<Rightarrow> Some []
                 | Some u \<Rightarrow> apply_helper (buff @ [m + of_nat i]) u) (enumerate 0 tab)))
        | _ \<Rightarrow> None))"
  by pat_completeness auto
termination
  by (relation "measure (\<lambda>(b, t). size t)") (auto dest: enumerate_size)

declare apply_helper.simps [simp del]

definition trie_apply :: "uint32 trie \<Rightarrow> bytes list option" where
  "trie_apply t = apply_helper [] t"

section \<open>The children of a node\<close>

definition nchild :: "byte \<Rightarrow> nat \<Rightarrow> 'v tnext \<Rightarrow> byte \<Rightarrow> 'v trie option" where
  "nchild m n nx c =
     (if in_range m n c
      then (case nx of No_next \<Rightarrow> None | Node u \<Rightarrow> u | Table tab \<Rightarrow> tab ! (unat c - unat m))
      else None)"

definition child :: "'v trie \<Rightarrow> byte \<Rightarrow> 'v trie option" where
  "child t = nchild (tmin t) (tcount t) (tnext t)"

text \<open>
  A table covers a range of at least two characters and has a child at both of its ends; the number
  of live nodes is exact.
\<close>

definition shape_ok :: "byte \<Rightarrow> nat \<Rightarrow> 'v tnext \<Rightarrow> bool" where
  "shape_ok m n nx \<longleftrightarrow> unat m + n \<le> 256 \<and>
     (n = 1 \<longrightarrow> (\<exists>u. nx = Node (Some u))) \<and>
     (1 < n \<longrightarrow> (\<exists>tab. nx = Table tab \<and> length tab = n \<and> tab ! 0 \<noteq> None \<and> tab ! (n - 1) \<noteq> None))"

definition node_ok :: "byte \<Rightarrow> nat \<Rightarrow> nat \<Rightarrow> 'v tnext \<Rightarrow> bool" where
  "node_ok m n l nx \<longleftrightarrow> shape_ok m n nx \<and> l = card {c. nchild m n nx c \<noteq> None}"

lemma read_simps [simp]:
  "read_node (Node u) = Some u" "read_table (Table tab) = Some tab"
  "i < length tab \<Longrightarrow> read_slot (Table tab) i = Some (tab ! i)"
  "i < length tab \<Longrightarrow> write_slot (Table tab) i u = Some (Table (tab[i := u]))"
  by (simp_all add: read_node_def read_table_def read_slot_def write_slot_def)

lemma byte_lt: "unat (c :: byte) < 256"
  using unsigned_less[of c, where ?'a = nat] by simp

lemma byte_at: "k < 256 \<Longrightarrow> unat (of_nat k :: byte) = k"
  by (simp add: unat_of_nat)

lemma byte_add: "unat m + k < 256 \<Longrightarrow> unat (m + of_nat k :: byte) = unat m + k"
  by (subst unat_add_lem[THEN iffD1]) (simp_all add: byte_at)

text \<open>Bytes are compared and equated by their values.\<close>

lemmas byte_order = word_less_nat_alt word_le_nat_alt

lemma byte_eq: "(c :: byte) = d \<longleftrightarrow> unat c = unat d"
  by (simp add: word_unat_eq_iff)

text \<open>
  Extending the range changes no child; the range then contains the character, and what the shape
  invariant still misses is only a child for that character.
\<close>

definition room :: "byte \<Rightarrow> byte \<Rightarrow> nat \<Rightarrow> 'v tnext \<Rightarrow> bool" where
  "room c m n nx \<longleftrightarrow> unat m + n \<le> 256 \<and> in_range m n c \<and>
     (n = 1 \<longrightarrow> (\<exists>u. nx = Node u)) \<and>
     (1 < n \<longrightarrow> (\<exists>tab. nx = Table tab \<and> length tab = n \<and>
        (tab ! 0 \<noteq> None \<or> c = m) \<and> (tab ! (n - 1) \<noteq> None \<or> unat c = unat m + n - 1)))"

lemma room_old:
  assumes "shape_ok m n nx" "in_range m n c"
  shows "room c m n nx"
  using assms by (auto simp: room_def shape_ok_def)

lemma extend_room:
  assumes ok: "shape_ok m n nx" and out: "\<not> in_range m n c"
  obtains m' n' nx' where "trie_extend c m n nx = Some (m', n', nx')" "room c m' n' nx'"
    "nchild m' n' nx' = nchild m n nx" "n' = 1 \<longleftrightarrow> n = 0"
proof -
  have c: "unat c < 256" by (rule byte_lt)
  consider "n = 0" | u where "n = 1" "nx = Node (Some u)"
    | tab where "1 < n" "nx = Table tab" "length tab = n" "tab ! 0 \<noteq> None" "tab ! (n - 1) \<noteq> None"
  proof -
    consider "n = 0" | "n = 1" | "1 < n" by linarith
    then show ?thesis using ok that unfolding shape_ok_def by cases blast+
  qed
  then show ?thesis
  proof cases
    case 1
    then show ?thesis using c
      by (intro that[of c 1 "Node None"])
        (auto simp: trie_extend_def room_def in_range_def nchild_def fun_eq_iff)
  next
    case 2
    have ne: "unat c \<noteq> unat m" using out 2(1) by (auto simp: in_range_def)
    define m' where "m' = min m c"
    define n' where "n' = (if m < c then unat c - unat m else unat m - unat c) + 1"
    let ?tab = "(replicate n' None)[unat m - unat m' := Some u]"
    have um: "unat m' = min (unat m) (unat c)" by (simp add: m'_def min_def byte_order)
    have n: "n' = (if unat m < unat c then unat c - unat m else unat m - unat c) + 1"
      by (simp add: n'_def byte_order)
    have lt: "unat m - unat m' < n'" using um n ne by auto
    have "nchild m' n' (Table ?tab) d = nchild m n nx d" for d
    proof (cases "unat m' \<le> unat d \<and> unat d < unat m' + n'")
      case True
      moreover have "unat m' \<le> unat m" using um by simp
      ultimately have "nchild m' n' (Table ?tab) d = (if unat d = unat m then Some u else None)"
        using lt by (auto simp: nchild_def in_range_def nth_list_update)
      then show ?thesis using 2 by (auto simp: nchild_def in_range_def)
    next
      case False
      then have "unat d \<noteq> unat m" using um n by (auto split: if_splits)
      then show ?thesis using False 2 by (auto simp: nchild_def in_range_def)
    qed
    then have "nchild m' n' (Table ?tab) = nchild m n nx" by (rule ext)
    moreover have "room c m' n' (Table ?tab)"
    proof -
      have "in_range m' n' c" "unat m' + n' \<le> 256" "n' \<noteq> 1"
        using um n ne c byte_lt[of m] by (auto simp: in_range_def)
      moreover have "?tab ! 0 \<noteq> None \<or> c = m'" "?tab ! (n' - 1) \<noteq> None \<or> unat c = unat m' + n' - 1"
      proof -
        have nth: "?tab ! k = (if k = unat m - unat m' then Some u else None)" if "k < n'" for k
          using that lt by (simp add: nth_list_update)
        have "0 < n'" "n' - 1 < n'" using n by auto
        then show "?tab ! 0 \<noteq> None \<or> c = m'" "?tab ! (n' - 1) \<noteq> None \<or> unat c = unat m' + n' - 1"
          using nth[of 0] nth[of "n' - 1"] um n ne by (auto simp: byte_eq split: if_splits)
      qed
      ultimately show ?thesis by (simp add: room_def)
    qed
    moreover have "trie_extend c m n nx = Some (m', n', Table ?tab)"
      using 2 by (simp add: trie_extend_def Let_def m'_def n'_def)
    moreover have "n' \<noteq> 1" using n ne by auto
    ultimately show ?thesis using 2(1) by (intro that[of m' n' "Table ?tab"]) auto
  next
    case 3
    show ?thesis
    proof (cases "m < c")
      case True
      let ?n = "unat c - unat m + 1" and ?k = "unat c - unat m + 1 - n"
      let ?tab = "take ?n tab @ replicate ?k None"
      have lt: "n < ?n" using out True by (auto simp: in_range_def byte_order)
      have "nchild m ?n (Table ?tab) d = nchild m n nx d" for d
        using 3 lt by (auto simp: nchild_def in_range_def nth_append)
      then have "nchild m ?n (Table ?tab) = nchild m n nx" by (rule ext)
      moreover have "room c m ?n (Table ?tab)"
        using 3 lt c True by (auto simp: room_def in_range_def nth_append byte_order)
      ultimately show ?thesis using 3 lt True
        by (intro that[of m ?n "Table ?tab"]) (auto simp: trie_extend_def Let_def)
    next
      case False
      then have less: "unat c < unat m" using out 3(1) by (auto simp: in_range_def byte_order)
      let ?n = "(unat m + n) - unat c" and ?tab = "replicate (unat m - unat c) None @ tab"
      have "nchild c ?n (Table ?tab) d = nchild m n nx d" for d
        using 3 less by (auto simp: nchild_def in_range_def nth_append)
      then have "nchild c ?n (Table ?tab) = nchild m n nx" by (rule ext)
      moreover have "room c c ?n (Table ?tab)"
        using 3 less ok by (auto simp: room_def in_range_def nth_append shape_ok_def)
      ultimately show ?thesis using 3 less False
        by (intro that[of c ?n "Table ?tab"]) (auto simp: trie_extend_def Let_def)
    qed
  qed
qed

lemma room_read:
  assumes "room c m n nx"
  shows "(if n = 1 then read_node nx else read_slot nx (unat c - unat m)) = Some (nchild m n nx c)"
  using assms by (cases "n = 1") (auto simp: room_def nchild_def in_range_def)

lemma room_write:
  assumes r: "room c m n nx"
  obtains nx' where "(if n = 1 then Some (Node (Some u)) else write_slot nx (unat c - unat m) (Some u)) = Some nx'"
    "shape_ok m n nx'" "nchild m n nx' = (nchild m n nx)(c := Some u)"
proof (cases "n = 1")
  case True
  have m: "c = m" using r True by (auto simp: room_def in_range_def byte_eq)
  have "nchild m n (Node (Some u)) d = ((nchild m n nx)(c := Some u)) d" for d
    using r True m by (auto simp: nchild_def in_range_def byte_eq)
  then show ?thesis using r True
    by (intro that[of "Node (Some u)"]) (auto simp: shape_ok_def room_def)
next
  case False
  then have n: "1 < n" using r by (auto simp: room_def in_range_def)
  obtain tab where t: "nx = Table tab" "length tab = n" "tab ! 0 \<noteq> None \<or> c = m"
    "tab ! (n - 1) \<noteq> None \<or> unat c = unat m + n - 1" "in_range m n c" "unat m + n \<le> 256"
    using r n by (auto simp: room_def)
  let ?nx = "Table (tab[unat c - unat m := Some u])"
  have i: "unat c - unat m < length tab" using t by (auto simp: in_range_def)
  have "nchild m n ?nx d = ((nchild m n nx)(c := Some u)) d" for d
  proof (cases "d = c")
    case True
    then show ?thesis using t i by (simp add: nchild_def)
  next
    case False
    then have "unat d \<noteq> unat c" by (simp add: byte_eq)
    then show ?thesis using False t i by (auto simp: nchild_def in_range_def nth_list_update)
  qed
  then have "nchild m n ?nx = (nchild m n nx)(c := Some u)" by (rule ext)
  moreover have "tab[unat c - unat m := Some u] ! 0 \<noteq> None" "tab[unat c - unat m := Some u] ! (n - 1) \<noteq> None"
    using t i n by (auto simp: nth_list_update in_range_def)
  ultimately show ?thesis using t i n False
    by (intro that[of ?nx]) (auto simp: shape_ok_def)
qed

lemma card_children_upd:
  "card {d. ((f :: byte \<Rightarrow> 'v trie option)(c := Some u)) d \<noteq> None} =
   card {d. f d \<noteq> None} + (if f c = None then 1 else 0)"
proof -
  have "{d. (f(c := Some u)) d \<noteq> None} = insert c {d. f d \<noteq> None}" by auto
  then show ?thesis by (simp add: card_insert_if)
qed

lemma live_zero:
  assumes "node_ok m n l nx"
  shows "l = 0 \<longleftrightarrow> n = 0"
proof
  assume l: "l = 0"
  then have none: "nchild m n nx m = None" using assms by (simp add: node_ok_def)
  show "n = 0"
  proof (rule ccontr)
    assume "n \<noteq> 0"
    then have "nchild m n nx m \<noteq> None"
      using assms by (cases "n = 1") (auto simp: node_ok_def shape_ok_def nchild_def in_range_def)
    with none show False by simp
  qed
next
  assume "n = 0"
  then have "{c. nchild m n nx c \<noteq> None} = {}" by (auto simp: nchild_def in_range_def)
  then show "l = 0" using assms by (simp add: node_ok_def)
qed

section \<open>Invariant and meaning\<close>

inductive trie_ok :: "'v \<Rightarrow> 'v trie \<Rightarrow> bool" for d where
  "node_ok (tmin t) (tcount t) (live_nodes t) (tnext t) \<Longrightarrow>
   (\<forall>c u. child t c = Some u \<longrightarrow> trie_ok d u \<and> \<not> is_redundant d u) \<Longrightarrow> trie_ok d t"

text \<open>What is stored for a key; \<open>d\<close> stands for nothing.\<close>

fun lookup :: "'v \<Rightarrow> 'v trie \<Rightarrow> bytes \<Rightarrow> 'v" where
  "lookup d t [] = payload t"
| "lookup d t (c # cs) = (case child t c of None \<Rightarrow> d | Some u \<Rightarrow> lookup d u cs)"

text \<open>How many times a key is in the subscription trie.\<close>

abbreviation refs :: "uint32 trie \<Rightarrow> bytes \<Rightarrow> uint32" where
  "refs \<equiv> lookup 0"

lemma child_Trie [simp]: "child (Trie r m n l nx) = nchild m n nx"
  by (simp add: child_def)

lemma trie_ok_Trie:
  "trie_ok d (Trie r m n l nx) \<longleftrightarrow> node_ok m n l nx \<and>
     (\<forall>c u. nchild m n nx c = Some u \<longrightarrow> trie_ok d u \<and> \<not> is_redundant d u)"
  by (subst trie_ok.simps) auto

lemma trie_ok_init [simp]: "trie_ok d (trie_init d)"
  by (simp add: trie_init_def trie_ok_Trie node_ok_def shape_ok_def nchild_def in_range_def)

lemma child_init [simp]: "child (trie_init d) c = None"
  by (simp add: trie_init_def nchild_def in_range_def)

lemma lookup_init [simp]: "lookup d (trie_init d) k = d"
  by (cases k) (simp_all add: trie_init_def nchild_def in_range_def)

lemma lookup_upd:
  assumes "nchild m' n' nx' = (nchild m n nx)(c := Some u')" "lookup d u' = (lookup d v)(cs := x)"
    "v = (case nchild m n nx c of Some u \<Rightarrow> u | None \<Rightarrow> trie_init d)"
  shows "lookup d (Trie r m' n' l' nx') = (lookup d (Trie r m n l nx))(c # cs := x)"
proof
  fix k
  show "lookup d (Trie r m' n' l' nx') k = ((lookup d (Trie r m n l nx))(c # cs := x)) k"
    using assms by (cases k) (auto split: option.splits)
qed

lemma lookup_payload:
  "lookup d (Trie x m n l nx) = (lookup d (Trie r m n l nx))([] := x)"
proof
  fix k show "lookup d (Trie x m n l nx) k = ((lookup d (Trie r m n l nx))([] := x)) k"
    by (cases k) auto
qed

text \<open>One step of an insertion: extension of the range, reading and writing of the child.\<close>

lemma add_step:
  assumes ok: "node_ok m n l nx"
  obtains m1 n1 nx1 where
    "(if \<not> in_range m n c then trie_extend c m n nx else Some (m, n, nx)) = Some (m1, n1, nx1)"
    "(if n1 = 1 then read_node nx1 else read_slot nx1 (unat c - unat m1)) = Some (nchild m n nx c)"
    "nchild m n nx c = None \<longrightarrow> (n1 = 1 \<longleftrightarrow> l = 0)"
    "\<forall>u. \<exists>nx2. (if n1 = 1 then Some (Node (Some u)) else write_slot nx1 (unat c - unat m1) (Some u)) = Some nx2 \<and>
       node_ok m1 n1 (l + (if nchild m n nx c = None then 1 else 0)) nx2 \<and>
       nchild m1 n1 nx2 = (nchild m n nx)(c := Some u)"
proof -
  have sh: "shape_ok m n nx" using ok by (simp add: node_ok_def)
  obtain m1 n1 nx1 where ext:
    "(if \<not> in_range m n c then trie_extend c m n nx else Some (m, n, nx)) = Some (m1, n1, nx1)"
    "room c m1 n1 nx1" "nchild m1 n1 nx1 = nchild m n nx"
    "nchild m n nx c = None \<longrightarrow> (n1 = 1 \<longleftrightarrow> n = 0)"
  proof (cases "in_range m n c")
    case True
    have "n \<noteq> 0" using True by (auto simp: in_range_def)
    moreover have "nchild m n nx c = None \<longrightarrow> n \<noteq> 1"
      using sh True by (auto simp: shape_ok_def nchild_def)
    ultimately show ?thesis using that[of m n nx] True room_old[OF sh True] by auto
  next
    case False
    then show ?thesis using that extend_room[OF sh False] by metis
  qed
  have "\<exists>nx2. (if n1 = 1 then Some (Node (Some u)) else write_slot nx1 (unat c - unat m1) (Some u)) = Some nx2 \<and>
       node_ok m1 n1 (l + (if nchild m n nx c = None then 1 else 0)) nx2 \<and>
       nchild m1 n1 nx2 = (nchild m n nx)(c := Some u)" for u
  proof -
    obtain nx2 where w: "(if n1 = 1 then Some (Node (Some u)) else write_slot nx1 (unat c - unat m1) (Some u)) = Some nx2"
      "shape_ok m1 n1 nx2" "nchild m1 n1 nx2 = (nchild m1 n1 nx1)(c := Some u)"
      using ext(2) by (rule room_write)
    have nc: "nchild m1 n1 nx2 = (nchild m n nx)(c := Some u)" using w(3) ext(3) by simp
    have "node_ok m1 n1 (l + (if nchild m n nx c = None then 1 else 0)) nx2"
      using w(2) ok unfolding node_ok_def nc card_children_upd by simp
    then show ?thesis using w(1) nc by blast
  qed
  then show ?thesis using that[OF ext(1)] room_read[OF ext(2)] ext(3,4) live_zero[OF ok] by simp
qed

lemma add_ok:
  assumes "\<forall>c u. nchild m n nx c = Some u \<longrightarrow> trie_ok d u \<and> \<not> is_redundant d u"
    "nchild m' n' nx' = (nchild m n nx)(c := Some u')" "node_ok m' n' l' nx'" "trie_ok d u'"
    "\<not> is_redundant d u'"
  shows "trie_ok d (Trie r m' n' l' nx')" "\<not> is_redundant d (Trie r m' n' l' nx')"
proof -
  show "trie_ok d (Trie r m' n' l' nx')"
    unfolding trie_ok_Trie assms(2) using assms by (auto split: if_splits)
  have "nchild m' n' nx' c \<noteq> None" using assms(2) by simp
  then have "n' \<noteq> 0" by (auto simp: nchild_def in_range_def split: if_splits)
  then show "\<not> is_redundant d (Trie r m' n' l' nx')"
    using live_zero[OF assms(3)] by (simp add: is_redundant_def)
qed

lemma trie_add_ok:
  assumes "trie_ok 0 t" "refs t k + 1 \<noteq> 0"
  shows "\<exists>t'. trie_add k t = Some (refs t k = 0, t') \<and> trie_ok 0 t' \<and>
    refs t' = (refs t)(k := refs t k + 1) \<and> \<not> is_redundant 0 t'"
  using assms
proof (induction k arbitrary: t)
  case Nil
  obtain r m n l nx where t: "t = Trie r m n l nx" by (cases t)
  then show ?case using Nil lookup_payload[of 0 "r + 1" m n l nx r] by (auto simp: trie_ok_Trie is_redundant_def)
next
  case (Cons c cs)
  obtain r m n l nx where t: "t = Trie r m n l nx" by (cases t)
  have ok: "node_ok m n l nx" and ch: "\<forall>c u. nchild m n nx c = Some u \<longrightarrow> trie_ok 0 u \<and> \<not> is_redundant 0 u"
    using Cons.prems(1) t by (auto simp: trie_ok_Trie)
  obtain m1 n1 nx1 where st:
    "(if \<not> in_range m n c then trie_extend c m n nx else Some (m, n, nx)) = Some (m1, n1, nx1)"
    "(if n1 = 1 then read_node nx1 else read_slot nx1 (unat c - unat m1)) = Some (nchild m n nx c)"
    "nchild m n nx c = None \<longrightarrow> (n1 = 1 \<longleftrightarrow> l = 0)"
    "\<forall>u. \<exists>nx2. (if n1 = 1 then Some (Node (Some u)) else write_slot nx1 (unat c - unat m1) (Some u)) = Some nx2 \<and>
       node_ok m1 n1 (l + (if nchild m n nx c = None then 1 else 0)) nx2 \<and>
       nchild m1 n1 nx2 = (nchild m n nx)(c := Some u)" using ok by (rule add_step)
  define v where "v = (case nchild m n nx c of Some u \<Rightarrow> u | None \<Rightarrow> trie_init 0)"
  define l1 where "l1 = l + (if nchild m n nx c = None then 1 else 0)"
  have v: "trie_ok 0 v" "refs v cs + 1 \<noteq> 0" "refs t (c # cs) = refs v cs"
    using ch Cons.prems(2) t by (auto simp: v_def split: option.splits)
  obtain v' where ih: "trie_add cs v = Some (refs v cs = 0, v')" "trie_ok 0 v'"
    "refs v' = (refs v)(cs := refs v cs + 1)" "\<not> is_redundant 0 v'"
    using Cons.IH[OF v(1,2)] by blast
  obtain nx2 where w: "(if n1 = 1 then Some (Node (Some v')) else write_slot nx1 (unat c - unat m1) (Some v')) = Some nx2"
    "node_ok m1 n1 l1 nx2" "nchild m1 n1 nx2 = (nchild m n nx)(c := Some v')"
    using st(4) unfolding l1_def by blast
  have "trie_add (c # cs) t = Some (refs v cs = 0, Trie r m1 n1 l1 nx2)"
    using st(1,2,3) w(1) ih(1) unfolding t v_def l1_def
    by (cases "n1 = 1"; cases "nchild m n nx c") auto
  moreover note add_ok[OF ch w(3,2) ih(2,4), of r]
  moreover have "refs (Trie r m1 n1 l1 nx2) = (refs t)(c # cs := refs v cs + 1)"
    unfolding t using w(3) ih(3) v_def by (rule lookup_upd)
  ultimately show ?case using v(3) by auto
qed

section \<open>Compaction\<close>

text \<open>The occupied positions of a table.\<close>

definition occupied :: "'v trie option list \<Rightarrow> nat set" where
  "occupied tab = {i. i < length tab \<and> tab ! i \<noteq> None}"

lemma finite_occupied [simp]: "finite (occupied tab)"
  by (simp add: occupied_def)

lemma card_table:
  assumes "unat m + length tab \<le> 256"
  shows "card {d. nchild m (length tab) (Table tab) d \<noteq> None} = card (occupied tab)"
proof -
  let ?D = "{d. nchild m (length tab) (Table tab) d \<noteq> None}" and ?f = "\<lambda>d. unat d - unat m"
  have in_r: "unat m \<le> unat d" if "d \<in> ?D" for d
    using that by (auto simp: nchild_def in_range_def split: if_splits)
  have "inj_on ?f ?D"
  proof (rule inj_onI)
    fix d e assume "d \<in> ?D" "e \<in> ?D" "?f d = ?f e"
    then have "unat d = unat e" using in_r[of d] in_r[of e] by linarith
    then show "d = e" by (simp add: byte_eq)
  qed
  moreover have "?f ` ?D = occupied tab"
  proof
    show "?f ` ?D \<subseteq> occupied tab"
      by (auto simp: occupied_def nchild_def in_range_def split: if_splits)
    show "occupied tab \<subseteq> ?f ` ?D"
    proof
      fix i assume i: "i \<in> occupied tab"
      then have u: "unat (m + of_nat i) = unat m + i" using assms by (intro byte_add) (auto simp: occupied_def)
      with i have "m + of_nat i \<in> ?D" by (auto simp: occupied_def nchild_def in_range_def)
      then show "i \<in> ?f ` ?D" using u by force
    qed
  qed
  ultimately show ?thesis by (metis card_image)
qed

lemma find_upt_Some:
  assumes "find P [1 ..< n] = Some i"
  shows "1 \<le> i" "i < n" "P i" "\<forall>j. 1 \<le> j \<and> j < i \<longrightarrow> \<not> P j"
proof -
  obtain k where k: "k < n - 1" "P (Suc k)" "i = Suc k" "\<forall>j<k. \<not> P (Suc j)"
    using assms by (auto simp: find_Some_iff)
  then show "1 \<le> i" "i < n" "P i" by auto
  show "\<forall>j. 1 \<le> j \<and> j < i \<longrightarrow> \<not> P j"
  proof (intro allI impI)
    fix j assume "1 \<le> j \<and> j < i"
    then have "j - 1 < k" "Suc (j - 1) = j" using k(3) by auto
    then show "\<not> P j" using k(4) by metis
  qed
qed

lemma find_upt_None: "find P [1 ..< n] = None \<longleftrightarrow> (\<forall>i. 1 \<le> i \<and> i < n \<longrightarrow> \<not> P i)"
  by (auto simp: find_None_iff)

text \<open>
  A table whose first or last entry was just cleared: dropping the free entries at that end keeps the
  children and makes both ends occupied again.
\<close>

lemma drop_table:
  assumes m: "unat m + length tab \<le> 256" and i: "i < length tab" and f: "\<forall>j < i. tab ! j = None"
  shows "nchild (of_nat i + m) (length tab - i) (Table (drop i tab)) = nchild m (length tab) (Table tab)"
proof
  fix d
  have u: "unat (of_nat i + m) = unat m + i" using byte_add[of m i] m i by (simp add: add.commute)
  show "nchild (of_nat i + m) (length tab - i) (Table (drop i tab)) d = nchild m (length tab) (Table tab) d"
  proof (cases "unat m \<le> unat d \<and> unat d < unat m + i")
    case True
    then have "tab ! (unat d - unat m) = None" using f by auto
    then show ?thesis using True u by (auto simp: nchild_def in_range_def)
  next
    case False
    then show ?thesis using u i by (auto simp: nchild_def in_range_def)
  qed
qed

lemma take_table:
  assumes i: "i \<le> length tab" and f: "\<forall>j. i \<le> j \<and> j < length tab \<longrightarrow> tab ! j = None"
  shows "nchild m i (Table (take i tab)) = nchild m (length tab) (Table tab)"
proof
  fix d
  show "nchild m i (Table (take i tab)) d = nchild m (length tab) (Table tab) d"
  proof (cases "unat m + i \<le> unat d \<and> unat d < unat m + length tab")
    case True
    then have "i \<le> unat d - unat m \<and> unat d - unat m < length tab" by linarith
    then have "tab ! (unat d - unat m) = None" using f by blast
    then show ?thesis using True by (auto simp: nchild_def in_range_def)
  next
    case False
    then show ?thesis using i by (auto simp: nchild_def in_range_def)
  qed
qed

lemma card_ge2: "finite S \<Longrightarrow> a \<in> S \<Longrightarrow> b \<in> S \<Longrightarrow> a \<noteq> b \<Longrightarrow> 2 \<le> card S"
  using card_mono[of S "{a, b}"] by simp

lemma single_table:
  assumes m: "unat m + length tab \<le> 256" and i: "occupied tab = {i}" and u: "tab ! i = Some u"
  shows "nchild (m + of_nat i) 1 (Node (Some u)) = nchild m (length tab) (Table tab)"
proof
  fix d
  have "i \<in> occupied tab" using i by simp
  then have il: "i < length tab" by (simp add: occupied_def)
  have no: "tab ! j = None" if "j < length tab" "j \<noteq> i" for j
  proof -
    have "j \<notin> occupied tab" using i that(2) by simp
    then show ?thesis using that(1) by (simp add: occupied_def)
  qed
  have um: "unat (m + of_nat i) = unat m + i" using byte_add[of m i] m il by simp
  show "nchild (m + of_nat i) 1 (Node (Some u)) d = nchild m (length tab) (Table tab) d"
  proof (cases "unat d = unat m + i")
    case True
    then show ?thesis using um il u by (simp add: nchild_def in_range_def)
  next
    case False
    have "tab ! (unat d - unat m) = None" if "unat m \<le> unat d" "unat d < unat m + length tab"
    proof -
      have "unat d - unat m < length tab" "unat d - unat m \<noteq> i" using that False by auto
      then show ?thesis using no by blast
    qed
    then show ?thesis using False um by (auto simp: nchild_def in_range_def)
  qed
qed

lemma clear_child:
  assumes "in_range m (length tab) c"
  shows "nchild m (length tab) (Table (tab[unat c - unat m := None])) =
    (nchild m (length tab) (Table tab))(c := None)"
proof
  fix d
  have i: "unat c - unat m < length tab" "unat m \<le> unat c" using assms by (auto simp: in_range_def)
  show "nchild m (length tab) (Table (tab[unat c - unat m := None])) d =
    ((nchild m (length tab) (Table tab))(c := None)) d"
  proof (cases "d = c")
    case True
    then show ?thesis using i by (simp add: nchild_def)
  next
    case False
    then have "unat d \<noteq> unat c" by (simp add: byte_eq)
    then show ?thesis using False i by (auto simp: nchild_def in_range_def nth_list_update)
  qed
qed

text \<open>The table part of \<open>trie_prune\<close>, after the entry was cleared.\<close>

lemma trie_prune_table:
  assumes nx: "nx = Table tab" "length tab = n" "1 < n" and c: "in_range m n c"
  defines "t' \<equiv> tab[unat c - unat m := None]"
  shows "trie_prune c m n l nx =
    (let l' = l - 1 in
     if \<not> 1 < l then None
     else if l' = 1 then
       (if c = m then
          (case t' ! (n - 1) of Some u \<Rightarrow> Some (m + of_nat (n - 1), 1, l', Node (Some u)) | None \<Rightarrow> None)
        else if unat c = unat m + n - 1 then
          (case t' ! 0 of Some u \<Rightarrow> Some (m, 1, l', Node (Some u)) | None \<Rightarrow> None)
        else None)
     else if c = m then
       (case find (\<lambda>i. t' ! i \<noteq> None) [1 ..< n] of
          None \<Rightarrow> None
        | Some i \<Rightarrow>
           let new_min = of_nat i + m in
           if m < new_min \<and> unat new_min - unat m < n
           then Some (new_min, n - (unat new_min - unat m), l', Table (drop (unat new_min - unat m) t'))
           else None)
     else if unat c = unat m + n - 1 then
       (case find (\<lambda>i. t' ! (n - 1 - i) \<noteq> None) [1 ..< n] of
          None \<Rightarrow> None
        | Some i \<Rightarrow> Some (m, n - i, l', Table (take (n - i) t')))
     else Some (m, n, l', Table t'))"
proof -
  have "unat c - unat m < length tab" "n \<noteq> 1" "length t' = n"
    using assms by (auto simp: in_range_def)
  then show ?thesis unfolding trie_prune_def nx(1) read_simps bind.bind_lunit
    by (simp only: nx(2) t'_def[symmetric] if_True if_False bind.bind_lunit Let_def simp_thms)
qed

lemma node_okI_table:
  assumes "unat m + n \<le> 256" "length tab = n" "1 < n" "tab ! 0 \<noteq> None" "tab ! (n - 1) \<noteq> None"
    "nchild m n (Table tab) = f" "l = card {d. f d \<noteq> None}"
  shows "node_ok m n l (Table tab)"
  using assms by (auto simp: node_ok_def shape_ok_def)

lemma prune_ok:
  assumes ok: "node_ok m n l nx" and c: "nchild m n nx c \<noteq> None"
  obtains m' n' l' nx' where "trie_prune c m n l nx = Some (m', n', l', nx')" "node_ok m' n' l' nx'"
    "nchild m' n' nx' = (nchild m n nx)(c := None)"
proof -
  let ?f = "(nchild m n nx)(c := None)"
  have r: "in_range m n c" using c by (auto simp: nchild_def split: if_splits)
  have sh: "shape_ok m n nx" and l: "l = card {d. nchild m n nx d \<noteq> None}" using ok by (auto simp: node_ok_def)
  have lf: "card {d. ?f d \<noteq> None} = l - 1"
  proof -
    have "{d. ?f d \<noteq> None} = {d. nchild m n nx d \<noteq> None} - {c}" by auto
    then show ?thesis using l c by simp
  qed
  show ?thesis
  proof (cases "n = 1")
    case True
    have "nchild m n nx d \<noteq> None \<longleftrightarrow> d = c" for d
    proof
      assume "nchild m n nx d \<noteq> None"
      then show "d = c" using True r by (auto simp: nchild_def in_range_def byte_eq split: if_splits)
    qed (use c in simp)
    then have D: "{d. nchild m n nx d \<noteq> None} = {c}" by blast
    have "nchild m 0 (Node None) d = ?f d" for d
    proof -
      have "nchild m n nx d = None" if "d \<noteq> c" using D that by blast
      then show ?thesis by (cases "d = c") (simp_all add: nchild_def[of m 0])
    qed
    then have "nchild m 0 (Node None) = ?f" by (rule ext)
    moreover have "node_ok m 0 0 (Node None)"
      using byte_lt[of m] by (simp add: node_ok_def shape_ok_def nchild_def)
    ultimately show ?thesis using that[of m 0 0 "Node None"] True l D by (simp add: trie_prune_def)
  next
    case False
    then have n: "1 < n" using r by (auto simp: in_range_def)
    then obtain tab where t: "nx = Table tab" "length tab = n" "tab ! 0 \<noteq> None" "tab ! (n - 1) \<noteq> None"
      and m: "unat m + n \<le> 256" using sh by (auto simp: shape_ok_def)
    define i where "i = unat c - unat m"
    define t' where "t' = tab[i := None]"
    have i: "i < n" "unat c = unat m + i" using r by (auto simp: i_def in_range_def)
    have len: "length t' = n" using t by (simp add: t'_def)
    have nth: "t' ! j = (if j = i then None else tab ! j)" if "j < n" for j
      using that t(2) by (simp add: t'_def nth_list_update)
    have f: "nchild m n (Table t') = ?f"
      using clear_child[of m tab c] r t by (simp add: t'_def i_def)
    have occ: "card (occupied t') = l - 1"
      using card_table[of m t'] m len f lf by simp
    have l2: "1 < l"
      using card_table[of m tab] m t(2) l card_ge2[of "occupied tab" 0 "n - 1"] t n
      by (auto simp: occupied_def)
    note eq = trie_prune_table[OF t(1,2) n r, of l, folded i_def, folded t'_def]
    have cm: "c = m \<longleftrightarrow> i = 0" using i by (simp add: byte_eq)
    have ce: "unat c = unat m + n - 1 \<longleftrightarrow> i = n - 1" using i n by auto
    have e0: "t' ! 0 \<noteq> None" if "i \<noteq> 0" using that nth[of 0] t n by simp
    have e1: "t' ! (n - 1) \<noteq> None" if "i \<noteq> n - 1" using that nth[of "n - 1"] t n by simp
    consider (last) "l - 1 = 1" | (left) "l - 1 \<noteq> 1" "i = 0" | (right) "l - 1 \<noteq> 1" "i \<noteq> 0" "i = n - 1"
      | (mid) "l - 1 \<noteq> 1" "i \<noteq> 0" "i \<noteq> n - 1" by blast
    then show ?thesis
    proof cases
      case last
      then obtain k where k: "occupied t' = {k}" using occ by (metis card_1_singletonE)
      have kk: "k < n" "t' ! k \<noteq> None" using k len unfolding occupied_def by blast+
      then obtain u where u: "t' ! k = Some u" by blast
      have "i = 0 \<and> k = n - 1 \<or> i = n - 1 \<and> k = 0"
      proof -
        have "0 \<in> occupied t'" if "i \<noteq> 0" using e0[OF that] n len by (simp add: occupied_def)
        then have "i = 0 \<or> k = 0" using k by auto
        moreover have "n - 1 \<in> occupied t'" if "i \<noteq> n - 1"
          using e1[OF that] n len by (simp add: occupied_def)
        then have "i = n - 1 \<or> k = n - 1" using k by auto
        moreover have "k \<noteq> i" using kk nth by auto
        ultimately show ?thesis using n by auto
      qed
      moreover have "m + of_nat 0 = m" by simp
      ultimately have "trie_prune c m n l nx = Some (m + of_nat k, 1, l - 1, Node (Some u))"
        using eq last l2 u cm ce n by (auto simp: Let_def)
      moreover have nc: "nchild (m + of_nat k) 1 (Node (Some u)) = ?f"
        using single_table[of m t' k u] k u m len f by simp
      moreover have "unat (m + of_nat k) + 1 \<le> 256" using byte_lt[of "m + of_nat k"] by simp
      then have "node_ok (m + of_nat k) 1 (l - 1) (Node (Some u))"
        using lf unfolding node_ok_def shape_ok_def nc by simp
      ultimately show ?thesis by (intro that)
    next
      case left
      have "\<exists>j. 1 \<le> j \<and> j < n \<and> t' ! j \<noteq> None" using e1 left n by (intro exI[of _ "n - 1"]) auto
      then obtain j where j: "find (\<lambda>i. t' ! i \<noteq> None) [1 ..< n] = Some j"
        using find_upt_None[of "\<lambda>i. t' ! i \<noteq> None" n] by fastforce
      note js = find_upt_Some[OF j]
      have z: "t' ! 0 = None" using nth[of 0] left(2) n by simp
      have free: "\<forall>k < j. t' ! k = None"
      proof (intro allI impI)
        fix k assume "k < j"
        then show "t' ! k = None" using js(4) z by (cases k) auto
      qed
      have uj: "unat (of_nat j + m) = unat m + j" using byte_add[of m j] m js(2) by (simp add: add.commute)
      have nc: "nchild (of_nat j + m) (n - j) (Table (drop j t')) = ?f"
        using drop_table[of m t' j] m len js(2) free f by simp
      have "n - j \<noteq> 1"
      proof
        assume "n - j = 1"
        then have "k = n - 1" if "k < n" "t' ! k \<noteq> None" for k
        proof -
          have "\<not> k < j" using that(2) free[rule_format, of k] by argo
          then show ?thesis using \<open>n - j = 1\<close> that(1) by linarith
        qed
        then have "occupied t' \<subseteq> {n - 1}" unfolding occupied_def len by blast
        then have "card (occupied t') \<le> 1" using card_mono[of "{n - 1}"] by simp
        then show False using occ l2 left(1) by simp
      qed
      then have "node_ok (of_nat j + m) (n - j) (l - 1) (Table (drop j t'))"
        using uj js m len e1 left n lf nc by (intro node_okI_table[OF _ _ _ _ _ nc]) auto
      moreover have "trie_prune c m n l nx = Some (of_nat j + m, n - j, l - 1, Table (drop j t'))"
        using eq left l2 cm j uj js by (simp add: Let_def byte_order)
      ultimately show ?thesis using nc by (intro that)
    next
      case right
      have "\<exists>j. 1 \<le> j \<and> j < n \<and> t' ! (n - 1 - j) \<noteq> None"
        using e0 right n by (intro exI[of _ "n - 1"]) auto
      then obtain j where j: "find (\<lambda>i. t' ! (n - 1 - i) \<noteq> None) [1 ..< n] = Some j"
        using find_upt_None[of "\<lambda>i. t' ! (n - 1 - i) \<noteq> None" n] by fastforce
      note js = find_upt_Some[OF j]
      have free: "t' ! k = None" if k: "n - j \<le> k" "k < n" for k
      proof (cases "k = n - 1")
        case True
        then show ?thesis using nth[of "n - 1"] right n by simp
      next
        case False
        then have "1 \<le> n - 1 - k \<and> n - 1 - k < j" "n - 1 - (n - 1 - k) = k" using k by auto
        then show ?thesis using js(4) by metis
      qed
      have nc: "nchild m (n - j) (Table (take (n - j) t')) = ?f"
        using take_table[of "n - j" t' m] len free f by simp
      have "n - j \<noteq> 1"
      proof
        assume "n - j = 1"
        then have "k = 0" if "k < n" "t' ! k \<noteq> None" for k using that free[of k] by force
        then have "occupied t' \<subseteq> {0}" unfolding occupied_def len by blast
        then have "card (occupied t') \<le> 1" using card_mono[of "{0}"] by simp
        then show False using occ l2 right(1) by simp
      qed
      moreover have "t' ! (n - j - 1) \<noteq> None" using js(3) by (simp add: diff_right_commute)
      ultimately have "node_ok m (n - j) (l - 1) (Table (take (n - j) t'))"
        using js m len e0 right n lf nc by (intro node_okI_table[OF _ _ _ _ _ nc]) auto
      moreover have "trie_prune c m n l nx = Some (m, n - j, l - 1, Table (take (n - j) t'))"
        using eq right l2 cm ce j by (simp add: Let_def)
      ultimately show ?thesis using nc by (intro that)
    next
      case mid
      have "node_ok m n (l - 1) (Table t')"
        using m len e0 e1 mid n lf f by (intro node_okI_table[OF _ _ _ _ _ f]) auto
      moreover have "trie_prune c m n l nx = Some (m, n, l - 1, Table t')"
        using eq mid l2 cm ce by (simp add: Let_def)
      ultimately show ?thesis using f by (intro that)
    qed
  qed
qed

section \<open>Removal, matching and enumeration\<close>

lemma redundant_lookup:
  assumes "trie_ok d t" "is_redundant d t"
  shows "lookup d t k = d"
proof -
  obtain r m n l nx where t: "t = Trie r m n l nx" by (cases t)
  have "n = 0" "r = d" using assms live_zero[of m n l nx] by (auto simp: t trie_ok_Trie is_redundant_def)
  then show ?thesis by (cases k) (auto simp: t nchild_def in_range_def)
qed

lemma lookup_del:
  assumes "nchild m' n' nx' = (nchild m n nx)(c := None)" "nchild m n nx c = Some u"
    "\<forall>k. ((lookup d u)(cs := x)) k = d"
  shows "lookup d (Trie r m' n' l' nx') = (lookup d (Trie r m n l nx))(c # cs := x)"
proof
  fix k
  have x: "x = d" "k' \<noteq> cs \<Longrightarrow> lookup d u k' = d" for k' using assms(3) by (metis fun_upd_apply)+
  show "lookup d (Trie r m' n' l' nx') k = ((lookup d (Trie r m n l nx))(c # cs := x)) k"
    using assms(1,2) x by (cases k) auto
qed

lemma trie_rm_ok:
  assumes "trie_ok 0 t"
  shows "\<exists>t'. trie_rm k t = Some (refs t k = 1, t') \<and> trie_ok 0 t' \<and>
    refs t' = (refs t)(k := if refs t k = 0 then 0 else refs t k - 1)"
  using assms
proof (induction k arbitrary: t)
  case Nil
  obtain r m n l nx where t: "t = Trie r m n l nx" by (cases t)
  then show ?case using Nil lookup_payload[of 0 "r - 1" m n l nx r] by (auto simp: trie_ok_Trie fun_upd_idem)
next
  case (Cons c cs)
  obtain r m n l nx where t: "t = Trie r m n l nx" by (cases t)
  have ok: "node_ok m n l nx" and ch: "\<forall>c u. nchild m n nx c = Some u \<longrightarrow> trie_ok 0 u \<and> \<not> is_redundant 0 u"
    using Cons.prems(1) t by (auto simp: trie_ok_Trie)
  have sh: "shape_ok m n nx" using ok by (simp add: node_ok_def)
  show ?case
  proof (cases "nchild m n nx c")
    case None
    have "trie_rm (c # cs) t = Some (False, t)"
    proof (cases "in_range m n c")
      case True
      then have "n \<noteq> 0" by (auto simp: in_range_def)
      with True room_read[OF room_old[OF sh True]] None show ?thesis by (simp add: t)
    qed (simp add: t)
    then show ?thesis using Cons.prems None t by (auto simp: fun_upd_idem)
  next
    case (Some u)
    then have r: "in_range m n c" and n: "n \<noteq> 0" by (auto simp: nchild_def in_range_def split: if_splits)
    obtain u' where ih: "trie_rm cs u = Some (refs u cs = 1, u')" "trie_ok 0 u'"
      "refs u' = (refs u)(cs := if refs u cs = 0 then 0 else refs u cs - 1)"
      using Cons.IH[of u] ch Some by blast
    have rt: "refs t (c # cs) = refs u cs" using Some t by simp
    note rd = room_read[OF room_old[OF sh r]]
    show ?thesis
    proof (cases "is_redundant 0 u'")
      case True
      have "nchild m n nx c \<noteq> None" using Some by simp
      with ok obtain m' n' l' nx' where p: "trie_prune c m n l nx = Some (m', n', l', nx')"
        "node_ok m' n' l' nx'" "nchild m' n' nx' = (nchild m n nx)(c := None)" by (rule prune_ok)
      have "\<forall>k. ((refs u)(cs := if refs u cs = 0 then 0 else refs u cs - 1)) k = 0"
        using redundant_lookup[OF ih(2) True] ih(3) by metis
      note rf = lookup_del[OF p(3) Some this, of r l' l]
      have "trie_ok 0 (Trie r m' n' l' nx')" unfolding trie_ok_Trie p(3) using p(2) ch by auto
      moreover have "trie_rm (c # cs) t = Some (refs u cs = 1, Trie r m' n' l' nx')"
        using r n rd Some ih(1) True p(1) by (simp add: t split: if_splits)
      ultimately show ?thesis using rf rt t by auto
    next
      case False
      obtain nx' where w: "(if n = 1 then Some (Node (Some u')) else write_slot nx (unat c - unat m) (Some u')) = Some nx'"
        "shape_ok m n nx'" "nchild m n nx' = (nchild m n nx)(c := Some u')"
        using room_old[OF sh r] by (rule room_write)
      have "node_ok m n l nx'" using w(2) ok Some unfolding node_ok_def w(3) card_children_upd by simp
      then have "trie_ok 0 (Trie r m n l nx')"
        unfolding trie_ok_Trie w(3) using ch ih(2) False by (auto split: if_splits)
      moreover have "refs (Trie r m n l nx') = (refs t)(c # cs := if refs u cs = 0 then 0 else refs u cs - 1)"
        unfolding t by (rule lookup_upd[OF w(3) ih(3)]) (simp add: Some)
      moreover have "trie_rm (c # cs) t = Some (refs u cs = 1, Trie r m n l nx')"
        using r n rd Some ih(1) False w(1) by (simp add: t split: if_splits)
      ultimately show ?thesis using rt by auto
    qed
  qed
qed

lemma trie_check_ok:
  assumes "trie_ok 0 t"
  shows "trie_check d t = Some (\<exists>k. prefix k d \<and> refs t k \<noteq> 0)"
  using assms
proof (induction d arbitrary: t)
  case Nil
  obtain r m n l nx where t: "t = Trie r m n l nx" by (cases t)
  show ?case by (simp add: t)
next
  case (Cons c cs)
  obtain r m n l nx where t: "t = Trie r m n l nx" by (cases t)
  have sh: "shape_ok m n nx" and ch: "\<forall>c u. nchild m n nx c = Some u \<longrightarrow> trie_ok 0 u"
    using Cons.prems t by (auto simp: trie_ok_Trie node_ok_def)
  have split: "(\<exists>k. prefix k (c # cs) \<and> refs t k \<noteq> 0) \<longleftrightarrow>
      r \<noteq> 0 \<or> (\<exists>u. nchild m n nx c = Some u \<and> (\<exists>k. prefix k cs \<and> refs u k \<noteq> 0))"
    unfolding t by (auto simp: prefix_Cons split: option.splits)
  show ?case
  proof (cases "r \<noteq> 0 \<or> \<not> in_range m n c")
    case True
    then show ?thesis unfolding split by (auto simp: t nchild_def)
  next
    case False
    then have r: "in_range m n c" "r = 0" by auto
    note rd = room_read[OF room_old[OF sh r(1)]]
    show ?thesis
    proof (cases "nchild m n nx c")
      case None
      have "n \<noteq> 1" using None sh r(1) by (auto simp: shape_ok_def nchild_def)
      then show ?thesis unfolding split using None r rd by (simp add: t)
    next
      case (Some u)
      then have "trie_check cs u = Some (\<exists>k. prefix k cs \<and> refs u k \<noteq> 0)" using Cons.IH ch by blast
      then show ?thesis unfolding split using Some r rd by (auto simp: t split: if_splits)
    qed
  qed
qed

text \<open>The keys of a trie, split by their first byte.\<close>

lemma keys_split_gen:
  assumes P: "\<not> P d"
  shows "{b @ k |k. P (lookup d (Trie r m n l nx) k)} = (if P r then {b} else {}) \<union>
     (\<Union>c. case nchild m n nx c of None \<Rightarrow> {} | Some u \<Rightarrow> {(b @ [c]) @ k |k. P (lookup d u k)})"
  (is "?L = ?R")
proof
  show "?L \<subseteq> ?R"
  proof
    fix x assume "x \<in> ?L"
    then obtain k where k: "x = b @ k" "P (lookup d (Trie r m n l nx) k)" by blast
    show "x \<in> ?R"
    proof (cases k)
      case (Cons c cs)
      with k P obtain u where "nchild m n nx c = Some u" "P (lookup d u cs)" by (auto split: option.splits)
      then have "x \<in> (case nchild m n nx c of None \<Rightarrow> {} | Some u \<Rightarrow> {(b @ [c]) @ k |k. P (lookup d u k)})"
        using k Cons by auto
      then show ?thesis by blast
    qed (use k in auto)
  qed
  show "?R \<subseteq> ?L"
  proof
    fix x assume "x \<in> ?R"
    then consider "P r" "x = b" | c u k where "nchild m n nx c = Some u" "x = b @ c # k" "P (lookup d u k)"
      by (auto split: if_splits option.splits)
    then show "x \<in> ?L"
    proof cases
      case 1
      then show ?thesis by (auto intro!: exI[of _ "[]"])
    next
      case 2
      then show ?thesis by (auto intro!: exI[of _ "c # k"])
    qed
  qed
qed

lemmas keys_split = keys_split_gen[where P = "\<lambda>x. x \<noteq> 0" and d = 0, simplified]

lemma those_map:
  "\<forall>x \<in> set xs. f x = Some (g x) \<Longrightarrow> those (map f xs) = Some (map g xs)"
  by (induction xs) auto

lemma distinct_concat_upt:
  assumes "\<And>i. i < n \<Longrightarrow> distinct (g i)"
    "\<And>i j. i < n \<Longrightarrow> j < n \<Longrightarrow> i \<noteq> j \<Longrightarrow> set (g i) \<inter> set (g j) = {}"
  shows "distinct (concat (map g [0 ..< n]))"
  using assms
proof (induction n)
  case (Suc n)
  have "set (g i) \<inter> set (g n) = {}" if "i < n" for i using Suc.prems(2)[of i n] that by simp
  then have "set (concat (map g [0 ..< n])) \<inter> set (g n) = {}" by (auto simp: disjoint_iff)
  then show ?case using Suc by simp
qed simp

lemma apply_helper_ok:
  assumes "trie_ok 0 t"
  shows "\<exists>ks. apply_helper b t = Some ks \<and> distinct ks \<and> set ks = {b @ k |k. refs t k \<noteq> 0}"
  using assms
proof (induction arbitrary: b rule: trie_ok.induct)
  case (1 t)
  obtain r m n l nx where t: "t = Trie r m n l nx" by (cases t)
  have ok: "node_ok m n l nx" using 1 t by simp
  have ih: "\<exists>ks. apply_helper b u = Some ks \<and> distinct ks \<and> set ks = {b @ k |k. refs u k \<noteq> 0}"
    if "nchild m n nx c = Some u" for c u b using 1(2) that t by simp
  define here where "here = (if r \<noteq> 0 then [b] else [])"
  have hs: "set here = (if r \<noteq> 0 then {b} else {})" "distinct here" by (auto simp: here_def)
  consider "n = 0" | u where "n = 1" "nx = Node (Some u)" | tab where "1 < n" "nx = Table tab" "length tab = n"
  proof -
    consider "n = 0" | "n = 1" | "1 < n" by linarith
    then show ?thesis using ok that unfolding node_ok_def shape_ok_def by cases blast+
  qed
  then show ?case
  proof cases
    case 1
    then have "nchild m n nx c = None" for c by (auto simp: nchild_def in_range_def)
    then show ?thesis using 1 hs unfolding t keys_split by (simp add: apply_helper.simps here_def)
  next
    case 2
    have nc: "nchild m n nx c = (if c = m then Some u else None)" for c
      using 2 by (auto simp: nchild_def in_range_def byte_eq)
    obtain ks where ks: "apply_helper (b @ [m]) u = Some ks" "distinct ks"
      "set ks = {(b @ [m]) @ k |k. refs u k \<noteq> 0}" using ih[of m u "b @ [m]"] nc by auto
    have U: "(\<Union>c. case nchild m n nx c of None \<Rightarrow> {} | Some u \<Rightarrow> {(b @ [c]) @ k |k. refs u k \<noteq> 0}) = set ks"
      unfolding nc using ks(3) by (auto split: if_splits)
    have "apply_helper b t = Some (here @ ks)" using 2 ks(1) by (simp add: t apply_helper.simps here_def)
    moreover have "distinct (here @ ks)" using hs ks(2,3) by (auto simp: here_def)
    ultimately show ?thesis using hs(1) U unfolding t keys_split by auto
  next
    case 3
    have m: "unat m + n \<le> 256" using ok by (simp add: node_ok_def shape_ok_def)
    let ?f = "\<lambda>(i, e). case e of None \<Rightarrow> Some [] | Some u \<Rightarrow> apply_helper (b @ [m + of_nat i]) u"
    have nc: "nchild m n nx (m + of_nat i) = tab ! i" "unat (m + of_nat i) = unat m + i" if "i < n" for i
      using that 3 byte_add[of m i] m by (auto simp: nchild_def in_range_def)
    define g where "g i = the (?f (i, tab ! i))" for i
    have g: "?f (i, tab ! i) = Some (g i) \<and> distinct (g i) \<and>
        set (g i) = (case tab ! i of None \<Rightarrow> {} | Some u \<Rightarrow> {(b @ [m + of_nat i]) @ k |k. refs u k \<noteq> 0})" if "i < n" for i
      using ih[of "m + of_nat i" _ "b @ [m + of_nat i]"] nc(1)[OF that]
      by (cases "tab ! i") (auto simp: g_def)
    have en: "map ?f (enumerate 0 tab) = map (\<lambda>i. ?f (i, tab ! i)) [0 ..< n]"
      unfolding enumerate_eq_zip using 3(3) by (intro nth_equalityI) (simp_all cong: option.case_cong)
    have th: "those (map ?f (enumerate 0 tab)) = Some (map g [0 ..< n])"
      unfolding en by (rule those_map) (use g in auto)
    have res: "apply_helper b t = Some (here @ concat (map g [0 ..< n]))"
      using 3 th by (simp add: t apply_helper.simps here_def)
    have U: "(\<Union>c. case nchild m n nx c of None \<Rightarrow> {} | Some u \<Rightarrow> {(b @ [c]) @ k |k. refs u k \<noteq> 0}) =
        set (concat (map g [0 ..< n]))" (is "?A = ?B")
    proof
      show "?A \<subseteq> ?B"
      proof
        fix x assume "x \<in> ?A"
        then obtain c u k where c: "nchild m n nx c = Some u" "x = (b @ [c]) @ k" "refs u k \<noteq> 0"
          by (auto split: option.splits)
        then have i: "unat c - unat m < n" "m + of_nat (unat c - unat m) = c"
          by (auto simp: nchild_def in_range_def split: if_splits)
        then have "tab ! (unat c - unat m) = Some u" using nc(1)[OF i(1)] c(1) by simp
        then have "x \<in> set (g (unat c - unat m))" using g[OF i(1)] c i(2) by auto
        then show "x \<in> ?B" using i(1) by auto
      qed
      show "?B \<subseteq> ?A" using g nc(1) by (fastforce split: option.splits)
    qed
    have pos: "\<exists>k. x = b @ (m + of_nat i) # k" if "x \<in> set (g i)" "i < n" for x i
      using that g[OF that(2)] by (auto split: option.splits)
    have "distinct (concat (map g [0 ..< n]))"
    proof (rule distinct_concat_upt)
      show "distinct (g i)" if "i < n" for i using g[OF that] by blast
      show "set (g i) \<inter> set (g j) = {}" if "i < n" "j < n" "i \<noteq> j" for i j
      proof -
        have "m + of_nat i \<noteq> m + of_nat j" using nc(2)[of i] nc(2)[of j] that by (metis add_left_cancel)
        then show ?thesis using pos[of _ i] pos[of _ j] that by fastforce
      qed
    qed
    moreover have "b \<notin> set (concat (map g [0 ..< n]))" using pos by fastforce
    ultimately show ?thesis using res U hs unfolding t keys_split by (auto simp: here_def)
  qed
qed

declare lookup.simps [simp del]

section \<open>Properties\<close>

text \<open>
  C9: the trie counts its keys. Adding a key to a well-formed trie never fails an assertion or leaves
  the tables; it increments the count of that key and no other one (as long as the 32-bit count does
  not overflow) and tells whether the key is new. Removing a key decrements its count if it is there,
  prunes and compacts the tables, and tells whether the last occurrence was removed.
\<close>

theorem trie_update:
  assumes "trie_ok 0 t"
  shows "(refs t k + 1 \<noteq> 0 \<longrightarrow> (\<exists>t'. trie_add k t = Some (refs t k = 0, t') \<and> trie_ok 0 t' \<and>
      refs t' = (refs t)(k := refs t k + 1))) \<and>
    (\<exists>t'. trie_rm k t = Some (refs t k = 1, t') \<and> trie_ok 0 t' \<and>
      refs t' = (refs t)(k := if refs t k = 0 then 0 else refs t k - 1))"
  using trie_add_ok[OF assms] trie_rm_ok[OF assms] by blast

theorem trie_update_witness:
  "\<exists>t1 t2. trie_add [65, 66] (trie_init 0) = Some (True, t1) \<and> trie_rm [65, 66] t1 = Some (True, t2) \<and>
     refs t1 [65, 66] = 1 \<and> refs t2 [65, 66] = 0"
proof -
  obtain t1 where t1: "trie_add [65, 66] (trie_init 0) = Some (True, t1)" "trie_ok 0 t1"
    "refs t1 = (refs (trie_init 0))([65, 66] := 1)"
    using trie_update[OF trie_ok_init[of 0], of "[65, 66]", THEN conjunct1, rule_format] by auto
  from trie_update[OF t1(2), of "[65, 66]", THEN conjunct2] t1 show ?thesis by auto
qed

text \<open>
  Matching. The loop over the nodes finds a subscription exactly if some key in the trie is a
  prefix of the data.
\<close>

theorem trie_check_prefix:
  assumes "trie_ok 0 t"
  shows "trie_check d t = Some (\<exists>k. prefix k d \<and> refs t k \<noteq> 0)"
  using assms by (rule trie_check_ok)

theorem trie_check_prefix_witness:
  "\<exists>t. trie_add [65] (trie_init 0) = Some (True, t) \<and> trie_check [65, 66] t = Some True"
proof -
  obtain t where t: "trie_add [65] (trie_init 0) = Some (True, t)" "trie_ok 0 t" "refs t = (refs (trie_init 0))([65] := 1)"
    using trie_add_ok[OF trie_ok_init[of 0], of "[65]"] by auto
  have "prefix [65] [65, 66 :: byte]" "refs t [65] \<noteq> 0" using t(3) by simp_all
  then have "\<exists>k. prefix k [65, 66] \<and> refs t k \<noteq> 0" by blast
  then have "trie_check [65, 66] t = Some True" using trie_check_prefix[OF t(2), of "[65, 66]"] by simp
  then show ?thesis using t(1) by blast
qed

text \<open>The function \<open>apply\<close> visits every key that is in the trie exactly once and nothing else.\<close>

theorem trie_apply_keys:
  assumes "trie_ok 0 t"
  shows "\<exists>ks. trie_apply t = Some ks \<and> distinct ks \<and> set ks = {k. refs t k \<noteq> 0}"
  using apply_helper_ok[OF assms, of "[]"] by (simp add: trie_apply_def)

theorem trie_apply_keys_witness:
  "\<exists>t. trie_add [65] (trie_init 0) = Some (True, t) \<and> trie_apply t = Some [[65]]"
proof -
  obtain t where t: "trie_add [65] (trie_init 0) = Some (True, t)" "trie_ok 0 t" "refs t = (refs (trie_init 0))([65] := 1)"
    using trie_add_ok[OF trie_ok_init[of 0], of "[65]"] by auto
  obtain ks where ks: "trie_apply t = Some ks" "distinct ks" "set ks = {k. refs t k \<noteq> 0}"
    using trie_apply_keys[OF t(2)] by blast
  have "set ks = {[65]}" using ks(3) t(3) by auto
  moreover from this have "length ks = 1" using distinct_card[OF ks(2)] by simp
  ultimately have "ks = [[65]]" by (cases ks) auto
  then show ?thesis using t(1) ks(1) by blast
qed

end
