(* ===== verification/Mtrie.thy ===== *)
theory Mtrie
  imports Trie
begin

text \<open>
  The multi-trie \<open>mtrie_t\<close> of \<open>mtrie.hpp\<close> and \<open>mtrie.cpp\<close>: a PUB socket keeps the subscriptions of its
  subscribers in it. The nodes are those of the trie with a pointer to a set of pipes as the payload,
  \<open>None\<close> being the null pointer. The operations, in contrast to the trie, do not check everything the
  trie checks and compact the tables in their own way.
\<close>

type_synonym 'p mtrie = "'p set option trie"

abbreviation mtrie_init :: "'p mtrie" where
  "mtrie_init \<equiv> trie_init None"

section \<open>Adding a subscription\<close>

fun mtrie_add :: "bytes \<Rightarrow> 'p \<Rightarrow> 'p mtrie \<Rightarrow> (bool \<times> 'p mtrie) option" where
  "mtrie_add [] p (Trie pipes m n l nx) =
     (let result = (pipes = None);
          s = (case pipes of None \<Rightarrow> {} | Some s \<Rightarrow> s)
      in Some (result, Trie (Some (insert p s)) m n l nx))"
| "mtrie_add (c # cs) p (Trie pipes m n l nx) = do {
     (m, n, nx) \<leftarrow> (if \<not> in_range m n c then trie_extend c m n nx else Some (m, n, nx));
     if n = 1 then do {
       u \<leftarrow> read_node nx;
       let (u, l) = (case u of Some u \<Rightarrow> (u, l) | None \<Rightarrow> (mtrie_init, l + 1));
       (b, u) \<leftarrow> mtrie_add cs p u;
       Some (b, Trie pipes m n l (Node (Some u))) }
     else do {
       u \<leftarrow> read_slot nx (unat c - unat m);
       let (u, l) = (case u of Some u \<Rightarrow> (u, l) | None \<Rightarrow> (mtrie_init, l + 1));
       (b, u) \<leftarrow> mtrie_add cs p u;
       nx \<leftarrow> write_slot nx (unat c - unat m) (Some u);
       Some (b, Trie pipes m n l nx) } }"

section \<open>Removing one subscription\<close>

text \<open>Removal of a redundant child; a single remaining node is searched for from the left.\<close>

definition mtrie_prune ::
    "byte \<Rightarrow> byte \<Rightarrow> nat \<Rightarrow> nat \<Rightarrow> 'v tnext \<Rightarrow> (byte \<times> nat \<times> nat \<times> 'v tnext) option" where
  "mtrie_prune c m n l nx =
     (if n = 1 then (if l = 1 then Some (m, 0, 0, Node None) else None)
      else do {
        tab \<leftarrow> read_table nx;
        tab \<leftarrow> (if unat c - unat m < length tab then Some (tab[unat c - unat m := None]) else None);
        let l' = l - 1;
        if \<not> 1 < l \<or> length tab \<noteq> n then None
        else if l' = 1 then
          (case find (\<lambda>i. tab ! i \<noteq> None) [0 ..< n] of
             None \<Rightarrow> None
           | Some i \<Rightarrow> Some (m + of_nat i, 1, l', Node (tab ! i)))
        else if c = m then
          (case find (\<lambda>i. tab ! i \<noteq> None) [1 ..< n] of
             None \<Rightarrow> None
           | Some i \<Rightarrow> Some (m + of_nat i, n - i, l', Table (drop i tab)))
        else if unat c = unat m + n - 1 then
          (case find (\<lambda>i. tab ! (n - 1 - i) \<noteq> None) [1 ..< n] of
             None \<Rightarrow> None
           | Some i \<Rightarrow> Some (m, n - i, l', Table (take (n - i) tab)))
        else Some (m, n, l', Table tab) })"

fun mtrie_rm :: "bytes \<Rightarrow> 'p \<Rightarrow> 'p mtrie \<Rightarrow> (bool \<times> 'p mtrie) option" where
  "mtrie_rm [] p (Trie pipes m n l nx) =
     (case pipes of
        None \<Rightarrow> Some (True, Trie None m n l nx)
      | Some s \<Rightarrow>
          if p \<notin> s then None
          else if s - {p} = {} then Some (True, Trie None m n l nx)
          else Some (False, Trie (Some (s - {p})) m n l nx))"
| "mtrie_rm (c # cs) p (Trie pipes m n l nx) =
     (if n = 0 \<or> \<not> in_range m n c then Some (False, Trie pipes m n l nx)
      else do {
        u \<leftarrow> (if n = 1 then read_node nx else read_slot nx (unat c - unat m));
        (case u of
           None \<Rightarrow> Some (False, Trie pipes m n l nx)
         | Some u \<Rightarrow> do {
             (ret, u) \<leftarrow> mtrie_rm cs p u;
             if is_redundant None u then do {
               (m, n, l, nx) \<leftarrow> mtrie_prune c m n l nx;
               Some (ret, Trie pipes m n l nx) }
             else do {
               nx \<leftarrow> (if n = 1 then Some (Node (Some u)) else write_slot nx (unat c - unat m) (Some u));
               Some (ret, Trie pipes m n l nx) } }) })"

section \<open>Removing a pipe\<close>

text \<open>
  Removal of all subscriptions of a pipe. The result has the keys the callback was invoked for, in the
  order of the calls. After the loop over the table, \<open>new_min\<close> and \<open>new_max\<close> are the first and the
  last character with a child.
\<close>

definition mtrie_compact ::
    "byte \<Rightarrow> nat \<Rightarrow> nat \<Rightarrow> 'v trie option list \<Rightarrow> byte \<Rightarrow> byte \<Rightarrow> (byte \<times> nat \<times> 'v tnext) option" where
  "mtrie_compact m n l tab new_min new_max =
     (if l = 0 then Some (m, 0, No_next)
      else if l = 1 then
        (if new_min = new_max \<and> in_range m n new_min \<and> tab ! (unat new_min - unat m) \<noteq> None
         then Some (new_min, 1, Node (tab ! (unat new_min - unat m))) else None)
      else if m < new_min \<or> unat new_max < unat m + n - 1 then
        (let n' = unat new_max + 1 - unat new_min in
         if unat new_min < unat new_max \<and> m \<le> new_min \<and> unat new_max \<le> unat m + n - 1 \<and> n' < n
         then Some (new_min, n', Table (take n' (drop (unat new_min - unat m) tab))) else None)
      else Some (m, n, Table tab))"

fun mtrie_rm_pipe :: "bytes \<Rightarrow> 'p \<Rightarrow> 'p mtrie \<Rightarrow> (bytes list \<times> 'p mtrie) option"
  and mtrie_rm_table ::
    "bytes \<Rightarrow> 'p \<Rightarrow> byte \<Rightarrow> nat \<Rightarrow> 'p mtrie option list \<Rightarrow> nat \<Rightarrow> byte \<Rightarrow> byte \<Rightarrow>
     (bytes list \<times> 'p mtrie option list \<times> nat \<times> byte \<times> byte) option" where
  "mtrie_rm_pipe buff p (Trie pipes m n l nx) = (
     let (ks, pipes) = (case pipes of
           None \<Rightarrow> ([], None)
         | Some s \<Rightarrow> if p \<in> s \<and> s - {p} = {} then ([buff], None) else ([], Some (s - {p})))
     in if n = 0 then Some (ks, Trie pipes m n l nx)
        else if n = 1 then
          (case nx of
             Node (Some u) \<Rightarrow> do {
               (ks', u) \<leftarrow> mtrie_rm_pipe (buff @ [m]) p u;
               if is_redundant None u
               then if l = 1 then Some (ks @ ks', Trie pipes m 0 (l - 1) (Node None)) else None
               else Some (ks @ ks', Trie pipes m n l (Node (Some u))) }
           | _ \<Rightarrow> None)
        else
          (case nx of
             Table tab \<Rightarrow>
               if length tab \<noteq> n then None
               else do {
                 (ks', tab, l, new_min, new_max) \<leftarrow>
                    mtrie_rm_table buff p m 0 tab l (m + of_nat (n - 1)) m;
                 (m, n, nx) \<leftarrow> mtrie_compact m n l tab new_min new_max;
                 Some (ks @ ks', Trie pipes m n l nx) }
           | _ \<Rightarrow> None))"
| "mtrie_rm_table buff p m c [] l new_min new_max = Some ([], [], l, new_min, new_max)"
| "mtrie_rm_table buff p m c (None # es) l new_min new_max = do {
     (ks, es, l, new_min, new_max) \<leftarrow> mtrie_rm_table buff p m (c + 1) es l new_min new_max;
     Some (ks, None # es, l, new_min, new_max) }"
| "mtrie_rm_table buff p m c (Some u # es) l new_min new_max = do {
     (ks, u) \<leftarrow> mtrie_rm_pipe (buff @ [m + of_nat c]) p u;
     if is_redundant None u then
       if l = 0 then None
       else do {
         (ks', es, l, new_min, new_max) \<leftarrow> mtrie_rm_table buff p m (c + 1) es (l - 1) new_min new_max;
         Some (ks @ ks', None # es, l, new_min, new_max) }
     else do {
       let x = of_nat (c + unat m);
       let new_min = (if c + unat m < unat new_min then x else new_min);
       let new_max = (if unat new_max < c + unat m then x else new_max);
       (ks', es, l, new_min, new_max) \<leftarrow> mtrie_rm_table buff p m (c + 1) es l new_min new_max;
       Some (ks @ ks', Some u # es, l, new_min, new_max) } }"

section \<open>Matching\<close>

text \<open>The pipes the callback is invoked for, in the order of the calls; a set is iterated in order.\<close>

fun mtrie_match :: "bytes \<Rightarrow> 'p::linorder mtrie \<Rightarrow> 'p list option" where
  "mtrie_match data (Trie pipes m n l nx) = (
     let here = (case pipes of None \<Rightarrow> [] | Some s \<Rightarrow> sorted_list_of_set s) in
     case data of
       [] \<Rightarrow> Some here
     | c # cs \<Rightarrow>
         if n = 0 then Some here
         else if n = 1 then
           (if c \<noteq> m then Some here
            else do { u \<leftarrow> read_node nx; u \<leftarrow> u; ps \<leftarrow> mtrie_match cs u; Some (here @ ps) })
         else if \<not> in_range m n c then Some here
         else do {
           u \<leftarrow> read_slot nx (unat c - unat m);
           (case u of
              None \<Rightarrow> Some here
            | Some u \<Rightarrow> do { ps \<leftarrow> mtrie_match cs u; Some (here @ ps) }) })"

section \<open>Subscriptions\<close>

text \<open>
  The well-formed multi-tries: the nodes are well-formed as in the trie and a set that is present is
  neither empty nor infinite. \<open>subs\<close> is the set of pipes subscribed to a key.
\<close>

definition mtrie_ok :: "'p mtrie \<Rightarrow> bool" where
  "mtrie_ok t \<longleftrightarrow> trie_ok None t \<and> (\<forall>k s. lookup None t k = Some s \<longrightarrow> s \<noteq> {} \<and> finite s)"

definition subs :: "'p mtrie \<Rightarrow> bytes \<Rightarrow> 'p set" where
  "subs t k = (case lookup None t k of None \<Rightarrow> {} | Some s \<Rightarrow> s)"

lemma subs_empty: "mtrie_ok t \<Longrightarrow> subs t k = {} \<longleftrightarrow> lookup None t k = None"
  by (auto simp: subs_def mtrie_ok_def split: option.splits)

lemma mtrie_ok_init [simp]: "mtrie_ok mtrie_init"
  by (simp add: mtrie_ok_def)

lemma subs_init [simp]: "subs mtrie_init k = {}"
  by (simp add: subs_def)

lemma lookup_subs: "mtrie_ok t \<Longrightarrow> lookup None t k = (if subs t k = {} then None else Some (subs t k))"
  by (auto simp: subs_def mtrie_ok_def split: option.splits)

lemma subs_lookup_upd:
  "lookup None t' = (lookup None t)(k := v) \<Longrightarrow> subs t' = (subs t)(k := case v of None \<Rightarrow> {} | Some s \<Rightarrow> s)"
  by (rule ext) (simp add: subs_def)

lemma mtrie_okI:
  "mtrie_ok t \<Longrightarrow> trie_ok None t' \<Longrightarrow> lookup None t' = (lookup None t)(k := v) \<Longrightarrow>
   (\<forall>s. v = Some s \<longrightarrow> s \<noteq> {} \<and> finite s) \<Longrightarrow> mtrie_ok t'"
  by (auto simp: mtrie_ok_def)

lemma mtrie_add_trie:
  fixes p :: 'p
  assumes "trie_ok None t"
  defines "s \<equiv> \<lambda>v. Some (insert p (case v of None \<Rightarrow> {} | Some s \<Rightarrow> s))"
  shows "\<exists>t'. mtrie_add k p t = Some (lookup None t k = None, t') \<and> trie_ok None t' \<and>
    lookup None t' = (lookup None t)(k := s (lookup None t k)) \<and> \<not> is_redundant None t'"
  using assms(1)
proof (induction k arbitrary: t)
  case Nil
  obtain r m n l nx where t: "t = Trie r m n l nx" by (cases t)
  then show ?case using Nil lookup_payload[of None "s r" m n l nx r]
    by (auto simp: trie_ok_Trie is_redundant_def s_def lookup.simps split: option.splits)
next
  case (Cons c cs)
  obtain r m n l nx where t: "t = Trie r m n l nx" by (cases t)
  have ok: "node_ok m n l nx" and ch: "\<forall>c u. nchild m n nx c = Some u \<longrightarrow> trie_ok None u \<and> \<not> is_redundant None u"
    using Cons.prems(1) t by (auto simp: trie_ok_Trie)
  obtain m1 n1 nx1 where st:
    "(if \<not> in_range m n c then trie_extend c m n nx else Some (m, n, nx)) = Some (m1, n1, nx1)"
    "(if n1 = 1 then read_node nx1 else read_slot nx1 (unat c - unat m1)) = Some (nchild m n nx c)"
    "nchild m n nx c = None \<longrightarrow> (n1 = 1 \<longleftrightarrow> l = 0)"
    "\<forall>u. \<exists>nx2. (if n1 = 1 then Some (Node (Some u)) else write_slot nx1 (unat c - unat m1) (Some u)) = Some nx2 \<and>
       node_ok m1 n1 (l + (if nchild m n nx c = None then 1 else 0)) nx2 \<and>
       nchild m1 n1 nx2 = (nchild m n nx)(c := Some u)" using ok by (rule add_step)
  define v where "v = (case nchild m n nx c of Some u \<Rightarrow> u | None \<Rightarrow> mtrie_init)"
  define l1 where "l1 = l + (if nchild m n nx c = None then 1 else 0)"
  have v: "trie_ok None v" "lookup None t (c # cs) = lookup None v cs"
    using ch t by (auto simp: v_def lookup.simps split: option.splits)
  obtain v' where ih: "mtrie_add cs p v = Some (lookup None v cs = None, v')" "trie_ok None v'"
    "lookup None v' = (lookup None v)(cs := s (lookup None v cs))" "\<not> is_redundant None v'"
    using Cons.IH[OF v(1)] by blast
  obtain nx2 where w: "(if n1 = 1 then Some (Node (Some v')) else write_slot nx1 (unat c - unat m1) (Some v')) = Some nx2"
    "node_ok m1 n1 l1 nx2" "nchild m1 n1 nx2 = (nchild m n nx)(c := Some v')"
    using st(4) unfolding l1_def by blast
  have "mtrie_add (c # cs) p t = Some (lookup None v cs = None, Trie r m1 n1 l1 nx2)"
    using st(1,2) w(1) ih(1) unfolding t v_def l1_def
    by (cases "n1 = 1"; cases "nchild m n nx c") (simp_all add: Let_def)
  moreover note add_ok[OF ch w(3,2) ih(2,4), of r]
  moreover have "lookup None (Trie r m1 n1 l1 nx2) = (lookup None t)(c # cs := s (lookup None v cs))"
    unfolding t using w(3) ih(3) v_def by (rule lookup_upd)
  ultimately show ?case using v(2) by auto
qed

section \<open>Removal of a subscription\<close>

text \<open>The two ways of compacting a table after a removal agree.\<close>

lemma find_single:
  assumes "i < n" "P i" "\<forall>j < n. P j \<longrightarrow> j = i"
  shows "find P [0 ..< n] = Some i"
proof -
  have "\<not> P j" if "j < i" for j using assms that by (metis less_trans less_irrefl)
  then show ?thesis using assms(1,2) unfolding find_Some_iff by (intro exI[of _ i]) simp
qed

lemma mtrie_prune_eq:
  assumes ok: "node_ok m n l nx" and c: "nchild m n nx c \<noteq> None"
  shows "mtrie_prune c m n l nx = trie_prune c m n l nx"
proof (cases "n = 1")
  case True
  then show ?thesis by (simp add: mtrie_prune_def trie_prune_def)
next
  case False
  obtain x where x: "trie_prune c m n l nx = Some x" using ok c by (rule prune_ok)
  have r: "in_range m n c" using c by (auto simp: nchild_def split: if_splits)
  then have n: "1 < n" using False by (auto simp: in_range_def)
  then obtain tab where t: "nx = Table tab" "length tab = n" and m: "unat m + n \<le> 256"
    using ok by (auto simp: node_ok_def shape_ok_def)
  define i where "i = unat c - unat m"
  define t' where "t' = tab[i := None]"
  have i: "i < n" and len: "length t' = n" using r t by (auto simp: i_def in_range_def t'_def)
  note eq = trie_prune_table[OF t(1,2) n r, of l, folded i_def, folded t'_def]
  have mp: "mtrie_prune c m n l nx = (let l' = l - 1 in
     if \<not> 1 < l then None
     else if l' = 1 then
       (case find (\<lambda>i. t' ! i \<noteq> None) [0 ..< n] of
          None \<Rightarrow> None | Some i \<Rightarrow> Some (m + of_nat i, 1, l', Node (t' ! i)))
     else if c = m then
       (case find (\<lambda>i. t' ! i \<noteq> None) [1 ..< n] of
          None \<Rightarrow> None | Some i \<Rightarrow> Some (m + of_nat i, n - i, l', Table (drop i t')))
     else if unat c = unat m + n - 1 then
       (case find (\<lambda>i. t' ! (n - 1 - i) \<noteq> None) [1 ..< n] of
          None \<Rightarrow> None | Some i \<Rightarrow> Some (m, n - i, l', Table (take (n - i) t')))
     else Some (m, n, l', Table t'))"
    using n i len by (simp add: mtrie_prune_def t Let_def flip: i_def t'_def)
  have l1: "1 < l" using x eq by (auto simp: Let_def split: if_splits)
  show ?thesis
  proof (cases "l - 1 = 1")
    case True
    have f: "nchild m n (Table t') = (nchild m n nx)(c := None)"
      using clear_child[of m tab c] r t by (simp add: t'_def i_def)
    have "{d. ((nchild m n nx)(c := None)) d \<noteq> None} = {d. nchild m n nx d \<noteq> None} - {c}" by auto
    then have "card (occupied t') = 1"
      using card_table[of m t'] m len f ok c True by (simp add: node_ok_def)
    then obtain k where k: "occupied t' = {k}" by (metis card_1_singletonE)
    have only: "\<forall>j < n. t' ! j \<noteq> None \<longrightarrow> j = k" and kn: "k < n" "t' ! k \<noteq> None"
      using k len unfolding occupied_def by blast+
    then have fk: "find (\<lambda>i. t' ! i \<noteq> None) [0 ..< n] = Some k"
      using find_single[of k n "\<lambda>i. t' ! i \<noteq> None"] by blast
    define k' where "k' = (if c = m then n - 1 else 0)"
    have ec: "c = m \<or> unat c = unat m + n - 1"
      using x eq True l1 by (simp add: Let_def split: if_splits)
    then have xk: "Some x = (case t' ! k' of Some u \<Rightarrow> Some (m + of_nat k', 1, l - 1, Node (Some u)) | None \<Rightarrow> None)"
      using x eq True l1 unfolding k'_def
      by (cases "c = m") (simp_all add: Let_def split: option.splits)
    then have "t' ! k' \<noteq> None" by (cases "t' ! k'") simp_all
    moreover have "k' < n" using n by (simp add: k'_def)
    ultimately have "k' = k" using only by blast
    then have "x = (m + of_nat k, 1, l - 1, Node (t' ! k))" using xk kn(2) by (cases "t' ! k") simp_all
    then show ?thesis using x mp True l1 fk by (simp add: Let_def)
  next
    case False
    have un: "unat (of_nat j + m) = unat m + j" if "j < n" for j
      using byte_add[of m j] m that by (simp add: add.commute)
    show ?thesis
    proof (cases "c = m")
      case c: True
      have xe: "Some x = (case find (\<lambda>i. t' ! i \<noteq> None) [1 ..< n] of None \<Rightarrow> None | Some i \<Rightarrow>
           let new_min = of_nat i + m in
           if m < new_min \<and> unat new_min - unat m < n
           then Some (new_min, n - (unat new_min - unat m), l - 1, Table (drop (unat new_min - unat m) t'))
           else None)"
        using x eq False l1 c unfolding Let_def by presburger
      then obtain j where j: "find (\<lambda>i. t' ! i \<noteq> None) [1 ..< n] = Some j"
        by (cases "find (\<lambda>i. t' ! i \<noteq> None) [1 ..< n]") simp_all
      have "j < n" using find_upt_Some[OF j] by simp
      then have "x = (m + of_nat j, n - j, l - 1, Table (drop j t'))"
        using xe unfolding j option.case Let_def un[OF \<open>j < n\<close>] by (simp add: add.commute split: if_splits)
      then show ?thesis using x mp False l1 c j by (simp add: Let_def)
    next
      case c: False
      then show ?thesis using eq mp False l1 unfolding Let_def by simp
    qed
  qed
qed

text \<open>A well-formed node that is not redundant is the prefix of some key.\<close>

lemma not_redundant_key:
  assumes "trie_ok d t" "\<not> is_redundant d t"
  shows "\<exists>k. lookup d t k \<noteq> d"
  using assms
proof (induction rule: trie_ok.induct)
  case (1 t)
  show ?case
  proof (cases "payload t = d")
    case True
    then have "live_nodes t \<noteq> 0" using 1 by (simp add: is_redundant_def)
    then have "card {c. child t c \<noteq> None} \<noteq> 0"
      using 1(1) unfolding node_ok_def child_def by argo
    then have "{c. child t c \<noteq> None} \<noteq> {}" by (metis card.empty)
    then obtain c u where u: "child t c = Some u" by blast
    then obtain k where "lookup d u k \<noteq> d" using 1(2) by blast
    then have "lookup d t (c # k) \<noteq> d" using u by (simp add: lookup.simps)
    then show ?thesis by blast
  qed (auto intro!: exI[of _ "[]"] simp: lookup.simps)
qed

text \<open>What is left of a set of pipes after the removal of a pipe.\<close>

definition strip :: "'p \<Rightarrow> 'p set option \<Rightarrow> 'p set option" where
  "strip p v = (case v of
     None \<Rightarrow> None
   | Some s \<Rightarrow> if p \<in> s \<and> s - {p} = {} then None else Some (s - {p}))"

lemma mtrie_rm_trie:
  assumes "trie_ok None t" "\<forall>s. lookup None t k = Some s \<longrightarrow> p \<in> s"
  shows "\<exists>b t'. mtrie_rm k p t = Some (b, t') \<and> trie_ok None t' \<and>
    lookup None t' = (lookup None t)(k := strip p (lookup None t k)) \<and>
    (b \<longleftrightarrow> (case lookup None t k of
       Some s \<Rightarrow> s = {p} | None \<Rightarrow> k = [] \<or> (\<exists>k'. lookup None t (k @ k') \<noteq> None)))"
  using assms
proof (induction k arbitrary: t)
  case Nil
  obtain r m n l nx where t: "t = Trie r m n l nx" by (cases t)
  show ?case
  proof (cases r)
    case None
    then show ?thesis using Nil
      by (intro exI[of _ True] exI[of _ t]) (simp add: t trie_ok_Trie strip_def lookup.simps fun_upd_idem)
  next
    case (Some s)
    then have "p \<in> s" using Nil(2) by (simp add: t lookup.simps)
    then have "mtrie_rm [] p t = Some (s = {p}, Trie (strip p r) m n l nx)"
      using Some by (auto simp: t strip_def)
    moreover have "trie_ok None (Trie (strip p r) m n l nx)" using Nil(1) by (simp add: t trie_ok_Trie)
    ultimately show ?thesis using lookup_payload[of None "strip p r" m n l nx r] Some
      by (simp add: t lookup.simps(1) fun_eq_iff)
  qed
next
  case (Cons c cs)
  obtain r m n l nx where t: "t = Trie r m n l nx" by (cases t)
  have ok: "node_ok m n l nx" and ch: "\<forall>c u. nchild m n nx c = Some u \<longrightarrow> trie_ok None u \<and> \<not> is_redundant None u"
    using Cons.prems(1) t by (auto simp: trie_ok_Trie)
  have sh: "shape_ok m n nx" using ok by (simp add: node_ok_def)
  show ?case
  proof (cases "nchild m n nx c")
    case None
    have "mtrie_rm (c # cs) p t = Some (False, t)"
    proof (cases "in_range m n c")
      case True
      then have "n \<noteq> 0" by (auto simp: in_range_def)
      with True room_read[OF room_old[OF sh True]] None show ?thesis by (simp add: t)
    qed (simp add: t)
    then show ?thesis using Cons.prems None t by (auto simp: fun_upd_idem lookup.simps strip_def)
  next
    case (Some u)
    then have r: "in_range m n c" and n: "n \<noteq> 0" by (auto simp: nchild_def in_range_def split: if_splits)
    define v where "v = lookup None u cs"
    have rt: "lookup None t (c # k) = lookup None u k" for k using Some t by (simp add: lookup.simps)
    have ne: "cs = [] \<Longrightarrow> v = None \<Longrightarrow> \<exists>k'. lookup None u k' \<noteq> None"
      using not_redundant_key[of None u] ch Some by blast
    have pu: "trie_ok None u" "\<forall>s. lookup None u cs = Some s \<longrightarrow> p \<in> s"
      using ch Some Cons.prems(2) rt by auto
    obtain b u' where ih: "mtrie_rm cs p u = Some (b, u')" "trie_ok None u'"
      "lookup None u' = (lookup None u)(cs := strip p v)"
      "b \<longleftrightarrow> (case v of Some s \<Rightarrow> s = {p} | None \<Rightarrow> cs = [] \<or> (\<exists>k'. lookup None u (cs @ k') \<noteq> None))"
      using Cons.IH[OF pu] unfolding v_def by blast
    have b: "b \<longleftrightarrow> (case lookup None t (c # cs) of Some s \<Rightarrow> s = {p} | None \<Rightarrow>
        c # cs = [] \<or> (\<exists>k'. lookup None t ((c # cs) @ k') \<noteq> None))"
      unfolding append_Cons rt using ih(4) ne by (auto simp: v_def split: option.splits)
    note rd = room_read[OF room_old[OF sh r]]
    show ?thesis
    proof (cases "is_redundant None u'")
      case True
      have c: "nchild m n nx c \<noteq> None" using Some by simp
      with ok obtain m' n' l' nx' where p: "trie_prune c m n l nx = Some (m', n', l', nx')"
        "node_ok m' n' l' nx'" "nchild m' n' nx' = (nchild m n nx)(c := None)" by (rule prune_ok)
      have "\<forall>k. ((lookup None u)(cs := strip p v)) k = None"
        using redundant_lookup[OF ih(2) True] ih(3) by metis
      note rf = lookup_del[OF p(3) Some this, of r l' l]
      have "trie_ok None (Trie r m' n' l' nx')" unfolding trie_ok_Trie p(3) using p(2) ch by auto
      moreover have "mtrie_rm (c # cs) p t = Some (b, Trie r m' n' l' nx')"
        using r n rd Some ih(1) True p(1) mtrie_prune_eq[OF ok c] by (simp add: t split: if_splits)
      ultimately show ?thesis using rf rt b t v_def by auto
    next
      case False
      obtain nx' where w: "(if n = 1 then Some (Node (Some u')) else write_slot nx (unat c - unat m) (Some u')) = Some nx'"
        "shape_ok m n nx'" "nchild m n nx' = (nchild m n nx)(c := Some u')"
        using room_old[OF sh r] by (rule room_write)
      have "node_ok m n l nx'" using w(2) ok Some unfolding node_ok_def w(3) card_children_upd by simp
      then have "trie_ok None (Trie r m n l nx')"
        unfolding trie_ok_Trie w(3) using ch ih(2) False by (auto split: if_splits)
      moreover have "lookup None (Trie r m n l nx') = (lookup None t)(c # cs := strip p v)"
        unfolding t by (rule lookup_upd[OF w(3) ih(3)]) (simp add: Some)
      moreover have "mtrie_rm (c # cs) p t = Some (b, Trie r m n l nx')"
        using r n rd Some ih(1) False w(1) by (simp add: t split: if_splits)
      ultimately show ?thesis using rt b v_def by auto
    qed
  qed
qed

lemma mtrie_rm_abort:
  assumes "trie_ok None t" "lookup None t k = Some s" "p \<notin> s"
  shows "mtrie_rm k p t = None"
  using assms
proof (induction k arbitrary: t)
  case Nil
  then show ?case by (cases t) (simp add: lookup.simps)
next
  case (Cons c cs)
  obtain r m n l nx where t: "t = Trie r m n l nx" by (cases t)
  have sh: "shape_ok m n nx" using Cons.prems(1) t by (simp add: trie_ok_Trie node_ok_def)
  obtain u where u: "nchild m n nx c = Some u" "lookup None u cs = Some s"
    using Cons.prems(2) by (auto simp: t lookup.simps split: option.splits)
  then have r: "in_range m n c" by (auto simp: nchild_def split: if_splits)
  have "mtrie_rm cs p u = None" "n \<noteq> 0" using Cons u t r by (auto simp: trie_ok_Trie in_range_def)
  then show ?case using u r room_read[OF room_old[OF sh r]] by (auto simp: t split: if_splits)
qed

section \<open>Matching a message\<close>

lemma mtrie_match_ok:
  assumes "trie_ok None t" "\<forall>k s. lookup None t k = Some s \<longrightarrow> finite s"
  shows "\<exists>ps. mtrie_match d t = Some ps \<and> set ps = (\<Union>k \<in> {k. prefix k d}. subs t k)"
  using assms
proof (induction d arbitrary: t)
  case Nil
  obtain r m n l nx where t: "t = Trie r m n l nx" by (cases t)
  have "\<forall>s. r = Some s \<longrightarrow> finite s" using Nil(2)[rule_format, of "[]"] by (simp add: t lookup.simps)
  then show ?case by (auto simp: t subs_def lookup.simps split: option.splits)
next
  case (Cons c cs)
  obtain r m n l nx where t: "t = Trie r m n l nx" by (cases t)
  define here where "here = (case r of None \<Rightarrow> [] | Some s \<Rightarrow> sorted_list_of_set s)"
  have sh: "shape_ok m n nx" and ch: "\<forall>c u. nchild m n nx c = Some u \<longrightarrow> trie_ok None u"
    using Cons.prems t by (auto simp: trie_ok_Trie node_ok_def)
  have "\<forall>s. r = Some s \<longrightarrow> finite s" using Cons.prems(2)[rule_format, of "[]"] by (simp add: t lookup.simps)
  then have h: "set here = subs t []" by (auto simp: here_def subs_def t lookup.simps split: option.splits)
  have "{k. prefix k (c # cs)} = insert [] ((#) c ` {k. prefix k cs})" by (auto simp: prefix_Cons)
  then have split: "(\<Union>k \<in> {k. prefix k (c # cs)}. subs t k) = set here \<union> (\<Union>k \<in> {k. prefix k cs}. subs t (c # k))"
    using h by simp
  show ?case
  proof (cases "nchild m n nx c")
    case None
    have "mtrie_match (c # cs) t = Some here"
    proof (cases "in_range m n c")
      case True
      have "n \<noteq> 1" "n \<noteq> 0" using None sh True by (auto simp: shape_ok_def nchild_def in_range_def)
      then show ?thesis using None True room_read[OF room_old[OF sh True]] by (simp add: t here_def)
    next
      case False
      then have "n = 0 \<or> n = 1 \<and> c \<noteq> m \<or> n \<noteq> 0 \<and> n \<noteq> 1" by (auto simp: in_range_def)
      then show ?thesis using False by (elim disjE) (simp_all add: t here_def)
    qed
    moreover have "subs t (c # k) = {}" for k using None by (simp add: subs_def t lookup.simps)
    ultimately show ?thesis unfolding split by simp
  next
    case (Some u)
    then have r: "in_range m n c" by (auto simp: nchild_def split: if_splits)
    have sub: "subs t (c # k) = subs u k" for k using Some by (simp add: subs_def t lookup.simps)
    have "\<forall>k s. lookup None u k = Some s \<longrightarrow> finite s"
    proof (intro allI impI)
      fix k s assume "lookup None u k = Some s"
      then have "lookup None t (c # k) = Some s" using Some by (simp add: t lookup.simps)
      then show "finite s" using Cons.prems(2) by blast
    qed
    then obtain ps where ps: "mtrie_match cs u = Some ps" "set ps = (\<Union>k \<in> {k. prefix k cs}. subs u k)"
      using Cons.IH[of u] ch Some by blast
    have "n = 1 \<Longrightarrow> c = m" "n \<noteq> 0" using r by (auto simp: in_range_def byte_eq)
    then have "mtrie_match (c # cs) t = Some (here @ ps)"
      using Some r ps(1) room_read[OF room_old[OF sh r]] by (auto simp: t here_def split: if_splits)
    then show ?thesis unfolding split using ps(2) sub by simp
  qed
qed

section \<open>Removal of a pipe\<close>

text \<open>What becomes of an entry of a table, and the positions of the entries in use.\<close>

definition entry_ok :: "'p \<Rightarrow> 'p mtrie option \<Rightarrow> 'p mtrie option \<Rightarrow> bool" where
  "entry_ok p e e' \<longleftrightarrow> (case e of
     None \<Rightarrow> e' = None
   | Some u \<Rightarrow> \<exists>u'. trie_ok None u' \<and> lookup None u' = strip p \<circ> lookup None u \<and>
       e' = (if is_redundant None u' then None else Some u'))"

definition pos :: "byte \<Rightarrow> nat \<Rightarrow> 'v trie option list \<Rightarrow> nat set" where
  "pos m c tab = (\<lambda>i. unat m + c + i) ` occupied tab"

lemma occupied_Nil [simp]: "occupied [] = {}"
  by (simp add: occupied_def)

lemma occupied_Cons: "occupied (e # es) = (if e = None then {} else {0}) \<union> Suc ` occupied es"
proof (rule set_eqI)
  fix i show "i \<in> occupied (e # es) \<longleftrightarrow> i \<in> (if e = None then {} else {0}) \<union> Suc ` occupied es"
    by (cases i) (auto simp: occupied_def)
qed

lemma pos_Nil [simp]: "pos m c [] = {}"
  by (simp add: pos_def)

lemma pos_Cons: "pos m c (e # es) = (if e = None then {} else {unat m + c}) \<union> pos m (Suc c) es"
  by (auto simp: pos_def occupied_Cons image_iff)

lemma finite_pos [simp]: "finite (pos m c tab)"
  by (simp add: pos_def)

lemma card_occupied_Cons: "card (occupied (e # es)) = (if e = None then 0 else 1) + card (occupied es)"
proof -
  have "card (Suc ` occupied es) = card (occupied es)" by (simp add: card_image)
  then show ?thesis by (auto simp: occupied_Cons card_insert_if)
qed

lemma Min_insert_min: "finite S \<Longrightarrow> Min (insert (min a (x :: nat)) S) = Min (insert a (insert x S))"
  by (cases "S = {}") (simp_all add: min.assoc)

lemma Max_insert_max: "finite S \<Longrightarrow> Max (insert (max a (x :: nat)) S) = Max (insert a (insert x S))"
  by (cases "S = {}") (simp_all add: max.assoc)

lemma rm_extremes:
  assumes "c + unat m < 256" "finite S"
  shows "Min (insert (unat (if c + unat m < unat a then of_nat (c + unat m) else (a :: byte))) S) =
      Min (insert (unat a) (insert (unat m + c) S))"
    "Max (insert (unat (if unat a < c + unat m then of_nat (c + unat m) else (a :: byte))) S) =
      Max (insert (unat a) (insert (unat m + c) S))"
proof -
  have x: "unat (of_nat (c + unat m) :: byte) = c + unat m" using assms(1) by (rule byte_at)
  have "unat (if c + unat m < unat a then of_nat (c + unat m) else a) = min (unat a) (unat m + c)"
    unfolding if_distrib[of unat] x by (simp add: min_def add.commute)
  then show "Min (insert (unat (if c + unat m < unat a then of_nat (c + unat m) else (a :: byte))) S) =
      Min (insert (unat a) (insert (unat m + c) S))" using Min_insert_min[OF assms(2)] by metis
  have "unat (if unat a < c + unat m then of_nat (c + unat m) else a) = max (unat a) (unat m + c)"
    unfolding if_distrib[of unat] x by (simp add: max_def add.commute)
  then show "Max (insert (unat (if unat a < c + unat m then of_nat (c + unat m) else (a :: byte))) S) =
      Max (insert (unat a) (insert (unat m + c) S))" using Max_insert_max[OF assms(2)] by metis
qed

definition rm_spec :: "'p \<Rightarrow> 'p mtrie \<Rightarrow> bool" where
  "rm_spec p u \<longleftrightarrow> (\<forall>b. \<exists>ks u'. mtrie_rm_pipe b p u = Some (ks, u') \<and> trie_ok None u' \<and>
     lookup None u' = strip p \<circ> lookup None u \<and> distinct ks \<and>
     set ks = {b @ k |k. lookup None u k = Some {p}})"

definition table_keys :: "bytes \<Rightarrow> 'p \<Rightarrow> byte \<Rightarrow> nat \<Rightarrow> 'p mtrie option list \<Rightarrow> bytes set" where
  "table_keys b p m c tab = {b @ (m + of_nat (c + i)) # k |i u k.
     i < length tab \<and> tab ! i = Some u \<and> lookup None u k = Some {p}}"

lemma ex_nat_split: "(\<exists>i :: nat. Q i) \<longleftrightarrow> Q 0 \<or> (\<exists>i. Q (Suc i))"
  by (metis not0_implies_Suc)

lemma table_keys_Cons:
  "table_keys b p m c (e # es) =
     (case e of None \<Rightarrow> {} | Some u \<Rightarrow> {b @ (m + of_nat c) # k |k. lookup None u k = Some {p}}) \<union>
     table_keys b p m (Suc c) es" (is "?L = ?R")
proof (rule set_eqI)
  fix x
  have "x \<in> ?L \<longleftrightarrow> (\<exists>i. \<exists>u k. x = b @ (m + of_nat (c + i)) # k \<and> i < Suc (length es) \<and>
      (e # es) ! i = Some u \<and> lookup None u k = Some {p})" by (simp add: table_keys_def)
  also have "\<dots> \<longleftrightarrow> (\<exists>u k. x = b @ (m + of_nat c) # k \<and> e = Some u \<and> lookup None u k = Some {p}) \<or>
      (\<exists>i u k. x = b @ (m + of_nat (Suc c + i)) # k \<and> i < length es \<and> es ! i = Some u \<and> lookup None u k = Some {p})"
    by (subst ex_nat_split) simp
  also have "\<dots> \<longleftrightarrow> x \<in> ?R" by (cases e) (auto simp: table_keys_def)
  finally show "x \<in> ?L \<longleftrightarrow> x \<in> ?R" .
qed

lemma table_keys_disjoint:
  assumes "c + unat m + Suc (length es) \<le> 256"
  shows "b @ (m + of_nat c) # k \<notin> table_keys b p m (Suc c) es"
proof
  assume "b @ (m + of_nat c) # k \<in> table_keys b p m (Suc c) es"
  then obtain i where i: "i < length es" "m + of_nat c = m + of_nat (Suc c + i)"
    unfolding table_keys_def by blast
  then have "unat (m + of_nat c) = unat (m + of_nat (Suc c + i))" by argo
  then show False using assms i(1) byte_add[of m c] byte_add[of m "Suc c + i"] by simp
qed

lemma entry_ok_None [simp]: "entry_ok p None e' \<longleftrightarrow> e' = None"
  by (simp add: entry_ok_def)

lemma mtrie_rm_table_ok:
  assumes "\<forall>u. Some u \<in> set tab \<longrightarrow> rm_spec p u" "card (occupied tab) \<le> l" "c + unat m + length tab \<le> 256"
  shows "\<exists>ks tab' l' lo hi. mtrie_rm_table b p m c tab l a z = Some (ks, tab', l', lo, hi) \<and>
    list_all2 (entry_ok p) tab tab' \<and> l' + card (occupied tab) = l + card (occupied tab') \<and>
    distinct ks \<and> set ks = table_keys b p m c tab \<and>
    unat lo = Min (insert (unat a) (pos m c tab')) \<and> unat hi = Max (insert (unat z) (pos m c tab'))"
  using assms
proof (induction tab arbitrary: c l a z)
  case Nil
  then show ?case by (simp add: table_keys_def)
next
  case (Cons e es)
  have es: "\<forall>u. Some u \<in> set es \<longrightarrow> rm_spec p u" using Cons.prems(1) by simp
  have c: "Suc c + unat m + length es \<le> 256" "c + unat m < 256" using Cons.prems(3) by auto
  show ?case
  proof (cases e)
    case None
    then obtain ks tab' l' lo hi where r: "mtrie_rm_table b p m (Suc c) es l a z = Some (ks, tab', l', lo, hi)"
      "list_all2 (entry_ok p) es tab'" "l' + card (occupied es) = l + card (occupied tab')"
      "distinct ks" "set ks = table_keys b p m (Suc c) es"
      "unat lo = Min (insert (unat a) (pos m (Suc c) tab'))" "unat hi = Max (insert (unat z) (pos m (Suc c) tab'))"
      using Cons.IH[OF es _ c(1), of l a z] Cons.prems(2) by (auto simp: card_occupied_Cons)
    then show ?thesis using None
      by (intro exI[of _ ks] exI[of _ "None # tab'"] exI[of _ l'] exI[of _ lo] exI[of _ hi])
        (simp add: card_occupied_Cons table_keys_Cons pos_Cons)
  next
    case (Some u)
    obtain ks1 u' where u: "mtrie_rm_pipe (b @ [m + of_nat c]) p u = Some (ks1, u')" "trie_ok None u'"
      "lookup None u' = strip p \<circ> lookup None u" "distinct ks1"
      "set ks1 = {b @ (m + of_nat c) # k |k. lookup None u k = Some {p}}"
      using Cons.prems(1)[rule_format, of u, unfolded rm_spec_def, THEN spec[of _ "b @ [m + of_nat c]"]] Some
      by auto
    define red where "red \<longleftrightarrow> is_redundant None u'"
    define l1 where "l1 = (if red then l - 1 else l)"
    define a1 where "a1 = (if red then a else if c + unat m < unat a then of_nat (c + unat m) else a)"
    define z1 where "z1 = (if red then z else if unat z < c + unat m then of_nat (c + unat m) else z)"
    have l: "1 + card (occupied es) \<le> l" using Cons.prems(2) Some by (simp add: card_occupied_Cons)
    then have ll: "card (occupied es) \<le> l1" by (auto simp: l1_def)
    obtain ks tab' l' lo hi where r: "mtrie_rm_table b p m (Suc c) es l1 a1 z1 = Some (ks, tab', l', lo, hi)"
      "list_all2 (entry_ok p) es tab'" "l' + card (occupied es) = l1 + card (occupied tab')"
      "distinct ks" "set ks = table_keys b p m (Suc c) es"
      "unat lo = Min (insert (unat a1) (pos m (Suc c) tab'))" "unat hi = Max (insert (unat z1) (pos m (Suc c) tab'))"
      using Cons.IH[OF es ll c(1), of a1 z1] by blast
    define e' where "e' = (if red then None else Some u')"
    have "mtrie_rm_table b p m c (e # es) l a z = Some (ks1 @ ks, e' # tab', l', lo, hi)"
      using u(1) r(1) l unfolding Some 
      by (cases red) (auto simp: l1_def a1_def z1_def e'_def Let_def red_def split: if_splits)
    moreover have "entry_ok p e e'" using u Some by (auto simp: entry_ok_def e'_def red_def)
    moreover have "set ks1 \<inter> set ks = {}"
      using table_keys_disjoint[of c m es b _ p] Cons.prems(3) unfolding u(5) r(5) by auto
    moreover have "unat lo = Min (insert (unat a) (pos m c (e' # tab')))"
      "unat hi = Max (insert (unat z) (pos m c (e' # tab')))"
      using r(6,7) rm_extremes[OF c(2) finite_pos, of a m "Suc c" tab'] rm_extremes[OF c(2) finite_pos, of z m "Suc c" tab']
      by (cases red; simp add: pos_Cons a1_def z1_def e'_def)+
    moreover have "l' + card (occupied (e # es)) = l + card (occupied (e' # tab'))"
      using r(3) l Some by (auto simp: card_occupied_Cons l1_def e'_def)
    ultimately show ?thesis using r u(4,5) Some
      by (intro exI[of _ "ks1 @ ks"] exI[of _ "e' # tab'"] exI[of _ l'] exI[of _ lo] exI[of _ hi])
        (simp add: table_keys_Cons)
  qed
qed

text \<open>The compaction at the end of the loop.\<close>

lemma extremes_occupied:
  assumes "unat m + length tab \<le> 256" "occupied tab \<noteq> {}"
  obtains i j where "i \<in> occupied tab" "j \<in> occupied tab" "\<forall>k \<in> occupied tab. i \<le> k \<and> k \<le> j"
    "Min (insert (unat m + length tab - 1) (pos m 0 tab)) = unat m + i"
    "Max (insert (unat m) (pos m 0 tab)) = unat m + j"
proof -
  let ?i = "Min (occupied tab)" and ?j = "Max (occupied tab)"
  have in_occ: "?i \<in> occupied tab" "?j \<in> occupied tab" using assms(2) by simp_all
  then have lt: "?i < length tab" by (simp add: occupied_def)
  have "Min (insert (unat m + length tab - 1) (pos m 0 tab)) = unat m + ?i"
    using in_occ lt by (intro Min_eqI) (auto simp: pos_def)
  moreover have "Max (insert (unat m) (pos m 0 tab)) = unat m + ?j"
    using in_occ by (intro Max_eqI) (auto simp: pos_def)
  ultimately show ?thesis using that[OF in_occ] by simp
qed

lemma mtrie_compact_ok:
  assumes m: "unat m + n \<le> 256" and len: "length tab = n" "1 < n" and l: "l = card (occupied tab)"
    and lo: "unat lo = Min (insert (unat m + n - 1) (pos m 0 tab))"
    and hi: "unat hi = Max (insert (unat m) (pos m 0 tab))"
  shows "\<exists>m' n' nx'. mtrie_compact m n l tab lo hi = Some (m', n', nx') \<and> node_ok m' n' l nx' \<and>
    nchild m' n' nx' = nchild m n (Table tab)"
proof (cases "l = 0")
  case True
  then have "occupied tab = {}" using l by simp
  then have "nchild m n (Table tab) d = None" for d
    using len by (auto simp: nchild_def in_range_def occupied_def)
  then have e: "nchild m 0 No_next = nchild m n (Table tab)" by (auto simp: nchild_def in_range_def)
  then have "node_ok m 0 l No_next" using True m by (simp add: node_ok_def shape_ok_def nchild_def in_range_def)
  then show ?thesis using True e by (intro exI[of _ m] exI[of _ 0] exI[of _ No_next]) (simp add: mtrie_compact_def)
next
  case False
  then have "occupied tab \<noteq> {}" using l by auto
  then obtain i j where ij: "i \<in> occupied tab" "j \<in> occupied tab" "\<forall>k \<in> occupied tab. i \<le> k \<and> k \<le> j"
    "unat lo = unat m + i" "unat hi = unat m + j" using extremes_occupied[of m tab] m len lo hi by auto
  then have lt: "i < n" "j < n" "i \<le> j" "tab ! i \<noteq> None" "tab ! j \<noteq> None" using len by (auto simp: occupied_def)
  have lo_eq: "lo = m + of_nat i" using ij(4) lt m byte_add[of m i] by (simp add: byte_eq)
  have lf: "l = card {d. nchild m n (Table tab) d \<noteq> None}" using card_table[of m tab] m len l by simp
  show ?thesis
  proof (cases "l = 1")
    case True
    then obtain k where "occupied tab = {k}" using l by (metis card_1_singletonE)
    then have k: "occupied tab = {i}" "j = i" using ij by auto
    obtain u where u: "tab ! i = Some u" using lt by blast
    have nc: "nchild (m + of_nat i) 1 (Node (Some u)) = nchild m n (Table tab)"
      using single_table[of m tab i u] m len k u by simp
    have "unat lo + 1 \<le> 256" using byte_lt[of lo] by simp
    then have "node_ok lo 1 l (Node (Some u))" using lf lo_eq unfolding node_ok_def shape_ok_def nc[symmetric] by simp
    moreover have "mtrie_compact m n l tab lo hi = Some (lo, 1, Node (Some u))"
      using True ij k u lt by (simp add: mtrie_compact_def in_range_def byte_eq)
    ultimately show ?thesis using nc lo_eq by auto
  next
    case l1: False
    have "i \<noteq> j"
    proof
      assume "i = j"
      then have "occupied tab \<subseteq> {i}" using ij(3) by fastforce
      then have "card (occupied tab) \<le> 1" using card_mono[of "{i}"] by simp
      then show False using l l1 False by simp
    qed
    define n' where "n' = j + 1 - i"
    have n': "1 < n'" "n' \<le> n - i" "i + n' = j + 1" using \<open>i \<noteq> j\<close> lt by (auto simp: n'_def)
    have free: "tab ! k = None" if "k < i \<or> j < k" "k < n" for k
    proof -
      have "k \<notin> occupied tab" using ij(3) that(1) by fastforce
      then show ?thesis using that(2) len by (simp add: occupied_def)
    qed
    define tab' where "tab' = take n' (drop i tab)"
    have nc: "nchild lo n' (Table tab') = nchild m n (Table tab)"
    proof -
      have "\<forall>k. n' \<le> k \<and> k < length (drop i tab) \<longrightarrow> drop i tab ! k = None"
      proof (intro allI impI)
        fix k assume "n' \<le> k \<and> k < length (drop i tab)"
        then have "j < i + k" "i + k < n" using n' len by auto
        then show "drop i tab ! k = None" using free[of "i + k"] len by simp
      qed
      then have "nchild lo n' (Table tab') = nchild lo (n - i) (Table (drop i tab))"
        using take_table[of n' "drop i tab" lo] n' len by (simp add: tab'_def)
      then show ?thesis using drop_table[of m tab i] m len lt free lo_eq by (simp add: add.commute)
    qed
    have nk: "node_ok lo n' l (Table tab')"
      using nc lf ij(4) n' m lt len by (intro node_okI_table[OF _ _ _ _ _ nc]) (auto simp: tab'_def)
    show ?thesis
    proof (cases "m < lo \<or> unat hi < unat m + n - 1")
      case True
      then have "n' < n" using ij lt n' by (auto simp: byte_order)
      then have "mtrie_compact m n l tab lo hi = Some (lo, n', Table tab')"
        using True False l1 ij lt \<open>i \<noteq> j\<close> n' by (auto simp: mtrie_compact_def Let_def byte_order n'_def tab'_def)
      then show ?thesis using nk nc by blast
    next
      case f: False
      then have "i = 0" "j = n - 1" using ij lt by (auto simp: byte_order)
      then have "lo = m" "n' = n" "tab' = tab" using lo_eq len by (auto simp: n'_def tab'_def)
      then show ?thesis using nk f False l1 by (auto simp: mtrie_compact_def)
    qed
  qed
qed

text \<open>A node whose entries were all processed.\<close>

lemma strip_node:
  assumes e: "\<forall>c. entry_ok p (nchild m n nx c) (nchild m' n' nx' c)" and nk: "node_ok m' n' l' nx'"
  shows "trie_ok None (Trie (strip p r) m' n' l' nx')"
    "lookup None (Trie (strip p r) m' n' l' nx') = strip p \<circ> lookup None (Trie r m n l nx)"
proof -
  show "trie_ok None (Trie (strip p r) m' n' l' nx')"
    unfolding trie_ok_Trie
  proof (intro conjI allI impI)
    fix c u assume u: "nchild m' n' nx' c = Some u"
    show "trie_ok None u" "\<not> is_redundant None u"
      using e[rule_format, of c] u by (auto simp: entry_ok_def split: option.splits if_splits)
  qed (rule nk)
  show "lookup None (Trie (strip p r) m' n' l' nx') = strip p \<circ> lookup None (Trie r m n l nx)"
  proof
    fix k show "lookup None (Trie (strip p r) m' n' l' nx') k = (strip p \<circ> lookup None (Trie r m n l nx)) k"
    proof (cases k)
      case Nil
      then show ?thesis by (simp add: lookup.simps)
    next
      case (Cons c cs)
      show ?thesis
      proof (cases "nchild m n nx c")
        case None
        then show ?thesis using e[rule_format, of c] Cons by (simp add: lookup.simps strip_def)
      next
        case (Some u)
        then obtain u' where u': "trie_ok None u'" "lookup None u' = strip p \<circ> lookup None u"
          "nchild m' n' nx' c = (if is_redundant None u' then None else Some u')"
          using e[rule_format, of c] by (auto simp: entry_ok_def)
        have "strip p (lookup None u cs) = None" if "is_redundant None u'"
          using redundant_lookup[OF u'(1) that, of cs] u'(2) by simp
        then show ?thesis using u' Some Cons by (simp add: lookup.simps)
      qed
    qed
  qed
qed

lemma table_keys_UN:
  assumes "unat m + length tab \<le> 256"
  shows "(\<Union>c. case nchild m (length tab) (Table tab) c of None \<Rightarrow> {} |
      Some u \<Rightarrow> {(b @ [c]) @ k |k. lookup None u k = Some {p}}) = table_keys b p m 0 tab" (is "?L = ?R")
proof
  show "?L \<subseteq> ?R"
  proof
    fix x assume "x \<in> ?L"
    then obtain c u k where c: "nchild m (length tab) (Table tab) c = Some u" "x = b @ c # k"
      "lookup None u k = Some {p}" by (auto split: option.splits)
    define i where "i = unat c - unat m"
    have i: "i < length tab" "unat c = unat m + i" "tab ! i = Some u"
      using c(1) by (auto simp: nchild_def in_range_def i_def split: if_splits)
    then have "c = m + of_nat (0 + i)" using assms byte_add[of m i] by (simp add: byte_eq)
    then show "x \<in> ?R" unfolding table_keys_def using c(2,3) i(1,3) by blast
  qed
  show "?R \<subseteq> ?L"
  proof
    fix x assume "x \<in> ?R"
    then obtain i u k where i: "x = b @ (m + of_nat i) # k" "i < length tab" "tab ! i = Some u"
      "lookup None u k = Some {p}" by (auto simp: table_keys_def)
    then have "nchild m (length tab) (Table tab) (m + of_nat i) = Some u"
      using assms byte_add[of m i] by (simp add: nchild_def in_range_def)
    then show "x \<in> ?L" using i by (auto intro!: exI[of _ "m + of_nat i"])
  qed
qed

lemma list_all2_entries:
  assumes "list_all2 (entry_ok p) tab tab'"
  shows "entry_ok p (nchild m (length tab) (Table tab) c) (nchild m (length tab') (Table tab') c)"
  using assms by (auto simp: nchild_def in_range_def list_all2_conv_all_nth)

text \<open>The keys below a node that lose their last subscriber, and how the results at a node combine.\<close>

definition below :: "bytes \<Rightarrow> 'p \<Rightarrow> byte \<Rightarrow> nat \<Rightarrow> 'p set option tnext \<Rightarrow> bytes set" where
  "below b p m n nx = (\<Union>c. case nchild m n nx c of None \<Rightarrow> {} |
     Some u \<Rightarrow> {(b @ [c]) @ k |k. lookup None u k = Some {p}})"

lemma rm_node:
  assumes eq: "mtrie_rm_pipe b p (Trie r m n l nx) =
      Some ((if r = Some {p} then [b] else []) @ ks', Trie (strip p r) m' n' l' nx')"
    and nk: "node_ok m' n' l' nx'"
    and e: "\<forall>c. entry_ok p (nchild m n nx c) (nchild m' n' nx' c)"
    and ks: "distinct ks'" "set ks' = below b p m n nx"
  shows "\<exists>ks u'. mtrie_rm_pipe b p (Trie r m n l nx) = Some (ks, u') \<and> trie_ok None u' \<and>
      lookup None u' = strip p \<circ> lookup None (Trie r m n l nx) \<and> distinct ks \<and>
      set ks = {b @ k |k. lookup None (Trie r m n l nx) k = Some {p}}"
proof -
  let ?ks = "if r = Some {p} then [b] else []"
  have "b \<notin> set ks'" using ks(2) by (auto simp: below_def split: option.splits)
  moreover have "{b @ k |k. lookup None (Trie r m n l nx) k = Some {p}} = set ?ks \<union> set ks'"
    using keys_split_gen[where P = "\<lambda>v. v = Some {p}" and d = None] ks(2) by (simp add: below_def)
  ultimately show ?thesis using eq strip_node(1)[OF e nk, of r] strip_node(2)[OF e nk, of r l] ks(1) by simp
qed

lemma pipes_at_node:
  "(case r of None \<Rightarrow> ([], None)
    | Some s \<Rightarrow> if p \<in> s \<and> s - {p} = {} then ([b], None) else ([], Some (s - {p}))) =
   (if r = Some {p} then [b] else [], strip p r)"
  by (auto simp: strip_def split: option.splits)

lemma mtrie_rm_pipe_ok:
  assumes "trie_ok None t"
  shows "rm_spec p t"
  using assms
proof (induction rule: trie_ok.induct)
  case (1 t)
  obtain r m n l nx where t: "t = Trie r m n l nx" by (cases t)
  have ok: "node_ok m n l nx" and ch: "\<And>c u. nchild m n nx c = Some u \<Longrightarrow> rm_spec p u"
    using 1 by (auto simp: t)
  show ?case unfolding rm_spec_def t
  proof
    fix b :: bytes
    note simps = mtrie_rm_pipe.simps pipes_at_node
    consider (leaf) "n = 0" | (one) u where "n = 1" "nx = Node (Some u)"
      | (many) tab where "1 < n" "nx = Table tab" "length tab = n"
    proof -
      consider "n = 0" | "n = 1" | "1 < n" by linarith
      then show ?thesis using ok that unfolding node_ok_def shape_ok_def by cases blast+
    qed
    then show "\<exists>ks u'. mtrie_rm_pipe b p (Trie r m n l nx) = Some (ks, u') \<and> trie_ok None u' \<and>
      lookup None u' = strip p \<circ> lookup None (Trie r m n l nx) \<and> distinct ks \<and>
      set ks = {b @ k |k. lookup None (Trie r m n l nx) k = Some {p}}"
    proof cases
      case leaf
      then have "nchild m n nx c = None" for c by (auto simp: nchild_def in_range_def)
      then show ?thesis using leaf ok
        by (intro rm_node[of b p r m n l nx "[]" m n l nx]) (simp_all add: simps below_def)
    next
      case one
      have nc: "nchild m n nx c = (if c = m then Some u else None)" for c
        using one by (auto simp: nchild_def in_range_def byte_eq)
      then have "{c. nchild m n nx c \<noteq> None} = {m}" by auto
      then have l: "l = 1" using ok by (simp add: node_ok_def)
      obtain ks' u' where u: "mtrie_rm_pipe (b @ [m]) p u = Some (ks', u')" "trie_ok None u'"
        "lookup None u' = strip p \<circ> lookup None u" "distinct ks'"
        "set ks' = {(b @ [m]) @ k |k. lookup None u k = Some {p}}"
        using ch[of m u, unfolded rm_spec_def, THEN spec[of _ "b @ [m]"]] nc by auto
      have bl: "set ks' = below b p m n nx" using u(5) by (auto simp: below_def nc split: if_splits)
      show ?thesis
      proof (cases "is_redundant None u'")
        case True
        have "node_ok m 0 0 (Node None)" using byte_lt[of m] by (simp add: node_ok_def shape_ok_def nchild_def)
        moreover have "entry_ok p (nchild m n nx c) (nchild m 0 (Node None) c)" for c
          using nc u True by (auto simp: entry_ok_def nchild_def in_range_def)
        ultimately show ?thesis using one u True l bl
          by (intro rm_node[of b p r m n l nx ks' m 0 0 "Node None"]) (simp_all add: simps)
      next
        case False
        have nc': "nchild m n (Node (Some u')) c = (if c = m then Some u' else None)" for c
          using one by (auto simp: nchild_def in_range_def byte_eq)
        then have "{c. nchild m n (Node (Some u')) c \<noteq> None} = {m}" by auto
        then have "node_ok m n l (Node (Some u'))"
          using one ok l by (simp add: node_ok_def shape_ok_def)
        moreover have "entry_ok p (nchild m n nx c) (nchild m n (Node (Some u')) c)" for c
          using nc nc' u False by (auto simp: entry_ok_def)
        ultimately show ?thesis using one u False bl
          by (intro rm_node[of b p r m n l nx ks' m n l "Node (Some u')"]) (simp_all add: simps)
      qed
    next
      case many
      have m: "unat m + n \<le> 256" using ok by (simp add: node_ok_def shape_ok_def)
      have l: "l = card (occupied tab)" using ok card_table[of m tab] m many by (simp add: node_ok_def)
      have "\<forall>u. Some u \<in> set tab \<longrightarrow> rm_spec p u"
      proof (intro allI impI)
        fix u assume "Some u \<in> set tab"
        then obtain i where i: "i < n" "tab ! i = Some u" using many by (metis in_set_conv_nth)
        then have "nchild m n nx (m + of_nat i) = Some u"
          using many m byte_add[of m i] by (simp add: nchild_def in_range_def)
        then show "rm_spec p u" by (rule ch)
      qed
      then obtain ks' tab' l' lo hi where r:
        "mtrie_rm_table b p m 0 tab l (m + of_nat (n - 1)) m = Some (ks', tab', l', lo, hi)"
        "list_all2 (entry_ok p) tab tab'" "l' + card (occupied tab) = l + card (occupied tab')"
        "distinct ks'" "set ks' = table_keys b p m 0 tab"
        "unat lo = Min (insert (unat (m + of_nat (n - 1))) (pos m 0 tab'))"
        "unat hi = Max (insert (unat m) (pos m 0 tab'))"
        using mtrie_rm_table_ok[of tab p l 0 m b "m + of_nat (n - 1)" m] l m many by auto
      have len: "length tab' = n" using r(2) many by (simp add: list_all2_lengthD)
      have "unat (m + of_nat (n - 1)) = unat m + n - 1" using byte_add[of m "n - 1"] m many by simp
      then obtain m' n' nx' where c: "mtrie_compact m n l' tab' lo hi = Some (m', n', nx')"
        "node_ok m' n' l' nx'" "nchild m' n' nx' = nchild m n (Table tab')"
        using mtrie_compact_ok[OF m len many(1), of l' lo hi] r(3,6,7) l by auto
      have "entry_ok p (nchild m n nx c) (nchild m' n' nx' c)" for c
        using list_all2_entries[OF r(2), of m c] many len c(3) by simp
      moreover have "set ks' = below b p m n nx"
        using table_keys_UN[of m tab b p] m many r(5) by (simp add: below_def)
      ultimately show ?thesis using many r(1,4) c(1,2)
        by (intro rm_node[of b p r m n l nx ks' m' n' l' nx']) (simp_all add: simps)
    qed
  qed
qed

lemma strip_subs:
  assumes "mtrie_ok t" "trie_ok None t'" "lookup None t' = strip p \<circ> lookup None t"
  shows "mtrie_ok t'" "subs t' k = subs t k - {p}"
proof -
  have s: "lookup None t' k = strip p (lookup None t k)" for k using assms(3) by simp
  show "mtrie_ok t'" unfolding mtrie_ok_def
  proof (intro conjI allI impI)
    fix k u assume "lookup None t' k = Some u"
    then obtain v where v: "lookup None t k = Some v" "u = v - {p}" "\<not> (p \<in> v \<and> v - {p} = {})"
      unfolding s by (auto simp: strip_def split: option.splits if_splits)
    then have "v \<noteq> {}" "finite v" using assms(1) by (auto simp: mtrie_ok_def)
    then show "u \<noteq> {}" "finite u" using v(2,3) by auto
  qed (rule assms(2))
  show "subs t' k = subs t k - {p}" unfolding subs_def s by (auto simp: strip_def split: option.splits)
qed

section \<open>Updates of the subscriptions\<close>

lemma finite_subs: "mtrie_ok t \<Longrightarrow> finite (subs t k)"
  by (auto simp: subs_def mtrie_ok_def split: option.splits)

lemma mtrie_add_subs:
  assumes "mtrie_ok t"
  shows "\<exists>t'. mtrie_add k p t = Some (subs t k = {}, t') \<and> mtrie_ok t' \<and>
    subs t' = (subs t)(k := insert p (subs t k))"
proof -
  have ok: "trie_ok None t" using assms by (simp add: mtrie_ok_def)
  have lk: "lookup None t j = (if subs t j = {} then None else Some (subs t j))" for j
    using assms by (rule lookup_subs)
  obtain t' where t': "mtrie_add k p t = Some (lookup None t k = None, t')" "trie_ok None t'"
    "lookup None t' = (lookup None t)(k := Some (insert p (case lookup None t k of None \<Rightarrow> {} | Some s \<Rightarrow> s)))"
    using mtrie_add_trie[OF ok, of k p] by blast
  have "mtrie_ok t'" using mtrie_okI[OF assms t'(2,3)] lk finite_subs[OF assms] by auto
  moreover have "subs t' = (subs t)(k := insert p (subs t k))"
    using subs_lookup_upd[OF t'(3)] lk by auto
  ultimately show ?thesis using t'(1) lk by auto
qed

lemma mtrie_rm_subs:
  assumes "mtrie_ok t" "subs t k \<noteq> {} \<longrightarrow> p \<in> subs t k"
  shows "\<exists>b t'. mtrie_rm k p t = Some (b, t') \<and> mtrie_ok t' \<and> subs t' = (subs t)(k := subs t k - {p}) \<and>
    (b \<longleftrightarrow> (if subs t k = {} then k = [] \<or> (\<exists>k'. subs t (k @ k') \<noteq> {}) else subs t k = {p}))"
proof -
  have ok: "trie_ok None t" using assms by (simp add: mtrie_ok_def)
  have lk: "lookup None t j = (if subs t j = {} then None else Some (subs t j))" for j
    using assms(1) by (rule lookup_subs)
  have "\<forall>s. lookup None t k = Some s \<longrightarrow> p \<in> s" using lk assms(2) by auto
  then obtain b t' where r: "mtrie_rm k p t = Some (b, t')" "trie_ok None t'"
    "lookup None t' = (lookup None t)(k := strip p (lookup None t k))"
    "b \<longleftrightarrow> (case lookup None t k of
       Some s \<Rightarrow> s = {p} | None \<Rightarrow> k = [] \<or> (\<exists>k'. lookup None t (k @ k') \<noteq> None))"
    using mtrie_rm_trie[OF ok] by blast
  have v: "case strip p (lookup None t k) of None \<Rightarrow> subs t k - {p} = {} |
      Some s \<Rightarrow> s = subs t k - {p} \<and> s \<noteq> {} \<and> finite s"
    using assms lk[of k] finite_subs[OF assms(1), of k] by (auto simp: strip_def)
  then have "mtrie_ok t'" by (intro mtrie_okI[OF assms(1) r(2,3)]) auto
  moreover have "(case strip p (lookup None t k) of None \<Rightarrow> {} | Some s \<Rightarrow> s) = subs t k - {p}"
    using v by (cases "strip p (lookup None t k)") auto
  then have "subs t' = (subs t)(k := subs t k - {p})" using subs_lookup_upd[OF r(3)] by argo
  moreover have "b \<longleftrightarrow> (if subs t k = {} then k = [] \<or> (\<exists>k'. subs t (k @ k') \<noteq> {}) else subs t k = {p})"
    using r(4) lk by simp
  ultimately show ?thesis using r(1) by (intro exI conjI)
qed

lemma mtrie_rm_other:
  assumes "mtrie_ok t" "subs t k \<noteq> {}" "p \<notin> subs t k"
  shows "mtrie_rm k p t = None"
proof -
  have "trie_ok None t" "lookup None t k = Some (subs t k)"
    using assms lookup_subs[OF assms(1), of k] by (simp_all add: mtrie_ok_def)
  then show ?thesis using assms(3) by (rule mtrie_rm_abort)
qed

lemma mtrie_rm_pipe_all:
  assumes "mtrie_ok t"
  shows "\<exists>ks t'. mtrie_rm_pipe [] p t = Some (ks, t') \<and> mtrie_ok t' \<and> (\<forall>k. subs t' k = subs t k - {p}) \<and>
    distinct ks \<and> set ks = {k. subs t k = {p}}"
proof -
  have ok: "trie_ok None t" using assms by (simp add: mtrie_ok_def)
  obtain ks t' where r: "mtrie_rm_pipe [] p t = Some (ks, t')" "trie_ok None t'"
    "lookup None t' = strip p \<circ> lookup None t" "distinct ks" "set ks = {[] @ k |k. lookup None t k = Some {p}}"
    using mtrie_rm_pipe_ok[OF ok, of p] unfolding rm_spec_def by blast
  moreover have "set ks = {k. subs t k = {p}}" using r(5) lookup_subs[OF assms] by auto
  ultimately show ?thesis using strip_subs[OF assms r(2,3)] by blast
qed

lemma mtrie_match_all:
  fixes t :: "'p::linorder mtrie"
  assumes "mtrie_ok t"
  shows "\<exists>ps. mtrie_match d t = Some ps \<and> set ps = {p. \<exists>k. prefix k d \<and> p \<in> subs t k}"
proof -
  have "trie_ok None t" "\<forall>k s. lookup None t k = Some s \<longrightarrow> finite s" using assms by (auto simp: mtrie_ok_def)
  from mtrie_match_ok[OF this, of d] show ?thesis by auto
qed

section \<open>Properties\<close>

text \<open>
  C10: adding and removing a subscription. Adding never fails; it subscribes the pipe to the key, changes
  no other key and tells whether the key had no subscriber. Removing a subscription a pipe has
  unsubscribes it and tells whether it was the last one. For a key that has subscribers, but not this
  pipe, the assertion fails. For a key without subscribers nothing changes; the result is true
  exactly if the key is empty or a prefix of a key that has subscribers.
\<close>

theorem mtrie_update:
  assumes "mtrie_ok t"
  shows "(\<exists>t'. mtrie_add k p t = Some (subs t k = {}, t') \<and> mtrie_ok t' \<and>
      subs t' = (subs t)(k := insert p (subs t k))) \<and>
    (if subs t k \<noteq> {} \<and> p \<notin> subs t k then mtrie_rm k p t = None
     else \<exists>b t'. mtrie_rm k p t = Some (b, t') \<and> mtrie_ok t' \<and> subs t' = (subs t)(k := subs t k - {p}) \<and>
       (b \<longleftrightarrow> (if subs t k = {} then k = [] \<or> (\<exists>k'. subs t (k @ k') \<noteq> {}) else subs t k = {p})))"
  using mtrie_add_subs[OF assms, of k p] mtrie_rm_other[OF assms, of k p] mtrie_rm_subs[OF assms, of k p]
  by argo

theorem mtrie_update_witness:
  "\<exists>t. mtrie_add [65] (1 :: nat) mtrie_init = Some (True, t) \<and> mtrie_rm [65] 2 t = None \<and> subs t [65] = {1}"
proof -
  obtain t where t: "mtrie_add [65] (1 :: nat) mtrie_init = Some (True, t)" "mtrie_ok t" "subs t [65] = {1}"
    using mtrie_update[OF mtrie_ok_init, of "[65]" "1 :: nat", THEN conjunct1] by auto
  then have "mtrie_rm [65] 2 t = None" using mtrie_update[OF t(2), of "[65]" 2, THEN conjunct2] by simp
  then show ?thesis using t by blast
qed

text \<open>
  C11: removing a pipe takes it out of every set of subscribers, and the callback is invoked exactly
  once for every key that has lost its last subscriber; none of the assertions of the pruning and
  compaction code fails.
\<close>

theorem mtrie_rm_pipe_subs:
  assumes "mtrie_ok t"
  shows "\<exists>ks t'. mtrie_rm_pipe [] p t = Some (ks, t') \<and> mtrie_ok t' \<and> (\<forall>k. subs t' k = subs t k - {p}) \<and>
    distinct ks \<and> set ks = {k. subs t k = {p}}"
  using assms by (rule mtrie_rm_pipe_all)

theorem mtrie_rm_pipe_subs_witness:
  "\<exists>t ks t'. mtrie_add [65, 66] (1 :: nat) mtrie_init = Some (True, t) \<and>
     mtrie_rm_pipe [] 1 t = Some (ks, t') \<and> ks = [[65, 66]]"
proof -
  obtain t where t: "mtrie_add [65, 66] (1 :: nat) mtrie_init = Some (True, t)" "trie_ok None t"
    "lookup None t = (lookup None mtrie_init)([65, 66] := Some {1})"
    using mtrie_add_trie[of "mtrie_init :: nat mtrie" "[65, 66]" 1] by auto
  have ok: "mtrie_ok t" using t(2,3) by (simp add: mtrie_ok_def)
  have sub: "subs t k = (if k = [65, 66] then {1} else {})" for k using t(3) by (simp add: subs_def)
  obtain ks t' where r: "mtrie_rm_pipe [] 1 t = Some (ks, t')" "distinct ks" "set ks = {k. subs t k = {1}}"
    using mtrie_rm_pipe_subs[OF ok, of 1] by blast
  have "set ks = {[65, 66]}" using r(3) sub by auto
  moreover from this have "length ks = 1" using distinct_card[OF r(2)] by simp
  ultimately have "ks = [[65, 66]]" by (cases ks) auto
  then show ?thesis using t(1) r(1) by blast
qed

text \<open>a message is matched to the pipes that are subscribed to one of its prefixes.\<close>

theorem mtrie_match_subs:
  fixes t :: "'p::linorder mtrie"
  assumes "mtrie_ok t"
  shows "\<exists>ps. mtrie_match d t = Some ps \<and> set ps = {p. \<exists>k. prefix k d \<and> p \<in> subs t k}"
  using assms by (rule mtrie_match_all)

theorem mtrie_match_subs_witness:
  "\<exists>t ps. mtrie_add [65] (1 :: nat) mtrie_init = Some (True, t) \<and> mtrie_match [65, 66] t = Some ps \<and> 1 \<in> set ps"
proof -
  obtain t where t: "mtrie_add [65] (1 :: nat) mtrie_init = Some (True, t)" "trie_ok None t"
    "lookup None t = (lookup None mtrie_init)([65] := Some {1})"
    using mtrie_add_trie[of "mtrie_init :: nat mtrie" "[65]" 1] by auto
  have ok: "mtrie_ok t" using t(2,3) by (simp add: mtrie_ok_def)
  have "prefix [65] [65, 66 :: byte] \<and> 1 \<in> subs t [65]" using t(3) by (simp add: subs_def)
  then have "1 \<in> {p. \<exists>k. prefix k [65, 66] \<and> p \<in> subs t k}" by blast
  then show ?thesis using mtrie_match_subs[OF ok, of "[65, 66]"] t(1) by auto
qed

text \<open>
  C12: the two implementations of removing a child and compacting the table, in the trie and in the
  multi-trie, are equivalent on well-formed nodes.
\<close>

theorem prune_equivalence:
  assumes "node_ok m n l nx" "nchild m n nx c \<noteq> None"
  shows "mtrie_prune c m n l nx = trie_prune c m n l nx"
  using assms by (rule mtrie_prune_eq)

theorem prune_equivalence_witness:
  "mtrie_prune 66 65 2 2 (Table [Some mtrie_init, Some (mtrie_init :: nat mtrie)]) =
   trie_prune 66 65 2 2 (Table [Some mtrie_init, Some (mtrie_init :: nat mtrie)])"
proof -
  let ?tab = "[Some mtrie_init, Some (mtrie_init :: nat mtrie)]"
  have "occupied ?tab = {0, 1}" by (auto simp: occupied_Cons)
  moreover have len: "length ?tab = 2" by simp
  ultimately have "card {d. nchild 65 2 (Table ?tab) d \<noteq> None} = 2" 
    using card_table[of 65 ?tab, unfolded len] by simp
  then have "node_ok 65 2 2 (Table ?tab)" by (simp add: node_ok_def shape_ok_def)
  moreover have "nchild 65 2 (Table ?tab) 66 \<noteq> None" by (simp add: nchild_def in_range_def)
  ultimately show ?thesis by (rule prune_equivalence)
qed

end
