(* ===== verification/Xpub.thy ===== *)
theory Xpub
  imports Routing Mtrie Options
begin

text \<open>
  XPUB and PUB sockets: \<open>xpub_t\<close> of \<open>xpub.cpp\<close> and \<open>pub_t\<close> of \<open>pub.cpp\<close>. Subscription requests are read
  from the pipes into the multi-trie, and a message goes to the pipes it matches; all its parts are
  distributed to the pipes that its first part matched.
\<close>

section \<open>State and operations\<close>

record xpub =
  xp_subs :: "nat mtrie"
  xp_dist :: "nat dist_t"
  verbose :: bool
  xp_more :: bool
  pending :: "bytes list"
  xp_type :: socket_type

definition xpub_init :: "socket_type \<Rightarrow> xpub" where
  "xpub_init ty = \<lparr>xp_subs = mtrie_init, xp_dist = dist_init, verbose = False, xp_more = False,
     pending = [], xp_type = ty\<rparr>"

text \<open>The constructors set the type of the socket, the PUB socket over the XPUB socket.\<close>

definition xpub_options :: "'f options \<Rightarrow> 'f options" where
  "xpub_options opts = opts\<lparr>socktype := XPUB\<rparr>"

definition pub_options :: "'f options \<Rightarrow> 'f options" where
  "pub_options opts = (xpub_options opts)\<lparr>socktype := PUB\<rparr>"

text \<open>The body of the loop of \<open>xread_activated\<close>: one request of a pipe is applied to the multi-trie.\<close>

definition xpub_request :: "nat \<Rightarrow> frame \<Rightarrow> xpub \<Rightarrow> xpub option" where
  "xpub_request p f x =
     (case fdata f of
        [] \<Rightarrow> Some x
      | b # key \<Rightarrow>
          if b = 0 \<or> b = 1 then do {
            (unique, t) \<leftarrow> (if b = 0 then mtrie_rm key p (xp_subs x) else mtrie_add key p (xp_subs x));
            Some (x\<lparr>xp_subs := t,
                    pending := (if xp_type x = XPUB \<and> (unique \<or> b \<noteq> 0 \<and> verbose x)
                                then pending x @ [fdata f] else pending x)\<rparr>) }
          else Some x)"

partial_function (option) xpub_xread_activated :: "nat \<Rightarrow> xpub \<Rightarrow> world \<Rightarrow> (xpub \<times> world) option" where
  "xpub_xread_activated p x w =
     (case pipe_read p w of
        None \<Rightarrow> None
      | Some (None, w) \<Rightarrow> Some (x, w)
      | Some (Some f, w) \<Rightarrow>
          (case xpub_request p f x of None \<Rightarrow> None | Some x \<Rightarrow> xpub_xread_activated p x w))"

definition xpub_xattach_pipe :: "nat \<Rightarrow> bool \<Rightarrow> xpub \<Rightarrow> world \<Rightarrow> (xpub \<times> world) option" where
  "xpub_xattach_pipe p icanhasall x w = do {
     d \<leftarrow> dist_attach p (xp_dist x);
     t \<leftarrow> (if icanhasall then map_option snd (mtrie_add [] p (xp_subs x)) else Some (xp_subs x));
     xpub_xread_activated p (x\<lparr>xp_dist := d, xp_subs := t\<rparr>) w }"

definition xpub_xwrite_activated :: "nat \<Rightarrow> xpub \<Rightarrow> xpub option" where
  "xpub_xwrite_activated p x = do { d \<leftarrow> dist_activated p (xp_dist x); Some (x\<lparr>xp_dist := d\<rparr>) }"

text \<open>\<open>xsetsockopt\<close> accepts the option \<open>ZMQ_XPUB_VERBOSE\<close> (number 40) with a value that is not negative.\<close>

definition xpub_xsetsockopt :: "int \<Rightarrow> bytes \<Rightarrow> xpub \<Rightarrow> xpub \<times> unit outcome" where
  "xpub_xsetsockopt opt val x =
     (if opt \<noteq> 40 then (x, Inl EINVAL)
      else case int_arg val of
        None \<Rightarrow> (x, Inl EINVAL)
      | Some v \<Rightarrow> if v < 0 then (x, Inl EINVAL) else (x\<lparr>verbose := (v \<noteq> 0)\<rparr>, Inr ()))"

definition xpub_xterminated :: "nat \<Rightarrow> xpub \<Rightarrow> xpub option" where
  "xpub_xterminated p x = do {
     (ks, t) \<leftarrow> mtrie_rm_pipe [] p (xp_subs x);
     d \<leftarrow> dist_terminated p (xp_dist x);
     Some (x\<lparr>xp_subs := t, xp_dist := d,
             pending := (if xp_type x \<noteq> PUB then pending x @ map ((#) 0) ks else pending x)\<rparr>) }"

text \<open>\<open>mark_as_matching\<close> is called for every pipe the multi-trie finds.\<close>

primrec mark_as_matching :: "nat list \<Rightarrow> nat dist_t \<Rightarrow> nat dist_t option" where
  "mark_as_matching [] d = Some d"
| "mark_as_matching (p # ps) d = do { d \<leftarrow> dist_match p d; mark_as_matching ps d }"

definition xpub_xsend :: "frame \<Rightarrow> xpub \<Rightarrow> world \<Rightarrow> (xpub \<times> world) option" where
  "xpub_xsend m x w = do {
     d \<leftarrow> (if xp_more x then Some (xp_dist x)
           else do { ps \<leftarrow> mtrie_match (fdata m) (xp_subs x); mark_as_matching ps (xp_dist x) });
     (d, w) \<leftarrow> dist_send_to_matching pipe_write pipe_flush m d w;
     Some (x\<lparr>xp_dist := (if frame_more m then d else dist_unmatch d), xp_more := frame_more m\<rparr>, w) }"

definition xpub_xhas_out :: "xpub \<Rightarrow> bool" where
  "xpub_xhas_out x = dist_has_out (xp_dist x)"

definition xpub_xrecv :: "xpub \<Rightarrow> xpub \<times> frame outcome" where
  "xpub_xrecv x =
     (case pending x of
        [] \<Rightarrow> (x, Inl EAGAIN)
      | b # bs \<Rightarrow> (x\<lparr>pending := bs\<rparr>, Inr (frame_of 0 b)))"

definition xpub_xhas_in :: "xpub \<Rightarrow> bool" where
  "xpub_xhas_in x \<longleftrightarrow> pending x \<noteq> []"

definition pub_xrecv :: "xpub \<Rightarrow> xpub \<times> frame outcome" where
  "pub_xrecv x = (x, Inl ENOTSUP)"

definition pub_xhas_in :: "xpub \<Rightarrow> bool" where
  "pub_xhas_in x = False"

section \<open>The invariant\<close>

text \<open>
  The multi-trie knows only attached pipes; the socket and the distributor agree on whether a message is
  unfinished, and between messages no pipe is marked as matching.
\<close>

definition xpub_ok :: "xpub \<Rightarrow> world \<Rightarrow> bool" where
  "xpub_ok x w \<longleftrightarrow> mtrie_ok (xp_subs x) \<and> dist_ok (xp_dist x) \<and>
     (\<forall>k. subs (xp_subs x) k \<subseteq> dist_all (xp_dist x)) \<and> (\<forall>p \<in> dist_all (xp_dist x). valid w p) \<and>
     di_more (xp_dist x) = xp_more x \<and> (\<not> xp_more x \<longrightarrow> matching_set (xp_dist x) = {})"

definition subscribed :: "bytes \<Rightarrow> xpub \<Rightarrow> nat set" where
  "subscribed data x = {p. \<exists>k. prefix k data \<and> p \<in> subs (xp_subs x) k}"

lemma xpub_ok_init: "xpub_ok (xpub_init ty) w"
  by (simp add: xpub_ok_def xpub_init_def)
    (simp add: dist_init_def array_init_def matching_set_def prefix_set_def)

section \<open>Publishing\<close>

lemma mark_as_matching_ok:
  assumes "dist_ok d" "set ps \<subseteq> dist_all d" "\<not> di_more d"
  shows "\<exists>d'. mark_as_matching ps d = Some d' \<and> dist_ok d' \<and> dist_all d' = dist_all d \<and> \<not> di_more d' \<and>
    matching_set d' = matching_set d \<union> (set ps \<inter> eligible_set d) \<and> eligible_set d' = eligible_set d \<and>
    active_set d' = active_set d"
  using assms
proof (induction ps arbitrary: d)
  case (Cons p ps)
  have "p \<in> dist_all d" using Cons.prems by simp
  then obtain d1 where d1: "dist_match p d = Some d1" "dist_ok d1" "dist_all d1 = dist_all d"
    "matching_set d1 = (if p \<in> eligible_set d then insert p (matching_set d) else matching_set d)"
    "active_set d1 = active_set d" "eligible_set d1 = eligible_set d" "di_more d1 = di_more d"
    using dist_match_ok[OF Cons.prems(1) _ Cons.prems(3)] by blast
  have "set ps \<subseteq> dist_all d1" "\<not> di_more d1" using Cons.prems d1 by auto
  from Cons.IH[OF d1(2) this] obtain d2 where "mark_as_matching ps d1 = Some d2" "dist_ok d2"
    "dist_all d2 = dist_all d1" "\<not> di_more d2" "matching_set d2 = matching_set d1 \<union> (set ps \<inter> eligible_set d1)"
    "eligible_set d2 = eligible_set d1" "active_set d2 = active_set d1" by (elim exE conjE)
  with d1 show ?case by auto
qed simp

text \<open>
  The pipes a part goes to: for the first part of a message the eligible pipes with a matching
  subscription, for a later part the pipes that are still marked.
\<close>

definition audience :: "frame \<Rightarrow> xpub \<Rightarrow> nat set" where
  "audience m x = (if xp_more x then matching_set (xp_dist x)
     else subscribed (fdata m) x \<inter> eligible_set (xp_dist x))"

lemma xpub_xsend_part:
  assumes ok: "xpub_ok x w"
  obtains x' w' where "xpub_xsend m x w = Some (x', w')" "xpub_ok x' w'" "xp_subs x' = xp_subs x"
    "pout.delivered m (audience m x) w w'" "xp_more x' = frame_more m"
    "frame_more m \<longrightarrow> matching_set (xp_dist x') = {p \<in> audience m x. writable w p}"
    "pending x' = pending x" "dist_all (xp_dist x') = dist_all (xp_dist x)"
proof -
  have x: "mtrie_ok (xp_subs x)" "dist_ok (xp_dist x)" "\<forall>p \<in> dist_all (xp_dist x). valid w p"
    "di_more (xp_dist x) = xp_more x" "\<not> xp_more x \<longrightarrow> matching_set (xp_dist x) = {}"
    and att: "\<forall>k. subs (xp_subs x) k \<subseteq> dist_all (xp_dist x)"
    using ok by (auto simp: xpub_ok_def)
  obtain d where d: "(if xp_more x then Some (xp_dist x)
      else do { ps \<leftarrow> mtrie_match (fdata m) (xp_subs x); mark_as_matching ps (xp_dist x) }) = Some d"
    "dist_ok d" "dist_all d = dist_all (xp_dist x)" "matching_set d = audience m x"
  proof (cases "xp_more x")
    case True
    then show ?thesis using x by (intro that[of "xp_dist x"]) (simp_all add: audience_def)
  next
    case False
    obtain ps where ps: "mtrie_match (fdata m) (xp_subs x) = Some ps" "set ps = subscribed (fdata m) x"
      using mtrie_match_all[OF x(1)] unfolding subscribed_def by blast
    have "set ps \<subseteq> dist_all (xp_dist x)" "\<not> di_more (xp_dist x)"
      using ps(2) att False x(4) by (auto simp: subscribed_def)
    from mark_as_matching_ok[OF x(2) this] show ?thesis
      using False x(5) ps that by (auto simp: audience_def)
  qed
  have "\<forall>p \<in> dist_all d. valid w p" using x(3) d(3) by simp
  from pout.send_to_matching_correct[OF d(2) this, of m] obtain d' w' where
    r: "dist_send_to_matching pipe_write pipe_flush m d w = Some (d', w')" "dist_ok d'"
    "pout.delivered m (matching_set d) w w'" "dist_all d' = dist_all d" "di_more d' = frame_more m"
    "matching_set d' = {p \<in> matching_set d. writable w p}" by (elim exE conjE)
  define x' where "x' = x\<lparr>xp_dist := (if frame_more m then d' else dist_unmatch d'), xp_more := frame_more m\<rparr>"
  have v: "valid w' = valid w" using r(3) by (simp add: pout.delivered_def)
  have un: "dist_ok (dist_unmatch d')" "matching_set (dist_unmatch d') = {}" "dist_all (dist_unmatch d') = dist_all d'"
    "di_more (dist_unmatch d') = di_more d'"
    using r(2) by (simp_all add: dist_ok_def dist_unmatch_def matching_set_def prefix_set_def)
  show ?thesis
  proof (rule that[of x' w'])
    show "xpub_xsend m x w = Some (x', w')" using d(1) r(1) by (simp add: xpub_xsend_def x'_def)
    show "xpub_ok x' w'" using x(1,3) att r d(3) un v by (auto simp: xpub_ok_def x'_def)
    show "dist_all (xp_dist x') = dist_all (xp_dist x)" using r(4) d(3) un(3) by (simp add: x'_def)
  qed (use r d un in \<open>simp_all add: x'_def\<close>)
qed

text \<open>Sending the parts of a message one after the other.\<close>

primrec xpub_send_parts :: "frame list \<Rightarrow> xpub \<Rightarrow> world \<Rightarrow> (xpub \<times> world) option" where
  "xpub_send_parts [] x w = Some (x, w)"
| "xpub_send_parts (m # ms) x w = do { (x, w) \<leftarrow> xpub_xsend m x w; xpub_send_parts ms x w }"

lemma xpub_send_tail:
  assumes "xpub_ok x w" "xp_more x" "\<forall>m \<in> set ms. frame_more m" "\<not> frame_more l"
    "\<forall>p \<in> matching_set (xp_dist x). writable w p"
  shows "\<exists>x' w'. xpub_send_parts (ms @ [l]) x w = Some (x', w') \<and> xpub_ok x' w' \<and> \<not> xp_more x' \<and> xp_subs x' = xp_subs x \<and>
    (\<forall>p. out w' p = (if p \<in> matching_set (xp_dist x) then out w p @ ms @ [l] else out w p) \<and>
         flushed w' p = (if p \<in> matching_set (xp_dist x) then out w p @ ms @ [l] else flushed w p))"
  using assms
proof (induction ms arbitrary: x w)
  case Nil
  obtain x' w' where "xpub_xsend l x w = Some (x', w')" "xpub_ok x' w'" "xp_subs x' = xp_subs x"
    "pout.delivered l (audience l x) w w'" "xp_more x' = frame_more l"
    using Nil.prems(1) by (rule xpub_xsend_part)
  then show ?case using Nil.prems by (auto simp: pout.delivered_def audience_def)
next
  case (Cons m ms)
  obtain x1 w1 where x1: "xpub_xsend m x w = Some (x1, w1)" "xpub_ok x1 w1" "xp_subs x1 = xp_subs x"
    "pout.delivered m (audience m x) w w1" "xp_more x1 = frame_more m"
    "frame_more m \<longrightarrow> matching_set (xp_dist x1) = {p \<in> audience m x. writable w p}"
    using Cons.prems(1) by (rule xpub_xsend_part)
  have a: "audience m x = matching_set (xp_dist x)" "frame_more m" using Cons.prems by (simp_all add: audience_def)
  then have ms1: "matching_set (xp_dist x1) = matching_set (xp_dist x)" using x1(6) Cons.prems(5) by auto
  have "\<forall>p \<in> matching_set (xp_dist x1). writable w1 p"
    using x1(4) Cons.prems(5) a ms1 by (simp add: pout.delivered_def)
  moreover have "xp_more x1" "\<forall>m \<in> set ms. frame_more m" using x1(5) Cons.prems(3) by simp_all
  ultimately obtain x' w' where r: "xpub_send_parts (ms @ [l]) x1 w1 = Some (x', w')" "xpub_ok x' w'" "\<not> xp_more x'"
    "xp_subs x' = xp_subs x1"
    "\<forall>p. out w' p = (if p \<in> matching_set (xp_dist x1) then out w1 p @ ms @ [l] else out w1 p) \<and>
      flushed w' p = (if p \<in> matching_set (xp_dist x1) then out w1 p @ ms @ [l] else flushed w1 p)"
    using Cons.IH[OF x1(2) _ _ Cons.prems(4)] by blast
  have "\<forall>p. out w1 p = (if p \<in> matching_set (xp_dist x) then out w p @ [m] else out w p) \<and> flushed w1 p = flushed w p"
    using x1(4) a Cons.prems(5) by (auto simp: pout.delivered_def)
  then show ?case using r x1(1,3) ms1 by (intro exI[of _ x'] exI[of _ w']) simp
qed

section \<open>Subscription requests\<close>

text \<open>
  Whether a pipe is subscribed to a key after a sequence of its requests: the last request that names
  the key decides.
\<close>

fun wants :: "bool \<Rightarrow> bytes \<Rightarrow> frame list \<Rightarrow> bool" where
  "wants b k [] = b"
| "wants b k (f # fs) = wants (if fdata f = 1 # k then True else if fdata f = 0 # k then False else b) k fs"

primrec xpub_requests :: "nat \<Rightarrow> frame list \<Rightarrow> xpub \<Rightarrow> xpub option" where
  "xpub_requests p [] x = Some x"
| "xpub_requests p (f # fs) x = do { x \<leftarrow> xpub_request p f x; xpub_requests p fs x }"

lemma xpub_read_all:
  assumes "valid w p"
  shows "case xpub_requests p (avail w p) x of
      None \<Rightarrow> xpub_xread_activated p x w = None
    | Some x' \<Rightarrow> \<exists>w'. xpub_xread_activated p x w = Some (x', w') \<and> avail w' = (avail w)(p := []) \<and> valid w' = valid w"
  using assms
proof (induction "avail w p" arbitrary: x w)
  case Nil
  then obtain w' where "pipe_read p w = Some (None, w')" "avail w' = avail w" "valid w' = valid w"
    using pin.rd_none by metis
  then show ?case using Nil(1)[symmetric] by (auto simp: xpub_xread_activated.simps)
next
  case (Cons f fs)
  obtain w1 where w1: "pipe_read p w = Some (Some f, w1)" "avail w1 = (avail w)(p := fs)" "valid w1 = valid w"
    using pin.rd_some[OF Cons.prems Cons.hyps(2)[symmetric]] by blast
  then have "fs = avail w1 p" "valid w1 p" using Cons.prems by simp_all
  note ih = Cons.hyps(1)[OF this]
  have upd: "(avail w1)(p := []) = (avail w)(p := [])" "avail w1 p = fs" using w1(2) by simp_all
  have eq: "xpub_xread_activated p x w = (case xpub_request p f x of None \<Rightarrow> None | Some x \<Rightarrow> xpub_xread_activated p x w1)"
    using w1(1) by (subst xpub_xread_activated.simps) simp
  show ?case
  proof (cases "xpub_request p f x")
    case None
    then show ?thesis using Cons.hyps(2)[symmetric] eq by simp
  next
    case (Some x1)
    then have eqs: "xpub_xread_activated p x w = xpub_xread_activated p x1 w1"
      "xpub_requests p (avail w p) x = xpub_requests p fs x1"
      using eq Cons.hyps(2)[symmetric] by simp_all
    show ?thesis using ih[of x1] unfolding upd w1(3) eqs .
  qed
qed

definition request_ok :: "nat \<Rightarrow> frame \<Rightarrow> xpub \<Rightarrow> bool" where
  "request_ok p f x \<longleftrightarrow> (\<forall>k. fdata f = 0 # k \<longrightarrow> subs (xp_subs x) k \<noteq> {} \<longrightarrow> p \<in> subs (xp_subs x) k)"

lemma xpub_request_bad:
  assumes "mtrie_ok (xp_subs x)" "\<not> request_ok p f x"
  shows "xpub_request p f x = None"
proof -
  obtain k where "fdata f = 0 # k" "subs (xp_subs x) k \<noteq> {}" "p \<notin> subs (xp_subs x) k"
    using assms(2) by (auto simp: request_ok_def)
  then show ?thesis using mtrie_rm_other[OF assms(1)] by (simp add: xpub_request_def)
qed

lemma xpub_request_ok:
  assumes "mtrie_ok (xp_subs x)" "request_ok p f x"
  obtains x' where "xpub_request p f x = Some x'" "mtrie_ok (xp_subs x')" "xp_dist x' = xp_dist x" "xp_more x' = xp_more x"
    "\<forall>k. subs (xp_subs x') k - {p} = subs (xp_subs x) k - {p}"
    "\<forall>k. p \<in> subs (xp_subs x') k \<longleftrightarrow> wants (p \<in> subs (xp_subs x) k) k [f]"
    "\<exists>bs. pending x' = pending x @ bs \<and> set bs \<subseteq> {fdata f}"
proof (cases "\<exists>b k. fdata f = b # k \<and> (b = 0 \<or> b = 1)")
  case False
  then have "xpub_request p f x = Some x" by (auto simp: xpub_request_def split: list.splits)
  then show ?thesis using False assms by (intro that[of x]) (auto simp: xpub_request_def)
next
  case True
  then obtain b k where f: "fdata f = b # k" "b = 0 \<or> b = 1" by blast
  obtain u t where t: "(if b = 0 then mtrie_rm k p (xp_subs x) else mtrie_add k p (xp_subs x)) = Some (u, t)" "mtrie_ok t"
    "subs t = (subs (xp_subs x))(k := if b = 0 then subs (xp_subs x) k - {p} else insert p (subs (xp_subs x) k))"
  proof (cases "b = 0")
    case True
    then have "subs (xp_subs x) k \<noteq> {} \<longrightarrow> p \<in> subs (xp_subs x) k" using f assms(2) by (simp add: request_ok_def)
    then show ?thesis using mtrie_rm_subs[OF assms(1), of k p] True that by auto
  next
    case False
    then show ?thesis using mtrie_add_subs[OF assms(1), of k p] that by auto
  qed
  define bs where "bs = (if xp_type x = XPUB \<and> (u \<or> b \<noteq> 0 \<and> verbose x) then [fdata f] else [])"
  have "xpub_request p f x = Some (x\<lparr>xp_subs := t, pending := pending x @ bs\<rparr>)"
    using f t(1) by (auto simp: xpub_request_def bs_def)
  then show ?thesis using t f(2)
    by (intro that[of "x\<lparr>xp_subs := t, pending := pending x @ bs\<rparr>"]) (auto simp: f(1) bs_def)
qed

lemma wants_Cons: "wants b k (f # fs) = wants (wants b k [f]) k fs"
  by simp

lemma xpub_requests_ok:
  assumes "xpub_ok x w" "p \<in> dist_all (xp_dist x)" "xpub_requests p fs x = Some x'"
  shows "xpub_ok x' w \<and> xp_dist x' = xp_dist x \<and>
    (\<forall>k. subs (xp_subs x') k - {p} = subs (xp_subs x) k - {p}) \<and>
    (\<forall>k. p \<in> subs (xp_subs x') k \<longleftrightarrow> wants (p \<in> subs (xp_subs x) k) k fs) \<and>
    (\<exists>bs. pending x' = pending x @ bs \<and> set bs \<subseteq> fdata ` set fs)"
  using assms
proof (induction fs arbitrary: x)
  case (Cons f fs)
  have mt: "mtrie_ok (xp_subs x)" using Cons.prems(1) by (simp add: xpub_ok_def)
  obtain x1 where some: "xpub_request p f x = Some x1" "xpub_requests p fs x1 = Some x'"
    using Cons.prems(3) by (auto simp: bind_eq_Some)
  have ok: "request_ok p f x" using xpub_request_bad[OF mt] some(1) by fastforce
  obtain x1' where "xpub_request p f x = Some x1'" "mtrie_ok (xp_subs x1')" "xp_dist x1' = xp_dist x" "xp_more x1' = xp_more x"
    "\<forall>k. subs (xp_subs x1') k - {p} = subs (xp_subs x) k - {p}"
    "\<forall>k. p \<in> subs (xp_subs x1') k \<longleftrightarrow> wants (p \<in> subs (xp_subs x) k) k [f]"
    "\<exists>bs. pending x1' = pending x @ bs \<and> set bs \<subseteq> {fdata f}"
    using mt ok by (rule xpub_request_ok)
  then have x1: "mtrie_ok (xp_subs x1)" "xp_dist x1 = xp_dist x" "xp_more x1 = xp_more x"
    "\<And>k. subs (xp_subs x1) k - {p} = subs (xp_subs x) k - {p}"
    "\<And>k. p \<in> subs (xp_subs x1) k \<longleftrightarrow> wants (p \<in> subs (xp_subs x) k) k [f]"
    "\<exists>bs. pending x1 = pending x @ bs \<and> set bs \<subseteq> {fdata f}"
    using some(1) by simp_all
  have "subs (xp_subs x1) k \<subseteq> dist_all (xp_dist x)" for k
  proof -
    have "subs (xp_subs x) k \<subseteq> dist_all (xp_dist x)" using Cons.prems(1) by (simp add: xpub_ok_def)
    then show ?thesis using x1(4)[of k] Cons.prems(2) by blast
  qed
  then have "xpub_ok x1 w" "p \<in> dist_all (xp_dist x1)" using Cons.prems(1,2) x1 by (simp_all add: xpub_ok_def)
  from Cons.IH[OF this some(2)] have ih: "xpub_ok x' w" "xp_dist x' = xp_dist x1"
    "\<forall>k. subs (xp_subs x') k - {p} = subs (xp_subs x1) k - {p}"
    "\<forall>k. p \<in> subs (xp_subs x') k \<longleftrightarrow> wants (p \<in> subs (xp_subs x1) k) k fs"
    "\<exists>bs. pending x' = pending x1 @ bs \<and> set bs \<subseteq> fdata ` set fs" by simp_all
  have "\<exists>bs. pending x' = pending x @ bs \<and> set bs \<subseteq> fdata ` set (f # fs)" using ih(5) x1(6) by fastforce
  moreover have "p \<in> subs (xp_subs x') k \<longleftrightarrow> wants (p \<in> subs (xp_subs x) k) k (f # fs)" for k
    unfolding wants_Cons[of "p \<in> subs (xp_subs x) k" k f fs] x1(5)[of k, symmetric] using ih(4) by blast
  moreover have "subs (xp_subs x') k - {p} = subs (xp_subs x) k - {p}" for k using ih(3) x1(4)[of k] by simp
  ultimately show ?case using ih(1,2) x1(2) by simp
qed simp

lemma xpub_requests_none:
  assumes "xpub_requests p fs x = None" "xpub_ok x w" "p \<in> dist_all (xp_dist x)"
  shows "\<exists>gs f hs y. fs = gs @ f # hs \<and> xpub_requests p gs x = Some y \<and> \<not> request_ok p f y"
  using assms
proof (induction fs arbitrary: x)
  case (Cons f fs)
  show ?case
  proof (cases "xpub_request p f x")
    case None
    have "mtrie_ok (xp_subs x)" using Cons.prems(2) by (simp add: xpub_ok_def)
    then have "\<not> request_ok p f x" using None xpub_request_ok[of x p f] by fastforce
    then show ?thesis by (intro exI[of _ "[]"] exI[of _ f] exI[of _ fs] exI[of _ x]) simp
  next
    case (Some x1)
    have "xpub_requests p [f] x = Some x1" using Some by simp
    from xpub_requests_ok[OF Cons.prems(2,3) this] have "xpub_ok x1 w" "p \<in> dist_all (xp_dist x1)"
      using Cons.prems(3) by simp_all
    moreover have "xpub_requests p fs x1 = None" using Cons.prems(1) Some by simp
    ultimately obtain gs f' hs y where "fs = gs @ f' # hs" "xpub_requests p gs x1 = Some y" "\<not> request_ok p f' y"
      using Cons.IH by blast
    then show ?thesis using Some by (intro exI[of _ "f # gs"] exI[of _ f'] exI[of _ hs] exI[of _ y]) simp
  qed
qed simp

lemma xpub_ok_valid: "xpub_ok x w \<Longrightarrow> valid w' = valid w \<Longrightarrow> xpub_ok x w'"
  by (simp add: xpub_ok_def)

section \<open>Membership\<close>

lemma xpub_xterminated_ok:
  assumes "xpub_ok x w" "p \<in> dist_all (xp_dist x)"
  obtains x' where "xpub_xterminated p x = Some x'" "mtrie_ok (xp_subs x')" "dist_ok (xp_dist x')"
    "dist_all (xp_dist x') = dist_all (xp_dist x) - {p}" "\<forall>k. subs (xp_subs x') k = subs (xp_subs x) k - {p}"
    "xp_more x' = xp_more x" "di_more (xp_dist x') = xp_more x"
    "xp_type x \<noteq> PUB \<longrightarrow> (\<exists>ks. distinct ks \<and> set ks = {k. subs (xp_subs x) k = {p}} \<and>
       pending x' = pending x @ map ((#) 0) ks)"
proof -
  have x: "mtrie_ok (xp_subs x)" "dist_ok (xp_dist x)" "di_more (xp_dist x) = xp_more x" using assms(1) by (auto simp: xpub_ok_def)
  obtain ks t where t: "mtrie_rm_pipe [] p (xp_subs x) = Some (ks, t)" "mtrie_ok t"
    "\<forall>k. subs t k = subs (xp_subs x) k - {p}" "distinct ks" "set ks = {k. subs (xp_subs x) k = {p}}"
    using mtrie_rm_pipe_all[OF x(1)] by blast
  obtain i where i: "i < length (items (di_pipes (xp_dist x)))" "p = items (di_pipes (xp_dist x)) ! i"
    using assms(2) by (auto simp: in_set_conv_nth)
  obtain d where d: "dist_terminated p (xp_dist x) = Some d" "dist_ok d" "dist_all d = dist_all (xp_dist x) - {p}"
    "di_more d = di_more (xp_dist x)" using dist_terminated_ok[OF x(2) i] by blast
  define x' where "x' = x\<lparr>xp_subs := t, xp_dist := d,
    pending := (if xp_type x \<noteq> PUB then pending x @ map ((#) 0) ks else pending x)\<rparr>"
  show ?thesis
    by (rule that[of x']) (use t d x(3) in \<open>auto simp: xpub_xterminated_def x'_def\<close>)
qed

section \<open>Properties\<close>

text \<open>
  C22: publishing a message of any number of parts. The calls succeed; the whole message is written and
  flushed to every eligible and writable pipe that has subscribed to a prefix of its first part, and no
  part of it goes to any other pipe. The invariant holds again and no pipe stays marked.
\<close>

theorem xpub_publish:
  assumes "xpub_ok x w" "\<not> xp_more x" "ms = fs @ [l]" "\<forall>m \<in> set fs. frame_more m" "\<not> frame_more l"
  shows "\<exists>x' w'. xpub_send_parts ms x w = Some (x', w') \<and> xpub_ok x' w' \<and> \<not> xp_more x' \<and> xp_subs x' = xp_subs x \<and>
    (\<forall>p. let receives = p \<in> eligible_set (xp_dist x) \<and> writable w p \<and>
           (\<exists>k. prefix k (fdata (hd ms)) \<and> p \<in> subs (xp_subs x) k) in
         out w' p = (if receives then out w p @ ms else out w p) \<and>
         flushed w' p = (if receives then out w p @ ms else flushed w p))"
proof -
  let ?A = "audience (hd ms) x"
  have A: "p \<in> ?A \<longleftrightarrow> p \<in> eligible_set (xp_dist x) \<and> (\<exists>k. prefix k (fdata (hd ms)) \<and> p \<in> subs (xp_subs x) k)" for p
    using assms(2) by (auto simp: audience_def subscribed_def)
  obtain x1 w1 where x1: "xpub_xsend (hd ms) x w = Some (x1, w1)" "xpub_ok x1 w1" "xp_subs x1 = xp_subs x"
    "pout.delivered (hd ms) ?A w w1" "xp_more x1 = frame_more (hd ms)"
    "frame_more (hd ms) \<longrightarrow> matching_set (xp_dist x1) = {p \<in> ?A. writable w p}"
    using assms(1) by (rule xpub_xsend_part)
  show ?thesis
  proof (cases fs)
    case Nil
    then show ?thesis using x1 assms(3,5) A by (intro exI[of _ x1] exI[of _ w1]) (auto simp: pout.delivered_def Let_def)
  next
    case (Cons f fs')
    then have hd: "hd ms = f" "frame_more f" "ms = f # fs' @ [l]" using assms(3,4) by simp_all
    have M: "matching_set (xp_dist x1) = {p \<in> ?A. writable w p}" using x1(6) hd by simp
    have t: "xp_more x1" "\<forall>m \<in> set fs'. frame_more m" "\<forall>p \<in> matching_set (xp_dist x1). writable w1 p"
      using x1(4,5) hd Cons assms(4) M by (auto simp: pout.delivered_def)
    obtain x' w' where r: "xpub_send_parts (fs' @ [l]) x1 w1 = Some (x', w')" "xpub_ok x' w'" "\<not> xp_more x'"
      "xp_subs x' = xp_subs x1"
      "\<forall>p. out w' p = (if p \<in> matching_set (xp_dist x1) then out w1 p @ fs' @ [l] else out w1 p) \<and>
        flushed w' p = (if p \<in> matching_set (xp_dist x1) then out w1 p @ fs' @ [l] else flushed w1 p)"
      using xpub_send_tail[OF x1(2) t(1,2) assms(5) t(3)] by (elim exE conjE)
    have o1: "\<forall>p. out w1 p = (if p \<in> ?A \<and> writable w p then out w p @ [f] else out w p) \<and> flushed w1 p = flushed w p"
      using x1(4) hd by (auto simp: pout.delivered_def)
    have "xpub_send_parts ms x w = Some (x', w')" using x1(1) r(1) hd by simp
    moreover have "out w' p = (if p \<in> ?A \<and> writable w p then out w p @ ms else out w p) \<and>
        flushed w' p = (if p \<in> ?A \<and> writable w p then out w p @ ms else flushed w p)" for p
      using r(5)[rule_format, of p] o1[rule_format, of p] hd(3) unfolding M by (cases "p \<in> ?A \<and> writable w p") auto
    ultimately show ?thesis using r(2,3,4) x1(3)
      by (intro exI[of _ x'] exI[of _ w']) (simp add: Let_def A conj_ac)
  qed
qed

text \<open>A publisher with one pipe, which has subscribed to the key 65.\<close>

definition demo_xpub :: xpub where
  "demo_xpub = (xpub_init XPUB)\<lparr>xp_subs := snd (the (mtrie_add [65] 0 mtrie_init)), xp_dist := demo_dist\<lparr>di_matching := 0\<rparr>\<rparr>"

lemma demo_xpub_subs: "mtrie_ok (xp_subs demo_xpub)" "subs (xp_subs demo_xpub) k = (if k = [65] then {0} else {})"
  using mtrie_add_subs[OF mtrie_ok_init, of "[65]" "0 :: nat"] by (auto simp: demo_xpub_def)

lemma demo_xpub_sets: "dist_all (xp_dist demo_xpub) = {0}" "eligible_set (xp_dist demo_xpub) = {0}" "\<not> xp_more demo_xpub"
  by (simp_all add: demo_xpub_def demo_dist_def demo_array_def dist_sets prefix_set_def xpub_init_def)

lemma demo_xpub_ok: "valid w 0 \<Longrightarrow> xpub_ok demo_xpub w"
  using demo_xpub_subs demo_xpub_sets demo_array_ok
  by (simp add: xpub_ok_def) (simp add: demo_xpub_def demo_dist_def dist_ok_def demo_array_def dist_sets prefix_set_def xpub_init_def)

theorem xpub_publish_witness:
  "\<exists>x' w'. xpub_send_parts [frame_of 1 [65, 66], frame_of 0 [9]] demo_xpub demo_world = Some (x', w') \<and>
     flushed w' 0 = [frame_of 1 [65, 66], frame_of 0 [9]]"
proof -
  let ?f = "frame_of 1 [65, 66]" and ?l = "frame_of 0 [9]"
  have fl: "\<forall>m \<in> set [?f]. frame_more m" "\<not> frame_more ?l" by (simp_all add: frame_more_def frame_of_def msg_more_def)
  have pre: "\<exists>k. prefix k (fdata (hd [?f, ?l])) \<and> 0 \<in> subs (xp_subs demo_xpub) k"
    by (rule exI[of _ "[65]"]) (simp add: demo_xpub_subs frame_of_def)
  have sp: "[?f, ?l] = [?f] @ [?l]" by simp
  from xpub_publish[OF demo_xpub_ok[OF demo_valid(1)] demo_xpub_sets(3) sp fl] obtain x' w' where
    r: "xpub_send_parts [?f, ?l] demo_xpub demo_world = Some (x', w')"
    "\<forall>p. let receives = p \<in> eligible_set (xp_dist demo_xpub) \<and> writable demo_world p \<and>
           (\<exists>k. prefix k (fdata (hd [?f, ?l])) \<and> p \<in> subs (xp_subs demo_xpub) k) in
         out w' p = (if receives then out demo_world p @ [?f, ?l] else out demo_world p) \<and>
         flushed w' p = (if receives then out demo_world p @ [?f, ?l] else flushed demo_world p)" by (elim exE conjE)
  have "flushed w' 0 = out demo_world 0 @ [?f, ?l]"
    using r(2)[rule_format, of 0] pre demo_xpub_sets(2) demo_writable by (simp add: Let_def)
  then show ?thesis using r(1) demo_out by (intro exI[of _ x'] exI[of _ w']) simp
qed

text \<open>
  C23: reading subscription requests. The loop ends and takes everything the pipe can deliver. It aborts
  exactly if one of the requests unsubscribes the pipe from a key that only other pipes have
  subscribed to. Otherwise the last request for a key decides whether the pipe is subscribed to it, the
  subscriptions of the other pipes are unchanged and the invariant is kept; what is queued for the user
  are requests that were read.
\<close>

theorem xpub_read_requests:
  assumes "xpub_ok x w" "p \<in> dist_all (xp_dist x)"
  shows "case xpub_requests p (avail w p) x of
      None \<Rightarrow> xpub_xread_activated p x w = None \<and>
        (\<exists>fs f gs y. avail w p = fs @ f # gs \<and> xpub_requests p fs x = Some y \<and>
           (\<exists>k. fdata f = 0 # k \<and> subs (xp_subs y) k \<noteq> {} \<and> p \<notin> subs (xp_subs y) k))
    | Some x' \<Rightarrow> \<exists>w'. xpub_xread_activated p x w = Some (x', w') \<and> avail w' = (avail w)(p := []) \<and>
        xpub_ok x' w' \<and> (\<forall>k. subs (xp_subs x') k - {p} = subs (xp_subs x) k - {p}) \<and>
        (\<forall>k. p \<in> subs (xp_subs x') k \<longleftrightarrow> wants (p \<in> subs (xp_subs x) k) k (avail w p)) \<and>
        (\<exists>bs. pending x' = pending x @ bs \<and> set bs \<subseteq> fdata ` set (avail w p))"
proof -
  have v: "valid w p" using assms by (simp add: xpub_ok_def)
  note rd = xpub_read_all[OF v, of x]
  show ?thesis
  proof (cases "xpub_requests p (avail w p) x")
    case None
    then have "\<exists>fs f gs y. avail w p = fs @ f # gs \<and> xpub_requests p fs x = Some y \<and> \<not> request_ok p f y"
      using assms by (rule xpub_requests_none)
    then show ?thesis using None rd by (auto simp: request_ok_def)
  next
    case (Some x')
    then show ?thesis using rd xpub_requests_ok[OF assms Some] xpub_ok_valid by fastforce
  qed
qed

definition request_world :: world where
  "request_world = demo_world\<lparr>upipes := (upipes demo_world)
     (2 \<mapsto> chan_empty\<lparr>readable := [frame_of 0 [1, 66], frame_of 0 [0, 65]]\<rparr>)\<rparr>"

lemma request_world_facts: "valid request_world 0" "avail request_world 0 = [frame_of 0 [1, 66], frame_of 0 [0, 65]]"
proof -
  have "world_ok request_world"
    by (auto simp: world_ok_def request_world_def demo_defs pipe_ok_def final_def chan_ok_def whole_def frame_of_def
        frame_more_def split: if_splits)
  then show "valid request_world 0" by (simp add: valid_def request_world_def demo_world_def)
  show "avail request_world 0 = [frame_of 0 [1, 66], frame_of 0 [0, 65]]"
    by (simp add: request_world_def avail_def demo_defs can_read_def frame_of_def)
qed

theorem xpub_read_requests_witness:
  "\<exists>x' w'. xpub_xread_activated 0 demo_xpub request_world = Some (x', w') \<and>
     0 \<in> subs (xp_subs x') [66] \<and> 0 \<notin> subs (xp_subs x') [65]"
proof -
  have "xpub_requests 0 (avail request_world 0) demo_xpub \<noteq> None"
    unfolding request_world_facts(2) by code_simp
  then obtain x' where x': "xpub_requests 0 (avail request_world 0) demo_xpub = Some x'" by blast
  have "0 \<in> dist_all (xp_dist demo_xpub)" by (simp add: demo_xpub_sets)
  from xpub_read_requests[OF demo_xpub_ok[OF request_world_facts(1)] this] obtain w' where
    "xpub_xread_activated 0 demo_xpub request_world = Some (x', w')"
    "\<forall>k. 0 \<in> subs (xp_subs x') k \<longleftrightarrow> wants (0 \<in> subs (xp_subs demo_xpub) k) k (avail request_world 0)"
    unfolding x' option.case by (elim exE conjE)
  then show ?thesis by (intro exI[of _ x'] exI[of _ w']) (simp add: request_world_facts(2) frame_of_def)
qed

end
