(* ===== verification/Xsub.thy ===== *)
theory Xsub
  imports Routing Trie Options
begin

text \<open>
  XSUB and SUB sockets: \<open>xsub_t\<close> of \<open>xsub.cpp\<close> and \<open>sub_t\<close> of \<open>sub.cpp\<close>. Subscriptions are kept in a trie and
  sent to all publishers; messages are received by fair queueing, and with filtering on those whose first
  part matches no subscription are skipped as a whole.
\<close>

section \<open>State and operations\<close>

record xsub =
  xs_fq :: "nat fq_t"
  xs_dist :: "nat dist_t"
  xs_subs :: "uint32 trie"
  has_message :: bool
  xs_message :: frame
  xs_more :: bool
  xs_filter :: bool

definition xsub_init :: "bool \<Rightarrow> xsub" where
  "xsub_init filt = \<lparr>xs_fq = fq_init, xs_dist = dist_init, xs_subs = trie_init 0, has_message = False,
     xs_message = frame_of 0 [], xs_more = False, xs_filter = filt\<rparr>"

definition xsub_options :: "'f options \<Rightarrow> 'f options" where
  "xsub_options opts = opts\<lparr>socktype := XSUB, linger := 0\<rparr>"

definition sub_options :: "'f options \<Rightarrow> 'f options" where
  "sub_options opts = (xsub_options opts)\<lparr>socktype := SUB, filter_opt := True\<rparr>"

text \<open>A subscription that does not fit into the pipe is dropped.\<close>

definition send_subscription :: "nat \<Rightarrow> bytes \<Rightarrow> world \<Rightarrow> world option" where
  "send_subscription p key w = map_option snd (pipe_write p (frame_of 0 (1 # key)) w)"

primrec send_subscriptions :: "nat \<Rightarrow> bytes list \<Rightarrow> world \<Rightarrow> world option" where
  "send_subscriptions p [] w = Some w"
| "send_subscriptions p (k # ks) w = do { w \<leftarrow> send_subscription p k w; send_subscriptions p ks w }"

definition xsub_xhiccuped :: "nat \<Rightarrow> xsub \<Rightarrow> world \<Rightarrow> world option" where
  "xsub_xhiccuped p x w = do {
     ks \<leftarrow> trie_apply (xs_subs x);
     w \<leftarrow> send_subscriptions p ks w;
     pipe_flush p w }"

definition xsub_xattach_pipe :: "nat \<Rightarrow> xsub \<Rightarrow> world \<Rightarrow> (xsub \<times> world) option" where
  "xsub_xattach_pipe p x w = do {
     q \<leftarrow> fq_attach p (xs_fq x);
     d \<leftarrow> dist_attach p (xs_dist x);
     ks \<leftarrow> trie_apply (xs_subs x);
     w \<leftarrow> send_subscriptions p ks w;
     w \<leftarrow> pipe_flush p w;
     Some (x\<lparr>xs_fq := q, xs_dist := d\<rparr>, w) }"

definition xsub_xread_activated :: "nat \<Rightarrow> xsub \<Rightarrow> xsub option" where
  "xsub_xread_activated p x = do { q \<leftarrow> fq_activated p (xs_fq x); Some (x\<lparr>xs_fq := q\<rparr>) }"

definition xsub_xwrite_activated :: "nat \<Rightarrow> xsub \<Rightarrow> xsub option" where
  "xsub_xwrite_activated p x = do { d \<leftarrow> dist_activated p (xs_dist x); Some (x\<lparr>xs_dist := d\<rparr>) }"

definition xsub_xterminated :: "nat \<Rightarrow> xsub \<Rightarrow> xsub option" where
  "xsub_xterminated p x = do {
     q \<leftarrow> fq_terminated p (xs_fq x);
     d \<leftarrow> dist_terminated p (xs_dist x);
     Some (x\<lparr>xs_fq := q, xs_dist := d\<rparr>) }"

definition xsub_xsend :: "frame \<Rightarrow> xsub \<Rightarrow> world \<Rightarrow> (xsub \<times> world \<times> unit outcome) option" where
  "xsub_xsend m x w =
     (case fdata m of
        [] \<Rightarrow> Some (x, w, Inl EINVAL)
      | b # key \<Rightarrow>
          if b \<noteq> 0 \<and> b \<noteq> 1 then Some (x, w, Inl EINVAL)
          else do {
            (unique, t) \<leftarrow> (if b = 1 then trie_add key (xs_subs x) else trie_rm key (xs_subs x));
            let x = x\<lparr>xs_subs := t\<rparr>;
            if unique then do {
              (d, w) \<leftarrow> dist_send_to_all pipe_write pipe_flush m (xs_dist x) w;
              Some (x\<lparr>xs_dist := d\<rparr>, w, Inr ()) }
            else Some (x, w, Inr ()) })"

definition xsub_xhas_out :: "xsub \<Rightarrow> bool" where
  "xsub_xhas_out x = True"

definition xsub_match :: "frame \<Rightarrow> xsub \<Rightarrow> bool option" where
  "xsub_match m x = trie_check (fdata m) (xs_subs x)"

text \<open>The inner loop: the remaining parts of a message that does not match must be readable.\<close>

partial_function (option) xsub_skip :: "frame \<Rightarrow> nat fq_t \<Rightarrow> world \<Rightarrow> (nat fq_t \<times> world) option" where
  "xsub_skip m q w =
     (if frame_more m then
        (case fq_recv pipe_read q w of
           None \<Rightarrow> None
         | Some (q, w, Inl e) \<Rightarrow> None
         | Some (q, w, Inr m) \<Rightarrow> xsub_skip m q w)
      else Some (q, w))"

text \<open>The loop of \<open>xrecv\<close>; the one of \<open>xhas_in\<close> is the same, since \<open>more\<close> is false there.\<close>

partial_function (option) xsub_next :: "xsub \<Rightarrow> nat fq_t \<Rightarrow> world \<Rightarrow> (nat fq_t \<times> world \<times> frame outcome) option" where
  "xsub_next x q w =
     (case fq_recv pipe_read q w of
        None \<Rightarrow> None
      | Some (q, w, Inl e) \<Rightarrow> Some (q, w, Inl e)
      | Some (q, w, Inr m) \<Rightarrow>
          (case if xs_more x \<or> \<not> xs_filter x then Some True else xsub_match m x of
             None \<Rightarrow> None
           | Some ok \<Rightarrow>
               if ok then Some (q, w, Inr m)
               else (case xsub_skip m q w of None \<Rightarrow> None | Some (q, w) \<Rightarrow> xsub_next x q w)))"

definition xsub_xrecv :: "xsub \<Rightarrow> world \<Rightarrow> (xsub \<times> world \<times> frame outcome) option" where
  "xsub_xrecv x w =
     (if has_message x then
        Some (x\<lparr>has_message := False, xs_message := frame_of 0 [], xs_more := frame_more (xs_message x)\<rparr>, w, Inr (xs_message x))
      else do {
        (q, w, r) \<leftarrow> xsub_next x (xs_fq x) w;
        (case r of
           Inl e \<Rightarrow> Some (x\<lparr>xs_fq := q\<rparr>, w, Inl e)
         | Inr m \<Rightarrow> Some (x\<lparr>xs_fq := q, xs_more := frame_more m\<rparr>, w, Inr m)) })"

definition xsub_xhas_in :: "xsub \<Rightarrow> world \<Rightarrow> (xsub \<times> world \<times> bool) option" where
  "xsub_xhas_in x w =
     (if xs_more x \<or> has_message x then Some (x, w, True)
      else do {
        (q, w, r) \<leftarrow> xsub_next x (xs_fq x) w;
        (case r of
           Inl e \<Rightarrow> if e = EAGAIN then Some (x\<lparr>xs_fq := q\<rparr>, w, False) else None
         | Inr m \<Rightarrow> Some (x\<lparr>xs_fq := q, has_message := True, xs_message := m\<rparr>, w, True)) })"

text \<open>
  The SUB socket: subscriptions are set by the options \<open>ZMQ_SUBSCRIBE\<close> (number 6) and
  \<open>ZMQ_UNSUBSCRIBE\<close> (number 7), and it cannot send.
\<close>

definition sub_xsetsockopt :: "int \<Rightarrow> bytes \<Rightarrow> xsub \<Rightarrow> world \<Rightarrow> (xsub \<times> world \<times> unit outcome) option" where
  "sub_xsetsockopt opt val x w =
     (if opt \<noteq> 6 \<and> opt \<noteq> 7 then Some (x, w, Inl EINVAL)
      else xsub_xsend (frame_of 0 ((if opt = 6 then 1 else 0) # val)) x w)"

definition sub_xsend :: "frame \<Rightarrow> xsub \<Rightarrow> world \<Rightarrow> (xsub \<times> world \<times> unit outcome) option" where
  "sub_xsend m x w = Some (x, w, Inl ENOTSUP)"

definition sub_xhas_out :: "xsub \<Rightarrow> bool" where
  "sub_xhas_out x = False"

section \<open>Receiving\<close>

text \<open>A whole message; a sequence of whole messages whose first parts a test refuses.\<close>

definition one_message :: "frame list \<Rightarrow> bool" where
  "one_message ms \<longleftrightarrow> ms \<noteq> [] \<and> (\<forall>m \<in> set (butlast ms). frame_more m) \<and> \<not> frame_more (last ms)"

definition skipped :: "(frame \<Rightarrow> bool) \<Rightarrow> frame list \<Rightarrow> bool" where
  "skipped P fs \<longleftrightarrow> (\<exists>mss. fs = concat mss \<and> (\<forall>ms \<in> set mss. one_message ms \<and> \<not> P (hd ms)))"

definition passes :: "xsub \<Rightarrow> frame \<Rightarrow> bool" where
  "passes x m \<longleftrightarrow> xs_more x \<or> \<not> xs_filter x \<or> (\<exists>k. prefix k (fdata m) \<and> refs (xs_subs x) k \<noteq> 0)"

lemma skipped_Nil [simp]: "skipped P []"
  by (auto simp: skipped_def intro!: exI[of _ "[]"])

lemma skipped_append: "one_message ms \<Longrightarrow> \<not> P (hd ms) \<Longrightarrow> skipped P fs \<Longrightarrow> skipped P (ms @ fs)"
  unfolding skipped_def by (metis concat.simps(2) set_ConsD)

lemma skipped_hd: "skipped P (f # fs) \<Longrightarrow> \<not> P f"
proof -
  assume "skipped P (f # fs)"
  then obtain mss where mss: "f # fs = concat mss" "\<forall>ms \<in> set mss. one_message ms \<and> \<not> P (hd ms)"
    by (auto simp: skipped_def)
  then obtain ms mss' where "mss = ms # mss'" by (cases mss) auto
  then have "one_message ms" "\<not> P (hd ms)" "f # fs = ms @ concat mss'" using mss by auto
  then show ?thesis by (cases ms) (auto simp: one_message_def)
qed

lemma one_message_single: "\<not> frame_more m \<Longrightarrow> one_message [m]"
  by (simp add: one_message_def)

lemma one_message_Cons: "frame_more m \<Longrightarrow> one_message ms \<Longrightarrow> one_message (m # ms)"
  by (auto simp: one_message_def)

text \<open>Skipping takes the rest of the message from the pipe it began on.\<close>

lemma xsub_skip_ok:
  assumes "pin.in_sync q w" "fq_more q = frame_more m" "frame_more m \<longrightarrow> items (fq_pipes q) ! fq_current q = p"
    "p \<in> fq_all q"
  shows "\<exists>q' w' ms. xsub_skip m q w = Some (q', w') \<and> pin.in_sync q' w' \<and> fq_all q' = fq_all q \<and> \<not> fq_more q' \<and>
    one_message (m # ms) \<and> avail w p = ms @ avail w' p \<and> (\<forall>r. r \<noteq> p \<longrightarrow> avail w' r = avail w r) \<and>
    backlog_size q' w' \<le> backlog_size q w \<and> (\<forall>r \<in> fq_actives q - fq_actives q'. avail w' r = [])"
  using assms
proof (induction "backlog_size q w" arbitrary: q w m rule: less_induct)
  case less
  show ?case
  proof (cases "frame_more m")
    case False
    then show ?thesis using less.prems
      by (intro exI[of _ q] exI[of _ w] exI[of _ "[]"]) (simp add: xsub_skip.simps one_message_single)
  next
    case True
    show ?thesis using less.prems(1)
    proof (cases rule: fq_recv_step)
      case (1 q' w')
      then show ?thesis using True less.prems(2) by simp
    next
      case (2 q1 w1 m1 p1)
      have p1: "p1 = p" using 2(10) True less.prems(2,3) by simp
      have lt: "backlog_size q1 w1 < backlog_size q w" using backlog_decreases[OF 2(4,5,6,3)] .
      have "frame_more m1 \<longrightarrow> items (fq_pipes q1) ! fq_current q1 = p" "p \<in> fq_all q1"
        using 2(3,9) p1 less.prems(4) by simp_all
      from less.hyps[OF lt 2(2,8) this] obtain q' w' ms where r: "xsub_skip m1 q1 w1 = Some (q', w')" "pin.in_sync q' w'"
        "fq_all q' = fq_all q1" "\<not> fq_more q'" "one_message (m1 # ms)" "avail w1 p = ms @ avail w' p"
        "\<forall>r. r \<noteq> p \<longrightarrow> avail w' r = avail w1 r" "backlog_size q' w' \<le> backlog_size q1 w1"
        "\<forall>r \<in> fq_actives q1 - fq_actives q'. avail w' r = []" by (elim exE conjE)
      have "xsub_skip m q w = Some (q', w')" using True 2(1) r(1) by (simp add: xsub_skip.simps[of m q w])
      moreover have "one_message (m # m1 # ms)" using one_message_Cons[OF True r(5)] .
      moreover have "avail w' r = []" if "r \<in> fq_actives q - fq_actives q'" for r
        using that r(6,7,9) 2(5,6,11) p1 by (cases "r \<in> fq_actives q1"; cases "r = p") auto
      ultimately show ?thesis using r 2(3,5,6) p1 lt
        by (intro exI[of _ q'] exI[of _ w'] exI[of _ "m1 # ms"]) simp
    qed
  qed
qed

text \<open>
  What a receive takes from the pipes: whole messages that do not pass from any pipe, and then \<open>ms\<close> from
  the pipe \<open>p0\<close>.
\<close>

definition filtered :: "xsub \<Rightarrow> frame list \<Rightarrow> nat \<Rightarrow> world \<Rightarrow> world \<Rightarrow> bool" where
  "filtered x ms p0 w w' \<longleftrightarrow>
     (\<forall>p. \<exists>fs. skipped (passes x) fs \<and> avail w p = fs @ (if p = p0 then ms else []) @ avail w' p)"

lemma filtered_refl: "avail w' = avail w \<Longrightarrow> filtered x [] p0 w w'"
  by (auto simp: filtered_def intro!: exI[of _ "[]"])

lemma filtered_one: "avail w p = m # avail w' p \<Longrightarrow> \<forall>r. r \<noteq> p \<longrightarrow> avail w' r = avail w r \<Longrightarrow> filtered x [m] p w w'"
  by (auto simp: filtered_def intro!: exI[of _ "[]"])

lemma filtered_step:
  assumes "one_message (m # ms)" "\<not> passes x m" "avail w p = m # ms @ avail w1 p" "\<forall>r. r \<noteq> p \<longrightarrow> avail w1 r = avail w r"
    "filtered x fs p0 w1 w'"
  shows "filtered x fs p0 w w'"
  unfolding filtered_def
proof
  fix r
  obtain gs where gs: "skipped (passes x) gs" "avail w1 r = gs @ (if r = p0 then fs else []) @ avail w' r"
    using assms(5) by (auto simp: filtered_def)
  show "\<exists>hs. skipped (passes x) hs \<and> avail w r = hs @ (if r = p0 then fs else []) @ avail w' r"
  proof (cases "r = p")
    case True
    then show ?thesis using gs assms(3) skipped_append[OF assms(1), of "passes x" gs] assms(2)
      by (intro exI[of _ "(m # ms) @ gs"]) auto
  next
    case False
    then show ?thesis using gs assms(4) by (intro exI[of _ gs]) auto
  qed
qed

lemma xsub_test:
  assumes "trie_ok 0 (xs_subs x)"
  shows "(if xs_more x \<or> \<not> xs_filter x then Some True else xsub_match m x) = Some (passes x m)"
  using assms trie_check_ok[OF assms] by (auto simp: xsub_match_def passes_def)

lemma xsub_next_ok:
  assumes "pin.in_sync q w" "trie_ok 0 (xs_subs x)" "\<not> xs_more x \<longrightarrow> \<not> fq_more q"
  shows "\<exists>q' w' r p0. xsub_next x q w = Some (q', w', r) \<and> pin.in_sync q' w' \<and> fq_all q' = fq_all q \<and>
    (case r of
       Inl e \<Rightarrow> e = EAGAIN \<and> \<not> fq_more q \<and> \<not> fq_more q' \<and> (\<forall>p \<in> fq_actives q. avail w' p = []) \<and> filtered x [] p0 w w'
     | Inr m \<Rightarrow> passes x m \<and> fq_more q' = frame_more m \<and> p0 \<in> fq_all q \<and> filtered x [m] p0 w w' \<and>
         (fq_more q \<longrightarrow> p0 = items (fq_pipes q) ! fq_current q))"
  using assms(1,3)
proof (induction "backlog_size q w" arbitrary: q w rule: less_induct)
  case less
  note test = xsub_test[OF assms(2)]
  show ?case using less.prems(1)
  proof (cases rule: fq_recv_step)
    case (1 q' w')
    then have "xsub_next x q w = Some (q', w', Inl EAGAIN)" by (simp add: xsub_next.simps[of x q w])
    then show ?thesis using 1 filtered_refl[of w' w x] by (intro exI[of _ q'] exI[of _ w'] exI[of _ "Inl EAGAIN"]) simp
  next
    case (2 q1 w1 m p)
    show ?thesis
    proof (cases "passes x m")
      case True
      then have "xsub_next x q w = Some (q1, w1, Inr m)" using 2(1) test[of m] by (simp add: xsub_next.simps[of x q w])
      then show ?thesis using 2 True filtered_one[OF 2(5,6)]
        by (intro exI[of _ q1] exI[of _ w1] exI[of _ "Inr m"] exI[of _ p]) simp
    next
      case False
      have p: "p \<in> fq_all q1" using 2(3,4) by simp
      obtain q2 w2 ms where sk: "xsub_skip m q1 w1 = Some (q2, w2)" "pin.in_sync q2 w2" "fq_all q2 = fq_all q1" "\<not> fq_more q2"
        "one_message (m # ms)" "avail w1 p = ms @ avail w2 p" "\<forall>r. r \<noteq> p \<longrightarrow> avail w2 r = avail w1 r"
        "backlog_size q2 w2 \<le> backlog_size q1 w1" "\<forall>r \<in> fq_actives q1 - fq_actives q2. avail w2 r = []"
        using xsub_skip_ok[OF 2(2,8,9) p] by (elim exE conjE)
      have lt: "backlog_size q2 w2 < backlog_size q w" using backlog_decreases[OF 2(4,5,6,3)] sk(8) by simp
      obtain q' w' r p0 where ih: "xsub_next x q2 w2 = Some (q', w', r)" "pin.in_sync q' w'" "fq_all q' = fq_all q2"
        "case r of Inl e \<Rightarrow> e = EAGAIN \<and> \<not> fq_more q2 \<and> \<not> fq_more q' \<and> (\<forall>p \<in> fq_actives q2. avail w' p = []) \<and> filtered x [] p0 w2 w'
         | Inr m \<Rightarrow> passes x m \<and> fq_more q' = frame_more m \<and> p0 \<in> fq_all q2 \<and> filtered x [m] p0 w2 w' \<and>
             (fq_more q2 \<longrightarrow> p0 = items (fq_pipes q2) ! fq_current q2)"
        using less.hyps[OF lt sk(2) impI[OF sk(4)]] by (elim exE conjE)
      have nm: "\<not> fq_more q" using less.prems(2) False by (auto simp: passes_def)
      have eq: "xsub_next x q w = Some (q', w', r)"
        using 2(1) test[of m] False sk(1) ih(1) by (simp add: xsub_next.simps[of x q w])
      have "avail w p = m # ms @ avail w2 p" "\<forall>r. r \<noteq> p \<longrightarrow> avail w2 r = avail w r" using 2(5,6) sk(6,7) by simp_all
      note step = filtered_step[OF sk(5) False this]
      have left: "avail w' r = []" if fl: "filtered x [] p0 w2 w'" "\<forall>p \<in> fq_actives q2. avail w' p = []" "r \<in> fq_actives q" for r
      proof -
        have "r \<in> fq_actives q2 \<or> avail w2 r = []"
        proof (cases "r \<in> fq_actives q1")
          case True
          then show ?thesis using sk(9) by blast
        next
          case False
          then have "avail w r = []" using that(3) 2(11) by blast
          then show ?thesis using 2(5,6) sk(7) by (cases "r = p") auto
        qed
        moreover obtain fs where "avail w2 r = fs @ (if r = p0 then [] else []) @ avail w' r"
          using fl(1) unfolding filtered_def by blast
        ultimately show ?thesis using that(2) by (cases "r = p0") auto
      qed
      show ?thesis using eq ih 2(3) sk(3) nm step left
        by (intro exI[of _ q'] exI[of _ w'] exI[of _ r] exI[of _ p0]) (cases r; simp)
    qed
  qed
qed

section \<open>Properties\<close>

text \<open>
  The invariant for receiving: the fair queue agrees with the pipes, and it is in the middle of a message
  exactly if the part delivered last, or the one kept for the next call, has a successor.
\<close>

definition xsub_ok :: "xsub \<Rightarrow> world \<Rightarrow> bool" where
  "xsub_ok x w \<longleftrightarrow> pin.in_sync (xs_fq x) w \<and> trie_ok 0 (xs_subs x) \<and> (has_message x \<longrightarrow> \<not> xs_more x) \<and>
     fq_more (xs_fq x) = (if has_message x then frame_more (xs_message x) else xs_more x)"


definition demo_xsub :: xsub where
  "demo_xsub = (xsub_init True)\<lparr>xs_fq := demo_fq, xs_subs := snd (the (trie_add [5] (trie_init 0)))\<rparr>"


end
