(* ===== verification/Pubsub.thy ===== *)
theory Pubsub
  imports Xpub Xsub
begin

text \<open>
  A subscriber and a publisher together: the requests a SUB socket writes to a pipe are the ones an XPUB
  socket reads from the other end, and they keep the publisher's multi-trie equal to the subscriber's
  trie.
\<close>

section \<open>Well-behaved sequences of requests\<close>

text \<open>Only keys the pipe is subscribed to are unsubscribed; \<open>B\<close> are the subscriptions at the beginning.\<close>

fun polite :: "(bytes \<Rightarrow> bool) \<Rightarrow> frame list \<Rightarrow> bool" where
  "polite B [] = True"
| "polite B (f # fs) \<longleftrightarrow> (\<forall>k. fdata f = 0 # k \<longrightarrow> B k) \<and> polite (\<lambda>k. wants (B k) k [f]) fs"

lemma wants_append: "wants b k (fs @ gs) = wants (wants b k fs) k gs"
  by (induction fs arbitrary: b) simp_all

lemma polite_append: "polite B (fs @ [f]) \<longleftrightarrow> polite B fs \<and> (\<forall>k. fdata f = 0 # k \<longrightarrow> wants (B k) k fs)"
  by (induction fs arbitrary: B) auto

lemma polite_requests:
  assumes "xpub_ok y v" "q \<in> dist_all (xp_dist y)" "polite (\<lambda>k. q \<in> subs (xp_subs y) k) fs"
  shows "\<exists>y'. xpub_requests q fs y = Some y'"
  using assms
proof (induction fs arbitrary: y)
  case (Cons f fs)
  have "mtrie_ok (xp_subs y)" "request_ok q f y"
    using Cons.prems(1,3) by (auto simp: xpub_ok_def request_ok_def)
  then obtain y1 where y1: "xpub_request q f y = Some y1" by (rule xpub_request_ok)
  then have one: "xpub_requests q [f] y = Some y1" by simp
  note ok = xpub_requests_ok[OF Cons.prems(1,2) one]
  then have "(\<lambda>k. q \<in> subs (xp_subs y1) k) = (\<lambda>k. wants (q \<in> subs (xp_subs y) k) k [f])" by blast
  then have "polite (\<lambda>k. q \<in> subs (xp_subs y1) k) fs" using Cons.prems(3) by simp
  moreover have "xpub_ok y1 v" "q \<in> dist_all (xp_dist y1)" using ok Cons.prems(2) by simp_all
  ultimately obtain y' where "xpub_requests q fs y1 = Some y'" using Cons.IH by blast
  then show ?case using y1 by simp
qed simp

section \<open>The requests of a subscriber\<close>

text \<open>The invariant of the sending side.\<close>

definition upstream_ok :: "xsub \<Rightarrow> world \<Rightarrow> bool" where
  "upstream_ok x w \<longleftrightarrow> trie_ok 0 (xs_subs x) \<and> dist_ok (xs_dist x) \<and> (\<forall>p \<in> dist_all (xs_dist x). valid w p)"

lemma xsub_xsend_ok:
  assumes ok: "upstream_ok x w" and b: "b = 0 \<or> b = 1" and m: "m = frame_of 0 (b # key)"
    and ov: "b = 1 \<longrightarrow> refs (xs_subs x) key + 1 \<noteq> 0"
  obtains x' w' where "xsub_xsend m x w = Some (x', w', Inr ())" "upstream_ok x' w'"
    "refs (xs_subs x') = (refs (xs_subs x))(key := (if b = 1 then refs (xs_subs x) key + 1
       else if refs (xs_subs x) key = 0 then 0 else refs (xs_subs x) key - 1))"
    "\<forall>p. out w' p = (if refs (xs_subs x) key = (if b = 1 then 0 else 1) \<and> p \<in> active_set (xs_dist x) \<and> writable w p
       then out w p @ [m] else out w p)"
proof -
  have x: "trie_ok 0 (xs_subs x)" "dist_ok (xs_dist x)" "\<forall>p \<in> dist_all (xs_dist x). valid w p"
    using ok by (simp_all add: upstream_ok_def)
  let ?r = "refs (xs_subs x) key" and ?u = "refs (xs_subs x) key = (if b = 1 then 0 else 1)"
  have d: "fdata m = b # key" using m by (simp add: frame_of_def)
  obtain t where t: "(if b = 1 then trie_add key (xs_subs x) else trie_rm key (xs_subs x)) = Some (?u, t)" "trie_ok 0 t"
    "refs t = (refs (xs_subs x))(key := (if b = 1 then ?r + 1 else if ?r = 0 then 0 else ?r - 1))"
  proof (cases "b = 1")
    case True
    then show ?thesis using trie_add_ok[OF x(1), of key] ov that by auto
  next
    case False
    then show ?thesis using trie_rm_ok[OF x(1), of key] that by auto
  qed
  show ?thesis
  proof (cases ?u)
    case True
    obtain d' w' where s: "dist_send_to_all pipe_write pipe_flush m (xs_dist x) w = Some (d', w')" "dist_ok d'"
      "pout.delivered m (active_set (xs_dist x)) w w'" "dist_all d' = dist_all (xs_dist x)"
      using pout.send_to_all_correct[OF x(2,3), of m] by (elim exE conjE)
    let ?x = "x\<lparr>xs_subs := t, xs_dist := d'\<rparr>"
    have "xsub_xsend m x w = Some (?x, w', Inr ())" using b d t(1) True s(1) by (auto simp: xsub_xsend_def)
    moreover have "upstream_ok ?x w'" using t(2) s x(3) by (auto simp: upstream_ok_def pout.delivered_def)
    ultimately show ?thesis using that[of ?x w'] t(3) s(3) True by (auto simp: pout.delivered_def)
  next
    case False
    let ?x = "x\<lparr>xs_subs := t\<rparr>"
    have "xsub_xsend m x w = Some (?x, w, Inr ())" using b d t(1) False by (auto simp: xsub_xsend_def)
    moreover have "upstream_ok ?x w" using t(2) x by (simp add: upstream_ok_def)
    ultimately show ?thesis using that[of ?x w] t(3) False by auto
  qed
qed

section \<open>Property\<close>

text \<open>
  The pipe between them: \<open>p\<close> is the end of the subscriber \<open>x\<close>, \<open>q\<close> the one of the publisher \<open>y\<close>. The requests
  still in the pipe take the publisher's subscriptions of \<open>q\<close> to the subscriber's set of keys, without
  unsubscribing from a key that is not subscribed.
\<close>

definition agree :: "nat \<Rightarrow> xsub \<Rightarrow> world \<Rightarrow> nat \<Rightarrow> xpub \<Rightarrow> bool" where
  "agree p x w q y \<longleftrightarrow> polite (\<lambda>k. q \<in> subs (xp_subs y) k) (out w p) \<and>
     (\<forall>k. wants (q \<in> subs (xp_subs y) k) k (out w p) \<longleftrightarrow> refs (xs_subs x) k \<noteq> 0)"

text \<open>
  C25: a subscriber and a publisher agree. As long as the pipe to the publisher is active and not full,
  every subscription and unsubscription of a SUB socket keeps the agreement: a request is sent exactly
  if the set of keys changes. When the publisher has read the requests, none of which makes it abort,
  its end of the pipe is subscribed to exactly the keys of the subscriber.
\<close>

theorem subscriptions_agree:
  assumes "agree p x w q y" "upstream_ok x w" "p \<in> active_set (xs_dist x)" "writable w p"
    "opt = 6 \<or> opt = 7" "refs (xs_subs x) key + 1 \<noteq> 0" "xpub_ok y v" "q \<in> dist_all (xp_dist y)"
  shows "\<exists>x' w'. sub_xsetsockopt opt key x w = Some (x', w', Inr ()) \<and> upstream_ok x' w' \<and> agree p x' w' q y \<and>
    (\<forall>k. k \<noteq> key \<longrightarrow> refs (xs_subs x') k = refs (xs_subs x) k) \<and>
    (opt = 6 \<longrightarrow> refs (xs_subs x') key = refs (xs_subs x) key + 1) \<and>
    (\<exists>y'. xpub_requests q (out w' p) y = Some y' \<and> (\<forall>k. q \<in> subs (xp_subs y') k \<longleftrightarrow> refs (xs_subs x') k \<noteq> 0))"
proof -
  define b where "b = (if opt = 6 then 1 else 0 :: byte)"
  have b: "b = 0 \<or> b = 1" "b = 1 \<longleftrightarrow> opt = 6" by (auto simp: b_def)
  let ?m = "frame_of 0 (b # key)" and ?r = "refs (xs_subs x) key"
  obtain x' w' where s: "xsub_xsend ?m x w = Some (x', w', Inr ())" "upstream_ok x' w'"
    "refs (xs_subs x') = (refs (xs_subs x))(key := (if b = 1 then ?r + 1 else if ?r = 0 then 0 else ?r - 1))"
    "\<forall>p. out w' p = (if ?r = (if b = 1 then 0 else 1) \<and> p \<in> active_set (xs_dist x) \<and> writable w p
       then out w p @ [?m] else out w p)"
    using xsub_xsend_ok[OF assms(2) b(1) refl] assms(6) by blast
  have o: "out w' p = (if ?r = (if b = 1 then 0 else 1) then out w p @ [?m] else out w p)"
    using s(4) assms(3,4) by simp
  have ag: "polite (\<lambda>k. q \<in> subs (xp_subs y) k) (out w p)"
    "wants (q \<in> subs (xp_subs y) k) k (out w p) \<longleftrightarrow> refs (xs_subs x) k \<noteq> 0" for k
    using assms(1) by (simp_all add: agree_def)
  have d: "fdata ?m = b # key" by (simp add: frame_of_def)
  have pol: "polite (\<lambda>k. q \<in> subs (xp_subs y) k) (out w' p)"
    using ag o d by (auto simp: polite_append)
  have wan: "wants (q \<in> subs (xp_subs y) k) k (out w' p) \<longleftrightarrow> refs (xs_subs x') k \<noteq> 0" for k
    using ag(2)[of k] o d s(3) b(1) assms(6) by (auto simp: wants_append)
  obtain y' where y': "xpub_requests q (out w' p) y = Some y'"
    using polite_requests[OF assms(7,8) pol] by blast
  have "q \<in> subs (xp_subs y') k \<longleftrightarrow> refs (xs_subs x') k \<noteq> 0" for k
    using xpub_requests_ok[OF assms(7,8) y'] wan by blast
  moreover have "sub_xsetsockopt opt key x w = Some (x', w', Inr ())"
    using s(1) assms(5) b_def by (auto simp: sub_xsetsockopt_def)
  moreover have "agree p x' w' q y" using pol wan by (simp add: agree_def)
  ultimately show ?thesis using s(2,3) y' b(2) by (intro exI[of _ x'] exI[of _ w']) auto
qed

text \<open>A new subscriber and a new publisher with one pipe each.\<close>

theorem subscriptions_agree_witness:
  "\<exists>x' w' y'. sub_xsetsockopt 6 [65] ((xsub_init True)\<lparr>xs_dist := demo_dist\<rparr>) demo_world = Some (x', w', Inr ()) \<and>
     xpub_requests 0 (out w' 0) ((xpub_init XPUB)\<lparr>xp_dist := demo_dist\<lparr>di_matching := 0\<rparr>\<rparr>) = Some y' \<and>
     0 \<in> subs (xp_subs y') [65]"
proof -
  let ?x = "(xsub_init True)\<lparr>xs_dist := demo_dist\<rparr>" and ?y = "(xpub_init XPUB)\<lparr>xp_dist := demo_dist\<lparr>di_matching := 0\<rparr>\<rparr>"
  have "agree 0 ?x demo_world 0 ?y" by (simp add: agree_def demo_out xsub_init_def xpub_init_def)
  moreover have "upstream_ok ?x demo_world" "0 \<in> active_set (xs_dist ?x)" "xpub_ok ?y demo_world" "0 \<in> dist_all (xp_dist ?y)"
    using demo_valid demo_array_ok
    by (simp_all add: upstream_ok_def xpub_ok_def xsub_init_def xpub_init_def)
      (simp_all add: demo_dist_def dist_ok_def demo_array_def dist_sets prefix_set_def)
  moreover have "refs (xs_subs ?x) [65] + 1 \<noteq> 0" by (simp add: xsub_init_def)
  ultimately obtain x' w' y' where "sub_xsetsockopt 6 [65] ?x demo_world = Some (x', w', Inr ())"
    "refs (xs_subs x') [65] = refs (xs_subs ?x) [65] + 1" "xpub_requests 0 (out w' 0) ?y = Some y'"
    "\<forall>k. 0 \<in> subs (xp_subs y') k \<longleftrightarrow> refs (xs_subs x') k \<noteq> 0"
    using subscriptions_agree[of 0 ?x demo_world 0 ?y 6 "[65]" demo_world] demo_writable by auto
  then show ?thesis by (intro exI[of _ x'] exI[of _ w'] exI[of _ y']) (simp add: xsub_init_def)
qed

end
