(* ===== verification/Duplex.thy ===== *)
theory Duplex
  imports Routing
begin

text \<open>
  Reading from and writing to the pipes of one socket do not interfere, as long as no two of them are the
  two ends of one connection: a read does not change what has been written, and writing a part does not
  change what can be read.
\<close>

definition apart :: "world \<Rightarrow> nat set \<Rightarrow> bool" where
  "apart s P \<longleftrightarrow> (\<forall>p \<in> P. \<forall>q \<in> P. \<forall>x y. pipes s p = Some x \<longrightarrow> pipes s q = Some y \<longrightarrow> outpipe x \<noteq> Some (inpipe y))"

definition same_out :: "nat \<Rightarrow> world \<Rightarrow> world \<Rightarrow> bool" where
  "same_out q s s' \<longleftrightarrow> out s' q = out s q \<and> flushed s' q = flushed s q \<and> writable s' q = writable s q"

lemma same_out_refl [simp]: "same_out q s s"
  by (simp add: same_out_def)

lemma same_out_trans: "same_out q s s1 \<Longrightarrow> same_out q s1 s2 \<Longrightarrow> same_out q s s2"
  by (simp add: same_out_def)

lemma apart_touched:
  assumes "apart s P" "pipes s p = Some x" "keeps x y" "touched p y c ch s s'"
  shows "apart s' P"
  unfolding apart_def
proof (intro ballI allI impI)
  fix a b u v assume ab: "a \<in> P" "b \<in> P" "pipes s' a = Some u" "pipes s' b = Some v"
  have old: "\<exists>z. pipes s c = Some z \<and> inpipe z = inpipe w \<and> (outpipe w = outpipe z \<or> outpipe w = None)"
    if "pipes s' c = Some w" for c w
    using that assms(2,3,4) by (cases "c = p") (auto simp: touched_def keeps_def)
  obtain u' v' where "pipes s a = Some u'" "outpipe u = outpipe u' \<or> outpipe u = None" "pipes s b = Some v'" "inpipe v' = inpipe v"
    using old[OF ab(3)] old[OF ab(4)] by blast
  then show "outpipe u \<noteq> Some (inpipe v)" using assms(1) ab(1,2) unfolding apart_def by (metis option.distinct(1))
qed

lemma same_out_other:
  assumes "apart s P" "pipes s p = Some x" "p \<in> P" "touched p y (inpipe x) ch s s'" "q \<in> P" "q \<noteq> p"
  shows "same_out q s s'"
proof -
  have "out_chan s' q = out_chan s q"
    using assms unfolding apart_def touched_def out_chan_def by (auto split: option.splits)
  moreover have "writable s' q = writable s q" using assms(4,6) by (simp add: writable_def touched_def)
  ultimately show ?thesis by (simp add: same_out_def out_def flushed_def)
qed

lemma same_out_self:
  assumes "apart s P" "pipes s p = Some x" "p \<in> P" "touched p (x\<lparr>msgs_read := n\<rparr>) (inpipe x) ch s s'"
  shows "same_out p s s'"
proof -
  have "out_chan s' p = out_chan s p"
    using assms unfolding apart_def touched_def out_chan_def by (auto split: option.splits)
  moreover have "writable s' p = writable s p" using assms(2,4) by (simp add: writable_def touched_def full_def)
  ultimately show ?thesis by (simp add: same_out_def out_def flushed_def)
qed

lemma pipe_read_apart:
  assumes "valid s p" "p \<in> P" "apart s P" "pipe_read p s = Some (res, s')"
  shows "apart s' P" "q \<in> P \<Longrightarrow> q \<noteq> p \<or> res \<noteq> None \<Longrightarrow> same_out q s s'"
proof -
  obtain x where ok: "world_ok s" and x: "pipes s p = Some x" using assms(1) by (auto simp: valid_def)
  have "apart s' P \<and> (\<forall>q \<in> P. q \<noteq> p \<or> res \<noteq> None \<longrightarrow> same_out q s s')"
  proof (cases "can_read x")
    case False
    then show ?thesis using assms x by (simp add: pipe_read_def)
  next
    case True
    obtain ch where ch: "upipes s (inpipe x) = Some ch" using world_okD(1)[OF ok x] by (auto simp: pipe_ok_def)
    from ok x True ch show ?thesis
    proof (cases rule: pipe_read_cases)
      case (none s1)
      then have "s1 = s'" "res = None" using assms(4) by simp_all
      then show ?thesis using none(3) apart_touched[OF assms(3) x keeps_inactive[OF ok x]] same_out_other[OF assms(3) x assms(2)] by blast
    next
      case (delim m ms s1 y)
      then have "s1 = s'" "res = None" using assms(4) by simp_all
      then show ?thesis using delim(4,5) apart_touched[OF assms(3) x] same_out_other[OF assms(3) x assms(2)] by blast
    next
      case (some m ms s1 y)
      then have "s1 = s'" using assms(4) by simp
      then show ?thesis using some(4,5,7) apart_touched[OF assms(3) x] same_out_other[OF assms(3) x assms(2)]
          same_out_self[OF assms(3) x assms(2)] by metis
    qed
  qed
  then show "apart s' P" "q \<in> P \<Longrightarrow> q \<noteq> p \<or> res \<noteq> None \<Longrightarrow> same_out q s s'" by blast+
qed

lemma recvpipe_apart:
  assumes "pin.in_sync q s" "apart s P" "fq_all q \<subseteq> P" "fq_recvpipe pipe_read q s = Some (q', s', Inr (m, p))"
  shows "apart s' P \<and> fq_actives q' \<subseteq> fq_actives q \<and> (\<forall>r \<in> P. r \<in> fq_actives q \<longrightarrow> r \<in> fq_actives q' \<longrightarrow> same_out r s s')"
  using assms
proof (induction "fq_active q" arbitrary: q s)
  case 0
  then show ?case by (simp add: fq_recvpipe.simps[of pipe_read q s])
next
  case (Suc n)
  let ?c = "items (fq_pipes q) ! fq_current q"
  have act: "fq_active q \<noteq> 0" using Suc.hyps by simp
  have ok: "fq_ok q" using Suc.prems by (simp add: pin.in_sync_def)
  have get: "array_get (fq_pipes q) (fq_current q) = Some ?c" and ca: "?c \<in> fq_actives q"
    using fq_current_get[OF ok act] by auto
  have cP: "?c \<in> P" "valid s ?c" using ca fq_actives_sub[of q] Suc.prems(1,3) by (auto simp: pin.in_sync_def)
  show ?case
  proof (cases "avail s ?c")
    case (Cons m0 ms)
    obtain s1 where s1: "pipe_read ?c s = Some (Some m0, s1)" using pin.rd_some[OF cP(2) Cons] by blast
    have "fq_recvpipe pipe_read q s = Some (q\<lparr>fq_more := frame_more m0,
        fq_current := (if frame_more m0 then fq_current q else (fq_current q + 1) mod fq_active q)\<rparr>, s1, Inr (m0, ?c))"
      using act get s1 by (subst fq_recvpipe.simps) (simp add: Let_def)
    then have "s1 = s'" "fq_actives q' = fq_actives q" using Suc.prems(4) by (auto simp: fq_actives_def)
    then show ?thesis using pipe_read_apart[OF cP(2,1) Suc.prems(2) s1] by auto
  next
    case Nil
    obtain q1 s1 where st: "fq_recvpipe pipe_read q s = fq_recvpipe pipe_read q1 s1" "pin.in_sync q1 s1"
      "fq_deactivate q = Some q1" "pipe_read ?c s = Some (None, s1)"
      using pin.recv_miss[OF Suc.prems(1) act refl Nil] by blast
    have dq: "fq_all q1 = fq_all q" "fq_actives q1 = fq_actives q - {?c}"
      using fq_deactivate_ok[OF ok act] st(3) by (metis option.inject)+
    have "n = fq_active q1" using Suc.hyps fq_deactivate_active[OF st(3)] by simp
    moreover note rd = pipe_read_apart[OF cP(2,1) Suc.prems(2) st(4)]
    ultimately have ih: "apart s' P" "fq_actives q' \<subseteq> fq_actives q1"
      "\<forall>r \<in> P. r \<in> fq_actives q1 \<longrightarrow> r \<in> fq_actives q' \<longrightarrow> same_out r s1 s'"
      using Suc.hyps(1)[OF _ st(2) rd(1)] Suc.prems(3,4) dq(1) st(1) by auto
    have "same_out r s s'" if "r \<in> P" "r \<in> fq_actives q'" for r
    proof (rule same_out_trans)
      have "r \<noteq> ?c" "r \<in> fq_actives q1" using that(2) ih(2) dq(2) by blast+
      then show "same_out r s s1" "same_out r s1 s'" using rd(2)[OF that(1)] ih(3) that by blast+
    qed
    then show ?thesis using ih(1,2) dq(2) by blast
  qed
qed

text \<open>Writing a part that is not the last one.\<close>

lemma write_part_apart:
  assumes "valid s p" "writable s p" "p \<in> P" "apart s P" "frame_more m" "pipe_write p m s = Some (True, s')"
  shows "apart s' P" "q \<in> P \<Longrightarrow> avail s' q = avail s q"
proof -
  obtain s1 x c ch y where e: "pipe_write p m s = Some (True, s1)" and x: "pipes s p = Some x"
    and c: "outpipe x = Some c" "upipes s c = Some ch" "keeps x y" "outpipe y = Some c"
    and t: "touched p y c (chan_write m (frame_more m) ch) s s1" "frame_more m \<longrightarrow> y = x"
    using assms(1,2) by (rule pipe_write_effect)
  have s1: "s1 = s'" using e assms(6) by simp
  then show "apart s' P" using apart_touched[OF assms(4) x c(3) t(1)] by simp
  have "pipes s' = pipes s" using t assms(5) x s1 by (auto simp: touched_def)
  moreover have "inpipe y \<noteq> c" if "pipes s q = Some y" "q \<in> P" for q y
    using assms(3,4) x c(1) that unfolding apart_def by fastforce
  ultimately show "avail s' q = avail s q" if "q \<in> P"
    using that t(1) s1 by (auto simp: avail_def touched_def split: option.splits)
qed

lemma check_write_apart:
  assumes "valid s p" "apart s P" "pipe_check_write p s = Some (b, s')"
  shows "apart s' P" "avail s' = avail s"
proof -
  obtain x where x: "pipes s p = Some x" using assms(1) by (auto simp: valid_def)
  have "s' = s \<or> s' = put_pipe p (x\<lparr>out_active := False\<rparr>) s"
    using assms(3) x by (auto simp: pipe_check_write_def split: if_splits)
  then show "apart s' P" "avail s' = avail s"
    using x assms(2) by (auto simp: put_pipe_def apart_def avail_def can_read_def fun_eq_iff split: option.splits if_splits)
qed

end
