(* ===== verification/Router.thy ===== *)
theory Router
  imports Routing Options
begin

text \<open>
  ROUTER sockets: \<open>router_t\<close> of \<open>router.cpp\<close>. Every peer has an identity, which it sends as its first message
  or which is generated. A received message is preceded by the identity of its sender, and the first part
  of a sent message is the identity of the receiver. The map of outbound pipes is an association list
  with distinct keys; its order is not observable, since no two entries have the same pipe.
\<close>

section \<open>State and operations\<close>

record router =
  ro_fq :: "nat fq_t"
  ro_prefetched :: bool
  identity_sent :: bool
  ro_prefetched_id :: frame
  ro_prefetched_msg :: frame
  more_in :: bool
  anonymous_pipes :: "nat set"
  outpipes :: "(bytes \<times> nat \<times> bool) list"
  current_out :: "nat option"
  more_out :: bool
  next_peer_id :: uint32
  mandatory :: bool

text \<open>The first generated identity is random.\<close>

definition router_init :: "uint32 \<Rightarrow> router" where
  "router_init rnd = \<lparr>ro_fq = fq_init, ro_prefetched = False, identity_sent = False, ro_prefetched_id = frame_of 0 [],
     ro_prefetched_msg = frame_of 0 [], more_in = False, anonymous_pipes = {}, outpipes = [], current_out = None,
     more_out = False, next_peer_id = rnd, mandatory = False\<rparr>"

definition router_options :: "'f options \<Rightarrow> 'f options" where
  "router_options opts = opts\<lparr>socktype := ROUTER, recv_identity := True\<rparr>"

definition router_destroy :: "'a router_scheme \<Rightarrow> unit option" where
  "router_destroy r = (if anonymous_pipes r = {} \<and> outpipes r = [] then Some () else None)"

definition identify_peer :: "nat \<Rightarrow> 'a router_scheme \<Rightarrow> world \<Rightarrow> ('a router_scheme \<times> world \<times> bool) option" where
  "identify_peer p r w = do {
     (res, w) \<leftarrow> pipe_read p w;
     (case res of
        None \<Rightarrow> Some (r, w, False)
      | Some m \<Rightarrow>
          let auto = fdata m = [];
              ident = (if auto then 0 # put_uint32 (next_peer_id r) else fdata m);
              r = (if auto then r\<lparr>next_peer_id := next_peer_id r + 1\<rparr> else r)
          in if \<not> auto \<and> map_of (outpipes r) ident \<noteq> None then Some (r, w, False)
             else do {
               w \<leftarrow> pipe_set_identity ident p w;
               if map_of (outpipes r) ident \<noteq> None then None
               else Some (r\<lparr>outpipes := (ident, p, True) # outpipes r\<rparr>, w, True) }) }"

definition router_xattach_pipe :: "nat \<Rightarrow> 'a router_scheme \<Rightarrow> world \<Rightarrow> ('a router_scheme \<times> world) option" where
  "router_xattach_pipe p r w = do {
     (r, w, identity_ok) \<leftarrow> identify_peer p r w;
     if identity_ok then do { q \<leftarrow> fq_attach p (ro_fq r); Some (r\<lparr>ro_fq := q\<rparr>, w) }
     else Some (r\<lparr>anonymous_pipes := insert p (anonymous_pipes r)\<rparr>, w) }"

text \<open>\<open>xsetsockopt\<close> accepts the option \<open>ZMQ_ROUTER_MANDATORY\<close> (number 33) with a value that is not negative.\<close>

definition router_xsetsockopt :: "int \<Rightarrow> bytes \<Rightarrow> 'a router_scheme \<Rightarrow> 'a router_scheme \<times> unit outcome" where
  "router_xsetsockopt opt val r =
     (if opt \<noteq> 33 then (r, Inl EINVAL)
      else case int_arg val of
        None \<Rightarrow> (r, Inl EINVAL)
      | Some v \<Rightarrow> if v < 0 then (r, Inl EINVAL) else (r\<lparr>mandatory := (v \<noteq> 0)\<rparr>, Inr ()))"

definition router_xterminated :: "nat \<Rightarrow> 'a router_scheme \<Rightarrow> world \<Rightarrow> 'a router_scheme option" where
  "router_xterminated p r w =
     (if p \<in> anonymous_pipes r then Some (r\<lparr>anonymous_pipes := anonymous_pipes r - {p}\<rparr>)
      else do {
        ident \<leftarrow> pipe_get_identity p w;
        _ \<leftarrow> map_of (outpipes r) ident;
        q \<leftarrow> fq_terminated p (ro_fq r);
        Some (r\<lparr>outpipes := filter (\<lambda>e. fst e \<noteq> ident) (outpipes r), ro_fq := q,
                current_out := (if current_out r = Some p then None else current_out r)\<rparr>) })"

definition router_xread_activated :: "nat \<Rightarrow> 'a router_scheme \<Rightarrow> world \<Rightarrow> ('a router_scheme \<times> world) option" where
  "router_xread_activated p r w =
     (if p \<notin> anonymous_pipes r then do { q \<leftarrow> fq_activated p (ro_fq r); Some (r\<lparr>ro_fq := q\<rparr>, w) }
      else do {
        (r, w, identity_ok) \<leftarrow> identify_peer p r w;
        if identity_ok then do {
          q \<leftarrow> fq_attach p (ro_fq r);
          Some (r\<lparr>anonymous_pipes := anonymous_pipes r - {p}, ro_fq := q\<rparr>, w) }
        else Some (r, w) })"

definition set_active :: "bytes \<Rightarrow> bool \<Rightarrow> (bytes \<times> nat \<times> bool) list \<Rightarrow> (bytes \<times> nat \<times> bool) list" where
  "set_active ident b es = map (\<lambda>(i, p, a). if i = ident then (i, p, b) else (i, p, a)) es"

definition router_xwrite_activated :: "nat \<Rightarrow> 'a router_scheme \<Rightarrow> 'a router_scheme option" where
  "router_xwrite_activated p r =
     (case find (\<lambda>(i, q, a). q = p) (outpipes r) of
        None \<Rightarrow> None
      | Some (i, q, a) \<Rightarrow> if a then None else Some (r\<lparr>outpipes := set_active i True (outpipes r)\<rparr>))"

definition router_xsend :: "frame \<Rightarrow> 'a router_scheme \<Rightarrow> world \<Rightarrow> ('a router_scheme \<times> world \<times> unit outcome) option" where
  "router_xsend m r w =
     (if \<not> more_out r then
        if current_out r \<noteq> None then None
        else if frame_more m then
          (case map_of (outpipes r) (fdata m) of
             Some (p, a) \<Rightarrow> do {
               (ok, w) \<leftarrow> pipe_check_write p w;
               Some (if ok then r\<lparr>more_out := True, current_out := Some p\<rparr>
                     else r\<lparr>more_out := True, outpipes := set_active (fdata m) False (outpipes r)\<rparr>, w, Inr ()) }
           | None \<Rightarrow>
               if mandatory r then Some (r, w, Inl EHOSTUNREACH)
               else Some (r\<lparr>more_out := True\<rparr>, w, Inr ()))
        else Some (r, w, Inr ())
      else
        let r = r\<lparr>more_out := frame_more m\<rparr> in
        (case current_out r of
           Some p \<Rightarrow> do {
             (ok, w) \<leftarrow> pipe_write p m w;
             if \<not> ok then Some (r\<lparr>current_out := None\<rparr>, w, Inr ())
             else if \<not> more_out r then do {
               w \<leftarrow> pipe_flush p w;
               Some (r\<lparr>current_out := None\<rparr>, w, Inr ()) }
             else Some (r, w, Inr ()) }
         | None \<Rightarrow> Some (r, w, Inr ())))"

text \<open>The loop that drops the identity a peer sends after it has reconnected.\<close>

partial_function (option) router_recv_loop :: "nat fq_t \<Rightarrow> world \<Rightarrow> (nat fq_t \<times> world \<times> (frame \<times> nat) outcome) option" where
  "router_recv_loop q w =
     (case fq_recvpipe pipe_read q w of
        None \<Rightarrow> None
      | Some (q, w, Inl e) \<Rightarrow> Some (q, w, Inl e)
      | Some (q, w, Inr (m, p)) \<Rightarrow> if frame_identity m then router_recv_loop q w else Some (q, w, Inr (m, p)))"

definition router_xrecv :: "'a router_scheme \<Rightarrow> world \<Rightarrow> ('a router_scheme \<times> world \<times> frame outcome) option" where
  "router_xrecv r w =
     (if ro_prefetched r then
        if \<not> identity_sent r then
          Some (r\<lparr>identity_sent := True, ro_prefetched_id := frame_of 0 [], more_in := frame_more (ro_prefetched_id r)\<rparr>,
                w, Inr (ro_prefetched_id r))
        else
          Some (r\<lparr>ro_prefetched := False, ro_prefetched_msg := frame_of 0 [], more_in := frame_more (ro_prefetched_msg r)\<rparr>,
                w, Inr (ro_prefetched_msg r))
      else do {
        (q, w, res) \<leftarrow> router_recv_loop (ro_fq r) w;
        let r = r\<lparr>ro_fq := q\<rparr>;
        (case res of
           Inl e \<Rightarrow> Some (r, w, Inl e)
         | Inr (m, p) \<Rightarrow>
             if more_in r then Some (r\<lparr>more_in := frame_more m\<rparr>, w, Inr m)
             else do {
               ident \<leftarrow> pipe_get_identity p w;
               Some (r\<lparr>ro_prefetched_msg := m, ro_prefetched := True, identity_sent := True\<rparr>, w,
                     Inr (frame_of msg_more ident)) }) })"

definition router_rollback :: "'a router_scheme \<Rightarrow> world \<Rightarrow> ('a router_scheme \<times> world) option" where
  "router_rollback r w =
     (case current_out r of
        None \<Rightarrow> Some (r, w)
      | Some p \<Rightarrow> do {
          w \<leftarrow> pipe_rollback p w;
          Some (r\<lparr>current_out := None, more_out := False\<rparr>, w) })"

definition router_xhas_in :: "'a router_scheme \<Rightarrow> world \<Rightarrow> ('a router_scheme \<times> world \<times> bool) option" where
  "router_xhas_in r w =
     (if more_in r \<or> ro_prefetched r then Some (r, w, True)
      else do {
        (q, w, res) \<leftarrow> router_recv_loop (ro_fq r) w;
        let r = r\<lparr>ro_fq := q\<rparr>;
        (case res of
           Inl e \<Rightarrow> Some (r, w, False)
         | Inr (m, p) \<Rightarrow> do {
             ident \<leftarrow> pipe_get_identity p w;
             Some (r\<lparr>ro_prefetched_msg := m, ro_prefetched_id := frame_of msg_more ident, ro_prefetched := True,
                     identity_sent := False\<rparr>, w, True) }) })"

definition router_xhas_out :: "'a router_scheme \<Rightarrow> bool" where
  "router_xhas_out r = True"

section \<open>The invariant\<close>

text \<open>
  Identities and pipes of the table are one to one, its pipes are allocated, no
  anonymous pipe is in it, and the identity of an entry is not empty and the one stored in its pipe.
\<close>

definition router_ok :: "'a router_scheme \<Rightarrow> world \<Rightarrow> bool" where
  "router_ok r w \<longleftrightarrow> distinct (map fst (outpipes r)) \<and> distinct (map (fst \<circ> snd) (outpipes r)) \<and>
     (\<forall>(i, p, a) \<in> set (outpipes r). valid w p \<and> pipe_get_identity p w = Some i \<and> p \<notin> anonymous_pipes r \<and> i \<noteq> []) \<and>
     (\<forall>p \<in> anonymous_pipes r. valid w p) \<and>
     (\<forall>p. current_out r = Some p \<longrightarrow> p \<in> (fst \<circ> snd) ` set (outpipes r))"

section \<open>Routing\<close>

primrec router_send_parts :: "frame list \<Rightarrow> 'a router_scheme \<Rightarrow> world \<Rightarrow> ('a router_scheme \<times> world \<times> unit outcome) option" where
  "router_send_parts [] r w = Some (r, w, Inr ())"
| "router_send_parts (m # ms) r w = do {
     (r, w, res) \<leftarrow> router_xsend m r w;
     (case res of Inl e \<Rightarrow> Some (r, w, Inl e) | Inr _ \<Rightarrow> router_send_parts ms r w) }"

text \<open>Writing and flushing do not change identities.\<close>

lemma put_identity [simp]:
  "pipe_get_identity q (put_upipe c ch s) = pipe_get_identity q s"
  "pipe_get_identity q (s\<lparr>cmds := cs\<rparr>) = pipe_get_identity q s"
  by (simp_all add: pipe_get_identity_def put_upipe_def)

lemma put_pipe_identity:
  "pipes s p = Some x \<Longrightarrow> identity y = identity x \<Longrightarrow> pipe_get_identity q (put_pipe p y s) = pipe_get_identity q s"
  by (simp add: pipe_get_identity_def put_pipe_def)

lemma pipe_check_write_identity:
  "pipe_check_write p s = Some (b, s') \<Longrightarrow> pipe_get_identity q s' = pipe_get_identity q s"
  by (auto simp: pipe_check_write_def bind_eq_Some put_pipe_identity split: if_splits)

lemma pipe_write_identity:
  "pipe_write p m s = Some (b, s') \<Longrightarrow> pipe_get_identity q s' = pipe_get_identity q s"
  by (auto simp: pipe_write_def bind_eq_Some pipe_get_identity_def put_pipe_def put_upipe_def Let_def
      dest!: pipe_check_write_identity[of p s _ _ q] split: if_splits)

lemma pipe_flush_identity:
  "pipe_flush p s = Some s' \<Longrightarrow> pipe_get_identity q s' = pipe_get_identity q s"
  by (auto simp: pipe_flush_def bind_eq_Some send_cmd_def Let_def split_beta split: if_splits option.splits)

definition same_identities :: "world \<Rightarrow> world \<Rightarrow> bool" where
  "same_identities w w' \<longleftrightarrow> (\<forall>q. pipe_get_identity q w' = pipe_get_identity q w)"

lemma router_xsend_body:
  assumes "more_out r" "current_out r = Some p" "valid w p" "writable w p"
  obtains w' where "router_xsend m r w =
      Some (r\<lparr>more_out := frame_more m, current_out := (if frame_more m then Some p else None)\<rparr>, w', Inr ())"
    "pout.delivered m {p} w w'" "same_identities w w'"
proof -
  obtain w1 w2 where w: "pipe_write p m w = Some (True, w1)" "(if frame_more m then Some w1 else pipe_flush p w1) = Some w2"
    "pout.delivered m {p} w w2" using assms(3,4) by (rule pout.write_full_pipe)
  have "router_xsend m r w = Some (r\<lparr>more_out := frame_more m, current_out := (if frame_more m then Some p else None)\<rparr>, w2, Inr ())"
    using w(1,2) assms(1,2) by (cases "frame_more m") (simp_all add: router_xsend_def Let_def)
  moreover have "same_identities w w2"
    using w(1,2) pipe_write_identity[OF w(1)] pipe_flush_identity[of p w1 w2]
    by (cases "frame_more m") (auto simp: same_identities_def)
  ultimately show ?thesis using w(3) that by blast
qed

lemma router_send_tail:
  assumes "more_out r" "current_out r = Some p" "valid w p" "writable w p" "\<forall>m \<in> set ms. frame_more m" "\<not> frame_more l"
  shows "\<exists>w'. router_send_parts (ms @ [l]) r w = Some (r\<lparr>more_out := False, current_out := None\<rparr>, w', Inr ()) \<and>
    valid w' = valid w \<and> same_identities w w' \<and>
    out w' = (out w)(p := out w p @ ms @ [l]) \<and> flushed w' = (flushed w)(p := out w p @ ms @ [l])"
  using assms
proof (induction ms arbitrary: r w)
  case Nil
  obtain w' where "router_xsend l r w = Some (r\<lparr>more_out := frame_more l, current_out := (if frame_more l then Some p else None)\<rparr>, w', Inr ())"
    "pout.delivered l {p} w w'" "same_identities w w'" using Nil.prems(1-4) by (rule router_xsend_body)
  then show ?case using Nil.prems(4,6) by (auto simp: pout.delivered_def fun_eq_iff)
next
  case (Cons m ms)
  let ?r = "r\<lparr>more_out := True, current_out := Some p\<rparr>"
  have fm: "frame_more m" using Cons.prems(5) by simp
  obtain w1 where w1: "router_xsend m r w = Some (?r, w1, Inr ())" "pout.delivered m {p} w w1" "same_identities w w1"
    using router_xsend_body[OF Cons.prems(1-4), of m] fm by auto
  have d: "out w1 = (out w)(p := out w p @ [m])" "flushed w1 = flushed w" "valid w1 = valid w" "writable w1 p"
    using w1(2) fm Cons.prems(4) by (auto simp: pout.delivered_def fun_eq_iff)
  have pre: "more_out ?r" "current_out ?r = Some p" "valid w1 p" "\<forall>m \<in> set ms. frame_more m"
    using Cons.prems(3,5) d(3) by simp_all
  obtain w' where w': "router_send_parts (ms @ [l]) ?r w1 = Some (?r\<lparr>more_out := False, current_out := None\<rparr>, w', Inr ())"
    "valid w' = valid w1" "same_identities w1 w'"
    "out w' = (out w1)(p := out w1 p @ ms @ [l])" "flushed w' = (flushed w1)(p := out w1 p @ ms @ [l])"
    using Cons.IH[OF pre(1-3) d(4) pre(4) Cons.prems(6)] by (elim exE conjE)
  show ?case
  proof (intro exI[of _ w'] conjI)
    show "router_send_parts ((m # ms) @ [l]) r w = Some (r\<lparr>more_out := False, current_out := None\<rparr>, w', Inr ())"
      using w1(1) w'(1) by simp
    show "same_identities w w'" using w1(3) w'(3) by (simp add: same_identities_def)
  qed (simp_all add: w'(2,4,5) d)
qed

lemma router_drop_tail:
  assumes "more_out r" "current_out r = None" "\<forall>m \<in> set ms. frame_more m" "\<not> frame_more l"
  shows "router_send_parts (ms @ [l]) r w = Some (r\<lparr>more_out := False\<rparr>, w, Inr ())"
  using assms
proof (induction ms arbitrary: r)
  case Nil
  then show ?case by (simp add: router_xsend_def Let_def)
next
  case (Cons m ms)
  have "router_xsend m r w = Some (r\<lparr>more_out := True\<rparr>, w, Inr ())"
    using Cons.prems by (simp add: router_xsend_def Let_def)
  then show ?case using Cons.IH[of "r\<lparr>more_out := True\<rparr>"] Cons.prems by simp
qed

lemma set_active_simps [simp]:
  "map fst (set_active i b es) = map fst es" "map (fst \<circ> snd) (set_active i b es) = map (fst \<circ> snd) es"
  "(\<forall>(j, p, a) \<in> set (set_active i b es). P j p) = (\<forall>(j, p, a) \<in> set es. P j p)"
  "map_of (set_active i b es) j = (if j = i then map_option (\<lambda>(p, a). (p, b)) (map_of es j) else map_of es j)"
  by (induction es) (auto simp: set_active_def split: prod.splits)

lemma set_active_pipes [simp]: "(fst \<circ> snd) ` set (set_active i b es) = (fst \<circ> snd) ` set es"
  using set_active_simps(2)[of i b es] by (metis list.set_map)

lemma router_ok_same:
  assumes "router_ok r w" "valid w' = valid w" "same_identities w w'"
  shows "router_ok r w'"
  using assms by (auto simp: router_ok_def same_identities_def)

section \<open>Identities\<close>

lemma send_cmd_pipes: "send_cmd pr c s = Some s' \<Longrightarrow> pipes s' = pipes s"
  by (auto simp: send_cmd_def bind_eq_Some)

lemma pipe_delimit_identity:
  assumes "pipe_delimit p s = Some s'"
  shows "pipe_get_identity q s' = pipe_get_identity q s"
proof -
  obtain x where x: "pipes s p = Some x" using assms by (auto simp: pipe_delimit_def bind_eq_Some)
  then show ?thesis using assms
    by (cases "state x") (auto simp: pipe_delimit_def bind_eq_Some put_pipe_def pipe_get_identity_def dest!: send_cmd_pipes)
qed

lemma pipe_read_identity:
  assumes "pipe_read p s = Some (b, s')"
  shows "pipe_get_identity q s' = pipe_get_identity q s"
proof -
  obtain x where x: "pipes s p = Some x" using assms by (auto simp: pipe_read_def bind_eq_Some)
  show ?thesis
  proof (cases "can_read x")
    case False
    then show ?thesis using assms x by (simp add: pipe_read_def)
  next
    case True
    then obtain ch where "upipes s (inpipe x) = Some ch"
      using assms x by (auto simp: pipe_read_def bind_eq_Some)
    moreover obtain ch' res where "chan_read ch = (ch', res)" by fastforce
    ultimately have ch: "upipes s (inpipe x) = Some ch" "chan_read ch = (ch', res)" .
    let ?s = "put_upipe (inpipe x) ch' s"
    show ?thesis
    proof (cases res)
      case None
      then show ?thesis using assms x ch True by (auto simp: pipe_read_def pipe_get_identity_def put_pipe_def put_upipe_def)
    next
      case (Some m)
      define y where "y = (if frame_more m then x else x\<lparr>msgs_read := msgs_read x + 1\<rparr>)"
      have y: "identity y = identity x" by (simp add: y_def)
      show ?thesis
      proof (cases "fdelim m")
        case True
        then have "pipe_delimit p ?s = Some s'" using assms x ch \<open>can_read x\<close> Some by (auto simp: pipe_read_def bind_eq_Some)
        then show ?thesis by (auto dest: pipe_delimit_identity[where q = q])
      next
        case False
        define res' where "res' = (if lwm y > 0 \<and> msgs_read y mod word_of_int (lwm y) = 0
            then send_cmd (peer y) (Activate_write (msgs_read y)) (put_pipe p y ?s) else Some (put_pipe p y ?s))"
        have "pipe_read p s = do { s \<leftarrow> res'; Some (Some m, s) }"
          using x ch True Some False unfolding res'_def y_def by (simp add: pipe_read_def Let_def)
        then have "res' = Some s'" using assms by (cases res') simp_all
        then have "pipes s' = pipes (put_pipe p y ?s)" unfolding res'_def by (auto dest: send_cmd_pipes split: if_splits)
        then show ?thesis using x y by (simp add: pipe_get_identity_def put_pipe_def put_upipe_def)
      qed
    qed
  qed
qed

lemma pipe_set_identity_ok:
  assumes "valid w p"
  shows "\<exists>w'. pipe_set_identity b p w = Some w' \<and> valid w' = valid w \<and> avail w' = avail w \<and> out w' = out w \<and>
    flushed w' = flushed w \<and> writable w' = writable w \<and>
    (\<forall>q. pipe_get_identity q w' = (if q = p then Some b else pipe_get_identity q w))"
proof -
  obtain x where ok: "world_ok w" and x: "pipes w p = Some x" using assms by (auto simp: valid_def)
  obtain ch where ch: "upipes w (inpipe x) = Some ch" using world_okD(1)[OF ok x] by (auto simp: pipe_ok_def)
  define w' where "w' = put_pipe p (x\<lparr>identity := b\<rparr>) w"
  have k: "keeps x (x\<lparr>identity := b\<rparr>)" using keeps_refl[OF ok x] by (simp add: keeps_def)
  have t: "touched p (x\<lparr>identity := b\<rparr>) (inpipe x) ch w w'" using ch by (auto simp: touched_def w'_def put_pipe_def)
  have "valid w' = valid w" using touched_valid(2)[OF ok x k world_okD(4)[OF ok x ch] _ t] ch by simp
  moreover have "out_chan w' = out_chan w" "writable w' = writable w" "avail w' = avail w"
    using x by (auto simp: fun_eq_iff out_chan_def writable_def avail_def full_def can_read_def w'_def put_pipe_def split: option.splits)
  ultimately show ?thesis using x
    by (intro exI[of _ w']) (auto simp: pipe_set_identity_def w'_def out_def [abs_def] flushed_def [abs_def]
        pipe_get_identity_def put_pipe_def)
qed

section \<open>Properties\<close>

text \<open>
  C26: routing a message, whose first part names the receiver. If a peer has that identity, all other parts
  are written and flushed to its pipe, and to no other one, or are dropped as a whole if the pipe is
  full, in which case the entry is marked; if there is none, the message is dropped, or refused
  with \<open>EHOSTUNREACH\<close> before anything is taken in the mandatory mode. The socket is then ready for
  the next message, and the table of identities is consistent with the pipes as before.
\<close>

theorem router_route:
  assumes "router_ok r w" "\<not> more_out r" "current_out r = None"
    "ms = i # body @ [l]" "frame_more i" "\<forall>m \<in> set body. frame_more m" "\<not> frame_more l"
  shows "case map_of (outpipes r) (fdata i) of
      None \<Rightarrow> router_send_parts ms r w = (if mandatory r then Some (r, w, Inl EHOSTUNREACH) else Some (r, w, Inr ()))
    | Some (p, a) \<Rightarrow> \<exists>r' w'. router_send_parts ms r w = Some (r', w', Inr ()) \<and> router_ok r' w' \<and>
        \<not> more_out r' \<and> current_out r' = None \<and>
        map_of (outpipes r') = (map_of (outpipes r))(fdata i \<mapsto> (p, a \<and> writable w p)) \<and>
        out w' = (if writable w p then (out w)(p := out w p @ body @ [l]) else out w) \<and>
        flushed w' = (if writable w p then (flushed w)(p := out w p @ body @ [l]) else flushed w)"
proof (cases "map_of (outpipes r) (fdata i)")
  case None
  show ?thesis
  proof (cases "mandatory r")
    case True
    then show ?thesis using None assms by (simp add: router_xsend_def)
  next
    case False
    have "router_xsend i r w = Some (r\<lparr>more_out := True\<rparr>, w, Inr ())"
      using None False assms by (simp add: router_xsend_def)
    moreover have "r\<lparr>more_out := False\<rparr> = r" using assms(2) by simp
    ultimately show ?thesis
      using None False assms(4) router_drop_tail[of "r\<lparr>more_out := True\<rparr>" body l w] assms(3,6,7) by simp
  qed
next
  case (Some pa)
  obtain p a where pa: "pa = (p, a)" by fastforce
  then have mem: "(fdata i, p, a) \<in> set (outpipes r)" using Some map_of_SomeD by fastforce
  then have v: "valid w p" using assms(1) by (auto simp: router_ok_def)
  obtain w1 where w1: "pipe_check_write p w = Some (writable w p, w1)" "out w1 = out w" "flushed w1 = flushed w"
    "valid w1 = valid w" "writable w1 = writable w"
    using pout.chk_writable[OF v] by blast
  have id1: "same_identities w w1" using pipe_check_write_identity[OF w1(1)] by (simp add: same_identities_def)
  show ?thesis
  proof (cases "writable w p")
    case True
    let ?r = "r\<lparr>more_out := True, current_out := Some p\<rparr>"
    have "router_xsend i r w = Some (?r, w1, Inr ())" using Some pa w1(1) True assms by (simp add: router_xsend_def)
    moreover have "more_out ?r" "current_out ?r = Some p" "valid w1 p" "writable w1 p" using v w1 True by simp_all
    from router_send_tail[OF this assms(6,7)] obtain w' where
      w': "router_send_parts (body @ [l]) ?r w1 = Some (?r\<lparr>more_out := False, current_out := None\<rparr>, w', Inr ())"
      "valid w' = valid w1" "same_identities w1 w'"
      "out w' = (out w1)(p := out w1 p @ body @ [l])" "flushed w' = (flushed w1)(p := out w1 p @ body @ [l])" by (elim exE conjE)
    moreover have "?r\<lparr>more_out := False, current_out := None\<rparr> = r" using assms(2,3) by simp
    ultimately have "router_send_parts ms r w = Some (r, w', Inr ())" using assms(4) by simp
    moreover have "router_ok r w'"
      using router_ok_same[OF assms(1)] w' w1 id1 by (simp add: same_identities_def)
    moreover have "map_of (outpipes r) = (map_of (outpipes r))(fdata i \<mapsto> (p, a))" using Some pa by (simp add: fun_upd_idem)
    ultimately have "\<exists>r' w'. router_send_parts ms r w = Some (r', w', Inr ()) \<and> router_ok r' w' \<and>
        \<not> more_out r' \<and> current_out r' = None \<and> map_of (outpipes r') = (map_of (outpipes r))(fdata i \<mapsto> (p, a)) \<and>
        out w' = (out w)(p := out w p @ body @ [l]) \<and> flushed w' = (flushed w)(p := out w p @ body @ [l])"
      using w'(4,5) w1(2,3) assms(2,3) by (intro exI[of _ r] exI[of _ w']) simp
    then show ?thesis using Some pa True by simp
  next
    case False
    let ?r = "r\<lparr>more_out := True, outpipes := set_active (fdata i) False (outpipes r)\<rparr>"
    let ?r' = "r\<lparr>outpipes := set_active (fdata i) False (outpipes r)\<rparr>"
    have "router_xsend i r w = Some (?r, w1, Inr ())" using Some pa w1(1) False assms by (simp add: router_xsend_def)
    moreover have "?r\<lparr>more_out := False\<rparr> = ?r'" using assms(2) by simp
    ultimately have "router_send_parts ms r w = Some (?r', w1, Inr ())"
      using router_drop_tail[of ?r body l w1] assms(3,4,6,7) by simp
    moreover have "router_ok ?r' w1"
      using router_ok_same[OF assms(1) w1(4) id1] assms(3) by (simp add: router_ok_def)
    moreover have "map_of (outpipes ?r') = (map_of (outpipes r))(fdata i \<mapsto> (p, False))"
      using Some pa by (auto simp: fun_eq_iff)
    ultimately show ?thesis using Some pa False w1 assms(2,3) by simp
  qed
qed

text \<open>
  C27: identifying a peer. Nothing happens until the first message of the pipe can be read. It is taken as
  the identity; an empty one is replaced by a generated one, a zero byte and the next number. A peer that
  asks for an identity that is in use stays anonymous, but the process aborts if the generated identity
  is in use, which a peer can bring about by asking for it. Otherwise the pipe gets the identity and its
  entry, and identities and pipes are again one to one.
\<close>

theorem router_identify:
  assumes "router_ok r w" "valid w p" "p \<notin> (fst \<circ> snd) ` set (outpipes r)"
  shows "case avail w p of
      [] \<Rightarrow> \<exists>w'. identify_peer p r w = Some (r, w', False) \<and> avail w' = avail w \<and> router_ok r w'
    | m # ms \<Rightarrow>
        let auto = fdata m = []; i = (if auto then 0 # put_uint32 (next_peer_id r) else fdata m) in
        if map_of (outpipes r) i \<noteq> None then
          if auto then identify_peer p r w = None
          else \<exists>w'. identify_peer p r w = Some (r, w', False) \<and> avail w' = (avail w)(p := ms) \<and> router_ok r w'
        else \<exists>r' w'. identify_peer p r w = Some (r', w', True) \<and> avail w' = (avail w)(p := ms) \<and>
          map_of (outpipes r') = (map_of (outpipes r))(i \<mapsto> (p, True)) \<and> pipe_get_identity p w' = Some i \<and>
          next_peer_id r' = (if auto then next_peer_id r + 1 else next_peer_id r) \<and>
          router_ok (r'\<lparr>anonymous_pipes := anonymous_pipes r - {p}\<rparr>) w'"
proof (cases "avail w p")
  case Nil
  obtain w' where w': "pipe_read p w = Some (None, w')" "avail w' = avail w" "valid w' = valid w"
    using pin.rd_none[OF assms(2) Nil] by blast
  have "router_ok r w'" using router_ok_same[OF assms(1) w'(3)] pipe_read_identity[OF w'(1)] by (simp add: same_identities_def)
  then show ?thesis using Nil w' by (simp add: identify_peer_def)
next
  case (Cons m ms)
  obtain w1 where w1: "pipe_read p w = Some (Some m, w1)" "avail w1 = (avail w)(p := ms)" "valid w1 = valid w"
    using pin.rd_some[OF assms(2) Cons] by blast
  have id1: "same_identities w w1" using pipe_read_identity[OF w1(1)] by (simp add: same_identities_def)
  have ok1: "router_ok r w1" using router_ok_same[OF assms(1) w1(3) id1] .
  define i where "i = (if fdata m = [] then 0 # put_uint32 (next_peer_id r) else fdata m)"
  have v1: "valid w1 p" using w1(3) assms(2) by simp
  from pipe_set_identity_ok[OF v1, of i] obtain w2 where w2: "pipe_set_identity i p w1 = Some w2" "valid w2 = valid w1"
    "avail w2 = avail w1" "\<forall>q. pipe_get_identity q w2 = (if q = p then Some i else pipe_get_identity q w1)" by (elim exE conjE)
  define r1 where "r1 = (if fdata m = [] then r\<lparr>next_peer_id := next_peer_id r + 1\<rparr> else r)"
  have r1: "outpipes r1 = outpipes r" "anonymous_pipes r1 = anonymous_pipes r" "current_out r1 = current_out r"
    "next_peer_id r1 = (if fdata m = [] then next_peer_id r + 1 else next_peer_id r)" by (simp_all add: r1_def)
  have eq: "identify_peer p r w = (if fdata m \<noteq> [] \<and> map_of (outpipes r) i \<noteq> None then Some (r, w1, False)
      else if map_of (outpipes r) i \<noteq> None then None
      else Some (r1\<lparr>outpipes := (i, p, True) # outpipes r\<rparr>, w2, True))"
    using w1(1) w2(1) by (cases "fdata m = []") (simp_all add: identify_peer_def Let_def i_def r1_def)
  show ?thesis
  proof (cases "map_of (outpipes r) i = None")
    case False
    then show ?thesis using Cons eq ok1 w1(2) by (cases "fdata m = []") (simp_all add: Let_def i_def)
  next
    case True
    let ?r = "r1\<lparr>outpipes := (i, p, True) # outpipes r\<rparr>"
    have ne: "i \<noteq> []" by (simp add: i_def)
    have old: "\<forall>(j, q, a) \<in> set (outpipes r). valid w2 q \<and> pipe_get_identity q w2 = Some j \<and> q \<notin> anonymous_pipes r \<and> j \<noteq> []"
    proof (clarify, intro conjI)
      fix j q a assume e: "(j, q, a) \<in> set (outpipes r)"
      then have "q \<noteq> p" using assms(3) by force
      moreover have "valid w1 q" "pipe_get_identity q w1 = Some j" "q \<notin> anonymous_pipes r" "j \<noteq> []"
        using ok1 e by (auto simp: router_ok_def)
      ultimately show "valid w2 q" "pipe_get_identity q w2 = Some j" "q \<notin> anonymous_pipes r" "j \<noteq> []"
        using w2(2,4) by simp_all
    qed
    have "i \<notin> fst ` set (outpipes r)" using True by (simp add: map_of_eq_None_iff)
    then have "router_ok (?r\<lparr>anonymous_pipes := anonymous_pipes r - {p}\<rparr>) w2"
      using ok1 old assms(3) w2(2) v1 ne r1(3) w2(4) by (auto simp: router_ok_def)
    then have "\<exists>r' w'. identify_peer p r w = Some (r', w', True) \<and> avail w' = (avail w)(p := ms) \<and>
          map_of (outpipes r') = (map_of (outpipes r))(i \<mapsto> (p, True)) \<and> pipe_get_identity p w' = Some i \<and>
          next_peer_id r' = (if fdata m = [] then next_peer_id r + 1 else next_peer_id r) \<and>
          router_ok (r'\<lparr>anonymous_pipes := anonymous_pipes r - {p}\<rparr>) w'"
      using eq True w1(2) w2 r1(4) by (intro exI[of _ ?r] exI[of _ w2]) simp
    then show ?thesis using Cons True by (cases "fdata m = []") (simp_all add: Let_def i_def)
  qed
qed

text \<open>A router whose only peer, on the pipe 0, has the identity 65.\<close>

definition demo_router :: router where
  "demo_router = (router_init 7)\<lparr>ro_fq := demo_fq, outpipes := [([65], 0, True)]\<rparr>"

definition demo_routed :: world where
  "demo_routed = the (pipe_set_identity [65] 0 demo_world)"

lemma demo_routed_facts: "valid demo_routed = valid demo_world" "avail demo_routed = avail demo_world" "out demo_routed = out demo_world"
  "flushed demo_routed = flushed demo_world" "writable demo_routed = writable demo_world" "pipe_get_identity 0 demo_routed = Some [65]"
  using pipe_set_identity_ok[OF demo_valid(1), of "[65]"] by (auto simp: demo_routed_def)

lemma demo_router_ok: "router_ok demo_router demo_routed"
  using demo_routed_facts demo_valid by (simp add: router_ok_def demo_router_def router_init_def)

theorem router_route_witness:
  "\<exists>r' w'. router_send_parts [frame_of 1 [65], frame_of 0 [9]] demo_router demo_routed = Some (r', w', Inr ()) \<and>
     flushed w' 0 = [frame_of 0 [9]]"
proof -
  let ?i = "frame_of 1 [65]" and ?l = "frame_of 0 [9]"
  have f: "frame_more ?i" "\<forall>m \<in> set []. frame_more m" "\<not> frame_more ?l" "[?i, ?l] = ?i # [] @ [?l]"
    by (simp_all add: frame_more_def frame_of_def msg_more_def)
  have q: "\<not> more_out demo_router" "current_out demo_router = None" "map_of (outpipes demo_router) (fdata ?i) = Some (0, True)"
    by (simp_all add: demo_router_def router_init_def frame_of_def)
  from router_route[OF demo_router_ok q(1,2) f(4,1,2,3)] obtain r' w' where
    "router_send_parts [?i, ?l] demo_router demo_routed = Some (r', w', Inr ())"
    "flushed w' = (if writable demo_routed 0 then (flushed demo_routed)(0 := out demo_routed 0 @ [] @ [?l]) else flushed demo_routed)"
    unfolding q(3) option.case prod.case by (elim exE conjE)
  then show ?thesis using demo_writable demo_out demo_routed_facts by auto
qed

theorem router_identify_witness:
  "\<exists>r' w'. identify_peer 1 demo_router demo_routed = Some (r', w', True) \<and> pipe_get_identity 1 w' = Some [7]"
proof -
  have v: "valid demo_routed 1" "1 \<notin> (fst \<circ> snd) ` set (outpipes demo_router)"
    using demo_routed_facts(1) demo_valid(2) by (simp_all add: demo_router_def)
  have "avail demo_routed 1 = [frame_of 0 [7]]" using demo_routed_facts(2) demo_avail by simp
  moreover have "map_of (outpipes demo_router) [7] = None" by (simp add: demo_router_def)
  ultimately show ?thesis using router_identify[OF demo_router_ok v] by (auto simp: Let_def frame_of_def)
qed

end
