(* ===== verification/Rep.thy ===== *)
theory Rep
  imports Duplex Router
begin

text \<open>
  REP sockets: \<open>rep_t\<close> of \<open>rep.cpp\<close>, a router (a record extension, as the class is derived) that alternates
  between receiving a request and sending the reply. The address stack in front of a request, which
  ends with an empty part, is copied to the pipe the reply will go to.
\<close>

section \<open>State and operations\<close>

record rep = router +
  sending_reply :: bool
  request_begins :: bool

definition rep_init :: "uint32 \<Rightarrow> rep" where
  "rep_init rnd = router.extend (router_init rnd) (rep.fields False True)"

definition rep_options :: "'f options \<Rightarrow> 'f options" where
  "rep_options opts = (router_options opts)\<lparr>socktype := REP\<rparr>"

definition rep_xsend :: "frame \<Rightarrow> rep \<Rightarrow> world \<Rightarrow> (rep \<times> world \<times> unit outcome) option" where
  "rep_xsend m r w =
     (if \<not> sending_reply r then Some (r, w, Inl EFSM)
      else do {
        (r, w, res) \<leftarrow> router_xsend m r w;
        (case res of
           Inl e \<Rightarrow> Some (r, w, Inl e)
         | Inr _ \<Rightarrow> Some (if frame_more m then r else r\<lparr>sending_reply := False\<rparr>, w, Inr ())) })"

text \<open>The loop that copies the address stack; a message that ends before the empty part is taken back.\<close>

partial_function (option) rep_labels :: "rep \<Rightarrow> world \<Rightarrow> (rep \<times> world \<times> unit outcome) option" where
  "rep_labels r w =
     (case router_xrecv r w of
        None \<Rightarrow> None
      | Some (r, w, Inl e) \<Rightarrow> Some (r, w, Inl e)
      | Some (r, w, Inr m) \<Rightarrow>
          if frame_more m then
            (case router_xsend m r w of
               None \<Rightarrow> None
             | Some (r, w, Inl e) \<Rightarrow> None
             | Some (r, w, Inr _) \<Rightarrow> if fdata m = [] then Some (r, w, Inr ()) else rep_labels r w)
          else
            (case router_rollback r w of None \<Rightarrow> None | Some (r, w) \<Rightarrow> rep_labels r w))"

definition rep_xrecv :: "rep \<Rightarrow> world \<Rightarrow> (rep \<times> world \<times> frame outcome) option" where
  "rep_xrecv r w =
     (if sending_reply r then Some (r, w, Inl EFSM)
      else do {
        (r, w, res) \<leftarrow>
          (if request_begins r then do {
             (r, w, res) \<leftarrow> rep_labels r w;
             (case res of
                Inl e \<Rightarrow> Some (r, w, Inl e)
              | Inr _ \<Rightarrow> Some (r\<lparr>request_begins := False\<rparr>, w, Inr ())) }
           else Some (r, w, Inr ()));
        (case res of
           Inl e \<Rightarrow> Some (r, w, Inl e)
         | Inr _ \<Rightarrow> do {
             (r, w, res) \<leftarrow> router_xrecv r w;
             (case res of
                Inl e \<Rightarrow> Some (r, w, Inl e)
              | Inr m \<Rightarrow>
                  Some (if frame_more m then r else r\<lparr>sending_reply := True, request_begins := True\<rparr>, w, Inr m)) }) })"

definition rep_xhas_in :: "rep \<Rightarrow> world \<Rightarrow> (rep \<times> world \<times> bool) option" where
  "rep_xhas_in r w = (if sending_reply r then Some (r, w, False) else router_xhas_in r w)"

definition rep_xhas_out :: "rep \<Rightarrow> bool" where
  "rep_xhas_out r = (if \<not> sending_reply r then False else router_xhas_out r)"

section \<open>Steps in the middle of a request\<close>

text \<open>
  The parts of a request come from the pipe \<open>p\<close>; the reply goes to the same pipe, or is dropped if the
  pipe could not be written to when the request began.
\<close>

definition mid :: "nat \<Rightarrow> 'a router_scheme \<Rightarrow> world \<Rightarrow> bool" where
  "mid p r w \<longleftrightarrow> pin.in_sync (ro_fq r) w \<and> apart w (fq_all (ro_fq r)) \<and> p \<in> fq_all (ro_fq r) \<and>
     more_out r \<and> (current_out r = Some p \<and> writable w p \<or> current_out r = None)"

definition fq_mid :: "nat \<Rightarrow> 'a router_scheme \<Rightarrow> bool" where
  "fq_mid p r \<longleftrightarrow> fq_more (ro_fq r) \<and> items (fq_pipes (ro_fq r)) ! fq_current (ro_fq r) = p \<and>
     \<not> ro_prefetched r \<and> more_in r"

lemma router_recv_mid:
  assumes "mid p r w" "fq_mid p r" "avail w p = m # ms" "\<not> frame_identity m"
  obtains q w' where "router_xrecv r w = Some (r\<lparr>ro_fq := q, more_in := frame_more m\<rparr>, w', Inr m)"
    "mid p (r\<lparr>ro_fq := q, more_in := frame_more m\<rparr>) w'" "frame_more m \<longrightarrow> fq_mid p (r\<lparr>ro_fq := q, more_in := frame_more m\<rparr>)"
    "fq_all q = fq_all (ro_fq r)" "avail w' = (avail w)(p := ms)" "same_out p w w'"
proof -
  have m: "pin.in_sync (ro_fq r) w" "apart w (fq_all (ro_fq r))" using assms(1) by (simp_all add: mid_def)
  have f: "fq_more (ro_fq r)" "items (fq_pipes (ro_fq r)) ! fq_current (ro_fq r) = p" "\<not> ro_prefetched r" "more_in r"
    using assms(2) by (simp_all add: fq_mid_def)
  show ?thesis using m(1)
  proof (cases rule: fq_recvpipe_step)
    case (1 q' w')
    then show ?thesis using f(1) by simp
  next
    case (2 q w' m' p')
    have p: "p' = p" "m' = m" using 2(5,10) f assms(3) by auto
    have av: "avail w' = (avail w)(p := ms)" using 2(5,6) p assms(3) by (auto simp: fun_eq_iff)
    have ap: "apart w' (fq_all (ro_fq r))" "same_out p w w'"
    proof -
      have "fq_recvpipe pipe_read (ro_fq r) w = Some (q, w', Inr (m, p))" using 2(1) p by simp
      note r = recvpipe_apart[OF m subset_refl this]
      then show "apart w' (fq_all (ro_fq r))" by blast
      have "p \<in> fq_actives q"
        using 2(11) 2(7) assms(3) p by (cases "p \<in> fq_actives q") auto
      then show "same_out p w w'" using r 2(4,7) p by blast
    qed
    let ?r = "r\<lparr>ro_fq := q, more_in := frame_more m\<rparr>"
    have "router_recv_loop (ro_fq r) w = Some (q, w', Inr (m, p))"
      using 2(1) p assms(4) by (simp add: router_recv_loop.simps)
    then have "router_xrecv r w = Some (?r, w', Inr m)" using f by (simp add: router_xrecv_def)
    moreover have "mid p ?r w'" using assms(1) 2(2,3) ap by (auto simp: mid_def same_out_def)
    moreover have "fq_mid p ?r" if "frame_more m" using that 2(8,9) p f by (simp add: fq_mid_def)
    ultimately show ?thesis using that[of q w'] 2(3) av ap(2) by blast
  qed
qed

lemma router_push_mid:
  assumes "mid p r w" "frame_more m"
  obtains w' where "router_xsend m r w = Some (r, w', Inr ())" "mid p r w'"
    "\<forall>q \<in> fq_all (ro_fq r). avail w' q = avail w q" "writable w' p = writable w p" "flushed w' = flushed w"
    "out w' p = (if current_out r = None then out w p else out w p @ [m])"
proof -
  have m: "pin.in_sync (ro_fq r) w" "apart w (fq_all (ro_fq r))" "p \<in> fq_all (ro_fq r)" "more_out r"
    using assms(1) by (simp_all add: mid_def)
  have v: "valid w p" using m(1,3) by (simp add: pin.in_sync_def)
  have same: "r\<lparr>more_out := True\<rparr> = r" using m(4) by simp
  show ?thesis
  proof (cases "current_out r")
    case None
    then have "router_xsend m r w = Some (r, w, Inr ())" using m(4) assms(2) same by (simp add: router_xsend_def Let_def)
    then show ?thesis using that[of w] assms(1) None by simp
  next
    case (Some p')
    then have p: "p' = p" "writable w p" using assms(1) by (auto simp: mid_def)
    obtain w' where w': "pipe_write p m w = Some (True, w')" "out w' = (out w)(p := out w p @ [m])" "flushed w' = flushed w"
      "valid w' = valid w" "writable w' p" using pout.wr_ok[OF v p(2), of m] assms(2) by blast
    note ap = write_part_apart[OF v p(2) m(3,2) assms(2) w'(1)]
    have "router_xsend m r w = Some (r, w', Inr ())" using m(4) assms(2) w'(1) Some p same by (simp add: router_xsend_def Let_def)
    moreover have "pin.in_sync (ro_fq r) w'"
    proof -
      have "fq_more (ro_fq r) \<longrightarrow> items (fq_pipes (ro_fq r)) ! fq_current (ro_fq r) \<in> fq_all (ro_fq r)"
        using m(1) fq_current_get[of "ro_fq r"] fq_actives_sub[of "ro_fq r"] by (auto simp: pin.in_sync_def)
      then show ?thesis using m(1) w'(4) ap(2) by (auto simp: pin.in_sync_def)
    qed
    ultimately show ?thesis using that[of w'] m ap w' Some p by (auto simp: mid_def)
  qed
qed

section \<open>The address stack\<close>

definition label :: "frame \<Rightarrow> bool" where
  "label f \<longleftrightarrow> frame_more f \<and> fdata f \<noteq> [] \<and> \<not> frame_identity f"

definition bottom :: "frame \<Rightarrow> bool" where
  "bottom f \<longleftrightarrow> frame_more f \<and> fdata f = [] \<and> \<not> frame_identity f"

text \<open>Receiving a part of the stack and copying it.\<close>

lemma copy_label:
  assumes "mid p r w" "fq_mid p r" "avail w p = f # fs" "label f \<or> bottom f"
  obtains q w' where "rep_labels r w = (if bottom f then Some (r\<lparr>ro_fq := q\<rparr>, w', Inr ()) else rep_labels (r\<lparr>ro_fq := q\<rparr>) w')"
    "mid p (r\<lparr>ro_fq := q\<rparr>) w'" "fq_mid p (r\<lparr>ro_fq := q\<rparr>)" "fq_all q = fq_all (ro_fq r)" "avail w' p = fs"
    "\<forall>x \<in> fq_all (ro_fq r). x \<noteq> p \<longrightarrow> avail w' x = avail w x" "writable w' p = writable w p"
    "out w' p = (if current_out r = None then out w p else out w p @ [f])"
proof -
  have f: "frame_more f" "\<not> frame_identity f" "bottom f \<longleftrightarrow> fdata f = []" using assms(4) by (auto simp: label_def bottom_def)
  have more: "more_in r" using assms(2) by (simp add: fq_mid_def)
  obtain q w1 where r1: "router_xrecv r w = Some (r\<lparr>ro_fq := q, more_in := frame_more f\<rparr>, w1, Inr f)"
    "mid p (r\<lparr>ro_fq := q, more_in := frame_more f\<rparr>) w1"
    "frame_more f \<longrightarrow> fq_mid p (r\<lparr>ro_fq := q, more_in := frame_more f\<rparr>)"
    "fq_all q = fq_all (ro_fq r)" "avail w1 = (avail w)(p := fs)" "same_out p w w1"
    using assms(1-3) f(2) by (rule router_recv_mid)
  define r1' where "r1' = r\<lparr>ro_fq := q\<rparr>"
  have eq: "r\<lparr>ro_fq := q, more_in := frame_more f\<rparr> = r1'" using more f(1) by (simp add: r1'_def)
  have m1: "mid p r1' w1" "fq_mid p r1'" using r1(2,3) f(1) eq by simp_all
  obtain w' where w': "router_xsend f r1' w1 = Some (r1', w', Inr ())" "mid p r1' w'"
    "\<forall>q \<in> fq_all (ro_fq r1'). avail w' q = avail w1 q" "writable w' p = writable w1 p" "flushed w' = flushed w1"
    "out w' p = (if current_out r1' = None then out w1 p else out w1 p @ [f])"
    using m1(1) f(1) by (rule router_push_mid)
  have "p \<in> fq_all (ro_fq r)" using assms(1) by (simp add: mid_def)
  then have av: "avail w' p = fs" "\<forall>x \<in> fq_all (ro_fq r). x \<noteq> p \<longrightarrow> avail w' x = avail w x"
    using w'(3) r1(4,5) by (simp_all add: r1'_def)
  have "rep_labels r w = (if bottom f then Some (r1', w', Inr ()) else rep_labels r1' w')"
    using r1(1) eq f w'(1) by (simp add: rep_labels.simps[of r w])
  then show ?thesis using that[of q w'] w' m1(2) r1(4,6) av by (simp add: r1'_def same_out_def)
qed

lemma copy_labels:
  assumes "mid p r w" "fq_mid p r" "avail w p = ls @ b # fs" "\<forall>l \<in> set ls. label l" "bottom b"
  shows "\<exists>q w'. rep_labels r w = Some (r\<lparr>ro_fq := q\<rparr>, w', Inr ()) \<and> mid p (r\<lparr>ro_fq := q\<rparr>) w' \<and> fq_mid p (r\<lparr>ro_fq := q\<rparr>) \<and>
    fq_all q = fq_all (ro_fq r) \<and> avail w' p = fs \<and> (\<forall>x \<in> fq_all (ro_fq r). x \<noteq> p \<longrightarrow> avail w' x = avail w x) \<and>
    writable w' p = writable w p \<and> out w' p = (if current_out r = None then out w p else out w p @ ls @ [b])"
  using assms
proof (induction ls arbitrary: r w)
  case Nil
  have "avail w p = b # fs" "label b \<or> bottom b" using Nil.prems by simp_all
  with Nil.prems(1,2) show ?case
    by (rule copy_label) (use Nil.prems(5) in \<open>auto intro!: exI\<close>)
next
  case (Cons l ls)
  have l: "avail w p = l # ls @ b # fs" "label l \<or> bottom l" "\<not> bottom l"
    using Cons.prems(3,4) by (auto simp: label_def bottom_def)
  obtain q w1 where s1: "rep_labels r w = (if bottom l then Some (r\<lparr>ro_fq := q\<rparr>, w1, Inr ()) else rep_labels (r\<lparr>ro_fq := q\<rparr>) w1)"
    "mid p (r\<lparr>ro_fq := q\<rparr>) w1" "fq_mid p (r\<lparr>ro_fq := q\<rparr>)" "fq_all q = fq_all (ro_fq r)" "avail w1 p = ls @ b # fs"
    "\<forall>x \<in> fq_all (ro_fq r). x \<noteq> p \<longrightarrow> avail w1 x = avail w x" "writable w1 p = writable w p"
    "out w1 p = (if current_out r = None then out w p else out w p @ [l])"
    using Cons.prems(1,2) l(1,2) by (rule copy_label)
  have "\<forall>l \<in> set ls. label l" using Cons.prems(4) by simp
  from Cons.IH[OF s1(2,3,5) this Cons.prems(5)] obtain q' w' where
    ih: "rep_labels (r\<lparr>ro_fq := q\<rparr>) w1 = Some (r\<lparr>ro_fq := q, ro_fq := q'\<rparr>, w', Inr ())" "mid p (r\<lparr>ro_fq := q, ro_fq := q'\<rparr>) w'"
    "fq_mid p (r\<lparr>ro_fq := q, ro_fq := q'\<rparr>)" "fq_all q' = fq_all (ro_fq (r\<lparr>ro_fq := q\<rparr>))" "avail w' p = fs"
    "\<forall>x \<in> fq_all (ro_fq (r\<lparr>ro_fq := q\<rparr>)). x \<noteq> p \<longrightarrow> avail w' x = avail w1 x" "writable w' p = writable w1 p"
    "out w' p = (if current_out (r\<lparr>ro_fq := q\<rparr>) = None then out w1 p else out w1 p @ ls @ [b])" by (elim exE conjE)
  show ?case using s1(1,4,6,7,8) l(3) ih by (intro exI[of _ q'] exI[of _ w']) simp
qed

section \<open>The beginning of a request\<close>

lemma recvpipe_identity:
  "fq_recvpipe pipe_read q s = Some (q', s', res) \<Longrightarrow> pipe_get_identity p s' = pipe_get_identity p s"
proof (induction "fq_active q" arbitrary: q s)
  case 0
  then show ?case by (simp add: fq_recvpipe.simps[of pipe_read q s])
next
  case (Suc n)
  then obtain c where c: "array_get (fq_pipes q) (fq_current q) = Some c"
    by (auto simp: fq_recvpipe.simps[of pipe_read q s] split: option.splits)
  then obtain m s1 where rd: "pipe_read c s = Some (m, s1)"
    using Suc by (auto simp: fq_recvpipe.simps[of pipe_read q s] split: option.splits)
  note id1 = pipe_read_identity[OF rd, of p]
  show ?case
  proof (cases m)
    case None
    then obtain q1 where q1: "fq_deactivate q = Some q1" "fq_recvpipe pipe_read q1 s1 = Some (q', s', res)"
      using Suc.prems Suc.hyps(2) c rd by (auto simp: fq_recvpipe.simps[of pipe_read q s] split: option.splits if_splits)
    have "n = fq_active q1" using Suc.hyps(2) fq_deactivate_active[OF q1(1)] by simp
    then show ?thesis using Suc.hyps(1)[OF _ q1(2)] id1 by simp
  next
    case (Some m')
    then show ?thesis using Suc c rd id1 by (auto simp: fq_recvpipe.simps[of pipe_read q s] Let_def)
  qed
qed

text \<open>A REP socket between two requests.\<close>

definition rep_ready :: "rep \<Rightarrow> world \<Rightarrow> bool" where
  "rep_ready r w \<longleftrightarrow> router_ok r w \<and> pin.in_sync (ro_fq r) w \<and> apart w (fq_all (ro_fq r)) \<and>
     fq_all (ro_fq r) \<subseteq> (fst \<circ> snd) ` set (outpipes r) \<and> \<not> fq_more (ro_fq r) \<and> \<not> ro_prefetched r \<and> \<not> more_in r \<and>
     \<not> more_out r \<and> current_out r = None \<and> \<not> sending_reply r \<and> request_begins r"

text \<open>Everything a peer sends is a stack of labels, an empty part and a body.\<close>

definition requests :: "frame list \<Rightarrow> bool" where
  "requests fs \<longleftrightarrow> fs = [] \<or> (\<exists>ls b m gs. fs = ls @ b # m # gs \<and> (\<forall>l \<in> set ls. label l) \<and> bottom b \<and> \<not> frame_identity m)"

lemma requests_hd:
  assumes "requests (f # fs)"
  shows "\<not> frame_identity f"
proof -
  obtain ls b m gs where "f # fs = ls @ b # m # gs" "\<forall>l \<in> set ls. label l" "bottom b"
    using assms by (auto simp: requests_def)
  then show ?thesis by (cases ls) (auto simp: label_def bottom_def)
qed

text \<open>
  The first receive of a request stores the first part and returns the identity of the sender; copying
  that identity selects the pipe for the reply.
\<close>

definition begun :: "nat fq_t \<Rightarrow> frame \<Rightarrow> nat option \<Rightarrow> (bytes \<times> nat \<times> bool) list \<Rightarrow> rep \<Rightarrow> rep" where
  "begun q f c es r = r\<lparr>ro_fq := q, ro_prefetched_msg := f, ro_prefetched := True, identity_sent := True,
     more_out := True, current_out := c, outpipes := es\<rparr>"

lemma request_start:
  assumes "rep_ready r w" "\<forall>p \<in> fq_all (ro_fq r). requests (avail w p)"
  obtains q w' where "rep_labels r w = Some (r\<lparr>ro_fq := q\<rparr>, w', Inl EAGAIN)" "\<forall>p \<in> fq_actives (ro_fq r). avail w p = []"
  | q w' f p es where "rep_labels r w = rep_labels (begun q f (if writable w p then Some p else None) es r) w'"
      "p \<in> fq_all (ro_fq r)" "avail w p = f # avail w' p" "\<forall>x. x \<noteq> p \<longrightarrow> avail w' x = avail w x"
      "pin.in_sync q w'" "apart w' (fq_all q)" "fq_all q = fq_all (ro_fq r)" "fq_more q = frame_more f"
      "frame_more f \<longrightarrow> items (fq_pipes q) ! fq_current q = p" "same_out p w w'"
proof -
  have r: "router_ok r w" "pin.in_sync (ro_fq r) w" "apart w (fq_all (ro_fq r))"
    "fq_all (ro_fq r) \<subseteq> (fst \<circ> snd) ` set (outpipes r)" "\<not> ro_prefetched r" "\<not> more_in r" "\<not> more_out r" "current_out r = None"
    using assms(1) by (auto simp: rep_ready_def)
  show ?thesis using r(2)
  proof (cases rule: fq_recvpipe_step)
    case (1 q w')
    then have "router_xrecv r w = Some (r\<lparr>ro_fq := q\<rparr>, w', Inl EAGAIN)"
      using r(5) by (simp add: router_xrecv_def router_recv_loop.simps)
    then have "rep_labels r w = Some (r\<lparr>ro_fq := q\<rparr>, w', Inl EAGAIN)" by (simp add: rep_labels.simps[of r w])
    then show ?thesis using that(1) 1(5) by blast
  next
    case (2 q w1 f p)
    have "\<not> frame_identity f" using assms(2) 2(4,5) by (metis requests_hd)
    obtain i a where e: "(i, p, a) \<in> set (outpipes r)" using r(4) 2(4) by fastforce
    have ro: "distinct (map fst (outpipes r))" "i \<noteq> []" "pipe_get_identity p w = Some i" using r(1) e by (auto simp: router_ok_def)
    have mo: "map_of (outpipes r) i = Some (p, a)" using ro(1) e by simp
    have id1: "pipe_get_identity p w1 = Some i" using recvpipe_identity[OF 2(1)] ro(3) by simp
    note ap = recvpipe_apart[OF r(2,3) subset_refl 2(1)]
    have so: "apart w1 (fq_all (ro_fq r))" "same_out p w w1" using ap 2(4,7,11,5) by (cases "p \<in> fq_actives q", auto)
    have v1: "valid w1 p" using 2(2,3,4) by (simp add: pin.in_sync_def)
    let ?r1 = "r\<lparr>ro_fq := q, ro_prefetched_msg := f, ro_prefetched := True, identity_sent := True\<rparr>"
    have x: "router_xrecv r w = Some (?r1, w1, Inr (frame_of msg_more i))"
      using r(5,6) 2(1) \<open>\<not> frame_identity f\<close> id1 by (simp add: router_xrecv_def router_recv_loop.simps Let_def)
    have fm: "frame_more (frame_of msg_more i)" "fdata (frame_of msg_more i) = i"
      by (simp_all add: frame_more_def frame_of_def msg_more_def)
    obtain w' where w': "pipe_check_write p w1 = Some (writable w1 p, w')" "out w' = out w1" "flushed w' = flushed w1"
      "valid w' = valid w1" "writable w' = writable w1" using pout.chk_writable[OF v1] by blast
    note cw = check_write_apart[OF v1 so(1) w'(1)]
    have wr: "writable w1 p = writable w p" using so(2) by (simp add: same_out_def)
    define es where "es = (if writable w p then outpipes r else set_active i False (outpipes r))"
    have "router_xsend (frame_of msg_more i) ?r1 w1 = Some (begun q f (if writable w p then Some p else None) es r, w', Inr ())"
      using r(7,8) fm mo w'(1) wr by (cases "writable w p") (simp_all add: router_xsend_def begun_def es_def)
    then have "rep_labels r w = rep_labels (begun q f (if writable w p then Some p else None) es r) w'"
      using x fm ro(2) by (simp add: rep_labels.simps[of r w])
    moreover have "pin.in_sync q w'" using 2(2) cw(2) w'(4) by (simp add: pin.in_sync_def)
    moreover have "same_out p w w'" using so(2) w' by (simp add: same_out_def)
    ultimately show ?thesis using that(2)[of q f p es w'] 2(3-6,8,9) cw by simp
  qed
qed

text \<open>The stored first part is copied next; it is a label or the end of the stack.\<close>

lemma request_stack:
  assumes "pin.in_sync q w" "apart w (fq_all q)" "p \<in> fq_all q" "fq_more q = frame_more f"
    "frame_more f \<longrightarrow> items (fq_pipes q) ! fq_current q = p" "c = Some p \<and> writable w p \<or> c = None"
    "f # avail w p = ls @ b # fs" "\<forall>l \<in> set ls. label l" "bottom b"
  shows "\<exists>r' w'. rep_labels (begun q f c es r) w = Some (r', w', Inr ()) \<and> mid p r' w' \<and> fq_mid p r' \<and>
    fq_all (ro_fq r') = fq_all q \<and> avail w' p = fs \<and> (\<forall>x \<in> fq_all q. x \<noteq> p \<longrightarrow> avail w' x = avail w x) \<and>
    current_out r' = c \<and> sending_reply r' = sending_reply r \<and>
    out w' p = (if c = None then out w p else out w p @ ls @ [b])"
proof -
  have f: "label f \<or> bottom f" using assms(7,8,9) by (cases ls) auto
  then have fm: "frame_more f" "bottom f \<longleftrightarrow> fdata f = []" by (auto simp: label_def bottom_def)
  let ?r = "begun q f c es r"
  define r2 where "r2 = ?r\<lparr>ro_prefetched := False, ro_prefetched_msg := frame_of 0 [], more_in := frame_more f\<rparr>"
  have x: "router_xrecv ?r w = Some (r2, w, Inr f)" by (simp add: router_xrecv_def begun_def r2_def)
  have r2: "mid p r2 w" "fq_mid p r2" "ro_fq r2 = q" "current_out r2 = c" "sending_reply r2 = sending_reply r"
    using assms(1-6) fm by (auto simp: mid_def fq_mid_def r2_def begun_def)
  obtain w1 where w1: "router_xsend f r2 w = Some (r2, w1, Inr ())" "mid p r2 w1"
    "\<forall>q \<in> fq_all (ro_fq r2). avail w1 q = avail w q" "writable w1 p = writable w p"
    "out w1 p = (if current_out r2 = None then out w p else out w p @ [f])"
    using r2(1) fm(1) by (rule router_push_mid)
  have eq: "rep_labels ?r w = (if bottom f then Some (r2, w1, Inr ()) else rep_labels r2 w1)"
    using x fm w1(1) by (simp add: rep_labels.simps[of ?r w])
  have av: "avail w1 x = avail w x" if "x \<in> fq_all q" for x using w1(3) r2(3) that by simp
  show ?thesis
  proof (cases ls)
    case Nil
    then have "f = b" "avail w p = fs" using assms(7) by simp_all
    then show ?thesis using eq assms(3,9) w1(2,5) r2 av Nil by (intro exI[of _ r2] exI[of _ w1]) simp
  next
    case (Cons l ls')
    then have l: "f = l" "avail w p = ls' @ b # fs" "\<not> bottom f" "\<forall>l \<in> set ls'. label l"
      using assms(7,8) by (auto simp: label_def bottom_def)
    have "avail w1 p = ls' @ b # fs" using av[OF assms(3)] l(2) by simp
    from copy_labels[OF w1(2) r2(2) this l(4) assms(9)] obtain q' w' where
      c: "rep_labels r2 w1 = Some (r2\<lparr>ro_fq := q'\<rparr>, w', Inr ())" "mid p (r2\<lparr>ro_fq := q'\<rparr>) w'" "fq_mid p (r2\<lparr>ro_fq := q'\<rparr>)"
      "fq_all q' = fq_all (ro_fq r2)" "avail w' p = fs" "\<forall>x \<in> fq_all (ro_fq r2). x \<noteq> p \<longrightarrow> avail w' x = avail w1 x"
      "out w' p = (if current_out r2 = None then out w1 p else out w1 p @ ls' @ [b])" by (elim exE conjE)
    show ?thesis using eq l(1,3) c w1(5) r2 av Cons
      by (intro exI[of _ "r2\<lparr>ro_fq := q'\<rparr>"] exI[of _ w']) simp
  qed
qed

section \<open>Replies\<close>

primrec rep_send_parts :: "frame list \<Rightarrow> rep \<Rightarrow> world \<Rightarrow> (rep \<times> world \<times> unit outcome) option" where
  "rep_send_parts [] r w = Some (r, w, Inr ())"
| "rep_send_parts (m # ms) r w = do {
     (r, w, res) \<leftarrow> rep_xsend m r w;
     (case res of Inl e \<Rightarrow> Some (r, w, Inl e) | Inr _ \<Rightarrow> rep_send_parts ms r w) }"

lemma rep_send_reply:
  assumes "mid p r w" "valid w p" "sending_reply r" "\<forall>m \<in> set ms. frame_more m" "\<not> frame_more l"
  shows "\<exists>w'. rep_send_parts (ms @ [l]) r w = Some (r\<lparr>more_out := False, current_out := None, sending_reply := False\<rparr>, w', Inr ()) \<and>
    (if current_out r = None then w' = w
     else out w' = (out w)(p := out w p @ ms @ [l]) \<and> flushed w' = (flushed w)(p := out w p @ ms @ [l]))"
proof (cases "current_out r")
  case None
  have "rep_send_parts (ms @ [l]) r w = Some (r\<lparr>more_out := False, sending_reply := False\<rparr>, w, Inr ())"
    using assms(4) None assms(1,3) unfolding mid_def
  proof (induction ms)
    case Nil
    then show ?case using assms(5) by (simp add: rep_xsend_def router_xsend_def Let_def)
  next
    case (Cons m ms)
    have "r\<lparr>more_out := True\<rparr> = r" using Cons.prems by simp
    then have "rep_xsend m r w = Some (r, w, Inr ())" using Cons.prems by (simp add: rep_xsend_def router_xsend_def Let_def)
    then show ?case using Cons by simp
  qed
  moreover have "r\<lparr>more_out := False, sending_reply := False\<rparr> = r\<lparr>more_out := False, current_out := None, sending_reply := False\<rparr>"
    using None by simp
  ultimately show ?thesis using None by simp
next
  case (Some p')
  then have c: "current_out r = Some p" "writable w p" "more_out r" using assms(1) by (auto simp: mid_def)
  have "\<exists>w'. rep_send_parts (ms @ [l]) r w = Some (r\<lparr>more_out := False, current_out := None, sending_reply := False\<rparr>, w', Inr ()) \<and>
     out w' = (out w)(p := out w p @ ms @ [l]) \<and> flushed w' = (flushed w)(p := out w p @ ms @ [l])"
    using c(2) assms(2,4)
  proof (induction ms arbitrary: w)
    case Nil
    obtain w' where "router_xsend l r w = Some (r\<lparr>more_out := frame_more l, current_out := (if frame_more l then Some p else None)\<rparr>, w', Inr ())"
      "pout.delivered l {p} w w'" using c(3,1) Nil.prems(2,1) by (rule router_xsend_body)
    then show ?case using assms(3,5) Nil.prems(1) by (auto simp: rep_xsend_def pout.delivered_def fun_eq_iff)
  next
    case (Cons m ms)
    have fm: "frame_more m" "\<forall>m \<in> set ms. frame_more m" using Cons.prems(3) by simp_all
    have same: "r\<lparr>more_out := True, current_out := Some p\<rparr> = r" using c by simp
    obtain w1 where w1: "router_xsend m r w = Some (r, w1, Inr ())" "pout.delivered m {p} w w1"
      using router_xsend_body[OF c(3,1) Cons.prems(2,1), of m] fm(1) same by auto
    have d: "out w1 = (out w)(p := out w p @ [m])" "flushed w1 = flushed w" "valid w1 p" "writable w1 p"
      using w1(2) fm(1) Cons.prems by (auto simp: pout.delivered_def fun_eq_iff)
    from Cons.IH[OF d(4,3) fm(2)] obtain w' where
      w': "rep_send_parts (ms @ [l]) r w1 = Some (r\<lparr>more_out := False, current_out := None, sending_reply := False\<rparr>, w', Inr ())"
      "out w' = (out w1)(p := out w1 p @ ms @ [l])" "flushed w' = (flushed w1)(p := out w1 p @ ms @ [l])" by (elim exE conjE)
    have "rep_xsend m r w = Some (r, w1, Inr ())" using assms(3) fm(1) w1(1) by (simp add: rep_xsend_def)
    then show ?case by (intro exI[of _ w']) (simp add: w' d)
  qed
  then show ?thesis using Some by simp
qed

section \<open>Properties\<close>


text \<open>A socket with one peer of identity 65, from which a request with the body 6 has arrived.\<close>

definition asked_world :: world where
  "asked_world = demo_world\<lparr>upipes := (upipes demo_world)
     (2 \<mapsto> chan_empty\<lparr>readable := [frame_of 1 [], frame_of 0 [6]]\<rparr>), pipes := (pipes demo_world)(0 \<mapsto> demo_pipe\<lparr>identity := [65]\<rparr>)\<rparr>"

definition demo_rep :: rep where
  "demo_rep = (rep_init 7)\<lparr>ro_fq := demo_fq, outpipes := [([65], 0, True)]\<rparr>"

lemma asked_facts: "valid asked_world 0" "avail asked_world 0 = [frame_of 1 [], frame_of 0 [6]]" "writable asked_world 0"
  "out asked_world 0 = []"
proof -
  have "world_ok asked_world"
    by (auto simp: world_ok_def asked_world_def demo_defs pipe_ok_def final_def chan_ok_def whole_def frame_of_def
        frame_more_def split: if_splits)
  then show "valid asked_world 0" by (simp add: valid_def asked_world_def)
  show "avail asked_world 0 = [frame_of 1 [], frame_of 0 [6]]" "writable asked_world 0" "out asked_world 0 = []"
    by (simp_all add: asked_world_def avail_def writable_def out_def out_chan_def full_def demo_defs can_read_def frame_of_def)
qed

lemma demo_rep_ready: "rep_ready demo_rep asked_world"
proof -
  have "whole [frame_of 1 [], frame_of 0 [6]]" by (simp add: whole_def frame_of_def frame_more_def)
  then have "pin.in_sync demo_fq asked_world" using demo_fq_ok asked_facts by (simp add: pin.in_sync_def)
  moreover have "apart asked_world {0}" by (simp add: apart_def asked_world_def demo_defs)
  moreover have "pipe_get_identity 0 asked_world = Some [65]" by (simp add: pipe_get_identity_def asked_world_def)
  ultimately show ?thesis using asked_facts(1) demo_fq_ok
    by (simp add: rep_ready_def router_ok_def demo_rep_def rep_init_def router_init_def router.extend_def rep.fields_def)
qed


end
