(* ===== verification/Simple_Sockets.thy ===== *)
theory Simple_Sockets
  imports Routing Options
begin

text \<open>
  The socket types that add nothing to one policy: PUSH sends by load balancing (\<open>push.cpp\<close>), PULL receives
  by fair queueing (\<open>pull.cpp\<close>), PAIR has a single pipe (\<open>pair.cpp\<close>).
\<close>

section \<open>PUSH\<close>

type_synonym push = "nat lb_t"

definition push_options :: "'f options \<Rightarrow> 'f options" where
  "push_options opts = opts\<lparr>socktype := PUSH\<rparr>"

definition push_xattach_pipe :: "nat \<Rightarrow> push \<Rightarrow> push option" where
  "push_xattach_pipe p s = lb_attach p s"

definition push_xwrite_activated :: "nat \<Rightarrow> push \<Rightarrow> push option" where
  "push_xwrite_activated p s = lb_activated p s"

definition push_xterminated :: "nat \<Rightarrow> push \<Rightarrow> push option" where
  "push_xterminated p s = lb_terminated p s"

definition push_xsend :: "frame \<Rightarrow> push \<Rightarrow> world \<Rightarrow> (push \<times> world \<times> unit outcome) option" where
  "push_xsend m s w = lb_send pipe_write pipe_flush m s w"

definition push_xhas_out :: "push \<Rightarrow> world \<Rightarrow> (push \<times> world \<times> bool) option" where
  "push_xhas_out s w = lb_has_out pipe_check_write s w"

section \<open>PULL\<close>

type_synonym pull = "nat fq_t"

definition pull_options :: "'f options \<Rightarrow> 'f options" where
  "pull_options opts = opts\<lparr>socktype := PULL\<rparr>"

definition pull_xattach_pipe :: "nat \<Rightarrow> pull \<Rightarrow> pull option" where
  "pull_xattach_pipe p s = fq_attach p s"

definition pull_xread_activated :: "nat \<Rightarrow> pull \<Rightarrow> pull option" where
  "pull_xread_activated p s = fq_activated p s"

definition pull_xterminated :: "nat \<Rightarrow> pull \<Rightarrow> pull option" where
  "pull_xterminated p s = fq_terminated p s"

definition pull_xrecv :: "pull \<Rightarrow> world \<Rightarrow> (pull \<times> world \<times> frame outcome) option" where
  "pull_xrecv s w = fq_recv pipe_read s w"

definition pull_xhas_in :: "pull \<Rightarrow> world \<Rightarrow> (pull \<times> world \<times> bool) option" where
  "pull_xhas_in s w = fq_has_in pipe_check_read s w"

section \<open>PAIR\<close>

type_synonym pair_socket = "nat option"

definition pair_options :: "'f options \<Rightarrow> 'f options" where
  "pair_options opts = opts\<lparr>socktype := PAIR\<rparr>"

definition pair_init :: pair_socket where
  "pair_init = None"

definition pair_destroy :: "pair_socket \<Rightarrow> unit option" where
  "pair_destroy s = (if s = None then Some () else None)"

definition pair_xattach_pipe :: "nat \<Rightarrow> pair_socket \<Rightarrow> world \<Rightarrow> (pair_socket \<times> world) option" where
  "pair_xattach_pipe p s w =
     (case s of
        None \<Rightarrow> Some (Some p, w)
      | Some q \<Rightarrow> do { w \<leftarrow> pipe_terminate False p w; Some (s, w) })"

definition pair_xterminated :: "nat \<Rightarrow> pair_socket \<Rightarrow> pair_socket" where
  "pair_xterminated p s = (if s = Some p then None else s)"

text \<open>\<open>xread_activated\<close> and \<open>xwrite_activated\<close> have empty bodies.\<close>

definition pair_xread_activated :: "nat \<Rightarrow> pair_socket \<Rightarrow> pair_socket" where
  "pair_xread_activated p s = s"

definition pair_xwrite_activated :: "nat \<Rightarrow> pair_socket \<Rightarrow> pair_socket" where
  "pair_xwrite_activated p s = s"

text \<open>The second argument is the flag \<open>ZMQ_SNDMORE\<close> of the call.\<close>

definition pair_xsend :: "frame \<Rightarrow> bool \<Rightarrow> pair_socket \<Rightarrow> world \<Rightarrow> (world \<times> unit outcome) option" where
  "pair_xsend m sndmore s w =
     (case s of
        None \<Rightarrow> Some (w, Inl EAGAIN)
      | Some p \<Rightarrow> do {
          (ok, w) \<leftarrow> pipe_write p m w;
          if \<not> ok then Some (w, Inl EAGAIN)
          else if sndmore then Some (w, Inr ())
          else do { w \<leftarrow> pipe_flush p w; Some (w, Inr ()) } })"

definition pair_xrecv :: "pair_socket \<Rightarrow> world \<Rightarrow> (world \<times> frame outcome) option" where
  "pair_xrecv s w =
     (case s of
        None \<Rightarrow> Some (w, Inl EAGAIN)
      | Some p \<Rightarrow> do {
          (res, w) \<leftarrow> pipe_read p w;
          (case res of None \<Rightarrow> Some (w, Inl EAGAIN) | Some m \<Rightarrow> Some (w, Inr m)) })"

definition pair_xhas_in :: "pair_socket \<Rightarrow> world \<Rightarrow> (world \<times> bool) option" where
  "pair_xhas_in s w =
     (case s of None \<Rightarrow> Some (w, False) | Some p \<Rightarrow> do { (b, w) \<leftarrow> pipe_check_read p w; Some (w, b) })"

definition pair_xhas_out :: "pair_socket \<Rightarrow> world \<Rightarrow> (world \<times> bool) option" where
  "pair_xhas_out s w =
     (case s of None \<Rightarrow> Some (w, False) | Some p \<Rightarrow> do { (b, w) \<leftarrow> pipe_check_write p w; Some (w, b) })"

section \<open>Sending and receiving on a PAIR socket\<close>

text \<open>
  With the flag of the call equal to the flag of the message, as the socket base sets it, sending agrees
  with what is written to the pipe, and polling for output agrees with sending.
\<close>

lemma pair_xsend_ok:
  assumes "valid w p"
  shows "\<exists>w'. pair_xsend m (frame_more m) (Some p) w = Some (w', if writable w p then Inr () else Inl EAGAIN) \<and>
    (if writable w p then pout.delivered m {p} w w' else out w' = out w \<and> flushed w' = flushed w) \<and>
    (\<exists>w2. pair_xhas_out (Some p) w = Some (w2, writable w p))"
proof -
  have has: "\<exists>w2. pair_xhas_out (Some p) w = Some (w2, writable w p)"
    using pout.chk_writable[OF assms] by (auto simp: pair_xhas_out_def)
  show ?thesis
  proof (cases "writable w p")
    case True
    obtain w1 w2 where "pipe_write p m w = Some (True, w1)" "(if frame_more m then Some w1 else pipe_flush p w1) = Some w2"
      "pout.delivered m {p} w w2" using assms True by (rule pout.write_full_pipe)
    then show ?thesis using has True by (cases "frame_more m") (auto simp: pair_xsend_def)
  next
    case False
    then show ?thesis using pout.wr_full[OF assms False, of m] has by (auto simp: pair_xsend_def)
  qed
qed

lemma pair_xrecv_ok:
  assumes "valid w p"
  shows "\<exists>w'. pair_xrecv (Some p) w = Some (w', case avail w p of [] \<Rightarrow> Inl EAGAIN | m # _ \<Rightarrow> Inr m) \<and>
    avail w' = (avail w)(p := tl (avail w p)) \<and> (\<exists>w2. pair_xhas_in (Some p) w = Some (w2, avail w p \<noteq> []))"
proof -
  have has: "\<exists>w2. pair_xhas_in (Some p) w = Some (w2, avail w p \<noteq> [])"
    using pin.chk_avail[OF assms] by (auto simp: pair_xhas_in_def)
  show ?thesis
  proof (cases "avail w p")
    case Nil
    then show ?thesis using pin.rd_none[OF assms Nil] has by (auto simp: pair_xrecv_def fun_upd_idem)
  next
    case (Cons m ms)
    then show ?thesis using pin.rd_some[OF assms Cons] has by (auto simp: pair_xrecv_def)
  qed
qed

end
