(* ===== verification/Handshake.thy ===== *)
theory Handshake
  imports Routing
begin

text \<open>
  The termination handshake of \<open>pipe.cpp\<close>. The two ends of a pipe belong to different threads: each end
  calls its own operations and handles the commands that the other end sent, in any interleaving. The
  theory runs all operations of the two ends, hiccups included, in every order and shows which states
  the pair of ends can be in: no assertion of \<open>pipe.cpp\<close> fails, no end uses a channel or a peer that was
  deallocated, and when both ends are gone all their channels are.
\<close>

section \<open>Runs of the two ends\<close>

datatype link_op =
    Op_read | Op_check_read | Op_check_write | Op_write frame | Op_flush | Op_rollback
  | Op_terminate bool | Op_hiccup nat | Deliver

definition deliver :: "nat \<Rightarrow> world \<Rightarrow> world option" where
  "deliver e s =
     (case cmds s e of
        [] \<Rightarrow> None
      | c # cs \<Rightarrow> process_cmd c e (s\<lparr>cmds := (cmds s)(e := cs)\<rparr>))"

fun run_op :: "link_op \<Rightarrow> nat \<Rightarrow> world \<Rightarrow> world option" where
  "run_op Op_read e s = map_option snd (pipe_read e s)"
| "run_op Op_check_read e s = map_option snd (pipe_check_read e s)"
| "run_op Op_check_write e s = map_option snd (pipe_check_write e s)"
| "run_op (Op_write m) e s = map_option snd (pipe_write e m s)"
| "run_op Op_flush e s = pipe_flush e s"
| "run_op Op_rollback e s = pipe_rollback e s"
| "run_op (Op_terminate d) e s = pipe_terminate d e s"
| "run_op (Op_hiccup new) e s = pipe_hiccup new e s"
| "run_op Deliver e s = deliver e s"

text \<open>
  An end is used until it notifies its owner that it is terminated. Owners write no delimiters, the
  address of a new channel is unused. A command can be delivered whenever there is one.
\<close>

fun enabled :: "link_op \<Rightarrow> nat \<Rightarrow> world \<Rightarrow> bool" where
  "enabled Deliver e s \<longleftrightarrow> cmds s e \<noteq> []"
| "enabled (Op_write m) e s \<longleftrightarrow> pipes s e \<noteq> None \<and> \<not> fdelim m"
| "enabled (Op_hiccup new) e s \<longleftrightarrow> pipes s e \<noteq> None \<and> upipes s new = None"
| "enabled _ e s \<longleftrightarrow> pipes s e \<noteq> None"

definition connected :: "nat \<Rightarrow> nat \<Rightarrow> world \<Rightarrow> world \<Rightarrow> bool" where
  "connected p q s0 s \<longleftrightarrow> (\<exists>c1 c2 h d k1 k2 s1 s2.
     pipes s0 p = None \<and> pipes s0 q = None \<and> p \<noteq> q \<and> upipes s0 c1 = None \<and> upipes s0 c2 = None \<and>
     c1 \<noteq> c2 \<and> cmds s0 p = [] \<and> cmds s0 q = [] \<and> pipepair p q c1 c2 h d s0 = Some s1 \<and>
     pipe_set_event_sink k1 p s1 = Some s2 \<and> pipe_set_event_sink k2 q s2 = Some s)"

inductive link_run :: "nat \<Rightarrow> nat \<Rightarrow> world \<Rightarrow> world \<Rightarrow> bool" for p q s0 where
  start: "connected p q s0 s \<Longrightarrow> link_run p q s0 s"
| step: "link_run p q s0 s \<Longrightarrow> e = p \<or> e = q \<Longrightarrow> enabled op e s \<Longrightarrow> run_op op e s = Some s' \<Longrightarrow>
    link_run p q s0 s'"

section \<open>The states of the handshake\<close>

definition handshake :: "pipe_cmd \<Rightarrow> bool" where
  "handshake c \<longleftrightarrow> c = Pipe_term \<or> c = Pipe_term_ack"

fun hiccups :: "pipe_cmd list \<Rightarrow> nat list" where
  "hiccups [] = []"
| "hiccups (Hiccup c # cs) = c # hiccups cs"
| "hiccups (_ # cs) = hiccups cs"

text \<open>An acknowledgement is the last command, and no hiccup follows the request to terminate.\<close>

fun ordered :: "pipe_cmd list \<Rightarrow> bool" where
  "ordered [] \<longleftrightarrow> True"
| "ordered (c # cs) \<longleftrightarrow> ordered cs \<and> (c = Pipe_term_ack \<longrightarrow> cs = []) \<and> (c = Pipe_term \<longrightarrow> hiccups cs = [])"

definition st :: "world \<Rightarrow> nat \<Rightarrow> pstate option" where
  "st s e = map_option state (pipes s e)"

definition signals :: "world \<Rightarrow> nat \<Rightarrow> pipe_cmd list" where
  "signals s e = filter handshake (cmds s e)"

text \<open>
  The states of the first end, the handshake commands on their way to it, the state of the second end
  and the commands on their way to that.
\<close>

definition half_phases :: "(pstate option \<times> pipe_cmd list \<times> pstate option \<times> pipe_cmd list) set" where
  "half_phases =
     {(Some Active, [], Some Active, []),
      (Some Terminated, [], Some Active, [Pipe_term]),
      (Some Terminated, [], Some Delimited, [Pipe_term]),
      (Some Terminated, [], Some Pending, []),
      (Some Terminated, [Pipe_term_ack], Some Terminating, []),
      (None, [], Some Terminating, [Pipe_term_ack]),
      (Some Terminated, [Pipe_term], Some Terminated, [Pipe_term]),
      (Some Double_terminated, [], Some Terminated, [Pipe_term, Pipe_term_ack]),
      (Some Double_terminated, [Pipe_term_ack], Some Double_terminated, [Pipe_term_ack]),
      (None, [], Some Double_terminated, [Pipe_term_ack]),
      (None, [], None, [])}"

definition phases :: "pstate option \<Rightarrow> pipe_cmd list \<Rightarrow> pstate option \<Rightarrow> pipe_cmd list \<Rightarrow> bool" where
  "phases a ha b hb \<longleftrightarrow> (a, ha, b, hb) \<in> half_phases \<or> (b, hb, a, ha) \<in> half_phases"

lemma phases_sym: "phases a ha b hb = phases b hb a ha"
  by (auto simp: phases_def)

text \<open>The channels from one end to the other: the one in use and those announced by hiccups.\<close>

definition track :: "world \<Rightarrow> nat \<Rightarrow> nat \<Rightarrow> nat list" where
  "track s e f =
     (case map_option outpipe (pipes s e) of
        Some (Some c) \<Rightarrow> c # hiccups (cmds s e)
      | _ \<Rightarrow> (case pipes s f of None \<Rightarrow> [] | Some y \<Rightarrow> [inpipe y]))"

definition good :: "frame chan \<Rightarrow> bool" where
  "good ch \<longleftrightarrow> (\<forall>m \<in> set (partial ch). frame_more m)"

definition clean :: "frame chan \<Rightarrow> bool" where
  "clean ch \<longleftrightarrow> (\<forall>m \<in> set (readable ch) \<union> set (pending ch) \<union> set (partial ch). \<not> fdelim m)"

definition side :: "world \<Rightarrow> nat \<Rightarrow> nat \<Rightarrow> bool" where
  "side s e f \<longleftrightarrow> ordered (cmds s e) \<and>
     (hiccups (cmds s e) \<noteq> [] \<longrightarrow> st s e \<in> {Some Active, Some Delimited, Some Terminated}) \<and>
     (pipes s e = None \<longrightarrow> cmds s e = []) \<and>
     (\<forall>x. pipes s e = Some x \<longrightarrow> peer x = Some f \<and> sink x \<noteq> None \<and>
        (outpipe x = None \<longleftrightarrow> final (state x)) \<and> last (track s f e) = inpipe x)"

definition both_active :: "world \<Rightarrow> nat \<Rightarrow> nat \<Rightarrow> bool" where
  "both_active s p q \<longleftrightarrow> st s p = Some Active \<and> st s q = Some Active"

definition link :: "nat set \<Rightarrow> world \<Rightarrow> nat \<Rightarrow> nat \<Rightarrow> bool" where
  "link F s p q \<longleftrightarrow> p \<noteq> q \<and> phases (st s p) (signals s p) (st s q) (signals s q) \<and> side s p q \<and> side s q p \<and>
     distinct (track s p q @ track s q p) \<and>
     (\<forall>d \<in> set (track s p q) \<union> set (track s q p).
        \<exists>ch. upipes s d = Some ch \<and> good ch \<and> (both_active s p q \<longrightarrow> clean ch)) \<and>
     dom (upipes s) \<subseteq> F \<union> set (track s p q) \<union> set (track s q p)"

lemma link_sym: "link F s p q = link F s q p"
proof -
  have "link F s q p" if "link F s p q" for p q
    using that unfolding link_def both_active_def by (auto simp: phases_sym)
  then show ?thesis by blast
qed

lemma hiccups_append [simp]: "hiccups (xs @ ys) = hiccups xs @ hiccups ys"
  by (induction xs rule: hiccups.induct) auto

lemma ordered_snoc:
  "ordered (cs @ [c]) \<longleftrightarrow> ordered cs \<and> Pipe_term_ack \<notin> set cs \<and> (hiccups [c] \<noteq> [] \<longrightarrow> Pipe_term \<notin> set cs)"
  by (induction cs) auto

text \<open>What the phases say of an end that has not closed its outbound side.\<close>

lemma phases_open:
  assumes "phases (Some a) ha b hb" "\<not> final a"
  shows "b \<noteq> None" "Pipe_term_ack \<notin> set hb"
  using assms by (auto simp: phases_def half_phases_def final_def)

lemma phases_unsent:
  assumes "phases (Some a) ha b hb" "a = Active \<or> a = Delimited"
  shows "hb = []" "b = Some Active \<and> ha = [] \<and> a = Active \<or> b = Some Terminated \<and> ha = [Pipe_term]"
  using assms by (auto simp: phases_def half_phases_def)

lemma phases_pending:
  assumes "phases (Some Pending) ha b hb"
  shows "ha = []" "hb = []" "b = Some Terminated"
  using assms by (auto simp: phases_def half_phases_def)

lemma signals_mem: "handshake c \<Longrightarrow> c \<in> set (cmds s e) \<longleftrightarrow> c \<in> set (signals s e)"
  by (auto simp: signals_def)

section \<open>Steps of one end\<close>

definition evolves :: "bool \<Rightarrow> frame chan \<Rightarrow> frame chan \<Rightarrow> bool" where
  "evolves b ch ch' \<longleftrightarrow> (good ch \<longrightarrow> good ch') \<and> (b \<longrightarrow> clean ch \<longrightarrow> clean ch')"

lemma evolves_refl [simp]: "evolves b ch ch"
  by (simp add: evolves_def)

definition chans_evolve :: "bool \<Rightarrow> world \<Rightarrow> world \<Rightarrow> bool" where
  "chans_evolve b s s' \<longleftrightarrow> dom (upipes s') = dom (upipes s) \<and>
     (\<forall>d ch ch'. upipes s d = Some ch \<longrightarrow> upipes s' d = Some ch' \<longrightarrow> evolves b ch ch')"

text \<open>
  Most operations of an end \<open>e\<close> with peer \<open>f\<close> change the end, the contents of channels, take at most the
  oldest command of the end and send commands to the peer.
\<close>

definition moved :: "nat \<Rightarrow> nat \<Rightarrow> pipe_t \<Rightarrow> pipe_t \<Rightarrow> pipe_cmd list \<Rightarrow> pipe_cmd list \<Rightarrow> world \<Rightarrow> world \<Rightarrow> bool" where
  "moved e f x y es cs s s' \<longleftrightarrow> pipes s' = (pipes s)(e \<mapsto> y) \<and> cmds s' = (cmds s)(e := es, f := cmds s f @ cs) \<and>
     inpipe y = inpipe x \<and> peer y = peer x \<and> sink y = sink x \<and> chans_evolve (state y = Active) s s'"

lemma link_sideD:
  assumes "link F s e f" "pipes s e = Some x"
  shows "peer x = Some f" "sink x \<noteq> None" "outpipe x = None \<longleftrightarrow> final (state x)" "e \<noteq> f"
    "phases (Some (state x)) (signals s e) (st s f) (signals s f)" "ordered (cmds s e)"
    "ordered (cmds s f)" "last (track s f e) = inpipe x"
  using assms by (auto simp: link_def side_def st_def)

lemma link_local:
  assumes l: "link F s e f" and x: "pipes s e = Some x" and m: "moved e f x y es cs s s'"
    and op: "outpipe y = None \<longleftrightarrow> final (state y)" "outpipe y = outpipe x \<or> outpipe y = None"
    and es: "cmds s e = es \<or> (\<exists>c. cmds s e = c # es \<and> hiccups [c] = [])"
    and hi: "hiccups es = [] \<or> state y \<in> {Active, Delimited, Terminated}"
    and cs: "hiccups cs = []" "ordered (cmds s f @ cs)" "cs \<noteq> [] \<longrightarrow> pipes s f \<noteq> None"
    and ph: "phases (Some (state y)) (filter handshake es) (st s f) (signals s f @ filter handshake cs)"
    and ac: "state y = Active \<longrightarrow> state x = Active"
  shows "link F s' e f"
proof -
  have ne: "e \<noteq> f" using l by (simp add: link_def)
  note mv = m[unfolded moved_def]
  have pf: "pipes s' f = pipes s f" "pipes s' e = Some y" using mv ne by auto
  have ce: "cmds s' e = es" "cmds s' f = cmds s f @ cs" using mv ne by auto
  have hes: "hiccups es = hiccups (cmds s e)" using es by (cases "cmds s e") (auto elim: hiccups.elims)
  have oes: "ordered es" using l es by (auto simp: link_def side_def)
  have sf: "st s' f = st s f" "st s' e = Some (state y)" using pf by (simp_all add: st_def)
  have t1: "track s' f e = track s f e"
  proof (cases "map_option outpipe (pipes s f)")
    case None
    then show ?thesis using x pf mv by (simp add: track_def)
  next
    case (Some c)
    then show ?thesis using x pf ce cs(1) mv by (cases c) (auto simp: track_def)
  qed
  have t2: "track s' e f = track s e f"
  proof (cases "outpipe y = outpipe x")
    case True
    then show ?thesis using x pf ce hes by (cases "outpipe x") (simp_all add: track_def)
  next
    case False
    then obtain c where c: "outpipe x = Some c" "outpipe y = None" using op(2) by (cases "outpipe x") auto
    then have fin: "final (state y)" using op(1) by simp
    then have "hiccups (cmds s e) = []" using hi hes by (auto simp: final_def)
    then have tr: "track s e f = [c]" using x c by (simp add: track_def)
    have "\<not> final (state x)" using c(1) link_sideD(3)[OF l x] by auto
    then obtain z where z: "pipes s f = Some z"
      using phases_open(1)[OF link_sideD(5)[OF l x]] by (auto simp: st_def)
    then have "inpipe z = c" using l tr by (auto simp: link_def side_def)
    then show ?thesis using tr pf c z by (simp add: track_def)
  qed
  have s1: "side s' e f" using l x pf ce oes hi op(1) mv t1 by (auto simp: side_def link_def st_def)
  have s2: "side s' f e" using l pf ce cs mv t2 sf by (auto simp: side_def link_def)
  have si: "signals s' e = filter handshake es" "signals s' f = signals s f @ filter handshake cs"
    using ce by (simp_all add: signals_def)
  have ba: "both_active s e f" if "both_active s' e f"
    using that ac x pf by (auto simp: both_active_def st_def)
  have "\<exists>ch'. upipes s' d = Some ch' \<and> good ch' \<and> (both_active s' e f \<longrightarrow> clean ch')"
    if d: "d \<in> set (track s e f) \<union> set (track s f e)" for d
  proof -
    obtain ch where ch: "upipes s d = Some ch" "good ch" "both_active s e f \<longrightarrow> clean ch"
      using l d unfolding link_def by blast
    have ev: "chans_evolve (state y = Active) s s'" using mv by simp
    then obtain ch' where ch': "upipes s' d = Some ch'" using ch(1) unfolding chans_evolve_def by blast
    then have "evolves (state y = Active) ch ch'" using ev ch(1) unfolding chans_evolve_def by blast
    then show ?thesis using ch ch' ba sf by (auto simp: evolves_def both_active_def)
  qed
  moreover have "dom (upipes s') = dom (upipes s)" using mv by (simp add: chans_evolve_def)
  ultimately show ?thesis using l ne s1 s2 t1 t2 si sf ph by (simp add: link_def)
qed

text \<open>A step that neither changes the state of the end nor takes part in the handshake.\<close>

lemma link_quiet:
  assumes l: "link F s e f" and x: "pipes s e = Some x" and m: "moved e f x y es cs s s'"
    and st: "state y = state x" "outpipe y = outpipe x"
    and es: "cmds s e = es \<or> (\<exists>c. cmds s e = c # es \<and> \<not> handshake c \<and> hiccups [c] = [])"
    and cs: "cs \<noteq> [] \<longrightarrow> \<not> final (state x)"
    and c: "cs = [] \<or> (\<exists>c. cs = [c] \<and> \<not> handshake c \<and> hiccups [c] = [])"
  shows "link F s' e f"
  using l x m
proof (rule link_local)
  note d = link_sideD[OF l x]
  show "outpipe y = None \<longleftrightarrow> final (state y)" "outpipe y = outpipe x \<or> outpipe y = None" using d st by simp_all
  show "cmds s e = es \<or> (\<exists>c. cmds s e = c # es \<and> hiccups [c] = [])" using es by blast
  have "hiccups es = hiccups (cmds s e)" using es by (cases "cmds s e") (auto elim: hiccups.elims)
  then show "hiccups es = [] \<or> state y \<in> {Active, Delimited, Terminated}"
    using l x st by (auto simp: link_def side_def st_def)
  show "hiccups cs = []" using c by auto
  have "filter handshake es = signals s e" using es by (auto simp: signals_def)
  moreover have "filter handshake cs = []" using c by auto
  ultimately show "phases (Some (state y)) (filter handshake es) (st s f) (signals s f @ filter handshake cs)"
    using d(5) st by simp
  show "cs \<noteq> [] \<longrightarrow> pipes s f \<noteq> None" using cs phases_open(1)[OF d(5)] by (auto simp: st_def)
  show "ordered (cmds s f @ cs)"
  proof (cases "cs = []")
    case False
    then have "Pipe_term_ack \<notin> set (cmds s f)"
      using phases_open(2)[OF d(5)] cs signals_mem[of Pipe_term_ack s f] by (simp add: handshake_def)
    then show ?thesis using c d(7) by (auto simp: ordered_snoc)
  qed (use d(7) in simp)
qed (use st in simp)

text \<open>The three elementary steps the operations are composed of.\<close>

lemma moved_put:
  assumes "pipes s e = Some x" "upipes s d = Some ch" "evolves (state x = Active) ch ch'"
  shows "moved e f x x (cmds s e) [] s (put_upipe d ch' s)"
  using assms by (auto simp: moved_def put_upipe_def chans_evolve_def)

lemma link_put:
  assumes l: "link F s e f" and x: "pipes s e = Some x" and d: "upipes s d = Some ch"
    and ev: "evolves (state x = Active) ch ch'"
  shows "link F (put_upipe d ch' s) e f"
  using l x moved_put[OF x d ev] by (rule link_quiet) simp_all

definition same_role :: "pipe_t \<Rightarrow> pipe_t \<Rightarrow> bool" where
  "same_role x y \<longleftrightarrow> inpipe y = inpipe x \<and> peer y = peer x \<and> sink y = sink x \<and> state y = state x \<and>
     outpipe y = outpipe x"

lemma link_set:
  assumes l: "link F s e f" and x: "pipes s e = Some x" and y: "same_role x y"
  shows "link F (put_pipe e y s) e f"
proof -
  have "moved e f x y (cmds s e) [] s (put_pipe e y s)"
    using x y by (auto simp: moved_def put_pipe_def chans_evolve_def same_role_def)
  with l x show ?thesis by (rule link_quiet) (use y in \<open>simp_all add: same_role_def\<close>)
qed

lemma link_peer:
  assumes l: "link F s e f" and x: "pipes s e = Some x" and nf: "\<not> final (state x)"
  shows "send_cmd (peer x) c s = Some (s\<lparr>cmds := (cmds s)(f := cmds s f @ [c])\<rparr>)"
    "Pipe_term_ack \<notin> set (cmds s f)" "pipes s f \<noteq> None"
proof -
  note d = link_sideD[OF l x]
  show p: "pipes s f \<noteq> None" using phases_open(1)[OF d(5) nf] by (simp add: st_def)
  show "Pipe_term_ack \<notin> set (cmds s f)"
    using phases_open(2)[OF d(5) nf] signals_mem[of Pipe_term_ack s f] by (simp add: handshake_def)
  show "send_cmd (peer x) c s = Some (s\<lparr>cmds := (cmds s)(f := cmds s f @ [c])\<rparr>)"
    using d(1) p by (rule send_cmd_ok)
qed

lemma link_send:
  assumes l: "link F s e f" and x: "pipes s e = Some x" and nf: "\<not> final (state x)"
    and c: "\<not> handshake c" "hiccups [c] = []"
  shows "\<exists>s'. send_cmd (peer x) c s = Some s' \<and> link F s' e f \<and> pipes s' = pipes s \<and> upipes s' = upipes s"
proof -
  let ?s = "s\<lparr>cmds := (cmds s)(f := cmds s f @ [c])\<rparr>"
  have "moved e f x x (cmds s e) [c] s ?s"
    using x link_sideD(4)[OF l x] by (auto simp: moved_def chans_evolve_def fun_eq_iff)
  with l x have "link F ?s e f" by (rule link_quiet) (use nf c in simp_all)
  then show ?thesis using link_peer(1)[OF l x nf, of c] by auto
qed

lemma link_chan:
  assumes l: "link F s e f" and x: "pipes s e = Some x"
  obtains ch where "upipes s (inpipe x) = Some ch" "both_active s e f \<longrightarrow> clean ch"
proof -
  have "track s f e \<noteq> []" using x by (auto simp: track_def split: option.splits)
  then have "inpipe x \<in> set (track s f e)" using link_sideD(8)[OF l x] by (metis last_in_set)
  then show ?thesis using l that unfolding link_def by blast
qed

lemma link_out_chan:
  assumes l: "link F s e f" and x: "pipes s e = Some x" and c: "outpipe x = Some c"
  obtains ch where "upipes s c = Some ch" "good ch" "c \<noteq> inpipe x" "c \<in> set (track s e f)"
proof -
  have tr: "c \<in> set (track s e f)" using x c by (simp add: track_def)
  have "track s f e \<noteq> []" using x by (auto simp: track_def split: option.splits)
  then have "inpipe x \<in> set (track s f e)" using link_sideD(8)[OF l x] by (metis last_in_set)
  then have "c \<noteq> inpipe x" using tr l by (auto simp: link_def)
  then show ?thesis using l that tr unfolding link_def by blast
qed

subsection \<open>Reading\<close>

lemma delimit_link:
  assumes l: "link F s e f" and x: "pipes s e = Some x" and r: "can_read x" and na: "\<not> both_active s e f"
  shows "\<exists>s'. pipe_delimit e s = Some s' \<and> link F s' e f"
proof -
  note d = link_sideD[OF l x]
  have nf: "\<not> final (state x)" using r by (rule can_readD)
  from r consider "state x = Active" | "state x = Pending" by (auto simp: can_read_def)
  then show ?thesis
  proof cases
    case 1
    let ?y = "x\<lparr>state := Delimited\<rparr>"
    have ph: "signals s f = []" "st s f = Some Terminated" "signals s e = [Pipe_term]"
      using phases_unsent[OF d(5)] 1 na x by (auto simp: both_active_def st_def)
    have "moved e f x ?y (cmds s e) [] s (put_pipe e ?y s)"
      using x by (auto simp: moved_def put_pipe_def chans_evolve_def)
    with l x have "link F (put_pipe e ?y s) e f"
      by (rule link_local) (use 1 d ph in \<open>simp_all add: final_def phases_def half_phases_def signals_def\<close>)
    then show ?thesis using x 1 by (simp add: pipe_delimit_def)
  next
    case 2
    let ?y = "x\<lparr>outpipe := None, state := Terminating\<rparr>"
    let ?s = "put_pipe e ?y (s\<lparr>cmds := (cmds s)(f := cmds s f @ [Pipe_term_ack])\<rparr>)"
    have ph: "signals s e = []" "signals s f = []" "st s f = Some Terminated"
      using phases_pending d(5) 2 by simp_all
    have hi: "hiccups (cmds s e) = []" using l x 2 by (auto simp: link_def side_def st_def)
    have "moved e f x ?y (cmds s e) [Pipe_term_ack] s ?s"
      using x d(4) by (auto simp: moved_def put_pipe_def chans_evolve_def fun_eq_iff)
    with l x have "link F ?s e f"
      by (rule link_local)
        (use hi d(7) link_peer(2,3)[OF l x nf] ph in
          \<open>simp_all add: final_def ordered_snoc phases_def half_phases_def handshake_def signals_def\<close>)
    then show ?thesis using x 2 link_peer(1)[OF l x nf] by (simp add: pipe_delimit_def)
  qed
qed

lemma evolves_read:
  "evolves b ch (ch\<lparr>asleep := a\<rparr>)" "readable ch = m # ms \<Longrightarrow> evolves b ch (ch\<lparr>readable := ms\<rparr>)"
  by (auto simp: evolves_def good_def clean_def)

lemma clean_read: "readable ch = m # ms \<Longrightarrow> fdelim m \<Longrightarrow> \<not> clean ch"
  by (auto simp: clean_def)

lemma read_link:
  assumes l: "link F s e f" and x: "pipes s e = Some x"
  shows "\<exists>r s'. pipe_read e s = Some (r, s') \<and> link F s' e f"
proof (cases "can_read x")
  case False
  then show ?thesis using l x by (simp add: pipe_read_def)
next
  case True
  obtain ch where ch: "upipes s (inpipe x) = Some ch" "both_active s e f \<longrightarrow> clean ch"
    using l x by (rule link_chan)
  show ?thesis
  proof (cases "readable ch")
    case Nil
    let ?s = "put_upipe (inpipe x) (ch\<lparr>asleep := True\<rparr>) s"
    have "link F ?s e f" using l x ch(1) evolves_read(1) by (rule link_put)
    then have "link F (put_pipe e (x\<lparr>in_active := False\<rparr>) ?s) e f"
      by (rule link_set[where x = x]) (use x in \<open>simp_all add: put_upipe_def same_role_def\<close>)
    then show ?thesis using True x ch Nil by (simp add: pipe_read_def chan_read_def)
  next
    case (Cons m ms)
    let ?s = "put_upipe (inpipe x) (ch\<lparr>readable := ms\<rparr>) s"
    have ls: "link F ?s e f" using l x ch(1) evolves_read(2)[OF Cons] by (rule link_put)
    have xs: "pipes ?s e = Some x" using x by (simp add: put_upipe_def)
    show ?thesis
    proof (cases "fdelim m")
      case fd: True
      have "\<not> both_active ?s e f" using ch(2) clean_read[OF Cons fd]
        by (auto simp: both_active_def st_def put_upipe_def)
      then obtain s' where "pipe_delimit e ?s = Some s'" "link F s' e f"
        using delimit_link[OF ls xs True] by blast
      then show ?thesis using True x ch Cons fd by (simp add: pipe_read_def chan_read_def)
    next
      case fd: False
      define y where "y = (if frame_more m then x else x\<lparr>msgs_read := msgs_read x + 1\<rparr>)"
      have ly: "link F (put_pipe e y ?s) e f" using ls xs by (rule link_set) (simp add: y_def same_role_def)
      have yy: "pipes (put_pipe e y ?s) e = Some y" "\<not> final (state y)"
        using can_readD[OF True] by (simp_all add: put_pipe_def y_def)
      obtain s' where s': "send_cmd (peer y) (Activate_write (msgs_read y)) (put_pipe e y ?s) = Some s'"
        "link F s' e f" using link_send[OF ly yy, of "Activate_write (msgs_read y)"]
        by (auto simp: handshake_def)
      have "pipe_read e s = do {
          s' \<leftarrow> (if lwm y > 0 \<and> msgs_read y mod word_of_int (lwm y) = 0
                then send_cmd (peer y) (Activate_write (msgs_read y)) (put_pipe e y ?s)
                else Some (put_pipe e y ?s)); Some (Some m, s') }"
        using True x ch Cons fd by (simp add: pipe_read_def chan_read_def Let_def flip: y_def)
      then show ?thesis using s' ly by (auto split: if_splits)
    qed
  qed
qed

lemma check_read_link:
  assumes l: "link F s e f" and x: "pipes s e = Some x"
  shows "\<exists>r s'. pipe_check_read e s = Some (r, s') \<and> link F s' e f"
proof (cases "can_read x")
  case False
  then show ?thesis using l x by (auto simp: pipe_check_read_def)
next
  case True
  obtain ch where ch: "upipes s (inpipe x) = Some ch" "both_active s e f \<longrightarrow> clean ch"
    using l x by (rule link_chan)
  show ?thesis
  proof (cases "readable ch")
    case Nil
    let ?s = "put_upipe (inpipe x) (ch\<lparr>asleep := True\<rparr>) s"
    have "link F ?s e f" using l x ch(1) evolves_read(1) by (rule link_put)
    then have "link F (put_pipe e (x\<lparr>in_active := False\<rparr>) ?s) e f"
      by (rule link_set[where x = x]) (use x in \<open>simp_all add: put_upipe_def same_role_def\<close>)
    then show ?thesis using True x ch Nil by (auto simp: pipe_check_read_def chan_check_read_def)
  next
    case (Cons m ms)
    let ?s = "put_upipe (inpipe x) (ch\<lparr>readable := ms\<rparr>) s"
    have ls: "link F ?s e f" using l x ch(1) evolves_read(2)[OF Cons] by (rule link_put)
    have xs: "pipes ?s e = Some x" using x by (simp add: put_upipe_def)
    show ?thesis
    proof (cases "fdelim m")
      case fd: True
      have "\<not> both_active ?s e f" using ch(2) clean_read[OF Cons fd]
        by (auto simp: both_active_def st_def put_upipe_def)
      then obtain s' where "pipe_delimit e ?s = Some s'" "link F s' e f"
        using delimit_link[OF ls xs True] by blast
      then show ?thesis using True x ch Cons fd
        by (auto simp: pipe_check_read_def chan_check_read_def chan_probe_def chan_read_def)
    next
      case fd: False
      have "link F (put_upipe (inpipe x) ch s) e f" using l x ch(1) evolves_refl by (rule link_put)
      then show ?thesis using True x ch Cons fd
        by (auto simp: pipe_check_read_def chan_check_read_def chan_probe_def)
    qed
  qed
qed

subsection \<open>Writing\<close>

lemma check_write_link:
  assumes l: "link F s e f" and x: "pipes s e = Some x"
  shows "\<exists>r s'. pipe_check_write e s = Some (r, s') \<and> link F s' e f \<and>
    (r \<longrightarrow> s' = s \<and> state x = Active)"
proof -
  have "link F (put_pipe e (x\<lparr>out_active := False\<rparr>) s) e f"
    using l x by (rule link_set) (simp add: same_role_def)
  then show ?thesis using l x by (auto simp: pipe_check_write_def)
qed

lemma evolves_write:
  "\<not> fdelim m \<or> \<not> b \<Longrightarrow> evolves b ch (chan_write m (frame_more m) ch)"
  "\<not> b \<Longrightarrow> evolves b ch (chan_write m False ch)" "evolves b ch (fst (chan_flush ch))"
  by (auto simp: evolves_def good_def clean_def chan_write_def chan_flush_def)

lemma write_link:
  assumes l: "link F s e f" and x: "pipes s e = Some x" and m: "\<not> fdelim m"
  shows "\<exists>r s'. pipe_write e m s = Some (r, s') \<and> link F s' e f"
proof -
  obtain r s1 where c: "pipe_check_write e s = Some (r, s1)" "link F s1 e f"
    "r \<longrightarrow> s1 = s \<and> state x = Active" using check_write_link[OF l x] by blast
  show ?thesis
  proof (cases r)
    case False
    then show ?thesis using c by (auto simp: pipe_write_def)
  next
    case True
    then obtain d where d: "outpipe x = Some d" "s1 = s"
      using c(3) link_sideD(3)[OF l x] by (auto simp: final_def)
    obtain ch where ch: "upipes s d = Some ch" using l x d(1) by (rule link_out_chan)
    let ?s = "put_upipe d (chan_write m (frame_more m) ch) s"
    have l1: "link F ?s e f" using l x ch by (rule link_put) (use m in \<open>simp add: evolves_write\<close>)
    then have "link F (put_pipe e (x\<lparr>msgs_written := msgs_written x + 1\<rparr>) ?s) e f"
      by (rule link_set[where x = x]) (use x in \<open>simp_all add: put_upipe_def same_role_def\<close>)
    then show ?thesis using l1 True c d ch x by (auto simp: pipe_write_def Let_def)
  qed
qed

lemma rollback_good: "good ch \<Longrightarrow> rollback_loop ch = Some (ch\<lparr>partial := []\<rparr>)"
proof (induction ch rule: rollback_loop.induct)
  case (1 ch)
  show ?case
  proof (cases "partial ch = []")
    case True
    then show ?thesis by (subst rollback_loop.simps) (simp add: chan_unwrite_def)
  next
    case False
    let ?ch = "ch\<lparr>partial := butlast (partial ch)\<rparr>"
    have u: "chan_unwrite ch = (?ch, Some (last (partial ch)))" using False by (simp add: chan_unwrite_def)
    have "frame_more (last (partial ch))" "good ?ch"
      using 1(2) False by (auto simp: good_def dest: in_set_butlastD)
    then show ?thesis using 1(1)[OF u[symmetric] refl] u by (subst rollback_loop.simps) simp
  qed
qed

lemma rollback_link:
  assumes l: "link F s e f" and x: "pipes s e = Some x"
  shows "\<exists>s'. pipe_rollback e s = Some s' \<and> link F s' e f \<and> pipes s' = pipes s"
proof (cases "outpipe x")
  case None
  then show ?thesis using l x by (simp add: pipe_rollback_def)
next
  case (Some c)
  obtain ch where ch: "upipes s c = Some ch" "good ch" using l x Some by (rule link_out_chan)
  have "link F (put_upipe c (ch\<lparr>partial := []\<rparr>) s) e f"
    using l x ch(1) by (rule link_put) (auto simp: evolves_def good_def clean_def)
  then show ?thesis using x Some ch rollback_good[OF ch(2)] by (simp add: pipe_rollback_def put_upipe_def)
qed

lemma flush_link:
  assumes l: "link F s e f" and x: "pipes s e = Some x"
  shows "\<exists>s'. pipe_flush e s = Some s' \<and> link F s' e f"
proof (cases "outpipe x")
  case None
  then show ?thesis using l x by (simp add: pipe_flush_def)
next
  case (Some c)
  obtain ch where ch: "upipes s c = Some ch" using l x Some by (rule link_out_chan)
  have nf: "\<not> final (state x)" using Some link_sideD(3)[OF l x] by auto
  let ?s = "put_upipe c (fst (chan_flush ch)) s"
  have l1: "link F ?s e f" using l x ch evolves_write(3) by (rule link_put)
  have x1: "pipes ?s e = Some x" using x by (simp add: put_upipe_def)
  obtain s' where "send_cmd (peer x) Activate_read ?s = Some s'" "link F s' e f"
    using link_send[OF l1 x1 nf, of Activate_read] by (auto simp: handshake_def)
  then show ?thesis using x Some ch nf l1
    by (cases "chan_flush ch") (auto simp: pipe_flush_def final_def Let_def)
qed

subsection \<open>Termination\<close>

lemma write_delimiter_link:
  assumes l: "link F s e f" and x: "pipes s e = Some x" and a: "state x \<noteq> Active"
  shows "\<exists>s'. write_delimiter e s = Some s' \<and> link F s' e f"
proof (cases "outpipe x")
  case None
  then show ?thesis using l x by (simp add: write_delimiter_def)
next
  case (Some c)
  obtain s1 where s1: "pipe_rollback e s = Some s1" "link F s1 e f" "pipes s1 = pipes s"
    using rollback_link[OF l x] by blast
  have x1: "pipes s1 e = Some x" using s1(3) x by simp
  obtain ch where ch: "upipes s1 c = Some ch" using s1(2) x1 Some by (rule link_out_chan)
  let ?s = "put_upipe c (chan_write frame_delimiter False ch) s1"
  have "link F ?s e f" using s1(2) x1 ch by (rule link_put) (use a in \<open>simp add: evolves_write\<close>)
  moreover have "pipes ?s e = Some x" using x1 by (simp add: put_upipe_def)
  ultimately show ?thesis using flush_link x Some s1(1) ch by (auto simp: write_delimiter_def)
qed

lemma terminate_link:
  assumes l: "link F s e f" and x: "pipes s e = Some x"
  shows "\<exists>s'. pipe_terminate dly e s = Some s' \<and> link F s' e f"
proof -
  note d = link_sideD[OF l x]
  consider (closed) "state x = Terminated \<or> state x = Double_terminated \<or> state x = Terminating"
    | (request) "state x = Active \<or> state x = Delimited"
    | (drop) "state x = Pending" "\<not> dly" | (wait) "state x = Pending" "dly"
    by (cases "state x") auto
  then show ?thesis
  proof cases
    case closed
    have "link F (put_pipe e (x\<lparr>delay := dly\<rparr>) s) e f" using l x by (rule link_set) (simp add: same_role_def)
    then show ?thesis using closed x by (auto simp: pipe_terminate_def)
  next
    case request
    then have nf: "\<not> final (state x)" by (auto simp: final_def)
    let ?y = "x\<lparr>delay := dly, state := Terminated, out_active := False\<rparr>"
    let ?s = "put_pipe e ?y (s\<lparr>cmds := (cmds s)(f := cmds s f @ [Pipe_term])\<rparr>)"
    have ph: "signals s f = []" "st s f = Some Active \<and> signals s e = [] \<or> st s f = Some Terminated \<and> signals s e = [Pipe_term]"
      using phases_unsent[OF d(5) request] by auto
    have "moved e f x ?y (cmds s e) [Pipe_term] s ?s"
      using x d(4) by (auto simp: moved_def put_pipe_def chans_evolve_def fun_eq_iff)
    with l x have "link F ?s e f"
    proof (rule link_local)
      show "phases (Some (state ?y)) (filter handshake (cmds s e)) (st s f) (signals s f @ filter handshake [Pipe_term])"
        using ph by (auto simp: phases_def half_phases_def handshake_def signals_def)
    qed (use d(3,7) nf link_peer(2,3)[OF l x nf] in \<open>simp_all add: final_def ordered_snoc\<close>)
    moreover have "pipes ?s e = Some ?y" by (simp add: put_pipe_def)
    ultimately obtain s' where "write_delimiter e ?s = Some s'" "link F s' e f"
      using write_delimiter_link by fastforce
    then show ?thesis using x request link_peer(1)[OF l x nf] by (auto simp: pipe_terminate_def)
  next
    case drop
    then have nf: "\<not> final (state x)" by (auto simp: final_def)
    let ?y = "x\<lparr>delay := dly, outpipe := None, state := Terminating, out_active := False\<rparr>"
    let ?s = "put_pipe e ?y (s\<lparr>cmds := (cmds s)(f := cmds s f @ [Pipe_term_ack])\<rparr>)"
    have ph: "signals s e = []" "signals s f = []" "st s f = Some Terminated"
      using phases_pending d(5) drop(1) by simp_all
    have hi: "hiccups (cmds s e) = []" using l x drop(1) by (auto simp: link_def side_def st_def)
    have "moved e f x ?y (cmds s e) [Pipe_term_ack] s ?s"
      using x d(4) by (auto simp: moved_def put_pipe_def chans_evolve_def fun_eq_iff)
    with l x have "link F ?s e f"
      by (rule link_local)
        (use hi d(7) link_peer(2,3)[OF l x nf] ph in
          \<open>simp_all add: final_def ordered_snoc phases_def half_phases_def handshake_def signals_def\<close>)
    moreover have "pipes ?s e = Some ?y" by (simp add: put_pipe_def)
    ultimately obtain s' where "write_delimiter e ?s = Some s'" "link F s' e f"
      using write_delimiter_link by fastforce
    then show ?thesis using x drop link_peer(1)[OF l x nf] by (auto simp: pipe_terminate_def)
  next
    case wait
    let ?y = "x\<lparr>delay := dly, out_active := False\<rparr>"
    let ?s = "put_pipe e ?y s"
    have "link F ?s e f" using l x by (rule link_set) (simp add: same_role_def)
    moreover have "pipes ?s e = Some ?y" by (simp add: put_pipe_def)
    ultimately obtain s' where "write_delimiter e ?s = Some s'" "link F s' e f"
      using write_delimiter_link wait(1) by fastforce
    then show ?thesis using x wait by (auto simp: pipe_terminate_def)
  qed
qed

subsection \<open>Commands\<close>

lemma phases_term:
  assumes "phases (Some a) (Pipe_term # ha) b hb"
  shows "(a = Active \<or> a = Delimited) \<and> ha = [] \<and> b = Some Terminated \<and> hb = [] \<or>
    a = Terminated \<and> b = Some Terminated \<and> ha = [] \<and> hb = [Pipe_term] \<or>
    a = Terminated \<and> b = Some Double_terminated \<and> ha = [Pipe_term_ack] \<and> hb = []"
  using assms by (auto simp: phases_def half_phases_def)

lemma phases_ack:
  assumes "phases (Some a) (Pipe_term_ack # ha) b hb"
  shows "a = Terminated \<and> b = Some Terminating \<and> ha = [] \<and> hb = [] \<or>
    a = Terminating \<and> b = None \<and> ha = [] \<and> hb = [] \<or>
    a = Double_terminated \<and> ha = [] \<and> (b = Some Double_terminated \<and> hb = [Pipe_term_ack] \<or> b = None \<and> hb = [])"
  using assms by (auto simp: phases_def half_phases_def)

lemma activate_read_link:
  assumes l: "link F s e f" and x: "pipes s e = Some x" and c: "cmds s e = Activate_read # cs"
  shows "\<exists>s'. process_activate_read e (s\<lparr>cmds := (cmds s)(e := cs)\<rparr>) = Some s' \<and> link F s' e f"
proof -
  note d = link_sideD[OF l x]
  let ?s = "s\<lparr>cmds := (cmds s)(e := cs)\<rparr>"
  obtain y s' where s': "process_activate_read e ?s = Some s'" "moved e f x y cs [] s s'"
    "state y = state x" "outpipe y = outpipe x"
  proof (cases "\<not> in_active x \<and> (state x = Active \<or> state x = Pending)")
    case True
    obtain k where k: "sink x = Some k" using d(2) by blast
    let ?y = "x\<lparr>in_active := True\<rparr>"
    let ?r = "(put_pipe e ?y ?s)\<lparr>events := events s @ [(k, Read_activated, e)]\<rparr>"
    have "process_activate_read e ?s = Some ?r"
      using True x k by (auto simp: process_activate_read_def notify_def put_pipe_def)
    moreover have "moved e f x ?y cs [] s ?r" using x d(4) by (auto simp: moved_def chans_evolve_def put_pipe_def)
    ultimately show ?thesis by (rule that) simp_all
  next
    case False
    then have "process_activate_read e ?s = Some ?s" using x by (auto simp: process_activate_read_def)
    moreover have "moved e f x x cs [] s ?s" using x d(4) by (auto simp: moved_def chans_evolve_def)
    ultimately show ?thesis using that by blast
  qed
  have "link F s' e f" using l x s'(2-4) by (rule link_quiet) (use c in \<open>simp_all add: handshake_def\<close>)
  then show ?thesis using s'(1) by blast
qed

lemma activate_write_link:
  assumes l: "link F s e f" and x: "pipes s e = Some x" and c: "cmds s e = Activate_write n # cs"
  shows "\<exists>s'. process_activate_write n e (s\<lparr>cmds := (cmds s)(e := cs)\<rparr>) = Some s' \<and> link F s' e f"
proof -
  note d = link_sideD[OF l x]
  let ?s = "s\<lparr>cmds := (cmds s)(e := cs)\<rparr>" and ?x = "x\<lparr>peers_msgs_read := n\<rparr>"
  obtain y s' where s': "process_activate_write n e ?s = Some s'" "moved e f x y cs [] s s'"
    "state y = state x" "outpipe y = outpipe x"
  proof (cases "\<not> out_active x \<and> state x = Active")
    case True
    obtain k where k: "sink x = Some k" using d(2) by blast
    let ?y = "?x\<lparr>out_active := True\<rparr>"
    let ?r = "(put_pipe e ?y ?s)\<lparr>events := events s @ [(k, Write_activated, e)]\<rparr>"
    have "process_activate_write n e ?s = Some ?r"
      using True x k by (simp add: process_activate_write_def notify_def put_pipe_def)
    moreover have "moved e f x ?y cs [] s ?r" using x d(4) by (auto simp: moved_def chans_evolve_def put_pipe_def)
    ultimately show ?thesis by (rule that) simp_all
  next
    case False
    then have "process_activate_write n e ?s = Some (put_pipe e ?x ?s)"
      using x by (auto simp: process_activate_write_def)
    moreover have "moved e f x ?x cs [] s (put_pipe e ?x ?s)"
      using x d(4) by (auto simp: moved_def chans_evolve_def put_pipe_def)
    ultimately show ?thesis by (rule that) simp_all
  qed
  have "link F s' e f" using l x s'(2-4) by (rule link_quiet) (use c in \<open>simp_all add: handshake_def\<close>)
  then show ?thesis using s'(1) by blast
qed

lemma term_link:
  assumes l: "link F s e f" and x: "pipes s e = Some x" and c: "cmds s e = Pipe_term # cs"
  shows "\<exists>s'. process_pipe_term e (s\<lparr>cmds := (cmds s)(e := cs)\<rparr>) = Some s' \<and> link F s' e f"
proof -
  note d = link_sideD[OF l x]
  let ?s = "s\<lparr>cmds := (cmds s)(e := cs)\<rparr>"
  have si: "signals s e = Pipe_term # filter handshake cs" using c by (simp add: signals_def handshake_def)
  note ph = phases_term[OF d(5)[unfolded si]]
  have nf: "\<not> final (state x)" using ph by (auto simp: final_def)
  have hi: "hiccups cs = []" using d(6) c by simp
  note pk = link_peer[OF l x nf]
  define z where "z = (if state x = Terminated then Double_terminated else Terminating)"
  let ?z = "put_pipe e (x\<lparr>state := z, outpipe := None\<rparr>) (?s\<lparr>cmds := (cmds ?s)(f := cmds ?s f @ [Pipe_term_ack])\<rparr>)"
  have "moved e f x (x\<lparr>state := z, outpipe := None\<rparr>) cs [Pipe_term_ack] s ?z"
    using x d(4) by (auto simp: moved_def put_pipe_def chans_evolve_def z_def fun_eq_iff)
  with l x have closed: "link F ?z e f"
  proof (rule link_local)
    show "phases (Some (state (x\<lparr>state := z, outpipe := None\<rparr>))) (filter handshake cs) (st s f)
        (signals s f @ filter handshake [Pipe_term_ack])"
      using ph by (auto simp: z_def phases_def half_phases_def handshake_def)
  qed (use d(7) hi pk(2,3) c in \<open>simp_all add: final_def ordered_snoc z_def\<close>)
  have snd: "send_cmd (peer x) Pipe_term_ack (put_pipe e (x\<lparr>state := z, outpipe := None\<rparr>) ?s) = Some ?z"
    using d(1,4) pk(3) by (auto simp: send_cmd_def put_pipe_def)
  show ?thesis
  proof (cases "state x = Active \<and> delay x")
    case True
    let ?y = "x\<lparr>state := Pending\<rparr>"
    have "moved e f x ?y cs [] s (put_pipe e ?y ?s)"
      using x d(4) by (auto simp: moved_def put_pipe_def chans_evolve_def)
    with l x have "link F (put_pipe e ?y ?s) e f"
    proof (rule link_local)
      show "phases (Some (state ?y)) (filter handshake cs) (st s f) (signals s f @ filter handshake [])"
        using ph True by (auto simp: phases_def half_phases_def)
    qed (use d(3,7) nf True hi c in \<open>simp_all add: final_def\<close>)
    then show ?thesis using x True by (simp add: process_pipe_term_def)
  next
    case False
    then show ?thesis using x ph snd closed by (auto simp: process_pipe_term_def z_def)
  qed
qed

lemma ack_effect:
  assumes l: "link F s e f" and x: "pipes s e = Some x" and c: "cmds s e = Pipe_term_ack # cs"
  obtains s' ks where "process_pipe_term_ack e (s\<lparr>cmds := (cmds s)(e := cs)\<rparr>) = Some s'" "cs = []"
    "pipes s' = (pipes s)(e := None)" "upipes s' = (upipes s)(inpipe x := None)"
    "cmds s' = (cmds s)(e := [], f := cmds s f @ ks)" "ks = (if state x = Terminated then [Pipe_term_ack] else [])"
    "phases None [] (st s f) (signals s f @ ks)" "map_option outpipe (pipes s f) \<in> {None, Some None}"
    "ks = [] \<or> pipes s f \<noteq> None \<and> signals s f = []"
    "\<exists>k. events s' = events s @ [(k, Pipe_terminated, e)]"
proof -
  note d = link_sideD[OF l x]
  have cs: "cs = []" using d(6) c by simp
  have si: "signals s e = [Pipe_term_ack]" using c cs by (simp add: signals_def handshake_def)
  note ph = phases_ack[OF d(5)[unfolded si]]
  let ?ks = "if state x = Terminated then [Pipe_term_ack] else []"
  have p: "phases None [] (st s f) (signals s f @ ?ks)" using ph by (auto simp: phases_def half_phases_def)
  have o: "map_option outpipe (pipes s f) \<in> {None, Some None}"
  proof (cases "pipes s f")
    case (Some z)
    have "link F s f e" using l link_sym by blast
    then have "outpipe z = None \<longleftrightarrow> final (state z)" using Some by (rule link_sideD)
    then show ?thesis using ph Some by (auto simp: st_def final_def)
  qed simp
  obtain k where k: "sink x = Some k" using d(2) by blast
  obtain ch where ch: "upipes s (inpipe x) = Some ch" using l x by (rule link_chan)
  let ?s = "s\<lparr>cmds := (cmds s)(e := cs)\<rparr>"
  show ?thesis
  proof (cases "state x = Terminated")
    case True
    then have f: "pipes s f \<noteq> None" "signals s f = []" using ph by (auto simp: st_def)
    define s1 where "s1 = put_pipe e (x\<lparr>outpipe := None\<rparr>) (?s\<lparr>events := events s @ [(k, Pipe_terminated, e)]\<rparr>)"
    have "send_cmd (peer x) Pipe_term_ack s1 = Some (s1\<lparr>cmds := (cmds s1)(f := cmds s1 f @ [Pipe_term_ack])\<rparr>)"
      using d(1) f by (intro send_cmd_ok) (auto simp: s1_def put_pipe_def)
    then have "\<exists>s'. process_pipe_term_ack e ?s = Some s' \<and> pipes s' = (pipes s)(e := None) \<and>
        upipes s' = (upipes s)(inpipe x := None) \<and> cmds s' = (cmds s)(e := [], f := cmds s f @ [Pipe_term_ack]) \<and>
        events s' = events s @ [(k, Pipe_terminated, e)]"
      using x k ch True cs d(4)
      by (simp add: process_pipe_term_ack_def notify_def delete_upipe_def put_upipe_def Let_def flip: s1_def)
        (auto simp: s1_def put_pipe_def fun_eq_iff)
    then show ?thesis using p o f True cs by (elim exE conjE) (rule that, auto)
  next
    case False
    then have "state x = Terminating \<or> state x = Double_terminated" using ph by auto
    then have "\<exists>s'. process_pipe_term_ack e ?s = Some s' \<and> pipes s' = (pipes s)(e := None) \<and>
        upipes s' = (upipes s)(inpipe x := None) \<and> cmds s' = (cmds s)(e := [], f := cmds s f @ []) \<and>
        events s' = events s @ [(k, Pipe_terminated, e)]"
      using x k ch False cs d(4)
      by (auto simp: process_pipe_term_ack_def notify_def delete_upipe_def put_upipe_def)
    then show ?thesis using p o False cs by (elim exE conjE) (rule that, auto)
  qed
qed

lemma ack_link:
  assumes l: "link F s e f" and x: "pipes s e = Some x" and c: "cmds s e = Pipe_term_ack # cs"
  shows "\<exists>s'. process_pipe_term_ack e (s\<lparr>cmds := (cmds s)(e := cs)\<rparr>) = Some s' \<and> link F s' e f"
proof -
  note d = link_sideD[OF l x]
  obtain s' ks where r: "process_pipe_term_ack e (s\<lparr>cmds := (cmds s)(e := cs)\<rparr>) = Some s'" "cs = []"
    "pipes s' = (pipes s)(e := None)" "upipes s' = (upipes s)(inpipe x := None)"
    "cmds s' = (cmds s)(e := [], f := cmds s f @ ks)" "ks = (if state x = Terminated then [Pipe_term_ack] else [])"
    "phases None [] (st s f) (signals s f @ ks)" "map_option outpipe (pipes s f) \<in> {None, Some None}"
    "ks = [] \<or> pipes s f \<noteq> None \<and> signals s f = []"
    using l x c by (rule ack_effect)
  have st': "st s' e = None" "st s' f = st s f" "signals s' e = []" "signals s' f = signals s f @ ks"
    using r(3,5,6) d(4) by (auto simp: st_def signals_def handshake_def)
  have t1: "track s f e = [inpipe x]" "track s' f e = []"
    using r(3,8) x d(4) by (auto simp: track_def split: option.splits)
  have t2: "track s' e f = track s e f"
  proof (cases "outpipe x")
    case None
    then show ?thesis using x r(3) d(4) by (simp add: track_def)
  next
    case (Some b)
    then have "\<not> final (state x)" using d(3) by auto
    then obtain z where z: "pipes s f = Some z" using link_peer(3)[OF l x] by blast
    have "link F s f e" using l link_sym by blast
    then have "last (track s e f) = inpipe z" using z by (rule link_sideD)
    moreover have "track s e f = [b]" using x Some c r(2) by (simp add: track_def)
    ultimately show ?thesis using z r(3) d(4) by (simp add: track_def)
  qed
  have "Pipe_term_ack \<notin> set (cmds s f)" if "ks \<noteq> []"
    using that r(9) signals_mem[of Pipe_term_ack s f] by (simp add: handshake_def)
  then have "ordered (cmds s f @ ks)" using d(7) r(6) by (auto simp: ordered_snoc split: if_splits)
  moreover have "side s f e" using l by (simp add: link_def)
  ultimately have s2: "side s' f e" using r(3,5,6,9) st' t2 d(4)
    by (auto simp: side_def split: if_splits)
  have s1: "side s' e f" using r(3,5) d(4) by (simp add: side_def)
  have "inpipe x \<notin> set (track s e f)" using l t1(1) by (simp add: link_def)
  then have "link F s' e f" using l st' t1 t2 s1 s2 r(4,7) by (auto simp: link_def both_active_def)
  then show ?thesis using r(1) by blast
qed

lemma process_hiccup_link:
  assumes l: "link F s e f" and x: "pipes s e = Some x" and c: "cmds s e = Hiccup n # cs"
  shows "\<exists>s'. process_hiccup n e (s\<lparr>cmds := (cmds s)(e := cs)\<rparr>) = Some s' \<and> link F s' e f"
proof -
  note d = link_sideD[OF l x]
  have sx: "state x \<in> {Active, Delimited, Terminated}" using l x c by (auto simp: link_def side_def st_def)
  then obtain b where b: "outpipe x = Some b" using d(3) by (auto simp: final_def)
  obtain ch where ch: "upipes s b = Some ch" "b \<noteq> inpipe x" using l x b by (rule link_out_chan)
  obtain k where k: "sink x = Some k" using d(2) by blast
  let ?s = "s\<lparr>cmds := (cmds s)(e := cs)\<rparr>" and ?y = "x\<lparr>outpipe := Some n, out_active := True\<rparr>"
  have "\<exists>s'. process_hiccup n e ?s = Some s' \<and> pipes s' = (pipes s)(e \<mapsto> ?y) \<and>
      upipes s' = (upipes s)(b := None) \<and> cmds s' = (cmds s)(e := cs)"
    using x b ch k
    by (simp add: process_hiccup_def delete_upipe_def put_upipe_def put_pipe_def notify_def Let_def)
  then obtain s' where s': "process_hiccup n e ?s = Some s'" "pipes s' = (pipes s)(e \<mapsto> ?y)"
      "upipes s' = (upipes s)(b := None)" "cmds s' = (cmds s)(e := cs)" by blast
  have st': "st s' e = st s e" "st s' f = st s f" "signals s' e = signals s e" "signals s' f = signals s f"
    using s'(2,4) x c d(4) by (auto simp: st_def signals_def handshake_def)
  have t: "track s e f = b # track s' e f" "track s' f e = track s f e"
    using s'(2,4) x b c d(4) by (auto simp: track_def split: option.splits)
  have nb: "b \<notin> set (track s' e f)" "b \<notin> set (track s f e)" using l t(1) by (auto simp: link_def)
  have "track s' e f \<noteq> []" using s'(2) by (simp add: track_def)
  then have "last (track s e f) = last (track s' e f)" using t(1) by simp
  then have s2: "side s' f e" using l s'(2,4) st' d(4) by (auto simp: link_def side_def)
  have "ordered cs" using d(6) c by simp
  moreover have "st s e \<in> {Some Active, Some Delimited, Some Terminated}" using sx x by (auto simp: st_def)
  ultimately have s1: "side s' e f" using s'(2,4) st'(1) t(2) d(1,2,8) sx by (auto simp: side_def final_def)
  have "dom (upipes s') \<subseteq> F \<union> set (track s' e f) \<union> set (track s' f e)"
    using l t s'(3) unfolding link_def by auto
  moreover have "\<exists>ch. upipes s' c = Some ch \<and> good ch \<and> (both_active s' e f \<longrightarrow> clean ch)"
    if "c \<in> set (track s' e f) \<union> set (track s' f e)" for c
  proof -
    have "c \<noteq> b" "c \<in> set (track s e f) \<union> set (track s f e)" using that t nb by auto
    then show ?thesis using l s'(3) st' unfolding link_def both_active_def by simp
  qed
  ultimately have "link F s' e f" using l st' t s1 s2 unfolding link_def by simp
  then show ?thesis using s'(1) by blast
qed

lemma hiccup_link:
  assumes l: "link F s e f" and x: "pipes s e = Some x" and n: "upipes s new = None"
  shows "\<exists>s'. pipe_hiccup new e s = Some s' \<and> link F s' e f"
proof (cases "state x = Active")
  case False
  then show ?thesis using l x by (simp add: pipe_hiccup_def)
next
  case True
  note d = link_sideD[OF l x]
  have nf: "\<not> final (state x)" using True by (simp add: final_def)
  have ph: "signals s f = []" "st s f = Some Active \<or> st s f = Some Terminated"
    using phases_unsent[OF d(5)] True by auto
  obtain z where z: "pipes s f = Some z" "state z = Active \<or> state z = Terminated"
    using ph(2) by (auto simp: st_def)
  have lf: "link F s f e" using l link_sym by blast
  obtain b where b: "outpipe z = Some b" using link_sideD(3)[OF lf z(1)] z(2) by (auto simp: final_def)
  let ?y = "x\<lparr>inpipe := new, in_active := True\<rparr>"
  let ?s = "put_pipe e ?y (put_upipe new chan_empty s)"
  let ?r = "?s\<lparr>cmds := (cmds s)(f := cmds s f @ [Hiccup new])\<rparr>"
  have run: "pipe_hiccup new e s = Some ?r"
    using x True n d(1,4) z(1) by (simp add: pipe_hiccup_def new_upipe_def send_cmd_def put_pipe_def put_upipe_def)
  have pr: "pipes ?r = (pipes s)(e \<mapsto> ?y)" "upipes ?r = (upipes s)(new \<mapsto> chan_empty)"
    "cmds ?r = (cmds s)(f := cmds s f @ [Hiccup new])" by (simp_all add: put_pipe_def put_upipe_def)
  have st': "st ?r e = st s e" "st ?r f = st s f" "signals ?r e = signals s e" "signals ?r f = signals s f"
    using pr x d(4) by (auto simp: st_def signals_def handshake_def)
  have t: "track ?r f e = track s f e @ [new]" "track ?r e f = track s e f"
    using pr x z b d(3,4) nf by (auto simp: track_def split: option.splits)
  have "upipes s c \<noteq> None" if "c \<in> set (track s e f) \<union> set (track s f e)" for c
    using l that unfolding link_def by (metis option.distinct(1))
  then have nn: "new \<notin> set (track s e f)" "new \<notin> set (track s f e)" using n by blast+
  have hs: "Pipe_term \<notin> set (cmds s f)" "Pipe_term_ack \<notin> set (cmds s f)"
    using ph(1) signals_mem[of _ s f] by (auto simp: handshake_def)
  have s1: "side ?r e f" using l x pr st' t(1) d by (auto simp: link_def side_def)
  have s2: "side ?r f e" using lf pr st' t(2) d(4,7) ph(2) z(1) hs by (auto simp: link_def side_def ordered_snoc)
  have ch: "\<exists>ch. upipes ?r c = Some ch \<and> good ch \<and> (both_active ?r e f \<longrightarrow> clean ch)"
    if "c \<in> set (track ?r e f) \<union> set (track ?r f e)" for c
  proof (cases "c = new")
    case True
    then show ?thesis using pr(2) by (simp add: good_def clean_def chan_empty_def)
  next
    case False
    then have "c \<in> set (track s e f) \<union> set (track s f e)" using that t by auto
    then show ?thesis using l False pr(2) st' unfolding link_def both_active_def by simp
  qed
  have "dom (upipes ?r) \<subseteq> F \<union> set (track ?r e f) \<union> set (track ?r f e)"
    using l pr(2) t unfolding link_def by auto
  then have "link F ?r e f" using l st' s1 s2 ch t nn unfolding link_def by simp
  then show ?thesis using run by blast
qed

section \<open>All runs\<close>

lemma deliver_link:
  assumes l: "link F s e f" and c: "cmds s e = c # cs"
  shows "\<exists>s'. deliver e s = Some s' \<and> link F s' e f"
proof -
  obtain x where x: "pipes s e = Some x" using l c by (auto simp: link_def side_def)
  show ?thesis
    using activate_read_link[OF l x] activate_write_link[OF l x] process_hiccup_link[OF l x]
      term_link[OF l x] ack_link[OF l x] c
    by (cases c) (simp_all add: deliver_def process_cmd_def)
qed

lemma run_op_link:
  assumes l: "link F s e f" and en: "enabled op e s"
  shows "\<exists>s'. run_op op e s = Some s' \<and> link F s' e f"
proof (cases "op = Deliver")
  case True
  then obtain c cs where "cmds s e = c # cs" using en by (cases "cmds s e") auto
  then show ?thesis using deliver_link[OF l] True by simp
next
  case False
  then obtain x where x: "pipes s e = Some x" using en by (cases op) auto
  show ?thesis
    using read_link[OF l x] check_read_link[OF l x] check_write_link[OF l x] write_link[OF l x]
      flush_link[OF l x] rollback_link[OF l x] terminate_link[OF l x] hiccup_link[OF l x] False en
    by (cases op) (auto, fastforce+)
qed

lemma connected_link:
  assumes "connected p q s0 s"
  shows "link (dom (upipes s0)) s p q"
proof -
  obtain c1 c2 h d k1 k2 s1 s2 where a: "pipes s0 p = None" "pipes s0 q = None" "p \<noteq> q"
    "upipes s0 c1 = None" "upipes s0 c2 = None" "c1 \<noteq> c2" and cm: "cmds s0 p = []" "cmds s0 q = []"
    and r: "pipepair p q c1 c2 h d s0 = Some s1" "pipe_set_event_sink k1 p s1 = Some s2"
      "pipe_set_event_sink k2 q s2 = Some s"
    using assms unfolding connected_def by blast
  obtain s' where "pipepair p q c1 c2 h d s0 = Some s'" and
    s': "pipes s' = (pipes s0)(p \<mapsto> end0 q c1 c2 h d, q \<mapsto> end1 p c1 c2 h d)"
    "upipes s' = (upipes s0)(c1 \<mapsto> chan_empty, c2 \<mapsto> chan_empty)" "cmds s' = cmds s0"
    using a by (rule pipepair_eq)
  then have e: "s' = s1" using r(1) by simp
  have w: "pipes s p = Some ((end0 q c1 c2 h d)\<lparr>sink := Some k1\<rparr>)"
    "pipes s q = Some ((end1 p c1 c2 h d)\<lparr>sink := Some k2\<rparr>)"
    "upipes s = (upipes s0)(c1 \<mapsto> chan_empty, c2 \<mapsto> chan_empty)" "cmds s p = []" "cmds s q = []"
    using r(2,3) s'[unfolded e] a(3) cm
    by (auto simp: pipe_set_event_sink_def put_pipe_def end0_def end1_def pipe_init_def split: if_splits)
  have st': "st s p = Some Active" "st s q = Some Active" "signals s p = []" "signals s q = []"
    using w by (simp_all add: st_def signals_def end0_def end1_def pipe_init_def)
  have t: "track s p q = [c2]" "track s q p = [c1]"
    using w by (simp_all add: track_def end0_def end1_def pipe_init_def)
  have "side s p q" "side s q p"
    using w t by (simp_all add: side_def end0_def end1_def pipe_init_def final_def)
  moreover have "phases (Some Active) [] (Some Active) []" by (simp add: phases_def half_phases_def)
  ultimately show ?thesis using a(3,6) st' t w(3)
    by (auto simp: link_def good_def clean_def chan_empty_def)
qed

lemma link_run_link: "link_run p q s0 s \<Longrightarrow> link (dom (upipes s0)) s p q"
proof (induction rule: link_run.induct)
  case (start s)
  then show ?case by (rule connected_link)
next
  case (step s e op s')
  then have l: "link (dom (upipes s0)) s e (if e = p then q else p)"
    using link_sym[of "dom (upipes s0)" s p q] by (auto split: if_splits)
  obtain s'' where "run_op op e s = Some s''" "link (dom (upipes s0)) s'' e (if e = p then q else p)"
    using run_op_link[OF l step(3)] by blast
  then show ?case using step(2,4) link_sym[of "dom (upipes s0)" s' p q] by (auto split: if_splits)
qed

section \<open>Deliveries\<close>

text \<open>Sequences of deliveries of commands, with their number.\<close>

inductive deliveries :: "nat \<Rightarrow> nat \<Rightarrow> world \<Rightarrow> nat \<Rightarrow> world \<Rightarrow> bool" for p q where
  none: "deliveries p q s 0 s"
| more: "deliveries p q s n s' \<Longrightarrow> e = p \<or> e = q \<Longrightarrow> deliver e s' = Some s'' \<Longrightarrow> deliveries p q s (Suc n) s''"

definition closing :: "pstate option \<Rightarrow> bool" where
  "closing a \<longleftrightarrow> a \<in> {None, Some Terminated, Some Terminating, Some Double_terminated}"

lemma deliver_effect:
  assumes d: "deliver e s = Some s'" and c: "cmds s e = c # cs" and x: "pipes s e = Some x"
    and p: "peer x = Some f" "e \<noteq> f"
  shows "\<exists>ks. cmds s' = (cmds s)(e := cs, f := cmds s f @ ks) \<and>
    (ks = [] \<or> ks = [Pipe_term_ack] \<and> pipes s f \<noteq> None) \<and> pipes s' f = pipes s f \<and>
    (pipes s' e = None \<longleftrightarrow> c = Pipe_term_ack) \<and> (closing (st s e) \<longrightarrow> closing (st s' e))"
proof -
  have r: "process_cmd c e (s\<lparr>cmds := (cmds s)(e := cs)\<rparr>) = Some s'" using d c by (simp add: deliver_def)
  have up: "(cmds s)(e := cs, f := cmds s f @ []) = (cmds s)(e := cs)" using p(2) by (auto simp: fun_eq_iff)
  show ?thesis
  proof (cases c)
    case Activate_read
    then show ?thesis using r x p up
      by (intro exI[of _ "[]"]) (auto simp: process_cmd_def process_activate_read_def notify_def put_pipe_def
          closing_def st_def split: if_splits option.splits bind_splits)
  next
    case (Activate_write n)
    then show ?thesis using r x p up
      by (intro exI[of _ "[]"]) (auto simp: process_cmd_def process_activate_write_def notify_def put_pipe_def
          closing_def st_def Let_def split: if_splits option.splits bind_splits)
  next
    case (Hiccup n)
    then show ?thesis using r x p up
      by (intro exI[of _ "[]"]) (auto simp: process_cmd_def process_hiccup_def delete_upipe_def put_upipe_def
          notify_def put_pipe_def closing_def st_def Let_def split: if_splits option.splits bind_splits)
  next
    case Pipe_term
    show ?thesis
    proof (cases "state x = Active \<and> delay x")
      case True
      then show ?thesis using r x p up Pipe_term
        by (intro exI[of _ "[]"]) (auto simp: process_cmd_def process_pipe_term_def put_pipe_def closing_def st_def)
    next
      case False
      then show ?thesis using r x p Pipe_term
        by (intro exI[of _ "[Pipe_term_ack]"], cases "state x")
          (auto simp: process_cmd_def process_pipe_term_def send_cmd_def put_pipe_def
            closing_def st_def split: if_splits bind_splits)
    qed
  next
    case Pipe_term_ack
    show ?thesis
    proof (cases "state x = Terminated")
      case True
      then show ?thesis using r x p Pipe_term_ack
        by (intro exI[of _ "[Pipe_term_ack]"])
          (auto simp: process_cmd_def process_pipe_term_ack_def send_cmd_def put_pipe_def notify_def
            delete_upipe_def put_upipe_def closing_def st_def Let_def split: if_splits bind_splits)
    next
      case False
      then show ?thesis using r x p up Pipe_term_ack
        by (intro exI[of _ "[]"])
          (auto simp: process_cmd_def process_pipe_term_ack_def put_pipe_def notify_def
            delete_upipe_def put_upipe_def closing_def st_def Let_def split: if_splits bind_splits)
    qed
  qed
qed

text \<open>
  The commands in flight and the acknowledgements still to be sent. Every delivery lowers this number by
  one.
\<close>

definition owed :: "world \<Rightarrow> nat \<Rightarrow> nat" where
  "owed s e = (if pipes s e \<noteq> None \<and> Pipe_term_ack \<notin> set (cmds s e) then 1 else 0)"

definition potential :: "world \<Rightarrow> nat \<Rightarrow> nat \<Rightarrow> nat" where
  "potential s p q = length (cmds s p) + owed s p + (length (cmds s q) + owed s q)"

lemma deliver_potential:
  assumes l: "link F s e f" and d: "deliver e s = Some s'"
  shows "Suc (potential s' e f) = potential s e f \<and> link F s' e f \<and>
    (closing (st s e) \<and> closing (st s f) \<longrightarrow> closing (st s' e) \<and> closing (st s' f))"
proof -
  obtain c cs where c: "cmds s e = c # cs" using d by (cases "cmds s e") (auto simp: deliver_def)
  obtain x where x: "pipes s e = Some x" using l c by (auto simp: link_def side_def)
  note sd = link_sideD[OF l x]
  obtain ks where e: "cmds s' = (cmds s)(e := cs, f := cmds s f @ ks)"
    "ks = [] \<or> ks = [Pipe_term_ack] \<and> pipes s f \<noteq> None" "pipes s' f = pipes s f"
    "pipes s' e = None \<longleftrightarrow> c = Pipe_term_ack" "closing (st s e) \<longrightarrow> closing (st s' e)"
    using deliver_effect[OF d c x sd(1,4)] by (elim exE conjE) (rule that)
  have l': "link F s' e f" using deliver_link[OF l c] d by auto
  then have "ordered (cmds s f @ ks)" using e(1) by (simp add: link_def side_def)
  then have ow: "owed s' f + length ks = owed s f" using e(1-3) by (auto simp: owed_def ordered_snoc)
  have "cmds s' e = cs" using e(1) sd(4) by simp
  then have "owed s' e = owed s e"
    using e(4) c x sd(6) unfolding owed_def by (cases "c = Pipe_term_ack") auto
  then have "Suc (potential s' e f) = potential s e f"
    using ow e(1) sd(4) c unfolding potential_def by simp
  then show ?thesis using l' e(3,5) by (simp add: st_def)
qed

lemma deliveries_link:
  assumes "deliveries p q s n s'" "link F s p q"
  shows "n + potential s' p q = potential s p q \<and> link F s' p q \<and>
    (closing (st s p) \<and> closing (st s q) \<longrightarrow> closing (st s' p) \<and> closing (st s' q))"
  using assms
proof (induction rule: deliveries.induct)
  case (more s n s' e s'')
  then have ih: "n + potential s' p q = potential s p q" "link F s' p q"
    "closing (st s p) \<and> closing (st s q) \<longrightarrow> closing (st s' p) \<and> closing (st s' q)" by blast+
  have ps: "potential s q p = potential s p q" for s by (simp add: potential_def)
  from more(2) show ?case
  proof
    assume "e = p"
    then show ?thesis using deliver_potential[OF ih(2), of s''] more(3) ih by auto
  next
    assume q: "e = q"
    have "link F s' q p" using ih(2) link_sym by blast
    from deliver_potential[OF this, of s''] show ?thesis
      using more(3) q ih ps link_sym[of F s'' p q] by auto
  qed
qed simp

lemma deliveries_exist:
  assumes "link F s p q"
  shows "\<exists>n s'. deliveries p q s n s' \<and> cmds s' p = [] \<and> cmds s' q = []"
proof -
  have "\<exists>m s''. deliveries p q s m s'' \<and> cmds s'' p = [] \<and> cmds s'' q = []"
    if "deliveries p q s n s'" for n s'
    using that
  proof (induction "potential s' p q" arbitrary: n s' rule: less_induct)
    case less
    note d = deliveries_link[OF less(2) assms]
    then have ls: "link F s' p q" "link F s' q p" using link_sym by blast+
    show ?case
    proof (cases "cmds s' p = [] \<and> cmds s' q = []")
      case False
      then obtain e c cs where e: "e = p \<or> e = q" "cmds s' e = c # cs" by (metis list.exhaust)
      then obtain s'' where s'': "deliver e s' = Some s''" using ls deliver_link by metis
      then have n: "deliveries p q s (Suc n) s''" using less(2) e(1) deliveries.more by blast
      then have "potential s'' p q < potential s' p q" using deliveries_link[OF n assms] d by linarith
      then show ?thesis using less(1) n by blast
    qed (use less(2) in blast)
  qed
  then show ?thesis using deliveries.none by blast
qed

section \<open>Properties\<close>

text \<open>
  C29: whatever the two ends of a pipe do and in whichever order the commands between them are delivered,
  no operation fails.
\<close>

theorem handshake_safe:
  assumes "link_run p q s0 s" "e = p \<or> e = q" "enabled op e s"
  shows "\<exists>s'. run_op op e s = Some s'"
proof -
  have l: "link (dom (upipes s0)) s p q" using assms(1) by (rule link_run_link)
  from assms(2) show ?thesis
  proof
    assume "e = p"
    then show ?thesis using run_op_link[OF l] assms(3) by blast
  next
    assume "e = q"
    moreover have "link (dom (upipes s0)) s q p" using l link_sym by blast
    ultimately show ?thesis using run_op_link assms(3) by blast
  qed
qed


definition linked :: "bool \<times> bool \<Rightarrow> world option" where
  "linked d = do {
     s \<leftarrow> pipepair 0 1 2 3 (1000, 1000) d empty_world;
     s \<leftarrow> pipe_set_event_sink 10 0 s;
     pipe_set_event_sink 11 1 s }"

lemma linked_run:
  assumes "linked d = Some s"
  shows "link_run 0 1 empty_world s"
proof (rule link_run.start)
  obtain s1 s2 where "pipepair 0 1 2 3 (1000, 1000) d empty_world = Some s1"
    "pipe_set_event_sink 10 0 s1 = Some s2" "pipe_set_event_sink 11 1 s2 = Some s"
    using assms by (auto simp: linked_def split: bind_splits)
  then show "connected 0 1 empty_world s"
    unfolding connected_def
    by (intro exI[of _ 2] exI[of _ 3] exI[of _ "(1000, 1000)"] exI[of _ d] exI[of _ 10] exI[of _ 11]
        exI[of _ s1] exI[of _ s2]) (simp add: empty_world_def)
qed

lemma linked_some: "\<exists>s. linked d = Some s"
  by (simp add: linked_def pipepair_def new_upipe_def new_pipe_def pipe_set_peer_def pipe_set_event_sink_def
      put_pipe_def put_upipe_def empty_world_def pipe_init_def)

theorem handshake_safe_witness:
  "\<exists>s s'. linked (True, True) = Some s \<and> run_op (Op_terminate True) 0 s = Some s'"
proof -
  obtain s where s: "linked (True, True) = Some s" using linked_some by blast
  have "pipes s 0 \<noteq> None"
    using link_run_link[OF linked_run[OF s]] s
    by (auto simp: linked_def pipepair_def new_upipe_def new_pipe_def pipe_set_peer_def pipe_set_event_sink_def
        put_pipe_def put_upipe_def empty_world_def pipe_init_def)
  then show ?thesis using handshake_safe[OF linked_run[OF s], of 0 "Op_terminate True"] s by auto
qed

text \<open>
  C30: once both ends are asked to terminate without waiting for messages, the deliveries of the commands
  in flight come to an end after a bounded number of steps, whatever their order; then both pipe objects
  and all channels of the pipe are deallocated.
\<close>

theorem handshake_completes:
  assumes "link_run p q s0 s" "closing (st s p)" "closing (st s q)"
  shows "(\<exists>n s'. deliveries p q s n s' \<and> cmds s' p = [] \<and> cmds s' q = []) \<and>
    (\<forall>n s'. deliveries p q s n s' \<longrightarrow> n \<le> length (cmds s p) + length (cmds s q) + 2 \<and>
       (cmds s' p = [] \<and> cmds s' q = [] \<longrightarrow>
        pipes s' p = None \<and> pipes s' q = None \<and> dom (upipes s') \<subseteq> dom (upipes s0)))"
proof -
  have l: "link (dom (upipes s0)) s p q" using assms(1) by (rule link_run_link)
  have "\<exists>n s'. deliveries p q s n s' \<and> cmds s' p = [] \<and> cmds s' q = []" using l by (rule deliveries_exist)
  moreover have "n \<le> length (cmds s p) + length (cmds s q) + 2" if "deliveries p q s n s'" for n s'
  proof -
    have "n \<le> potential s p q" using deliveries_link[OF that l] by linarith
    also have "\<dots> \<le> length (cmds s p) + length (cmds s q) + 2" by (simp add: potential_def owed_def)
    finally show ?thesis .
  qed
  moreover have "pipes s' p = None \<and> pipes s' q = None \<and> dom (upipes s') \<subseteq> dom (upipes s0)"
    if d: "deliveries p q s n s'" "cmds s' p = [] \<and> cmds s' q = []" for n s'
  proof -
    have l': "link (dom (upipes s0)) s' p q" "closing (st s' p)" "closing (st s' q)"
      using deliveries_link[OF d(1) l] assms(2,3) by blast+
    have "signals s' p = []" "signals s' q = []" using d by (simp_all add: signals_def)
    then have "st s' p = None" "st s' q = None"
      using l' by (auto simp: link_def phases_def half_phases_def closing_def)
    then have n: "pipes s' p = None" "pipes s' q = None" by (simp_all add: st_def)
    then have "track s' p q = []" "track s' q p = []" by (simp_all add: track_def)
    then show ?thesis using n l'(1) by (simp add: link_def)
  qed
  ultimately show ?thesis by blast
qed

lemmas link_eval = linked_def pipepair_def new_upipe_def new_pipe_def pipe_set_peer_def
  pipe_set_event_sink_def put_pipe_def put_upipe_def empty_world_def pipe_init_def pipe_terminate_def
  write_delimiter_def pipe_rollback_def rollback_loop.simps chan_unwrite_def chan_empty_def chan_write_def
  pipe_flush_def chan_flush_def send_cmd_def

theorem handshake_completes_witness:
  "\<exists>s t u n s'. linked (True, True) = Some s \<and> run_op (Op_terminate False) 0 s = Some t \<and>
     run_op (Op_terminate False) 1 t = Some u \<and> deliveries 0 1 u n s' \<and> pipes s' 0 = None \<and>
     pipes s' 1 = None \<and> upipes s' = Map.empty"
proof -
  obtain s t u where r: "linked (True, True) = Some s" "run_op (Op_terminate False) 0 s = Some t"
      "run_op (Op_terminate False) 1 t = Some u"
    and c: "closing (st u 0)" "closing (st u 1)" and en: "pipes s 0 \<noteq> None" "pipes t 1 \<noteq> None"
    by (simp add: link_eval st_def closing_def)
  have "link_run 0 1 empty_world t" using linked_run[OF r(1)] _ _ r(2) by (rule link_run.step) (use en in simp_all)
  then have "link_run 0 1 empty_world u" using _ _ r(3) by (rule link_run.step) (use en in simp_all)
  from handshake_completes[OF this c] obtain n s' where "deliveries 0 1 u n s'"
    "pipes s' 0 = None" "pipes s' 1 = None" "dom (upipes s') \<subseteq> dom (upipes empty_world)" by blast
  then show ?thesis using r by (intro exI[of _ s] exI[of _ t] exI[of _ u] exI[of _ n] exI[of _ s'])
      (simp add: empty_world_def)
qed

text \<open>
  When no request and no acknowledgement is on its way, both ends are open, both are gone, or one end
  waits for the other, which has yet to read the messages up to the delimiter.
\<close>

lemma handshake_quiescent:
  assumes "link_run p q s0 s" "signals s p = []" "signals s q = []"
  shows "(st s p, st s q) \<in> {(Some Active, Some Active), (None, None),
    (Some Terminated, Some Pending), (Some Pending, Some Terminated)}"
  using link_run_link[OF assms(1)] assms(2,3) by (auto simp: link_def phases_def half_phases_def)

text \<open>
  A hiccup that crosses the request to terminate discards the delimiter: the end that replaced its
  inbound channel waits for a delimiter that is not on its way, and no command is left to be delivered.
  Only a further call of \<open>terminate\<close> without delay ends this.
\<close>

lemma hiccup_discards_delimiter:
  "\<exists>s. link_run 0 1 empty_world s \<and> cmds s 0 = [] \<and> cmds s 1 = [] \<and> st s 0 = Some Terminated \<and>
     st s 1 = Some Pending \<and> out_chan s 0 = chan_empty \<and> map_option inpipe (pipes s 1) = Some 4 \<and>
     upipes s 4 = Some chan_empty"
proof -
  obtain s t u v w where r: "linked (True, True) = Some s" "run_op (Op_terminate True) 0 s = Some t"
      "run_op (Op_hiccup 4) 1 t = Some u" "run_op Deliver 0 u = Some v" "run_op Deliver 1 v = Some w"
    and en: "pipes s 0 \<noteq> None" "pipes t 1 \<noteq> None" "upipes t 4 = None" "cmds u 0 \<noteq> []" "cmds v 1 \<noteq> []"
    and c: "cmds w 0 = []" "cmds w 1 = []" "st w 0 = Some Terminated" "st w 1 = Some Pending"
      "out_chan w 0 = chan_empty" "map_option inpipe (pipes w 1) = Some 4" "upipes w 4 = Some chan_empty"
    by (simp add: link_eval st_def pipe_hiccup_def deliver_def process_cmd_def process_hiccup_def
        delete_upipe_def process_pipe_term_def out_chan_def Let_def frame_delimiter_def)
  have "link_run 0 1 empty_world t" using linked_run[OF r(1)] _ _ r(2) by (rule link_run.step) (use en in simp_all)
  then have "link_run 0 1 empty_world u" using _ _ r(3) by (rule link_run.step) (use en in simp_all)
  then have "link_run 0 1 empty_world v" using _ _ r(4) by (rule link_run.step) (use en in simp_all)
  then have "link_run 0 1 empty_world w" using _ _ r(5) by (rule link_run.step) (use en in simp_all)
  then show ?thesis using c by blast
qed

end
