(* ===== verification/Own_Tree.thy ===== *)
theory Own_Tree
  imports Prelude "HOL-Library.Word"
begin

text \<open>
  The ownership tree: \<open>own_t\<close> of \<open>own.hpp\<close> and \<open>own.cpp\<close> with the commands of \<open>object.cpp\<close> it sends. Sockets,
  sessions, listeners and connecters are objects of this kind. They live in different threads, every
  object is owned by the one that launched it, and is deallocated by a protocol of commands: an owner
  asks an object to terminate, the object asks the objects it owns, waits for their acknowledgements and
  for the commands that others announced to it, confirms and deallocates itself. The state is a heap of
  objects with one queue of undelivered commands each. Sending a command to a deallocated object and a
  failed assertion are \<open>None\<close>.
\<close>

section \<open>State\<close>

record own_t =
  ow_terminating :: bool
  sent_seqnum :: "32 word"
  processed_seqnum :: "64 word"
  ow_owner :: "nat option"
  ow_owned :: "nat list"
  term_acks :: int
  ow_linger :: int

text \<open>\<open>Sequenced\<close> stands for \<open>attach\<close> and \<open>bind\<close>, whose handlers belong to the derived classes.\<close>

datatype own_cmd = Plug | Own nat | Sequenced | Term_req nat | Term int | Term_ack

text \<open>
  Besides the objects and their commands the state has the child that an object is just launching (its
  thread is between the two sends of \<open>launch_child\<close>), the number of commands that were announced to an
  object by \<open>inc_seqnum\<close> and not sent yet, and the number of events an object waits for after
  \<open>register_term_acks\<close>.
\<close>

record own_world =
  objs :: "nat \<rightharpoonup> own_t"
  queue :: "nat \<Rightarrow> own_cmd list"
  launching :: "nat \<Rightarrow> nat option"
  reserved :: "nat \<Rightarrow> nat"
  externals :: "nat \<Rightarrow> nat"

definition put_own :: "nat \<Rightarrow> own_t \<Rightarrow> own_world \<Rightarrow> own_world" where
  "put_own e x w = w\<lparr>objs := (objs w)(e \<mapsto> x)\<rparr>"

section \<open>Sending commands\<close>

definition send_command :: "own_cmd \<Rightarrow> nat \<Rightarrow> own_world \<Rightarrow> own_world option" where
  "send_command c d w = do {
     _ \<leftarrow> objs w d;
     Some (w\<lparr>queue := (queue w)(d := queue w d @ [c])\<rparr>) }"

definition inc_seqnum :: "nat \<Rightarrow> own_world \<Rightarrow> own_world option" where
  "inc_seqnum e w = do { x \<leftarrow> objs w e; Some (put_own e (x\<lparr>sent_seqnum := sent_seqnum x + 1\<rparr>) w) }"

definition send_plug :: "nat \<Rightarrow> own_world \<Rightarrow> own_world option" where
  "send_plug d w = do { w \<leftarrow> inc_seqnum d w; send_command Plug d w }"

definition send_own :: "nat \<Rightarrow> nat \<Rightarrow> own_world \<Rightarrow> own_world option" where
  "send_own d c w = do { w \<leftarrow> inc_seqnum d w; send_command (Own c) d w }"

primrec send_terms :: "int \<Rightarrow> nat list \<Rightarrow> own_world \<Rightarrow> own_world option" where
  "send_terms l [] w = Some w"
| "send_terms l (c # cs) w = do { w \<leftarrow> send_command (Term l) c w; send_terms l cs w }"

section \<open>Operations\<close>

definition own_init :: "int \<Rightarrow> own_t" where
  "own_init l = \<lparr>ow_terminating = False, sent_seqnum = 0, processed_seqnum = 0, ow_owner = None,
     ow_owned = [], term_acks = 0, ow_linger = l\<rparr>"

definition set_owner :: "nat \<Rightarrow> nat \<Rightarrow> own_world \<Rightarrow> own_world option" where
  "set_owner f e w = do {
     x \<leftarrow> objs w e;
     if ow_owner x \<noteq> None then None else Some (put_own e (x\<lparr>ow_owner := Some f\<rparr>) w) }"

definition launch_child :: "nat \<Rightarrow> nat \<Rightarrow> own_world \<Rightarrow> own_world option" where
  "launch_child e c w = do { w \<leftarrow> set_owner e c w; w \<leftarrow> send_plug c w; send_own e c w }"

definition check_term_acks :: "nat \<Rightarrow> own_world \<Rightarrow> own_world option" where
  "check_term_acks e w = do {
     x \<leftarrow> objs w e;
     if ow_terminating x \<and> processed_seqnum x = ucast (sent_seqnum x) \<and> term_acks x = 0 then
       if ow_owned x \<noteq> [] then None
       else do {
         w \<leftarrow> (case ow_owner x of None \<Rightarrow> Some w | Some f \<Rightarrow> send_command Term_ack f w);
         Some (w\<lparr>objs := (objs w)(e := None)\<rparr>) }
     else Some w }"

definition process_seqnum :: "nat \<Rightarrow> own_world \<Rightarrow> own_world option" where
  "process_seqnum e w = do {
     x \<leftarrow> objs w e;
     check_term_acks e (put_own e (x\<lparr>processed_seqnum := processed_seqnum x + 1\<rparr>) w) }"

definition register_term_acks :: "int \<Rightarrow> nat \<Rightarrow> own_world \<Rightarrow> own_world option" where
  "register_term_acks n e w = do { x \<leftarrow> objs w e; Some (put_own e (x\<lparr>term_acks := term_acks x + n\<rparr>) w) }"

definition unregister_term_ack :: "nat \<Rightarrow> own_world \<Rightarrow> own_world option" where
  "unregister_term_ack e w = do {
     x \<leftarrow> objs w e;
     if term_acks x > 0 then check_term_acks e (put_own e (x\<lparr>term_acks := term_acks x - 1\<rparr>) w) else None }"

definition process_term_req :: "nat \<Rightarrow> nat \<Rightarrow> own_world \<Rightarrow> own_world option" where
  "process_term_req c e w = do {
     x \<leftarrow> objs w e;
     if ow_terminating x \<or> c \<notin> set (ow_owned x) then Some w
     else do {
       w \<leftarrow> register_term_acks 1 e (put_own e (x\<lparr>ow_owned := remove1 c (ow_owned x)\<rparr>) w);
       send_command (Term (ow_linger x)) c w } }"

definition process_own :: "nat \<Rightarrow> nat \<Rightarrow> own_world \<Rightarrow> own_world option" where
  "process_own c e w = do {
     x \<leftarrow> objs w e;
     if ow_terminating x then do {
       w \<leftarrow> register_term_acks 1 e w;
       send_command (Term 0) c w }
     else Some (put_own e (x\<lparr>ow_owned := insort_insert c (ow_owned x)\<rparr>) w) }"

definition own_process_term :: "int \<Rightarrow> nat \<Rightarrow> own_world \<Rightarrow> own_world option" where
  "own_process_term l e w = do {
     x \<leftarrow> objs w e;
     if ow_terminating x then None
     else do {
       w \<leftarrow> send_terms l (ow_owned x) w;
       x \<leftarrow> objs w e;
       check_term_acks e (put_own e (x\<lparr>term_acks := term_acks x + int (length (ow_owned x)), ow_owned := [],
         ow_terminating := True\<rparr>) w) } }"

definition own_terminate :: "nat \<Rightarrow> own_world \<Rightarrow> own_world option" where
  "own_terminate e w = do {
     x \<leftarrow> objs w e;
     if ow_terminating x then Some w
     else (case ow_owner x of
        None \<Rightarrow> own_process_term (ow_linger x) e w
      | Some f \<Rightarrow> send_command (Term_req e) f w) }"

text \<open>The dispatch of \<open>process_command\<close> for the commands of this protocol.\<close>

definition own_process_command :: "own_cmd \<Rightarrow> nat \<Rightarrow> own_world \<Rightarrow> own_world option" where
  "own_process_command c e w =
     (case c of
        Plug \<Rightarrow> process_seqnum e w
      | Own d \<Rightarrow> do { w \<leftarrow> process_own d e w; process_seqnum e w }
      | Sequenced \<Rightarrow> process_seqnum e w
      | Term_req d \<Rightarrow> process_term_req d e w
      | Term l \<Rightarrow> own_process_term l e w
      | Term_ack \<Rightarrow> unregister_term_ack e w)"

section \<open>Runs\<close>

text \<open>
  The steps of the threads. \<open>launch_child\<close> is two steps, because the launched object can act before its
  owner sends the second command. The handlers of the derived classes call the other operations at any
  time; an object that is launching a child does nothing else meanwhile.
\<close>

datatype own_op =
    Launch nat int | Launched | Term_child nat | Terminate | Register nat | Unregister
  | Reserve | Post | Own_deliver

fun own_enabled :: "own_op \<Rightarrow> nat \<Rightarrow> own_world \<Rightarrow> bool" where
  "own_enabled (Launch c l) e w \<longleftrightarrow> objs w e \<noteq> None \<and> launching w e = None \<and> objs w c = None"
| "own_enabled Launched e w \<longleftrightarrow> launching w e \<noteq> None \<and>
     (case objs w e of None \<Rightarrow> True | Some x \<Rightarrow> sent_seqnum x + 1 \<noteq> 0)"
| "own_enabled Reserve e w \<longleftrightarrow>
     (case objs w e of None \<Rightarrow> False | Some x \<Rightarrow> sent_seqnum x + 1 \<noteq> 0)"
| "own_enabled Post e w \<longleftrightarrow> 0 < reserved w e"
| "own_enabled Unregister e w \<longleftrightarrow> 0 < externals w e \<and> launching w e = None"
| "own_enabled Own_deliver e w \<longleftrightarrow> queue w e \<noteq> [] \<and> launching w e = None"
| "own_enabled _ e w \<longleftrightarrow> objs w e \<noteq> None \<and> launching w e = None"

fun own_run :: "own_op \<Rightarrow> nat \<Rightarrow> own_world \<Rightarrow> own_world option" where
  "own_run (Launch c l) e w = do {
     w \<leftarrow> set_owner e c (put_own c (own_init l) w);
     w \<leftarrow> send_plug c w;
     Some (w\<lparr>launching := (launching w)(e := Some c)\<rparr>) }"
| "own_run Launched e w = do {
     c \<leftarrow> launching w e;
     w \<leftarrow> send_own e c w;
     Some (w\<lparr>launching := (launching w)(e := None)\<rparr>) }"
| "own_run (Term_child c) e w = process_term_req c e w"
| "own_run Terminate e w = own_terminate e w"
| "own_run (Register n) e w = do {
     w \<leftarrow> register_term_acks (int n) e w;
     Some (w\<lparr>externals := (externals w)(e := externals w e + n)\<rparr>) }"
| "own_run Unregister e w = unregister_term_ack e (w\<lparr>externals := (externals w)(e := externals w e - 1)\<rparr>)"
| "own_run Reserve e w = do {
     w \<leftarrow> inc_seqnum e w;
     Some (w\<lparr>reserved := (reserved w)(e := reserved w e + 1)\<rparr>) }"
| "own_run Post e w = send_command Sequenced e (w\<lparr>reserved := (reserved w)(e := reserved w e - 1)\<rparr>)"
| "own_run Own_deliver e w =
     (case queue w e of
        [] \<Rightarrow> None
      | c # cs \<Rightarrow> own_process_command c e (w\<lparr>queue := (queue w)(e := cs)\<rparr>))"

definition own_root :: "nat \<Rightarrow> int \<Rightarrow> own_world" where
  "own_root r l = \<lparr>objs = [r \<mapsto> own_init l], queue = (\<lambda>_. []), launching = (\<lambda>_. None),
     reserved = (\<lambda>_. 0), externals = (\<lambda>_. 0)\<rparr>"

inductive own_reach :: "nat \<Rightarrow> own_world \<Rightarrow> bool" for r where
  root: "own_reach r (own_root r l)"
| step: "own_reach r w \<Longrightarrow> own_enabled op e w \<Longrightarrow> own_run op e w = Some w' \<Longrightarrow> own_reach r w'"

section \<open>Invariant\<close>

fun is_seq :: "own_cmd \<Rightarrow> bool" where
  "is_seq Plug = True" | "is_seq (Own _) = True" | "is_seq Sequenced = True" | "is_seq _ = False"

fun is_term :: "own_cmd \<Rightarrow> bool" where
  "is_term (Term _) = True" | "is_term _ = False"

definition nseq :: "own_cmd list \<Rightarrow> nat" where
  "nseq q = length (filter is_seq q)"

definition nterm :: "own_cmd list \<Rightarrow> nat" where
  "nterm q = length (filter is_term q)"

definition nack :: "own_cmd list \<Rightarrow> nat" where
  "nack q = count_list q Term_ack"

definition child :: "own_world \<Rightarrow> nat \<Rightarrow> nat \<Rightarrow> bool" where
  "child w e c \<longleftrightarrow> (\<exists>y. objs w c = Some y \<and> ow_owner y = Some e)"

definition told :: "own_world \<Rightarrow> nat \<Rightarrow> bool" where
  "told w c \<longleftrightarrow> 0 < nterm (queue w c) \<or> (\<exists>y. objs w c = Some y \<and> ow_terminating y)"

definition told_children :: "own_world \<Rightarrow> nat \<Rightarrow> nat set" where
  "told_children w e = {c. child w e c \<and> told w c}"

text \<open>Requests of objects to be terminated come before the acknowledgement of some child.\<close>

fun covered :: "own_cmd list \<Rightarrow> bool \<Rightarrow> bool" where
  "covered [] b \<longleftrightarrow> True"
| "covered (c # q) b \<longleftrightarrow> covered q b \<and> ((\<exists>d. c = Term_req d) \<longrightarrow> Term_ack \<in> set q \<or> b)"

definition seq_ok :: "own_world \<Rightarrow> bool" where
  "seq_ok w \<longleftrightarrow> (\<forall>e x. objs w e = Some x \<longrightarrow>
     unat (processed_seqnum x) + nseq (queue w e) + reserved w e = unat (sent_seqnum x))"

definition acks_ok :: "own_world \<Rightarrow> bool" where
  "acks_ok w \<longleftrightarrow> (\<forall>e x. objs w e = Some x \<longrightarrow>
     term_acks x = int (card (told_children w e) + nack (queue w e) + externals w e))"

definition refs_ok :: "own_world \<Rightarrow> bool" where
  "refs_ok w \<longleftrightarrow> (\<forall>e x. objs w e = Some x \<longrightarrow> distinct (ow_owned x) \<and>
     (ow_terminating x \<longrightarrow> ow_owned x = []) \<and> (\<forall>c \<in> set (ow_owned x). child w e c) \<and>
     (\<forall>c. Own c \<in> set (queue w e) \<longrightarrow> child w e c) \<and> (\<forall>c. launching w e = Some c \<longrightarrow> child w e c))"

text \<open>
  Where an object is in its life: being launched, announced to its owner, owned, asked to terminate, or
  terminating. It is in exactly one of these stages.
\<close>

definition stage :: "own_world \<Rightarrow> nat \<Rightarrow> nat \<Rightarrow> nat" where
  "stage w f c = of_bool (launching w f = Some c) + count_list (queue w f) (Own c) +
     (case objs w f of None \<Rightarrow> 0 | Some y \<Rightarrow> of_bool (c \<in> set (ow_owned y))) + nterm (queue w c) +
     (case objs w c of None \<Rightarrow> 0 | Some x \<Rightarrow> of_bool (ow_terminating x))"

definition stages_ok :: "own_world \<Rightarrow> bool" where
  "stages_ok w \<longleftrightarrow> (\<forall>c x. objs w c = Some x \<longrightarrow>
     (case ow_owner x of None \<Rightarrow> nterm (queue w c) = 0 | Some f \<Rightarrow> objs w f \<noteq> None \<and> stage w f c = 1))"

definition reqs_ok :: "own_world \<Rightarrow> bool" where
  "reqs_ok w \<longleftrightarrow> (\<forall>e. covered (queue w e) (\<exists>c. child w e c))"

definition gone_ok :: "own_world \<Rightarrow> bool" where
  "gone_ok w \<longleftrightarrow> (\<forall>e. objs w e = None \<longrightarrow> queue w e = [] \<and> launching w e = None \<and> reserved w e = 0 \<and>
     externals w e = 0)"

definition tree_ok :: "own_world \<Rightarrow> bool" where
  "tree_ok w \<longleftrightarrow> finite (dom (objs w)) \<and> acyclic {(c, e). child w e c}"

definition own_inv :: "own_world \<Rightarrow> bool" where
  "own_inv w \<longleftrightarrow> seq_ok w \<and> acks_ok w \<and> refs_ok w \<and> stages_ok w \<and> reqs_ok w \<and> gone_ok w \<and> tree_ok w"

text \<open>An object that nothing keeps alive any more.\<close>

definition doomed :: "own_t \<Rightarrow> bool" where
  "doomed x \<longleftrightarrow> ow_terminating x \<and> processed_seqnum x = ucast (sent_seqnum x) \<and> term_acks x = 0"

definition settled :: "own_world \<Rightarrow> bool" where
  "settled w \<longleftrightarrow> (\<forall>e x. objs w e = Some x \<longrightarrow> \<not> doomed x)"

lemma covered_snoc:
  "covered (q @ [c]) b \<longleftrightarrow> (c = Term_ack \<or> covered q b) \<and> ((\<exists>d. c = Term_req d) \<longrightarrow> b)"
  by (induction q) auto

lemma covered_mono: "covered q b \<Longrightarrow> (b \<Longrightarrow> b') \<Longrightarrow> covered q b'"
  by (induction q) auto

lemma queue_counts [simp]:
  "nseq [] = 0" "nterm [] = 0" "nack [] = 0" "nseq (c # q) = of_bool (is_seq c) + nseq q"
  "nterm (c # q) = of_bool (is_term c) + nterm q" "nack (c # q) = of_bool (c = Term_ack) + nack q"
  "nseq (q @ q') = nseq q + nseq q'" "nterm (q @ q') = nterm q + nterm q'" "nack (q @ q') = nack q + nack q'"
  by (simp_all add: nseq_def nterm_def nack_def)

lemma count_Own: "nseq q = 0 \<Longrightarrow> count_list q (Own c) = 0"
  by (induction q) (auto simp: of_bool_def split: if_splits)

lemma count_pos: "0 < count_list q c \<longleftrightarrow> c \<in> set q"
  by (induction q) auto

lemma told_children_finite: "own_inv w \<Longrightarrow> finite (told_children w e)"
  by (rule finite_subset[of _ "dom (objs w)"])
    (auto simp: told_children_def child_def own_inv_def tree_ok_def)

lemma stage_child:
  assumes "own_inv w" "child w e c"
  shows "stage w e c = 1" "objs w e \<noteq> None" "objs w c \<noteq> None"
proof -
  obtain y where y: "objs w c = Some y" "ow_owner y = Some e" using assms(2) by (auto simp: child_def)
  then have "case ow_owner y of None \<Rightarrow> nterm (queue w c) = 0 | Some f \<Rightarrow> objs w f \<noteq> None \<and> stage w f c = 1"
    using assms(1) unfolding own_inv_def stages_ok_def by blast
  then show "stage w e c = 1" "objs w e \<noteq> None" "objs w c \<noteq> None" using y by simp_all
qed

section \<open>Steps of one object\<close>

text \<open>
  The effect of a step on its object: its record, queue and counters change, some of its children are
  asked to terminate, and every child stays in one stage.
\<close>

record own_step =
  os_rec :: own_t
  os_queue :: "own_cmd list"
  os_launching :: "nat option"
  os_reserved :: nat
  os_externals :: nat
  os_told :: "nat set"

definition stepped :: "nat \<Rightarrow> own_step \<Rightarrow> own_world \<Rightarrow> own_world \<Rightarrow> bool" where
  "stepped e u w w' \<longleftrightarrow> objs w' = (objs w)(e \<mapsto> os_rec u) \<and>
     launching w' = (launching w)(e := os_launching u) \<and> reserved w' = (reserved w)(e := os_reserved u) \<and>
     externals w' = (externals w)(e := os_externals u) \<and>
     (\<exists>l. queue w' = (\<lambda>d. if d = e then os_queue u else if d \<in> os_told u then queue w d @ [Term l] else queue w d))"

definition step_ok :: "nat \<Rightarrow> own_t \<Rightarrow> own_step \<Rightarrow> own_world \<Rightarrow> bool" where
  "step_ok e x u w \<longleftrightarrow> (let y = os_rec u; q = os_queue u in
     ow_owner y = ow_owner x \<and>
     (if ow_owner x = None then nterm q = nterm (queue w e)
      else nterm q + of_bool (ow_terminating y) = nterm (queue w e) + of_bool (ow_terminating x)) \<and>
     unat (processed_seqnum y) + nseq q + os_reserved u = unat (sent_seqnum y) \<and>
     term_acks y + int (nack (queue w e) + externals w e) =
       term_acks x + int (nack q + os_externals u) + int (card (os_told u)) \<and>
     (\<forall>c. child w e c \<longrightarrow>
        of_bool (os_launching u = Some c) + count_list q (Own c) + of_bool (c \<in> set (ow_owned y)) +
          of_bool (c \<in> os_told u) =
        of_bool (launching w e = Some c) + count_list (queue w e) (Own c) +
          (of_bool (c \<in> set (ow_owned x)) :: nat)) \<and>
     (\<forall>c \<in> os_told u. child w e c) \<and> distinct (ow_owned y) \<and> (ow_terminating y \<longrightarrow> ow_owned y = []) \<and>
     (\<forall>c \<in> set (ow_owned y). child w e c) \<and> (\<forall>c. Own c \<in> set q \<longrightarrow> child w e c) \<and>
     (\<forall>c. os_launching u = Some c \<longrightarrow> child w e c) \<and> covered q (\<exists>c. child w e c))"

lemma step_okD:
  assumes "step_ok e x u w"
  shows "ow_owner (os_rec u) = ow_owner x"
    "ow_owner x \<noteq> None \<Longrightarrow> nterm (os_queue u) + of_bool (ow_terminating (os_rec u)) =
       nterm (queue w e) + of_bool (ow_terminating x)"
    "ow_owner x = None \<Longrightarrow> nterm (os_queue u) = nterm (queue w e)"
    "unat (processed_seqnum (os_rec u)) + nseq (os_queue u) + os_reserved u = unat (sent_seqnum (os_rec u))"
    "term_acks (os_rec u) + int (nack (queue w e) + externals w e) =
       term_acks x + int (nack (os_queue u) + os_externals u) + int (card (os_told u))"
    "child w e c \<Longrightarrow> of_bool (os_launching u = Some c) + count_list (os_queue u) (Own c) +
       of_bool (c \<in> set (ow_owned (os_rec u))) + of_bool (c \<in> os_told u) =
       of_bool (launching w e = Some c) + count_list (queue w e) (Own c) +
       (of_bool (c \<in> set (ow_owned x)) :: nat)"
    "c \<in> os_told u \<Longrightarrow> child w e c" "distinct (ow_owned (os_rec u))"
    "ow_terminating (os_rec u) \<Longrightarrow> ow_owned (os_rec u) = []"
    "c \<in> set (ow_owned (os_rec u)) \<Longrightarrow> child w e c" "Own c \<in> set (os_queue u) \<Longrightarrow> child w e c"
    "os_launching u = Some c \<Longrightarrow> child w e c" "covered (os_queue u) (\<exists>c. child w e c)"
  using assms unfolding step_ok_def Let_def by (elim conjE; (assumption | simp | blast))+

lemma child_stepped: "objs w e = Some x \<Longrightarrow> step_ok e x u w \<Longrightarrow> stepped e u w w' \<Longrightarrow> child w' = child w"
  by (auto simp: child_def stepped_def step_ok_def Let_def fun_eq_iff)

lemma not_own_child: "own_inv w \<Longrightarrow> \<not> child w e e"
  by (auto simp: own_inv_def tree_ok_def acyclic_def)

lemma told_step:
  assumes inv: "own_inv w" and x: "objs w e = Some x" and u: "step_ok e x u w" "stepped e u w w'"
  shows "child w f c \<Longrightarrow> told w' c \<longleftrightarrow> told w c \<or> c \<in> os_told u" "c \<in> os_told u \<Longrightarrow> \<not> told w c"
proof -
  have ne: "e \<notin> os_told u" using not_own_child[OF inv] u(1) by (auto simp: step_ok_def Let_def)
  show "told w' c \<longleftrightarrow> told w c \<or> c \<in> os_told u" if c: "child w f c"
  proof (cases "c = e")
    case True
    then have "ow_owner x \<noteq> None" using c x by (auto simp: child_def)
    then have "nterm (os_queue u) + of_bool (ow_terminating (os_rec u)) =
        nterm (queue w e) + of_bool (ow_terminating x)" by (rule step_okD(2)[OF u(1)])
    then have "0 < nterm (os_queue u) \<or> ow_terminating (os_rec u) \<longleftrightarrow> 0 < nterm (queue w e) \<or> ow_terminating x"
      by (auto simp: of_bool_def split: if_splits)
    then show ?thesis using True ne x u(2) by (auto simp: told_def stepped_def)
  next
    case False
    then show ?thesis using u(2) by (auto simp: told_def stepped_def)
  qed
  show "\<not> told w c" if c: "c \<in> os_told u"
  proof -
    have ch: "child w e c" using c u(1) by (simp add: step_ok_def Let_def)
    then have "0 < of_bool (launching w e = Some c) + count_list (queue w e) (Own c) +
          (of_bool (c \<in> set (ow_owned x)) :: nat)"
      using u(1) c by (auto simp: step_ok_def Let_def)
    then show ?thesis using stage_child[OF inv ch] x
      by (auto simp: stage_def told_def split: option.splits)
  qed
qed

lemma acks_step:
  assumes inv: "own_inv w" and x: "objs w e = Some x" and u: "step_ok e x u w" "stepped e u w w'"
  shows "acks_ok w'"
  unfolding acks_ok_def
proof (intro allI impI)
  fix f z assume z: "objs w' f = Some z"
  note ts = told_step[OF inv x u] and ch = child_stepped[OF x u]
  have sub: "\<forall>c \<in> os_told u. child w e c" using u(1) by (simp add: step_ok_def Let_def)
  show "term_acks z = int (card (told_children w' f) + nack (queue w' f) + externals w' f)"
  proof (cases "f = e")
    case True
    have eq: "told_children w' e = told_children w e \<union> os_told u"
      using ts(1) ch sub by (auto simp: told_children_def)
    have disj: "told_children w e \<inter> os_told u = {}" using ts(2) by (auto simp: told_children_def)
    have "os_told u \<subseteq> dom (objs w)" using sub by (auto simp: child_def)
    moreover have "finite (dom (objs w))" using inv by (simp add: own_inv_def tree_ok_def)
    ultimately have "finite (os_told u)" by (rule finite_subset)
    then have "card (told_children w' e) = card (told_children w e) + card (os_told u)"
      using disj told_children_finite[OF inv] by (simp add: eq card_Un_disjoint)
    moreover have "term_acks x = int (card (told_children w e) + nack (queue w e) + externals w e)"
      using inv x by (simp add: own_inv_def acks_ok_def)
    moreover have "queue w' e = os_queue u" "z = os_rec u" "externals w' e = os_externals u"
      using u(2) z True by (auto simp: stepped_def)
    ultimately show ?thesis using True step_okD(5)[OF u(1)] by simp
  next
    case False
    have "c \<notin> os_told u" if "child w f c" for c
      using that sub False by (auto simp: child_def)
    then have "told_children w' f = told_children w f" using ts(1) ch by (auto simp: told_children_def)
    moreover have "nack (queue w' f) = nack (queue w f)" "objs w f = Some z" "externals w' f = externals w f"
      using u(2) z False by (auto simp: stepped_def)
    ultimately show ?thesis using inv by (simp add: own_inv_def acks_ok_def)
  qed
qed

lemma stages_step:
  assumes inv: "own_inv w" and x: "objs w e = Some x" and u: "step_ok e x u w" "stepped e u w w'"
  shows "stages_ok w'"
  unfolding stages_ok_def
proof (intro allI impI)
  fix c z assume z: "objs w' c = Some z"
  note ch = child_stepped[OF x u]
  note st = u(2)[unfolded stepped_def] and ok = step_okD[OF u(1)]
  have sub: "\<forall>c \<in> os_told u. child w e c" using ok(7) by blast
  have ne: "e \<notin> os_told u" using not_own_child[OF inv] sub by auto
  obtain z0 where z0: "objs w c = Some z0" "ow_owner z0 = ow_owner z"
    using z st ok(1) x by (cases "c = e") auto
  show "case ow_owner z of None \<Rightarrow> nterm (queue w' c) = 0 | Some f \<Rightarrow> objs w' f \<noteq> None \<and> stage w' f c = 1"
  proof (cases "ow_owner z")
    case None
    have "case ow_owner z0 of None \<Rightarrow> nterm (queue w c) = 0 | Some f \<Rightarrow> objs w f \<noteq> None \<and> stage w f c = 1"
      using inv z0(1) unfolding own_inv_def stages_ok_def by blast
    then have n: "nterm (queue w c) = 0" using None z0 by simp
    have "c \<notin> os_told u" using sub z0 None by (auto simp: child_def)
    then have "nterm (queue w' c) = 0" using n st ok(3) z0 x None by (cases "c = e") auto
    then show ?thesis using None by simp
  next
    case (Some f)
    then have cf: "child w f c" using z0 by (simp add: child_def)
    have s1: "stage w f c = 1" "objs w f \<noteq> None" using stage_child[OF inv cf] by blast+
    have cu: "c \<in> os_told u \<Longrightarrow> f = e" using sub cf by (auto simp: child_def)
    have fc: "f \<noteq> c" using cf not_own_child[OF inv] by auto
    have "stage w' f c = stage w f c"
    proof (cases "f = e")
      case True
      have cons: "of_bool (os_launching u = Some c) + count_list (os_queue u) (Own c) +
          of_bool (c \<in> set (ow_owned (os_rec u))) + of_bool (c \<in> os_told u) =
        of_bool (launching w e = Some c) + count_list (queue w e) (Own c) +
          (of_bool (c \<in> set (ow_owned x)) :: nat)" by (rule ok(6)) (use cf True in simp)
      have nt: "nterm (queue w' c) = nterm (queue w c) + of_bool (c \<in> os_told u)" using st fc True by auto
      have q: "queue w' e = os_queue u" using st by auto
      let ?t = "case objs w c of None \<Rightarrow> 0 | Some x \<Rightarrow> (of_bool (ow_terminating x) :: nat)"
      have "stage w' f c = of_bool (os_launching u = Some c) + count_list (os_queue u) (Own c) +
          of_bool (c \<in> set (ow_owned (os_rec u))) + nterm (queue w' c) + ?t"
        unfolding stage_def using True q st fc by simp
      moreover have "stage w f c = of_bool (launching w e = Some c) + count_list (queue w e) (Own c) +
          of_bool (c \<in> set (ow_owned x)) + nterm (queue w c) + ?t"
        unfolding stage_def using True x by simp
      ultimately show ?thesis using cons nt by linarith
    next
      case False
      show ?thesis
      proof (cases "c = e")
        case True
        then have "ow_owner x \<noteq> None" using Some z0 x by auto
        then have "nterm (os_queue u) + of_bool (ow_terminating (os_rec u)) =
            nterm (queue w e) + of_bool (ow_terminating x)" by (rule ok(2))
        moreover have "queue w' f = queue w f \<or> (\<exists>l. queue w' f = queue w f @ [Term l])" using st False by auto
        ultimately show ?thesis using st x True False ne by (auto simp: stage_def)
      next
        case c: False
        have "queue w' f = queue w f \<or> (\<exists>l. queue w' f = queue w f @ [Term l])" using st False by auto
        moreover have "queue w' c = queue w c" using st c cu False by auto
        ultimately show ?thesis using st c False by (auto simp: stage_def)
      qed
    qed
    then show ?thesis using s1 Some st by auto
  qed
qed

lemma own_inv_step:
  assumes inv: "own_inv w" and x: "objs w e = Some x" and u: "step_ok e x u w" "stepped e u w w'"
  shows "own_inv w'"
proof -
  note ch = child_stepped[OF x u]
  note st = u(2)[unfolded stepped_def] and ok = step_okD[OF u(1)]
  obtain l where q: "queue w' = (\<lambda>d. if d = e then os_queue u else if d \<in> os_told u then queue w d @ [Term l] else queue w d)"
    using st by blast
  have sub: "objs w d \<noteq> None" if "d \<in> os_told u" for d using that ok(7) by (auto simp: child_def)
  have "seq_ok w'" using inv x ok(4) st q by (auto simp: own_inv_def seq_ok_def)
  moreover have "refs_ok w'" using inv x ok(8-12) st q unfolding own_inv_def refs_ok_def ch by auto
  moreover have "reqs_ok w'" using inv ok(13) q unfolding own_inv_def reqs_ok_def ch by (auto simp: covered_snoc)
  moreover have "gone_ok w'" using inv x st q sub unfolding own_inv_def gone_ok_def by auto
  moreover have "tree_ok w'" using inv st unfolding own_inv_def tree_ok_def ch by auto
  ultimately show ?thesis using acks_step[OF assms] stages_step[OF assms] by (simp add: own_inv_def)
qed

section \<open>Potential\<close>

text \<open>
  The commands in flight, two for every object that is yet to be asked to terminate and one for every
  object that is yet to confirm. Handling a command lowers this number.
\<close>

definition own_potential :: "own_world \<Rightarrow> nat" where
  "own_potential w = (\<Sum>e \<in> dom (objs w). length (queue w e)) + 2 * card {e \<in> dom (objs w). \<not> told w e} +
     card (dom (objs w))"

lemma potential_step:
  assumes inv: "own_inv w" and x: "objs w e = Some x" and u: "step_ok e x u w" "stepped e u w w'"
    and t: "ow_terminating x \<Longrightarrow> ow_terminating (os_rec u)"
  shows "own_potential w' + length (queue w e) + card (os_told u) \<le> own_potential w + length (os_queue u)"
proof -
  note ts = told_step[OF inv x u]
  let ?D = "dom (objs w)" and ?C = "os_told u"
  have fin: "finite ?D" using inv by (simp add: own_inv_def tree_ok_def)
  have dm: "dom (objs w') = ?D" using u(2) x by (auto simp: stepped_def)
  have CD: "?C \<subseteq> ?D - {e}"
  proof
    fix d assume "d \<in> ?C"
    then have "child w e d" by (rule step_okD(7)[OF u(1)])
    then show "d \<in> ?D - {e}" using not_own_child[OF inv] by (auto simp: child_def)
  qed
  obtain l where q: "queue w' = (\<lambda>d. if d = e then os_queue u else if d \<in> ?C then queue w d @ [Term l] else queue w d)"
    using u(2) by (auto simp: stepped_def)
  have sum: "(\<Sum>d \<in> ?D. length (queue v d)) = length (queue v e) + (\<Sum>d \<in> ?D - {e}. length (queue v d))" for v
    using fin x by (subst sum.remove[of ?D e]) auto
  have "(\<Sum>d \<in> ?D - {e}. length (queue w' d)) = (\<Sum>d \<in> ?D - {e}. length (queue w d) + of_bool (d \<in> ?C))"
    by (rule sum.cong) (auto simp: q)
  also have "\<dots> = (\<Sum>d \<in> ?D - {e}. length (queue w d)) + card ?C"
    using fin CD by (simp add: sum.distrib sum.inter_filter Int_absorb1 of_bool_def flip: sum.inter_restrict)
  finally have s2: "(\<Sum>d \<in> ?D. length (queue w' d)) + length (queue w e) =
      (\<Sum>d \<in> ?D. length (queue w d)) + card ?C + length (os_queue u)"
    using sum[of w'] sum[of w] q by simp
  have un: "{d \<in> ?D. \<not> told w' d} \<subseteq> {d \<in> ?D. \<not> told w d} - ?C"
  proof
    fix d assume d: "d \<in> {d \<in> ?D. \<not> told w' d}"
    then obtain z where z: "objs w d = Some z" by auto
    show "d \<in> {d \<in> ?D. \<not> told w d} - ?C"
    proof (cases "ow_owner z")
      case (Some f)
      then have "child w f d" using z by (simp add: child_def)
      then show ?thesis using ts(1) d by auto
    next
      case None
      have nt: "case ow_owner z of None \<Rightarrow> nterm (queue w d) = 0 | Some f \<Rightarrow> objs w f \<noteq> None \<and> stage w f d = 1"
        using inv z unfolding own_inv_def stages_ok_def by blast
      have "d \<notin> ?C" using step_okD(7)[OF u(1), of d] z None by (auto simp: child_def)
      moreover have "\<not> ow_terminating z" using d z t x u(2) by (auto simp: told_def stepped_def split: if_splits)
      ultimately show ?thesis using nt None z by (auto simp: told_def)
    qed
  qed
  have "card {d \<in> ?D. \<not> told w' d} \<le> card ({d \<in> ?D. \<not> told w d} - ?C)"
    using un fin by (intro card_mono) auto
  also have "\<dots> = card {d \<in> ?D. \<not> told w d} - card ?C"
    using ts(2) CD fin by (intro card_Diff_subset) (auto intro: finite_subset)
  finally have "card {d \<in> ?D. \<not> told w' d} \<le> card {d \<in> ?D. \<not> told w d} - card ?C" .
  moreover have "card ?C \<le> card {d \<in> ?D. \<not> told w d}"
    using ts(2) CD fin by (intro card_mono) auto
  ultimately have "card {d \<in> ?D. \<not> told w' d} + card ?C \<le> card {d \<in> ?D. \<not> told w d}" by linarith
  then show ?thesis using s2 unfolding own_potential_def dm by linarith
qed

section \<open>Deallocation\<close>

lemma unat_ucast_seqnum: "unat (ucast (v :: 32 word) :: 64 word) = unat v"
proof -
  have "unat v < 2 ^ 32" using unsigned_less[of v] by simp
  also have "\<dots> \<le> (2 ^ 64 :: nat)" by simp
  finally have "take_bit 64 (unat v) = unat v" by (simp add: take_bit_nat_eq_self)
  then show ?thesis by (simp add: unsigned_ucast_eq)
qed

lemma doomed_alone:
  assumes inv: "own_inv w" and x: "objs w e = Some x" and d: "doomed x" and la: "launching w e = None"
  shows "queue w e = []" "ow_owned x = []" "reserved w e = 0" "externals w e = 0" "\<not> child w e c"
proof -
  have t: "ow_terminating x" "processed_seqnum x = ucast (sent_seqnum x)" "term_acks x = 0"
    using d by (simp_all add: doomed_def)
  have "unat (processed_seqnum x) = unat (sent_seqnum x)"
    using t(2) by (simp add: unat_ucast_seqnum)
  moreover have "unat (processed_seqnum x) + nseq (queue w e) + reserved w e = unat (sent_seqnum x)"
    using inv x by (simp add: own_inv_def seq_ok_def)
  ultimately have sq: "nseq (queue w e) = 0" "reserved w e = 0" by simp_all
  have "term_acks x = int (card (told_children w e) + nack (queue w e) + externals w e)"
    using inv x by (simp add: own_inv_def acks_ok_def)
  then have ak: "card (told_children w e) = 0" "nack (queue w e) = 0" "externals w e = 0"
    using t(3) by simp_all
  have no: "told_children w e = {}" using ak(1) told_children_finite[OF inv] by simp
  show ow: "ow_owned x = []" using inv x t(1) by (auto simp: own_inv_def refs_ok_def)
  have nc: "\<not> child w e c" for c
  proof
    assume c: "child w e c"
    have "count_list (queue w e) (Own c) = 0" using sq(1) by (rule count_Own)
    then have "told w c" using stage_child[OF inv c] la x ow
      by (auto simp: stage_def told_def of_bool_def split: option.splits if_splits)
    then show False using no c by (auto simp: told_children_def)
  qed
  then show "\<not> child w e c" .
  have nt: "nterm (queue w e) = 0"
  proof (cases "ow_owner x")
    case None
    then show ?thesis using inv x by (fastforce simp: own_inv_def stages_ok_def)
  next
    case (Some f)
    then have "child w f e" using x by (simp add: child_def)
    then have "stage w f e = 1" using stage_child(1)[OF inv] by blast
    then show ?thesis using x t(1) by (simp add: stage_def)
  qed
  have "covered (queue w e) (\<exists>c. child w e c)" using inv by (simp add: own_inv_def reqs_ok_def)
  then have cv: "covered (queue w e) False" using nc by simp
  show "queue w e = []"
  proof (cases "queue w e")
    case (Cons c q)
    then show ?thesis using sq(1) nt ak(2) cv
      by (cases c) (auto simp: nack_def count_list_0_iff)
  qed simp
  show "reserved w e = 0" "externals w e = 0" using sq ak by simp_all
qed

lemma destroy_inv:
  assumes inv: "own_inv w" and x: "objs w e = Some x" and d: "doomed x" and la: "launching w e = None"
    and q: "q = (case ow_owner x of None \<Rightarrow> queue w | Some f \<Rightarrow> (queue w)(f := queue w f @ [Term_ack]))"
  shows "own_inv (w\<lparr>queue := q, objs := (objs w)(e := None)\<rparr>)"
proof -
  let ?w = "w\<lparr>queue := q, objs := (objs w)(e := None)\<rparr>"
  note al = doomed_alone[OF inv x d la]
  have t: "ow_terminating x" using d by (simp add: doomed_def)
  have ch: "child ?w f c \<longleftrightarrow> child w f c \<and> c \<noteq> e" for f c by (auto simp: child_def)
  have qq: "q g = queue w g \<or> q g = queue w g @ [Term_ack] \<and> ow_owner x = Some g" for g
    by (auto simp: q split: option.splits)
  have qo: "ow_owner x = Some g \<Longrightarrow> q g = queue w g @ [Term_ack]" for g by (simp add: q)
  have nt: "nterm (q g) = nterm (queue w g)" "nseq (q g) = nseq (queue w g)"
    "count_list (q g) (Own c) = count_list (queue w g) (Own c)" "Own c \<in> set (q g) \<longleftrightarrow> Own c \<in> set (queue w g)" for g c
    using qq[of g] by auto
  have own: "ow_owner x = Some f \<Longrightarrow> child w f e" for f using x by (simp add: child_def)
  have se: "stage w f e = 1" if "ow_owner x = Some f" for f using stage_child(1)[OF inv own[OF that]] .
  have ne: "launching w f \<noteq> Some e \<and> Own e \<notin> set (queue w f) \<and> (objs w f = Some y \<longrightarrow> e \<notin> set (ow_owned y))"
    if "ow_owner x = Some f" for f y
    using se[OF that] x t count_pos[of "queue w f" "Own e"] by (auto simp: stage_def split: option.splits)
  have fe: "ow_owner x \<noteq> Some e" using own al(5) by blast
  have seq: "seq_ok ?w" using inv nt by (auto simp: own_inv_def seq_ok_def)
  have tc: "told_children ?w f = told_children w f - {e}" for f
    using nt by (auto simp: told_children_def ch told_def)
  have acks: "acks_ok ?w"
    unfolding acks_ok_def
  proof (intro allI impI)
    fix f z assume z: "objs ?w f = Some z"
    have z': "objs w f = Some z" "f \<noteq> e" using z by (auto split: if_splits)
    have old: "term_acks z = int (card (told_children w f) + nack (queue w f) + externals w f)"
      using inv z' by (simp add: own_inv_def acks_ok_def)
    show "term_acks z = int (card (told_children ?w f) + nack (queue ?w f) + externals ?w f)"
    proof (cases "ow_owner x = Some f")
      case True
      have "e \<in> told_children w f" using own[OF True] x t by (auto simp: told_children_def told_def)
      then have "card (told_children w f) = Suc (card (told_children w f - {e}))"
        using told_children_finite[OF inv] by (metis card_Suc_Diff1)
      then show ?thesis using old qo[OF True] by (simp add: tc)
    next
      case False
      then have "e \<notin> told_children w f" using x by (auto simp: told_children_def child_def)
      moreover have "q f = queue w f" using qq[of f] False by auto
      ultimately show ?thesis using old by (simp add: tc)
    qed
  qed
  have refs: "refs_ok ?w"
    unfolding refs_ok_def
  proof (intro allI impI)
    fix f z assume "objs ?w f = Some z"
    then have z': "objs w f = Some z" "f \<noteq> e" by (auto split: if_splits)
    then have old: "distinct (ow_owned z) \<and> (ow_terminating z \<longrightarrow> ow_owned z = []) \<and>
        (\<forall>c \<in> set (ow_owned z). child w f c) \<and> (\<forall>c. Own c \<in> set (queue w f) \<longrightarrow> child w f c) \<and>
        (\<forall>c. launching w f = Some c \<longrightarrow> child w f c)"
      using inv by (simp add: own_inv_def refs_ok_def)
    have "child w f e \<Longrightarrow> ow_owner x = Some f" using x by (simp add: child_def)
    then show "distinct (ow_owned z) \<and> (ow_terminating z \<longrightarrow> ow_owned z = []) \<and>
        (\<forall>c \<in> set (ow_owned z). child ?w f c) \<and> (\<forall>c. Own c \<in> set (queue ?w f) \<longrightarrow> child ?w f c) \<and>
        (\<forall>c. launching ?w f = Some c \<longrightarrow> child ?w f c)"
      using old ne[of f z] z' nt(4)[of _ f] unfolding ch by auto
  qed
  have stages: "stages_ok ?w"
    unfolding stages_ok_def
  proof (intro allI impI)
    fix c z assume "objs ?w c = Some z"
    then have z': "objs w c = Some z" "c \<noteq> e" by (auto split: if_splits)
    then have old: "case ow_owner z of None \<Rightarrow> nterm (queue w c) = 0 | Some f \<Rightarrow> objs w f \<noteq> None \<and> stage w f c = 1"
      using inv unfolding own_inv_def stages_ok_def by blast
    have "ow_owner z \<noteq> Some e" using al(5)[of c] z' by (auto simp: child_def)
    then have "ow_owner z = Some f \<Longrightarrow> stage ?w f c = stage w f c" for f
      using z'(2) nt by (auto simp: stage_def)
    then show "case ow_owner z of None \<Rightarrow> nterm (queue ?w c) = 0 | Some f \<Rightarrow> objs ?w f \<noteq> None \<and> stage ?w f c = 1"
      using old \<open>ow_owner z \<noteq> Some e\<close> nt(1) by (cases "ow_owner z") auto
  qed
  have reqs: "reqs_ok ?w"
    unfolding reqs_ok_def
  proof
    fix f
    have "covered (queue w f) (\<exists>c. child w f c)" using inv by (simp add: own_inv_def reqs_ok_def)
    moreover have "child w f c \<Longrightarrow> ow_owner x \<noteq> Some f \<Longrightarrow> child ?w f c" for c
      unfolding ch using x by (auto simp: child_def)
    ultimately have "covered (queue w f) (\<exists>c. child ?w f c)" if "ow_owner x \<noteq> Some f"
      using that by (elim covered_mono exE) (rule exI)
    then show "covered (queue ?w f) (\<exists>c. child ?w f c)"
      using qq[of f] qo[of f] by (cases "ow_owner x = Some f") (auto simp: covered_snoc)
  qed
  have gone: "gone_ok ?w"
  proof -
    have "q e = []" using qq[of e] fe al(1) by auto
    moreover have "q f = []" if "objs w f = None" for f
    proof -
      have "ow_owner x \<noteq> Some f" using stage_child(2)[OF inv own] that by auto
      then show ?thesis using qq[of f] that inv by (auto simp: own_inv_def gone_ok_def)
    qed
    ultimately show ?thesis using inv al(3,4) la by (auto simp: own_inv_def gone_ok_def)
  qed
  have "{(c, f). child ?w f c} \<subseteq> {(c, f). child w f c}" unfolding ch by auto
  then have tree: "tree_ok ?w"
    using inv acyclic_subset[of "{(c, f). child w f c}" "{(c, f). child ?w f c}"]
    by (simp add: own_inv_def tree_ok_def)
  show ?thesis using seq acks refs stages reqs gone tree by (simp add: own_inv_def)
qed

lemma destroy_potential:
  assumes inv: "own_inv w" and x: "objs w e = Some x" and d: "doomed x" and la: "launching w e = None"
    and q: "q = (case ow_owner x of None \<Rightarrow> queue w | Some f \<Rightarrow> (queue w)(f := queue w f @ [Term_ack]))"
  shows "own_potential (w\<lparr>queue := q, objs := (objs w)(e := None)\<rparr>) \<le> own_potential w"
proof -
  let ?w = "w\<lparr>queue := q, objs := (objs w)(e := None)\<rparr>" and ?D = "dom (objs w)"
  have fin: "finite ?D" "e \<in> ?D" using inv x by (auto simp: own_inv_def tree_ok_def)
  have "(\<Sum>d \<in> ?D - {e}. length (q d)) \<le> (\<Sum>d \<in> ?D - {e}. length (queue w d) + of_bool (ow_owner x = Some d))"
    by (rule sum_mono) (auto simp: q split: option.splits)
  also have "\<dots> \<le> (\<Sum>d \<in> ?D - {e}. length (queue w d)) + 1"
    using fin(1) by (cases "ow_owner x") (simp_all add: sum.distrib of_bool_def sum.delta')
  also have "(\<Sum>d \<in> ?D - {e}. length (queue w d)) \<le> (\<Sum>d \<in> ?D. length (queue w d))"
    using fin by (intro sum_mono2) auto
  finally have s: "(\<Sum>d \<in> ?D - {e}. length (q d)) \<le> (\<Sum>d \<in> ?D. length (queue w d)) + 1" by simp
  have nt: "nterm (q g) = nterm (queue w g)" for g by (auto simp: q split: option.splits)
  have "{d \<in> dom (objs ?w). \<not> told ?w d} \<subseteq> {d \<in> ?D. \<not> told w d}"
    using nt by (auto simp: told_def)
  then have "card {d \<in> dom (objs ?w). \<not> told ?w d} \<le> card {d \<in> ?D. \<not> told w d}"
    using fin(1) by (intro card_mono) auto
  moreover have "dom (objs ?w) = ?D - {e}" by auto
  moreover have "Suc (card (?D - {e})) = card ?D" using fin by (rule card_Suc_Diff1)
  ultimately show ?thesis using s unfolding own_potential_def by simp
qed

lemma check_ok:
  assumes inv: "own_inv w" and x: "objs w e = Some x" and la: "launching w e = None"
    and st: "\<And>f y. f \<noteq> e \<Longrightarrow> objs w f = Some y \<Longrightarrow> \<not> doomed y"
  shows "\<exists>w'. check_term_acks e w = Some w' \<and> own_inv w' \<and> settled w' \<and> own_potential w' \<le> own_potential w"
proof (cases "doomed x")
  case False
  then have "settled w" using st x by (auto simp: settled_def) (metis option.inject)
  then show ?thesis using False x inv by (auto simp: check_term_acks_def doomed_def)
next
  case True
  have al: "ow_owned x = []" using doomed_alone[OF inv x True la] by simp
  define q where "q = (case ow_owner x of None \<Rightarrow> queue w | Some f \<Rightarrow> (queue w)(f := queue w f @ [Term_ack]))"
  have "objs w f \<noteq> None" if "ow_owner x = Some f" for f
    using stage_child(2)[OF inv, of f e] that x by (simp add: child_def)
  then have "check_term_acks e w = Some (w\<lparr>queue := q, objs := (objs w)(e := None)\<rparr>)"
    using x True al by (auto simp: check_term_acks_def doomed_def q_def send_command_def split: option.splits)
  moreover have "settled (w\<lparr>queue := q, objs := (objs w)(e := None)\<rparr>)" using st by (auto simp: settled_def)
  ultimately show ?thesis
    using destroy_inv[OF inv x True la q_def] destroy_potential[OF inv x True la q_def] by blast
qed

section \<open>The operations keep the invariant\<close>

lemma inv_at:
  assumes "own_inv w" "objs w e = Some x"
  shows "unat (processed_seqnum x) + nseq (queue w e) + reserved w e = unat (sent_seqnum x)"
    "distinct (ow_owned x)" "ow_terminating x \<Longrightarrow> ow_owned x = []"
    "c \<in> set (ow_owned x) \<Longrightarrow> child w e c" "Own c \<in> set (queue w e) \<Longrightarrow> child w e c"
    "launching w e = Some c \<Longrightarrow> child w e c" "covered (queue w e) (\<exists>c. child w e c)"
    "term_acks x = int (card (told_children w e) + nack (queue w e) + externals w e)"
  using assms by (auto simp: own_inv_def seq_ok_def refs_ok_def reqs_ok_def acks_ok_def)

lemma alive:
  assumes "own_inv w" "queue w e \<noteq> [] \<or> launching w e \<noteq> None \<or> 0 < reserved w e \<or> 0 < externals w e"
  obtains x where "objs w e = Some x"
  using assms by (cases "objs w e") (auto simp: own_inv_def gone_ok_def)

lemma unat_inc32: "(v :: 32 word) + 1 \<noteq> 0 \<Longrightarrow> unat (v + 1) = unat v + 1"
  using unatSuc[of v] by (simp add: add.commute)

lemma settled_step:
  assumes "settled w" "objs w' = (objs w)(e \<mapsto> y)" "\<not> doomed y"
  shows "settled w'"
  using assms by (auto simp: settled_def)

text \<open>A step that only counts: no child changes its stage.\<close>

lemma step_ok_count:
  assumes inv: "own_inv w" and x: "objs w e = Some x" and y: "ow_owner (os_rec u) = ow_owner x"
    "ow_terminating (os_rec u) = ow_terminating x" "ow_owned (os_rec u) = ow_owned x"
    and q: "nterm (os_queue u) = nterm (queue w e)" "\<And>c. count_list (os_queue u) (Own c) = count_list (queue w e) (Own c)"
      "covered (os_queue u) (\<exists>c. child w e c)"
    and o: "os_launching u = launching w e" "os_told u = {}"
    and n: "unat (processed_seqnum (os_rec u)) + nseq (os_queue u) + os_reserved u = unat (sent_seqnum (os_rec u))"
      "term_acks (os_rec u) + int (nack (queue w e) + externals w e) =
       term_acks x + int (nack (os_queue u) + os_externals u)"
  shows "step_ok e x u w"
proof -
  have "Own c \<in> set (os_queue u) \<longleftrightarrow> Own c \<in> set (queue w e)" for c using q(2)[of c] by (metis count_pos)
  then show ?thesis unfolding step_ok_def Let_def using inv_at[OF inv x] y q o n by simp
qed

lemma reserve_ok:
  assumes inv: "own_inv w" and st: "settled w" and x: "objs w e = Some x" and b: "sent_seqnum x + 1 \<noteq> 0"
  shows "\<exists>w'. own_run Reserve e w = Some w' \<and> own_inv w' \<and> settled w'"
proof -
  let ?y = "x\<lparr>sent_seqnum := sent_seqnum x + 1\<rparr>"
  let ?w = "(put_own e ?y w)\<lparr>reserved := (reserved w)(e := reserved w e + 1)\<rparr>"
  let ?u = "\<lparr>os_rec = ?y, os_queue = queue w e, os_launching = launching w e, os_reserved = reserved w e + 1,
    os_externals = externals w e, os_told = {}\<rparr>"
  note at = inv_at[OF inv x]
  have "step_ok e x ?u w" by (rule step_ok_count[OF inv x]) (use at unat_inc32[OF b] in simp_all)
  moreover have "stepped e ?u w ?w" by (auto simp: stepped_def put_own_def fun_eq_iff)
  ultimately have iv: "own_inv ?w" by (rule own_inv_step[OF inv x])
  have "unat (processed_seqnum x) \<noteq> unat (sent_seqnum x + 1)" using at(1) unat_inc32[OF b] by simp
  then have "processed_seqnum x \<noteq> ucast (sent_seqnum x + 1)" by (metis unat_ucast_seqnum)
  then have "settled ?w" using st by (intro settled_step[of w ?w e ?y]) (auto simp: put_own_def doomed_def)
  then show ?thesis using iv x by (simp add: inc_seqnum_def put_own_def)
qed

lemma post_ok:
  assumes inv: "own_inv w" and st: "settled w" and r: "0 < reserved w e"
  shows "\<exists>w'. own_run Post e w = Some w' \<and> own_inv w' \<and> settled w'"
proof -
  obtain x where x: "objs w e = Some x" using inv r alive by blast
  let ?w = "w\<lparr>reserved := (reserved w)(e := reserved w e - 1), queue := (queue w)(e := queue w e @ [Sequenced])\<rparr>"
  let ?u = "\<lparr>os_rec = x, os_queue = queue w e @ [Sequenced], os_launching = launching w e,
    os_reserved = reserved w e - 1, os_externals = externals w e, os_told = {}\<rparr>"
  note at = inv_at[OF inv x]
  have "step_ok e x ?u w"
    by (rule step_ok_count[OF inv x]) (use at r in \<open>simp_all add: covered_snoc\<close>)
  moreover have "stepped e ?u w ?w" using x by (auto simp: stepped_def fun_eq_iff)
  ultimately have "own_inv ?w" by (rule own_inv_step[OF inv x])
  moreover have "settled ?w" using st by (simp add: settled_def)
  ultimately show ?thesis using x by (simp add: send_command_def)
qed

lemma register_ok:
  assumes inv: "own_inv w" and st: "settled w" and x: "objs w e = Some x"
  shows "\<exists>w'. own_run (Register n) e w = Some w' \<and> own_inv w' \<and> settled w'"
proof -
  let ?y = "x\<lparr>term_acks := term_acks x + int n\<rparr>"
  let ?w = "(put_own e ?y w)\<lparr>externals := (externals w)(e := externals w e + n)\<rparr>"
  let ?u = "\<lparr>os_rec = ?y, os_queue = queue w e, os_launching = launching w e, os_reserved = reserved w e,
    os_externals = externals w e + n, os_told = {}\<rparr>"
  note at = inv_at[OF inv x]
  have "step_ok e x ?u w" by (rule step_ok_count[OF inv x]) (use at in simp_all)
  moreover have "stepped e ?u w ?w" by (auto simp: stepped_def put_own_def fun_eq_iff)
  ultimately have iv: "own_inv ?w" by (rule own_inv_step[OF inv x])
  have "\<not> doomed x" "0 \<le> term_acks x" using st x at(8) by (auto simp: settled_def)
  then have "\<not> doomed ?y" by (auto simp: doomed_def)
  then have "settled ?w" using st by (intro settled_step[of w ?w e ?y]) (auto simp: put_own_def)
  then show ?thesis using iv x by (simp add: register_term_acks_def put_own_def)
qed

text \<open>A step that ends with the check whether the object can be deallocated.\<close>

lemma step_check:
  assumes inv: "own_inv w" and st: "settled w" and x: "objs w e = Some x" and u: "step_ok e x u w" "stepped e u w w1"
    and la: "os_launching u = None" and t: "ow_terminating x \<Longrightarrow> ow_terminating (os_rec u)"
  shows "\<exists>w'. check_term_acks e w1 = Some w' \<and> own_inv w' \<and> settled w' \<and>
    own_potential w' + length (queue w e) \<le> own_potential w + length (os_queue u)"
proof -
  have "\<exists>w'. check_term_acks e w1 = Some w' \<and> own_inv w' \<and> settled w' \<and> own_potential w' \<le> own_potential w1"
  proof (rule check_ok)
    show "own_inv w1" using inv x u by (rule own_inv_step)
    show "objs w1 e = Some (os_rec u)" "launching w1 e = None" using u(2) la by (auto simp: stepped_def)
    show "\<not> doomed y" if "f \<noteq> e" "objs w1 f = Some y" for f y
      using that u(2) st by (auto simp: stepped_def settled_def)
  qed
  then show ?thesis using potential_step[OF inv x u t] by fastforce
qed

lemma unregister_ok:
  assumes inv: "own_inv w" and st: "settled w" and x: "objs w e = Some x" and la: "launching w e = None"
    and n: "0 < nack (queue w e) + externals w e"
    and w1: "w1 = w\<lparr>queue := (queue w)(e := q), externals := (externals w)(e := ex)\<rparr>"
    and q: "nterm q = nterm (queue w e)" "\<And>c. count_list q (Own c) = count_list (queue w e) (Own c)"
      "nseq q = nseq (queue w e)" "covered q (\<exists>c. child w e c)" "Suc (nack q + ex) = nack (queue w e) + externals w e"
  shows "\<exists>w'. unregister_term_ack e w1 = Some w' \<and> own_inv w' \<and> settled w' \<and> own_potential w' + length (queue w e) \<le> own_potential w + length q"
proof -
  let ?y = "x\<lparr>term_acks := term_acks x - 1\<rparr>"
  let ?u = "\<lparr>os_rec = ?y, os_queue = q, os_launching = launching w e, os_reserved = reserved w e,
    os_externals = ex, os_told = {}\<rparr>"
  note at = inv_at[OF inv x]
  have "step_ok e x ?u w" by (rule step_ok_count[OF inv x]) (use at q in simp_all)
  moreover have "stepped e ?u w (put_own e ?y w1)" using w1 by (auto simp: stepped_def put_own_def fun_eq_iff)
  ultimately have "\<exists>w'. check_term_acks e (put_own e ?y w1) = Some w' \<and> own_inv w' \<and> settled w' \<and> own_potential w' + length (queue w e) \<le> own_potential w + length q"
    using step_check[OF inv st x, of ?u] la by simp
  moreover have "term_acks x > 0" using at(8) n by linarith
  ultimately show ?thesis using x w1 by (simp add: unregister_term_ack_def)
qed

lemma unat_inc64:
  assumes "unat (v :: 64 word) < unat (s :: 32 word)"
  shows "unat (v + 1) = unat v + 1"
proof -
  have "unat s < 2 ^ 32" using unsigned_less[of s] by simp
  then have "unat v + 1 < 2 ^ 64" using assms by simp
  then show ?thesis by (subst unat_add_lem[THEN iffD1]) simp_all
qed

lemma seqnum_ok:
  assumes inv: "own_inv w" and st: "settled w" and x: "objs w e = Some x" and la: "launching w e = None"
    and q: "queue w e = c # cs" "c = Plug \<or> c = Sequenced"
  shows "\<exists>w'. process_seqnum e (w\<lparr>queue := (queue w)(e := cs)\<rparr>) = Some w' \<and> own_inv w' \<and> settled w' \<and> own_potential w' + length (queue w e) \<le> own_potential w + length cs"
proof -
  let ?y = "x\<lparr>processed_seqnum := processed_seqnum x + 1\<rparr>"
  let ?w = "put_own e ?y (w\<lparr>queue := (queue w)(e := cs)\<rparr>)"
  let ?u = "\<lparr>os_rec = ?y, os_queue = cs, os_launching = launching w e, os_reserved = reserved w e,
    os_externals = externals w e, os_told = {}\<rparr>"
  note at = inv_at[OF inv x]
  have "unat (processed_seqnum x) < unat (sent_seqnum x)" using at(1) q by auto
  then have "unat (processed_seqnum x + 1) = unat (processed_seqnum x) + 1" by (rule unat_inc64)
  then have "step_ok e x ?u w" by (intro step_ok_count[OF inv x]) (use at q in auto)
  moreover have "stepped e ?u w ?w" by (auto simp: stepped_def put_own_def fun_eq_iff)
  ultimately have "\<exists>w'. check_term_acks e ?w = Some w' \<and> own_inv w' \<and> settled w' \<and> own_potential w' + length (queue w e) \<le> own_potential w + length cs"
    using step_check[OF inv st x, of ?u] la by simp
  then show ?thesis using x by (simp add: process_seqnum_def)
qed

text \<open>Requests to terminate a child, from the child or from the object itself (\<open>term_child\<close>).\<close>

lemma term_req_ok:
  assumes inv: "own_inv w" and st: "settled w" and x: "objs w e = Some x"
    and q: "queue w e = q \<or> (\<exists>d. queue w e = Term_req d # q)"
  shows "\<exists>w'. process_term_req c e (w\<lparr>queue := (queue w)(e := q)\<rparr>) = Some w' \<and> own_inv w' \<and> settled w' \<and> own_potential w' + length (queue w e) \<le> own_potential w + length q"
proof -
  let ?w = "w\<lparr>queue := (queue w)(e := q)\<rparr>"
  note at = inv_at[OF inv x]
  have qs: "nterm q = nterm (queue w e)" "nseq q = nseq (queue w e)" "nack q = nack (queue w e)"
    "covered q (\<exists>c. child w e c)" "count_list q (Own c) = count_list (queue w e) (Own c)"
    "Own c \<in> set q \<longleftrightarrow> Own c \<in> set (queue w e)" for c
    using q at(7) by auto
  show ?thesis
  proof (cases "ow_terminating x \<or> c \<notin> set (ow_owned x)")
    case True
    let ?u = "\<lparr>os_rec = x, os_queue = q, os_launching = launching w e, os_reserved = reserved w e,
      os_externals = externals w e, os_told = {}\<rparr>"
    have "step_ok e x ?u w" by (rule step_ok_count[OF inv x]) (use at qs in simp_all)
    moreover have "stepped e ?u w ?w" using x by (auto simp: stepped_def fun_eq_iff)
    ultimately have "own_inv ?w" "own_potential ?w + length (queue w e) \<le> own_potential w + length q"
      using own_inv_step[OF inv x, of ?u ?w] potential_step[OF inv x, of ?u ?w] by simp_all
    then show ?thesis using True x st by (auto simp: process_term_req_def settled_def)
  next
    case False
    then have cc: "child w e c" using at(4) by blast
    then have ca: "objs w c \<noteq> None" "c \<noteq> e"
      using stage_child(3)[OF inv] not_own_child[OF inv, of e] by auto
    let ?y = "x\<lparr>ow_owned := remove1 c (ow_owned x), term_acks := term_acks x + 1\<rparr>"
    let ?r = "(put_own e ?y ?w)\<lparr>queue := (queue ?w)(c := queue ?w c @ [Term (ow_linger x)])\<rparr>"
    let ?u = "\<lparr>os_rec = ?y, os_queue = q, os_launching = launching w e, os_reserved = reserved w e,
      os_externals = externals w e, os_told = {c}\<rparr>"
    have "step_ok e x ?u w"
      unfolding step_ok_def Let_def using at qs cc False by (auto simp: of_bool_def)
    moreover have "stepped e ?u w ?r"
      using ca(2) by (auto simp: stepped_def put_own_def fun_eq_iff intro!: exI[of _ "ow_linger x"])
    ultimately have iv: "own_inv ?r" "own_potential ?r + length (queue w e) \<le> own_potential w + length q"
      using own_inv_step[OF inv x, of ?u ?r] potential_step[OF inv x, of ?u ?r] False by simp_all
    have "settled ?r"
      using False st by (intro settled_step[of w ?r e ?y]) (auto simp: put_own_def doomed_def)
    then show ?thesis using iv False x ca
      by (auto simp: process_term_req_def register_term_acks_def put_own_def send_command_def)
  qed
qed

lemma own_cmd_ok:
  assumes inv: "own_inv w" and st: "settled w" and x: "objs w e = Some x" and la: "launching w e = None"
    and q: "queue w e = Own c # q"
  shows "\<exists>w'. own_process_command (Own c) e (w\<lparr>queue := (queue w)(e := q)\<rparr>) = Some w' \<and> own_inv w' \<and> settled w' \<and> own_potential w' + length (queue w e) \<le> own_potential w + length q"
proof -
  let ?w = "w\<lparr>queue := (queue w)(e := q)\<rparr>"
  note at = inv_at[OF inv x]
  have cc: "child w e c" using at(5) q by auto
  then have ca: "objs w c \<noteq> None" "c \<noteq> e"
    using stage_child(3)[OF inv] not_own_child[OF inv, of e] by auto
  have s1: "stage w e c = 1" using stage_child(1)[OF inv cc] .
  then have no: "c \<notin> set (ow_owned x)" using q x by (simp add: stage_def)
  have "unat (processed_seqnum x) < unat (sent_seqnum x)" using at(1) q by auto
  then have up: "unat (processed_seqnum x + 1) = unat (processed_seqnum x) + 1" by (rule unat_inc64)
  show ?thesis
  proof (cases "ow_terminating x")
    case True
    let ?y = "x\<lparr>term_acks := term_acks x + 1, processed_seqnum := processed_seqnum x + 1\<rparr>"
    let ?r = "put_own e ?y (?w\<lparr>queue := (queue ?w)(c := queue ?w c @ [Term 0])\<rparr>)"
    let ?u = "\<lparr>os_rec = ?y, os_queue = q, os_launching = None, os_reserved = reserved w e,
      os_externals = externals w e, os_told = {c}\<rparr>"
    have "step_ok e x ?u w"
      unfolding step_ok_def Let_def using at q cc True no up la by (auto simp: of_bool_def)
    moreover have "stepped e ?u w ?r"
      using ca(2) la by (auto simp: stepped_def put_own_def fun_eq_iff intro!: exI[of _ 0])
    ultimately have "\<exists>w'. check_term_acks e ?r = Some w' \<and> own_inv w' \<and> settled w' \<and> own_potential w' + length (queue w e) \<le> own_potential w + length q"
      using step_check[OF inv st x, of ?u] by simp
    then show ?thesis using x ca True
      by (auto simp add: own_process_command_def process_own_def register_term_acks_def send_command_def
          process_seqnum_def put_own_def)
  next
    case False
    let ?y = "x\<lparr>ow_owned := insort_insert c (ow_owned x), processed_seqnum := processed_seqnum x + 1\<rparr>"
    let ?r = "put_own e ?y ?w"
    let ?u = "\<lparr>os_rec = ?y, os_queue = q, os_launching = None, os_reserved = reserved w e,
      os_externals = externals w e, os_told = {}\<rparr>"
    have "step_ok e x ?u w"
      unfolding step_ok_def Let_def using at q cc False no up la
      by (auto simp: of_bool_def set_insort_insert distinct_insort_insert)
    moreover have "stepped e ?u w ?r" using la by (auto simp: stepped_def put_own_def fun_eq_iff)
    ultimately have "\<exists>w'. check_term_acks e ?r = Some w' \<and> own_inv w' \<and> settled w' \<and> own_potential w' + length (queue w e) \<le> own_potential w + length q"
      using step_check[OF inv st x, of ?u] by simp
    then show ?thesis using x False
      by (simp add: own_process_command_def process_own_def process_seqnum_def put_own_def)
  qed
qed

lemma send_terms_eq:
  assumes "distinct cs" "\<And>c. c \<in> set cs \<Longrightarrow> objs w c \<noteq> None"
  shows "send_terms l cs w =
    Some (w\<lparr>queue := (\<lambda>d. if d \<in> set cs then queue w d @ [Term l] else queue w d)\<rparr>)"
  using assms
proof (induction cs arbitrary: w)
  case (Cons c cs)
  let ?w = "w\<lparr>queue := (queue w)(c := queue w c @ [Term l])\<rparr>"
  have "send_command (Term l) c w = Some ?w" using Cons(3)[of c] by (auto simp: send_command_def)
  moreover have "send_terms l cs ?w =
      Some (?w\<lparr>queue := (\<lambda>d. if d \<in> set cs then queue ?w d @ [Term l] else queue ?w d)\<rparr>)"
    by (rule Cons(1)) (use Cons(2,3) in auto)
  moreover have "(\<lambda>d. if d \<in> set cs then queue ?w d @ [Term l] else queue ?w d) =
      (\<lambda>d. if d \<in> set (c # cs) then queue w d @ [Term l] else queue w d)" using Cons(2) by (auto simp: fun_eq_iff)
  ultimately show ?case by simp
qed simp

lemma process_term_ok:
  assumes inv: "own_inv w" and st: "settled w" and x: "objs w e = Some x" and la: "launching w e = None"
    and q: "ow_owner x \<noteq> None \<and> queue w e = Term m # q \<or> ow_owner x = None \<and> queue w e = q \<and> \<not> ow_terminating x"
  shows "\<exists>w'. own_process_term l e (w\<lparr>queue := (queue w)(e := q)\<rparr>) = Some w' \<and> own_inv w' \<and> settled w' \<and> own_potential w' + length (queue w e) \<le> own_potential w + length q"
proof -
  let ?w = "w\<lparr>queue := (queue w)(e := q)\<rparr>"
  note at = inv_at[OF inv x]
  have nt: "\<not> ow_terminating x"
  proof (cases "ow_owner x")
    case (Some f)
    then have "child w f e" using x by (simp add: child_def)
    then have "stage w f e = 1" using stage_child(1)[OF inv] by blast
    then show ?thesis using q Some x by (auto simp: stage_def)
  qed (use q in simp)
  let ?y = "x\<lparr>term_acks := term_acks x + int (length (ow_owned x)), ow_owned := [], ow_terminating := True\<rparr>"
  define w1 where "w1 = ?w\<lparr>queue := (\<lambda>d. if d \<in> set (ow_owned x) then queue ?w d @ [Term l] else queue ?w d)\<rparr>"
  let ?u = "\<lparr>os_rec = ?y, os_queue = q, os_launching = None, os_reserved = reserved w e,
    os_externals = externals w e, os_told = set (ow_owned x)\<rparr>"
  have ne: "e \<notin> set (ow_owned x)" using at(4)[of e] not_own_child[OF inv] by blast
  have sd: "send_terms l (ow_owned x) ?w = Some w1"
    unfolding w1_def by (rule send_terms_eq) (use at(2) at(4) stage_child(3)[OF inv] in auto)
  have qs: "nseq q = nseq (queue w e)" "nack q = nack (queue w e)" "covered q (\<exists>c. child w e c)"
    "count_list q (Own c) = count_list (queue w e) (Own c)" "Own c \<in> set q \<longleftrightarrow> Own c \<in> set (queue w e)" for c
    using q at(7) by auto
  have qn: "ow_owner x = None \<Longrightarrow> nterm q = nterm (queue w e)" "ow_owner x \<noteq> None \<Longrightarrow> nterm q + 1 = nterm (queue w e)"
    using q by auto
  have "step_ok e x ?u w"
    unfolding step_ok_def Let_def using at qs qn nt la by (simp add: distinct_card of_bool_def)
  moreover have "stepped e ?u w (put_own e ?y w1)"
    using ne la by (auto simp: stepped_def put_own_def w1_def fun_eq_iff intro!: exI[of _ l])
  ultimately have "\<exists>w'. check_term_acks e (put_own e ?y w1) = Some w' \<and> own_inv w' \<and> settled w' \<and> own_potential w' + length (queue w e) \<le> own_potential w + length q"
    using step_check[OF inv st x, of ?u] by simp
  moreover have "objs w1 e = Some x" using x by (simp add: w1_def)
  ultimately show ?thesis using x sd nt by (simp add: own_process_term_def)
qed

lemma terminate_ok:
  assumes inv: "own_inv w" and st: "settled w" and x: "objs w e = Some x" and la: "launching w e = None"
  shows "\<exists>w'. own_terminate e w = Some w' \<and> own_inv w' \<and> settled w'"
proof (cases "ow_terminating x")
  case True
  then show ?thesis using x inv st by (simp add: own_terminate_def)
next
  case nt: False
  show ?thesis
  proof (cases "ow_owner x")
    case None
    have "w\<lparr>queue := (queue w)(e := queue w e)\<rparr> = w" by simp
    then show ?thesis using process_term_ok[OF inv st x la, of 0 "queue w e" "ow_linger x"] None nt x
      by (auto simp: own_terminate_def)
  next
    case (Some f)
    then have ch: "child w f e" using x by (simp add: child_def)
    then obtain z where z: "objs w f = Some z" using stage_child(2)[OF inv] by blast
    note at = inv_at[OF inv z]
    let ?w = "w\<lparr>queue := (queue w)(f := queue w f @ [Term_req e])\<rparr>"
    let ?u = "\<lparr>os_rec = z, os_queue = queue w f @ [Term_req e], os_launching = launching w f,
      os_reserved = reserved w f, os_externals = externals w f, os_told = {}\<rparr>"
    have "step_ok f z ?u w"
      by (rule step_ok_count[OF inv z]) (use at ch in \<open>auto simp: covered_snoc\<close>)
    moreover have "stepped f ?u w ?w" using z by (auto simp: stepped_def fun_eq_iff)
    ultimately have "own_inv ?w" by (rule own_inv_step[OF inv z])
    then show ?thesis using x nt Some z st by (simp add: own_terminate_def send_command_def settled_def)
  qed
qed

lemma launched_ok:
  assumes inv: "own_inv w" and st: "settled w" and l: "launching w e = Some c"
    and b: "\<And>x. objs w e = Some x \<Longrightarrow> sent_seqnum x + 1 \<noteq> 0"
  shows "\<exists>w'. own_run Launched e w = Some w' \<and> own_inv w' \<and> settled w'"
proof -
  obtain x where x: "objs w e = Some x" using inv l alive[of w e] by auto
  note at = inv_at[OF inv x] and b = b[OF x]
  have cc: "child w e c" using at(6) l by blast
  let ?y = "x\<lparr>sent_seqnum := sent_seqnum x + 1\<rparr>"
  let ?w = "(put_own e ?y w)\<lparr>queue := (queue w)(e := queue w e @ [Own c]), launching := (launching w)(e := None)\<rparr>"
  let ?u = "\<lparr>os_rec = ?y, os_queue = queue w e @ [Own c], os_launching = None, os_reserved = reserved w e,
    os_externals = externals w e, os_told = {}\<rparr>"
  have "step_ok e x ?u w"
    unfolding step_ok_def Let_def using at l cc unat_inc32[OF b] by (auto simp: covered_snoc of_bool_def)
  moreover have "stepped e ?u w ?w" by (auto simp: stepped_def put_own_def fun_eq_iff)
  ultimately have iv: "own_inv ?w" by (rule own_inv_step[OF inv x])
  have "unat (processed_seqnum x) \<noteq> unat (sent_seqnum x + 1)" using at(1) unat_inc32[OF b] by simp
  then have "processed_seqnum x \<noteq> ucast (sent_seqnum x + 1)" by (metis unat_ucast_seqnum)
  then have "settled ?w" using st by (intro settled_step[of w ?w e ?y]) (auto simp: put_own_def doomed_def)
  then show ?thesis using iv x l by (simp add: send_own_def inc_seqnum_def send_command_def put_own_def)
qed

lemma launch_inv:
  assumes inv: "own_inv w" and x: "objs w e = Some x" and la: "launching w e = None" and c: "objs w c = None"
    and y: "y = (own_init l)\<lparr>ow_owner := Some e, sent_seqnum := 1\<rparr>"
  shows "own_inv (w\<lparr>objs := (objs w)(c \<mapsto> y), queue := (queue w)(c := [Plug]), launching := (launching w)(e := Some c)\<rparr>)"
    (is "own_inv ?w")
proof -
  have ce: "c \<noteq> e" using x c by auto
  have nc: "\<not> child w c d" "\<not> child w d c" for d using stage_child(2)[OF inv, of c d] c by (auto simp: child_def)
  have ch: "child ?w f d \<longleftrightarrow> child w f d \<or> f = e \<and> d = c" for f d
    using c y by (auto simp: child_def)
  have g: "queue w c = []" "launching w c = None" "reserved w c = 0" "externals w c = 0"
    using inv c by (auto simp: own_inv_def gone_ok_def)
  have td: "told ?w d \<longleftrightarrow> d \<noteq> c \<and> told w d" for d
    by (auto simp: told_def y own_init_def)
  have tc: "told_children ?w f = told_children w f" for f
    unfolding told_children_def ch td using nc(2) by auto
  have empty: "told_children w c = {}" using nc by (auto simp: told_children_def)
  have "seq_ok ?w" using inv g y by (auto simp: own_inv_def seq_ok_def own_init_def)
  moreover have "acks_ok ?w"
    using inv g y empty unfolding own_inv_def acks_ok_def tc by (auto simp: own_init_def)
  moreover have "refs_ok ?w"
    using inv g y ce unfolding own_inv_def refs_ok_def ch by (auto simp: own_init_def)
  moreover have "stages_ok ?w"
    unfolding stages_ok_def
  proof (intro allI impI)
    fix d z assume z: "objs ?w d = Some z"
    show "case ow_owner z of None \<Rightarrow> nterm (queue ?w d) = 0 | Some f \<Rightarrow> objs ?w f \<noteq> None \<and> stage ?w f d = 1"
    proof (cases "d = c")
      case True
      then have zy: "z = y" "ow_owner z = Some e" "\<not> ow_terminating z" using z y by (auto simp: own_init_def)
      have "Own c \<notin> set (queue w e)" "c \<notin> set (ow_owned x)" using inv_at(4,5)[OF inv x, of c] nc by blast+
      then have "stage ?w e c = 1" using zy x ce by (simp add: stage_def count_list_0_iff)
      then show ?thesis using zy True x ce by simp
    next
      case False
      then have z': "objs w d = Some z" using z by simp
      then have old: "case ow_owner z of None \<Rightarrow> nterm (queue w d) = 0 | Some f \<Rightarrow> objs w f \<noteq> None \<and> stage w f d = 1"
        using inv unfolding own_inv_def stages_ok_def by blast
      have "stage ?w f d = stage w f d" if "ow_owner z = Some f" for f
        using that old False c la by (auto simp: stage_def)
      then show ?thesis using old False c by (cases "ow_owner z") auto
    qed
  qed
  moreover have "reqs_ok ?w"
    unfolding reqs_ok_def
  proof
    fix f
    have "covered (queue w f) (\<exists>d. child w f d)" using inv by (simp add: own_inv_def reqs_ok_def)
    then have "covered (queue w f) (\<exists>d. child ?w f d)" by (rule covered_mono) (auto simp: ch)
    then show "covered (queue ?w f) (\<exists>d. child ?w f d)" by simp
  qed
  moreover have "gone_ok ?w" using inv ce x by (auto simp: own_inv_def gone_ok_def)
  moreover have "tree_ok ?w"
  proof -
    let ?r = "{(d, f). child w f d}"
    have "(e, c) \<notin> ?r\<^sup>*" using ce nc(1) by (auto elim: rtranclE)
    then have "acyclic (insert (c, e) ?r)" using inv by (simp add: own_inv_def tree_ok_def)
    moreover have "{(d, f). child ?w f d} = insert (c, e) ?r" by (auto simp: ch)
    ultimately show ?thesis using inv by (simp add: own_inv_def tree_ok_def)
  qed
  ultimately show ?thesis by (simp add: own_inv_def)
qed

lemma launch_ok:
  assumes inv: "own_inv w" and st: "settled w" and x: "objs w e = Some x" and la: "launching w e = None"
    and c: "objs w c = None"
  shows "\<exists>w'. own_run (Launch c l) e w = Some w' \<and> own_inv w' \<and> settled w'"
proof -
  let ?y = "(own_init l)\<lparr>ow_owner := Some e, sent_seqnum := 1\<rparr>"
  let ?w = "w\<lparr>objs := (objs w)(c \<mapsto> ?y), queue := (queue w)(c := [Plug]), launching := (launching w)(e := Some c)\<rparr>"
  have "queue w c = []" using inv c by (auto simp: own_inv_def gone_ok_def)
  then have "own_run (Launch c l) e w = Some ?w"
    by (simp add: set_owner_def put_own_def own_init_def send_plug_def inc_seqnum_def send_command_def)
  moreover have "own_inv ?w" using inv x la c refl by (rule launch_inv)
  moreover have "settled ?w" using st by (auto simp: settled_def doomed_def own_init_def)
  ultimately show ?thesis by blast
qed

lemma own_deliver_ok:
  assumes inv: "own_inv w" and st: "settled w" and la: "launching w e = None" and q: "queue w e = c # cs"
  shows "\<exists>w'. own_run Own_deliver e w = Some w' \<and> own_inv w' \<and> settled w' \<and> own_potential w' < own_potential w"
proof -
  obtain x where x: "objs w e = Some x" using inv q alive[of w e] by auto
  note at = inv_at[OF inv x]
  let ?w = "w\<lparr>queue := (queue w)(e := cs)\<rparr>"
  have run: "own_run Own_deliver e w = own_process_command c e ?w" using q by simp
  show ?thesis
  proof (cases c)
    case (Term m)
    have "ow_owner x \<noteq> None"
    proof
      assume n: "ow_owner x = None"
      have "case ow_owner x of None \<Rightarrow> nterm (queue w e) = 0 | Some f \<Rightarrow> objs w f \<noteq> None \<and> stage w f e = 1"
        using inv x unfolding own_inv_def stages_ok_def by blast
      then show False using n q Term by simp
    qed
    then show ?thesis using process_term_ok[OF inv st x la, of m cs m] q Term run
      by (simp add: own_process_command_def Suc_le_eq)
  next
    case Term_ack
    have "\<exists>w'. unregister_term_ack e ?w = Some w' \<and> own_inv w' \<and> settled w' \<and>
        own_potential w' + length (queue w e) \<le> own_potential w + length cs"
      by (rule unregister_ok[OF inv st x la, where q = cs and ex = "externals w e"])
        (use q Term_ack at(7) in auto)
    then show ?thesis using run Term_ack q by (simp add: own_process_command_def Suc_le_eq)
  next
    case (Term_req d)
    then show ?thesis using term_req_ok[OF inv st x, of cs d] q run by (simp add: own_process_command_def Suc_le_eq)
  next
    case (Own d)
    then show ?thesis using own_cmd_ok[OF inv st x la] q run by (simp add: Suc_le_eq)
  qed (use seqnum_ok[OF inv st x la q] run q in \<open>simp_all add: own_process_command_def Suc_le_eq\<close>)
qed

lemma own_run_ok:
  assumes inv: "own_inv w" and st: "settled w" and en: "own_enabled op e w"
  shows "\<exists>w'. own_run op e w = Some w' \<and> own_inv w' \<and> settled w'"
proof (cases op)
  case (Launch c l)
  then obtain x where "objs w e = Some x" using en by auto
  then show ?thesis using launch_ok[OF inv st] en Launch by simp
next
  case Launched
  then obtain c where l: "launching w e = Some c" using en by auto
  have "sent_seqnum x + 1 \<noteq> 0" if "objs w e = Some x" for x using en Launched that by simp
  then show ?thesis using launched_ok[OF inv st l] Launched by blast
next
  case (Term_child c)
  then obtain x where "objs w e = Some x" using en by auto
  then show ?thesis using term_req_ok[OF inv st, of e x "queue w e" c] Term_child by auto
next
  case Terminate
  then obtain x where "objs w e = Some x" using en by auto
  then show ?thesis using terminate_ok[OF inv st] en Terminate by simp
next
  case (Register n)
  then obtain x where "objs w e = Some x" using en by auto
  then show ?thesis using register_ok[OF inv st] Register by simp
next
  case Unregister
  then obtain x where x: "objs w e = Some x" using inv en alive[of w e] by auto
  have "\<exists>w'. unregister_term_ack e (w\<lparr>externals := (externals w)(e := externals w e - 1)\<rparr>) = Some w' \<and>
      own_inv w' \<and> settled w' \<and> own_potential w' + length (queue w e) \<le> own_potential w + length (queue w e)"
    by (rule unregister_ok[OF inv st x, where q = "queue w e" and ex = "externals w e - 1"])
      (use en Unregister inv_at(7)[OF inv x] in auto)
  then show ?thesis using Unregister by auto
next
  case Reserve
  then show ?thesis using reserve_ok[OF inv st] en by (auto split: option.splits)
next
  case Post
  then show ?thesis using post_ok[OF inv st] en by simp
next
  case Own_deliver
  then obtain c cs where "queue w e = c # cs" using en by (cases "queue w e") auto
  then obtain w' where "own_run Own_deliver e w = Some w' \<and> own_inv w' \<and> settled w'"
    using own_deliver_ok[OF inv st, of e c cs] en Own_deliver by auto
  then show ?thesis using Own_deliver by blast
qed

lemma own_root_ok: "own_inv (own_root r l)" "settled (own_root r l)"
proof -
  have "\<not> child (own_root r l) e c" for e c by (auto simp: child_def own_root_def own_init_def)
  then show "own_inv (own_root r l)"
    by (auto simp: own_inv_def seq_ok_def acks_ok_def refs_ok_def stages_ok_def reqs_ok_def gone_ok_def
        tree_ok_def told_children_def own_root_def own_init_def acyclic_def split: if_splits)
  show "settled (own_root r l)" by (simp add: settled_def own_root_def own_init_def doomed_def)
qed

lemma own_reach_ok: "own_reach r w \<Longrightarrow> own_inv w \<and> settled w"
proof (induction rule: own_reach.induct)
  case (root l)
  then show ?case using own_root_ok by blast
next
  case (step w op e w')
  then show ?case using own_run_ok[of w op e] by auto
qed

section \<open>Completion\<close>

inductive own_deliveries :: "own_world \<Rightarrow> nat \<Rightarrow> own_world \<Rightarrow> bool" where
  none: "own_deliveries w 0 w"
| more: "own_deliveries w n w' \<Longrightarrow> own_enabled Own_deliver e w' \<Longrightarrow> own_run Own_deliver e w' = Some w'' \<Longrightarrow>
    own_deliveries w (Suc n) w''"

text \<open>Nobody launches or announces anything, no external event is awaited, the roots terminate.\<close>

definition winding_down :: "own_world \<Rightarrow> bool" where
  "winding_down w \<longleftrightarrow> launching w = (\<lambda>_. None) \<and> reserved w = (\<lambda>_. 0) \<and> externals w = (\<lambda>_. 0) \<and>
     (\<forall>e x. objs w e = Some x \<longrightarrow> ow_owner x = None \<longrightarrow> ow_terminating x)"

definition calm :: "own_world \<Rightarrow> own_world \<Rightarrow> bool" where
  "calm w w' \<longleftrightarrow> launching w' = launching w \<and> reserved w' = reserved w \<and> externals w' = externals w \<and>
     (\<forall>e y. objs w' e = Some y \<longrightarrow>
        (\<exists>x. objs w e = Some x \<and> ow_owner y = ow_owner x \<and> (ow_terminating x \<longrightarrow> ow_terminating y)))"

lemma calm_trans: "calm u v \<Longrightarrow> calm v w \<Longrightarrow> calm u w"
  unfolding calm_def by fastforce

lemma calm_refl: "calm w w"
  by (simp add: calm_def)

lemma calm_queue: "calm w (w\<lparr>queue := q\<rparr>)"
  by (simp add: calm_def)

lemma calm_put:
  "objs w e = Some x \<Longrightarrow> ow_owner y = ow_owner x \<Longrightarrow> (ow_terminating x \<longrightarrow> ow_terminating y) \<Longrightarrow> calm w (put_own e y w)"
  by (simp add: calm_def put_own_def)

lemma calm_send: "send_command c d w = Some w' \<Longrightarrow> calm w w'"
  by (auto simp: send_command_def calm_def split: bind_splits)

lemma calm_check: "check_term_acks e w = Some w' \<Longrightarrow> calm w w'"
  by (auto simp: check_term_acks_def send_command_def calm_def split: bind_splits if_splits option.splits)

lemma calm_put_check:
  assumes "check_term_acks e (put_own e y w) = Some w'" "objs w e = Some x" "ow_owner y = ow_owner x"
    "ow_terminating x \<longrightarrow> ow_terminating y"
  shows "calm w w'"
  using calm_trans[OF calm_put calm_check] assms by blast

lemma calm_seqnum: "process_seqnum e w = Some w' \<Longrightarrow> calm w w'"
  by (auto simp: process_seqnum_def split: bind_splits elim!: calm_put_check)

lemma calm_register: "register_term_acks n e w = Some w' \<Longrightarrow> calm w w'"
  by (auto simp: register_term_acks_def split: bind_splits intro: calm_put)

lemma calm_unregister: "unregister_term_ack e w = Some w' \<Longrightarrow> calm w w'"
  by (auto simp: unregister_term_ack_def split: bind_splits if_splits elim!: calm_put_check)

lemma calm_term_req:
  assumes "process_term_req c e w = Some w'"
  shows "calm w w'"
proof -
  obtain x where x: "objs w e = Some x" using assms by (auto simp: process_term_req_def split: bind_splits)
  have "calm w (put_own e (x\<lparr>ow_owned := remove1 c (ow_owned x)\<rparr>) w)" using x by (rule calm_put) simp_all
  then show ?thesis using assms x
    by (auto simp: process_term_req_def calm_refl split: bind_splits if_splits
        dest!: calm_register calm_send intro: calm_trans)
qed

lemma calm_own: "process_own c e w = Some w' \<Longrightarrow> calm w w'"
  by (auto simp: process_own_def split: bind_splits if_splits
      intro: calm_put calm_trans dest!: calm_register calm_send)

lemma calm_send_terms: "send_terms l cs w = Some w' \<Longrightarrow> calm w w'"
  by (induction cs arbitrary: w) (auto simp: calm_refl split: bind_splits intro: calm_trans[OF calm_send])

lemma calm_process_term:
  assumes "own_process_term l e w = Some w'"
  shows "calm w w'"
proof -
  obtain w1 x z where "objs w e = Some z" and t: "send_terms l (ow_owned z) w = Some w1" "objs w1 e = Some x"
    "check_term_acks e (put_own e (x\<lparr>term_acks := term_acks x + int (length (ow_owned x)), ow_owned := [],
       ow_terminating := True\<rparr>) w1) = Some w'"
    using assms by (auto simp: own_process_term_def split: bind_splits if_splits)
  have "calm w1 w'" using t(3,2) by (rule calm_put_check) simp_all
  then show ?thesis using calm_send_terms[OF t(1)] calm_trans by blast
qed

lemma calm_deliver:
  assumes "own_run Own_deliver e w = Some w'"
  shows "calm w w'"
proof -
  obtain c cs where q: "queue w e = c # cs" using assms by (cases "queue w e") auto
  let ?w = "w\<lparr>queue := (queue w)(e := cs)\<rparr>"
  have "own_process_command c e ?w = Some w'" using assms q by simp
  then have "calm ?w w'"
    by (cases c) (auto simp: own_process_command_def split: bind_splits
        intro: calm_seqnum calm_term_req calm_process_term calm_unregister calm_trans[OF calm_own calm_seqnum])
  then show ?thesis using calm_queue calm_trans by blast
qed

lemma own_deliveries_ok:
  assumes "own_deliveries w n w'" "own_inv w" "settled w" "winding_down w"
  shows "n + own_potential w' \<le> own_potential w \<and> own_inv w' \<and> settled w' \<and> winding_down w'"
  using assms
proof (induction rule: own_deliveries.induct)
  case (more w n w' e w'')
  then have ih: "n + own_potential w' \<le> own_potential w" "own_inv w'" "settled w'" "winding_down w'" by blast+
  obtain c cs where q: "queue w' e = c # cs" "launching w' e = None"
    using more(2) by (cases "queue w' e") auto
  have "own_inv w'' \<and> settled w'' \<and> own_potential w'' < own_potential w'"
    using own_deliver_ok[OF ih(2,3) q(2,1)] more(3) by auto
  moreover have "winding_down w''"
    using calm_deliver[OF more(3)] ih(4) unfolding calm_def winding_down_def by fastforce
  ultimately show ?case using ih(1) by simp
qed simp

lemma own_deliveries_exist:
  assumes "own_inv w" "settled w" "winding_down w"
  shows "\<exists>n w'. own_deliveries w n w' \<and> (\<forall>e. queue w' e = [])"
proof -
  have "\<exists>m w''. own_deliveries w m w'' \<and> (\<forall>e. queue w'' e = [])" if "own_deliveries w n w'" for n w'
    using that
  proof (induction "own_potential w'" arbitrary: n w' rule: less_induct)
    case less
    have ok: "own_inv w'" "settled w'" "winding_down w'"
      using own_deliveries_ok[OF less(2) assms] by blast+
    show ?case
    proof (cases "\<forall>e. queue w' e = []")
      case False
      then obtain e where e: "queue w' e \<noteq> []" by blast
      then obtain c cs where q: "queue w' e = c # cs" by (cases "queue w' e") auto
      have la: "launching w' e = None" using ok(3) by (simp add: winding_down_def)
      obtain w'' where "own_run Own_deliver e w' = Some w''" "own_potential w'' < own_potential w'"
        using own_deliver_ok[OF ok(1,2) la q] by blast
      moreover have "own_enabled Own_deliver e w'" using e la by simp
      ultimately show ?thesis using less(1) own_deliveries.more[OF less(2)] by blast
    qed (use less(2) in blast)
  qed
  then show ?thesis using own_deliveries.none by blast
qed

lemma quiet_empty:
  assumes inv: "own_inv w" and st: "settled w" and wd: "winding_down w" and q: "\<forall>e. queue w e = []"
  shows "objs w = Map.empty"
proof (rule ccontr)
  assume ne: "objs w \<noteq> Map.empty"
  let ?D = "dom (objs w)" and ?r = "{(c, e). child w e c}"
  have fin: "finite ?D" "acyclic ?r" using inv by (simp_all add: own_inv_def tree_ok_def)
  have sub: "?r \<subseteq> ?D \<times> ?D" using stage_child(2,3)[OF inv] by blast
  have fr: "finite ?r" using sub fin(1) by (meson finite_SigmaI finite_subset)
  have la: "launching w e = None" "reserved w e = 0" "externals w e = 0" for e using wd by (simp_all add: winding_down_def)
  have trm: "\<forall>x. objs w e = Some x \<longrightarrow> ow_terminating x" for e
    using finite_acyclic_wf_converse[OF fr fin(2)]
  proof (induction e rule: wf_induct_rule)
    case (less e)
    show ?case
    proof (intro allI impI)
      fix x assume x: "objs w e = Some x"
      show "ow_terminating x"
      proof (cases "ow_owner x")
        case None
        then show ?thesis using wd x by (simp add: winding_down_def)
      next
        case (Some f)
        then have ch: "child w f e" using x by (simp add: child_def)
        obtain z where z: "objs w f = Some z" using stage_child(2)[OF inv ch] by blast
        then have "ow_terminating z" using less ch by simp
        then have "ow_owned z = []" using inv_at(3)[OF inv z] by blast
        moreover have "stage w f e = 1" using stage_child(1)[OF inv ch] .
        ultimately show ?thesis using x z la q by (simp add: stage_def of_bool_def split: if_splits)
      qed
    qed
  qed
  obtain d where "d \<in> ?D" using ne by fastforce
  with finite_acyclic_wf[OF fr fin(2)] obtain e where e: "e \<in> ?D" "\<And>y. (y, e) \<in> ?r \<Longrightarrow> y \<notin> ?D"
    by (rule wfE_min) blast
  then obtain x where x: "objs w e = Some x" by blast
  have "told_children w e = {}" using e(2) by (auto simp: told_children_def child_def)
  then have "term_acks x = 0" using inv_at(8)[OF inv x] q la by simp
  moreover have "unat (processed_seqnum x) = unat (sent_seqnum x)" using inv_at(1)[OF inv x] q la by simp
  then have "processed_seqnum x = ucast (sent_seqnum x)" by (metis unat_ucast_seqnum word_unat_eq_iff)
  ultimately have "doomed x" using trm x by (simp add: doomed_def)
  then show False using st x by (auto simp: settled_def)
qed

section \<open>Properties\<close>

text \<open>
  C31: whatever the objects of an ownership tree do and in whichever order the commands between them are
  delivered, no operation fails: no assertion of \<open>own.cpp\<close> is violated and no command is sent to an
  object that was deallocated, also when addresses are reused.
\<close>

theorem own_safe:
  assumes "own_reach r w" "own_enabled op e w"
  shows "\<exists>w'. own_run op e w = Some w'"
  using own_run_ok[of w op e] own_reach_ok[OF assms(1)] assms(2) by blast

theorem own_safe_witness: "\<exists>w'. own_run (Launch 2 0) 1 (own_root 1 (-1)) = Some w'"
  using own_safe[of 1 "own_root 1 (- 1)" "Launch 2 0" 1] own_reach.root[of 1 "- 1"] by (simp add: own_root_def)

text \<open>
  C32: once the root of the tree terminates and the objects launch nothing and wait for no other events,
  the handling of commands ends, after a bounded number of steps in whichever order they are delivered;
  then every object of the tree is deallocated.
\<close>

theorem own_completes:
  assumes "own_reach r w" "winding_down w"
  shows "(\<exists>n w'. own_deliveries w n w' \<and> (\<forall>e. queue w' e = [])) \<and>
    (\<forall>n w'. own_deliveries w n w' \<longrightarrow> n \<le> own_potential w \<and> ((\<forall>e. queue w' e = []) \<longrightarrow> objs w' = Map.empty))"
proof -
  have ok: "own_inv w" "settled w" using own_reach_ok[OF assms(1)] by blast+
  have "n \<le> own_potential w \<and> ((\<forall>e. queue w' e = []) \<longrightarrow> objs w' = Map.empty)" if "own_deliveries w n w'" for n w'
    using own_deliveries_ok[OF that ok assms(2)] quiet_empty[of w'] by auto
  then show ?thesis using own_deliveries_exist[OF ok assms(2)] by blast
qed

primrec own_runs :: "(own_op \<times> nat) list \<Rightarrow> own_world \<Rightarrow> own_world option" where
  "own_runs [] w = Some w"
| "own_runs (oe # os) w =
     (if own_enabled (fst oe) (snd oe) w then do { w \<leftarrow> own_run (fst oe) (snd oe) w; own_runs os w } else None)"

lemma own_runs_reach: "own_runs os w = Some w' \<Longrightarrow> own_reach r w \<Longrightarrow> own_reach r w'"
  by (induction os arbitrary: w) (auto split: if_splits bind_splits intro: own_reach.step)

lemmas own_eval = own_root_def own_init_def set_owner_def put_own_def send_plug_def inc_seqnum_def
  send_command_def send_own_def own_process_command_def process_own_def process_seqnum_def
  check_term_acks_def own_terminate_def own_process_term_def process_term_req_def register_term_acks_def

theorem own_completes_witness:
  "\<exists>w n w'. own_runs [(Launch 2 0, 1), (Launched, 1), (Own_deliver, 1), (Own_deliver, 2), (Terminate, 1)]
     (own_root 1 0) = Some w \<and> objs w 2 \<noteq> None \<and> own_deliveries w n w' \<and> objs w' = Map.empty"
proof -
  have "\<exists>w. own_runs [(Launch 2 0, 1), (Launched, 1), (Own_deliver, 1), (Own_deliver, 2), (Terminate, 1)]
     (own_root 1 0) = Some w \<and> winding_down w \<and> objs w 2 \<noteq> None"
    by (simp add: own_eval insort_insert_key_def winding_down_def)
  then obtain w where w: "own_runs [(Launch 2 0, 1), (Launched, 1), (Own_deliver, 1), (Own_deliver, 2), (Terminate, 1)]
     (own_root 1 0) = Some w" and d: "winding_down w" "objs w 2 \<noteq> None" by blast
  have "own_reach 1 w" using w own_reach.root by (rule own_runs_reach)
  from own_completes[OF this d(1)] show ?thesis using w d(2) by blast
qed

text \<open>
  A launched object can ask for its termination before its owner has sent itself the command that
  registers the object. Then the owner does not know the object when it handles the request, ignores it,
  and afterwards keeps an object that has asked to be terminated.
\<close>

lemma early_request_ignored:
  "\<exists>w x. own_reach 1 w \<and>
     own_runs [(Launch 2 0, 1), (Own_deliver, 2), (Terminate, 2), (Launched, 1), (Own_deliver, 1), (Own_deliver, 1)]
       (own_root 1 0) = Some w \<and>
     (\<forall>e. queue w e = []) \<and> objs w 1 = Some x \<and> 2 \<in> set (ow_owned x) \<and> \<not> told w 2"
proof -
  have "\<exists>w x. own_runs [(Launch 2 0, 1), (Own_deliver, 2), (Terminate, 2), (Launched, 1), (Own_deliver, 1),
      (Own_deliver, 1)] (own_root 1 0) = Some w \<and> (\<forall>e. queue w e = []) \<and> objs w 1 = Some x \<and>
      2 \<in> set (ow_owned x) \<and> \<not> told w 2"
    by (simp add: own_eval insort_insert_key_def told_def)
  then show ?thesis using own_runs_reach[OF _ own_reach.root] by blast
qed

text \<open>
  The counter of sent commands has 32 bits and the counter of processed ones 64: an object that has
  processed \<open>2^32\<close> commands is never deallocated.
\<close>

lemma seqnum_width: "2 ^ 32 \<le> unat (processed_seqnum x) \<Longrightarrow> \<not> doomed x"
proof
  assume "2 ^ 32 \<le> unat (processed_seqnum x)" "doomed x"
  then have "2 ^ 32 \<le> unat (sent_seqnum x)" by (simp add: doomed_def unat_ucast_seqnum)
  moreover have "unat (sent_seqnum x) < 2 ^ 32" using unsigned_less[of "sent_seqnum x"] by simp
  ultimately show False by simp
qed

end
