(* ===== verification/Engine.thy ===== *)
theory Engine
  imports Session
begin

text \<open>
  The engine of a connection: \<open>stream_engine_t\<close> of \<open>stream_engine.hpp\<close> and \<open>stream_engine.cpp\<close>. It exchanges
  greetings with the peer, selects the version of the protocol, and then moves bytes between the socket of
  the operating system and the encoder and decoder, which move messages from and to the session. What the
  engine uses of its session is an argument (\<open>session_if\<close>). The socket is modelled by the chunks of bytes
  that have arrived and whether the peer has closed the connection; how much of a write the operating
  system accepts is an argument of the handler. The options of that socket and the events for monitors of
  the connection are left out. A deleted engine and a failed assertion are different:
  the former is the engine \<open>None\<close> in the resulting state, the latter the result \<open>None\<close>.
\<close>

section \<open>State\<close>

record 's session_if =
  if_pull :: "'s pull"
  if_push :: "'s push"
  if_flush :: "'s \<Rightarrow> 's"
  if_detach :: "'s \<Rightarrow> 's"

text \<open>
  \<open>en_in\<close> are the bytes at \<open>inpos\<close>, \<open>en_out\<close> those at \<open>outpos\<close>, \<open>en_put\<close> the number of bytes that were put into
  \<open>greeting_output_buffer\<close>, \<open>en_diverted\<close> tells that the messages of the decoder go to the engine instead
  of the session.
\<close>

record stream_engine =
  en_io_enabled :: bool
  en_in :: bytes
  en_decoder :: "(proto \<times> decoder) option"
  en_diverted :: bool
  en_out :: bytes
  en_put :: nat
  en_encoder :: "(proto \<times> encoder) option"
  en_handshaking :: bool
  en_greeting :: bytes
  en_options :: "unit options"
  en_plugged :: bool
  en_terminating :: bool
  en_pollin :: bool
  en_pollout :: bool

record 's conn =
  engine :: "stream_engine option"
  sess :: 's
  rx :: "bytes list"
  rx_closed :: bool
  tx :: bytes

definition in_batch_size :: nat where "in_batch_size = 8192"
definition out_batch_size :: nat where "out_batch_size = 8192"
definition greeting_size :: nat where "greeting_size = 12"

definition stream_engine_init :: "unit options \<Rightarrow> stream_engine" where
  "stream_engine_init op =
     \<lparr>en_io_enabled = False, en_in = [], en_decoder = None, en_diverted = False, en_out = [], en_put = 0,
      en_encoder = None, en_handshaking = True, en_greeting = [], en_options = op, en_plugged = False,
      en_terminating = False, en_pollin = False, en_pollout = False\<rparr>"

definition put_engine :: "stream_engine \<Rightarrow> 's conn \<Rightarrow> 's conn" where
  "put_engine e c = c\<lparr>engine := Some e\<rparr>"

section \<open>The socket\<close>

datatype received = Again | Closed | Got bytes

definition se_read :: "nat \<Rightarrow> 's conn \<Rightarrow> received \<times> 's conn" where
  "se_read n c =
     (case rx c of
        [] \<Rightarrow> (if rx_closed c then Closed else Again, c)
      | b # bs \<Rightarrow> if b = [] \<or> n = 0 then (Closed, c)
          else if length b \<le> n then (Got b, c\<lparr>rx := bs\<rparr>)
          else (Got (take n b), c\<lparr>rx := drop n b # bs\<rparr>))"

section \<open>Ending\<close>

definition unplug :: "'s conn \<Rightarrow> 's conn option" where
  "unplug c = do {
     e \<leftarrow> engine c;
     if \<not> en_plugged e then None
     else Some (put_engine (e\<lparr>en_plugged := False, en_io_enabled := False\<rparr>) c) }"

definition se_error :: "'s session_if \<Rightarrow> 's conn \<Rightarrow> 's conn option" where
  "se_error i c = do {
     c \<leftarrow> unplug (c\<lparr>sess := if_detach i (sess c)\<rparr>);
     Some (c\<lparr>engine := None\<rparr>) }"

definition se_terminate :: "'s conn \<Rightarrow> 's conn option" where
  "se_terminate c = do {
     e \<leftarrow> engine c;
     if \<not> en_terminating e \<and> (case en_encoder e of None \<Rightarrow> False | Some (_, n) \<Rightarrow> has_data n)
     then Some (put_engine (e\<lparr>en_terminating := True\<rparr>) c)
     else do {
       c \<leftarrow> unplug c;
       Some (c\<lparr>engine := None\<rparr>) } }"

section \<open>Greeting\<close>

datatype greeted = Waiting | Failed | Decided

text \<open>The loop that receives the greeting.\<close>

lemma se_read_got: "se_read n c = (Got bs, c') \<Longrightarrow> 0 < n \<Longrightarrow> bs \<noteq> [] \<and> length bs \<le> n"
  by (auto simp: se_read_def split: list.splits if_splits)

definition greeting_answer :: "stream_engine \<Rightarrow> stream_engine" where
  "greeting_answer e =
     (if en_put e \<noteq> greeting_size then
        e\<lparr>en_pollout := en_pollout e \<or> en_out e = [],
          en_out := en_out e @ [1, of_int (type_code (socktype (en_options e)))], en_put := en_put e + 2\<rparr>
      else e)"

function greet_loop :: "stream_engine \<Rightarrow> 's conn \<Rightarrow> (greeted \<times> stream_engine \<times> 's conn) option" where
  "greet_loop e c =
     (if length (en_greeting e) < greeting_size then
        (case se_read (greeting_size - length (en_greeting e)) c of
           (Closed, c) \<Rightarrow> Some (Failed, e, c)
         | (Again, c) \<Rightarrow> Some (Waiting, e, c)
         | (Got bs, c) \<Rightarrow>
             let e = e\<lparr>en_greeting := en_greeting e @ bs\<rparr> in
             if en_greeting e ! 0 \<noteq> 0xff then Some (Decided, e, c)
             else if length (en_greeting e) < 10 then greet_loop e c
             else if en_greeting e ! 9 AND 1 = 0 then Some (Decided, e, c)
             else greet_loop (greeting_answer e) c)
      else Some (Decided, e, c))"
  by pat_completeness auto
termination
  by (relation "measure (\<lambda>(e, c). greeting_size - length (en_greeting e))")
    (auto simp: greeting_answer_def dest!: sym[of _ "se_read _ _"] se_read_got intro!: diff_less_mono2)

declare greet_loop.simps [simp del]

definition se_handshake :: "'s session_if \<Rightarrow> 's conn \<Rightarrow> (bool \<times> 's conn) option" where
  "se_handshake i c = do {
     e \<leftarrow> engine c;
     if \<not> en_handshaking e \<or> length (en_greeting e) \<ge> greeting_size then None
     else do {
       (r, e, c) \<leftarrow> greet_loop e c;
       (case r of
          Failed \<Rightarrow> do { c \<leftarrow> se_error i (put_engine e c); Some (False, c) }
        | Waiting \<Rightarrow> Some (False, put_engine e c)
        | Decided \<Rightarrow> do {
            let op = en_options e;
            let g = en_greeting e;
            (e, c) \<leftarrow>
              (if g ! 0 \<noteq> 0xff \<or> g ! 9 AND 1 = 0 then do {
                 let header_size = (if length (own_identity op) + 1 \<ge> 255 then 10 else 2);
                 let (tmp, _, enc, s) =
                   get_data V0 (Some (if_pull i)) (Some header_size) (encoder_init out_batch_size) (sess c);
                 if length tmp \<noteq> header_size then None
                 else Some (e\<lparr>en_encoder := Some (V0, enc),
                     en_decoder := Some (V0, decoder_init V0 in_batch_size (maxmsgsize op)), en_in := g,
                     en_diverted := (socktype op = PUB \<or> socktype op = XPUB)\<rparr>, c\<lparr>sess := s\<rparr>) }
               else if g ! 10 = 0 then
                 Some (e\<lparr>en_encoder := Some (V0, encoder_init out_batch_size),
                   en_decoder := Some (V0, decoder_init V0 in_batch_size (maxmsgsize op))\<rparr>, c)
               else
                 Some (e\<lparr>en_encoder := Some (V1, encoder_init out_batch_size),
                   en_decoder := Some (V1, decoder_init V1 in_batch_size (maxmsgsize op))\<rparr>, c));
            Some (True, put_engine (e\<lparr>en_pollout := en_pollout e \<or> en_out e = [], en_handshaking := False\<rparr>) c) }) } }"

section \<open>Receiving\<close>

text \<open>
  The sink of the decoder. While the messages are diverted, the first message goes to the session, and is
  followed by a subscription to everything; a refusal of the first is a failed assertion, a refused
  subscription takes the place of the message in the decoder.
\<close>

record 's esink =
  es_sess :: 's
  es_diverted :: bool
  es_failed :: bool
  es_replaced :: bool

definition se_push_msg :: "'s session_if \<Rightarrow> 's esink push" where
  "se_push_msg i f t =
     (if \<not> es_diverted t then
        (case if_push i f (es_sess t) of (r, fl, s) \<Rightarrow> (r, fl, t\<lparr>es_sess := s\<rparr>))
      else (case if_push i f (es_sess t) of
          (Some _, _, s) \<Rightarrow> (None, 0, t\<lparr>es_failed := True\<rparr>)
        | (None, _, s) \<Rightarrow> (case if_push i (frame_of 0 [1]) s of
            (r, fl, s) \<Rightarrow> (r, fl, t\<lparr>es_sess := if_flush i s, es_diverted := False, es_replaced := r \<noteq> None\<rparr>))))"

definition es_of :: "stream_engine \<Rightarrow> 's \<Rightarrow> 's esink" where
  "es_of e s = \<lparr>es_sess = s, es_diverted = en_diverted e, es_failed = False, es_replaced = False\<rparr>"

definition se_store :: "proto \<Rightarrow> decoder \<Rightarrow> 's esink \<Rightarrow> stream_engine \<Rightarrow> 's conn \<Rightarrow> (stream_engine \<times> 's conn) option" where
  "se_store pr d t e c =
     (if es_failed t then None
      else Some (e\<lparr>en_decoder := Some (pr, if es_replaced t then d\<lparr>d_acc := [1], d_size := 1\<rparr> else d),
        en_diverted := es_diverted t\<rparr>, c\<lparr>sess := es_sess t\<rparr>))"

definition se_process ::
    "'s session_if \<Rightarrow> (nat \<Rightarrow> bool) \<Rightarrow> bool \<Rightarrow> bytes \<Rightarrow> stream_engine \<Rightarrow> 's conn \<Rightarrow>
     (nat option \<times> stream_engine \<times> 's conn) option" where
  "se_process i alloc zc data e c = do {
     (pr, d) \<leftarrow> en_decoder e;
     (r, d, t) \<leftarrow> process_buffer pr alloc (Some (se_push_msg i)) zc data d (es_of e (sess c));
     (e, c) \<leftarrow> se_store pr d t e c;
     Some (r, e, c) }"

definition se_stalled ::
    "'s session_if \<Rightarrow> (nat \<Rightarrow> bool) \<Rightarrow> stream_engine \<Rightarrow> 's conn \<Rightarrow> (bool \<times> stream_engine \<times> 's conn) option" where
  "se_stalled i alloc e c = do {
     (pr, d) \<leftarrow> en_decoder e;
     (b, d, t) \<leftarrow> stalled pr alloc (Some (se_push_msg i)) d (es_of e (sess c));
     (e, c) \<leftarrow> se_store pr d t e c;
     Some (b, e, c) }"

definition in_event :: "'s session_if \<Rightarrow> (nat \<Rightarrow> bool) \<Rightarrow> 's conn \<Rightarrow> 's conn option" where
  "in_event i alloc c = do {
     e \<leftarrow> engine c;
     (go, c) \<leftarrow> (if en_handshaking e then se_handshake i c else Some (True, c));
     if \<not> go then Some c
     else do {
       e \<leftarrow> engine c;
       (pr, d) \<leftarrow> en_decoder e;
       let (zc, data, disconnection, c) =
         (if en_in e = [] then
            (let (zc, n) = get_buffer d in
             case se_read n c of
               (Again, c) \<Rightarrow> (zc, [], False, c)
             | (Closed, c) \<Rightarrow> (zc, [], True, c)
             | (Got bs, c) \<Rightarrow> (zc, bs, False, c))
          else (False, en_in e, False, c));
       (processed, e, c) \<leftarrow> se_process i alloc zc data e c;
       let (disconnection, e) =
         (case processed of
            None \<Rightarrow> (True, e)
          | Some n \<Rightarrow> (disconnection,
              e\<lparr>en_pollin := en_pollin e \<and> \<not> n < length data, en_in := drop n data\<rparr>));
       let c = c\<lparr>sess := if_flush i (sess c)\<rparr>;
       if disconnection then do {
         (st, e, c) \<leftarrow> se_stalled i alloc e c;
         if st then Some (put_engine (e\<lparr>en_io_enabled := False\<rparr>) c) else se_error i (put_engine e c) }
       else Some (put_engine e c) } }"

definition activate_in :: "'s session_if \<Rightarrow> (nat \<Rightarrow> bool) \<Rightarrow> 's conn \<Rightarrow> 's conn option" where
  "activate_in i alloc c = do {
     e \<leftarrow> engine c;
     if \<not> en_io_enabled e then do {
       (_, e, c) \<leftarrow> se_process i alloc False [] e c;
       (st, e, c) \<leftarrow> se_stalled i alloc e c;
       if st then None
       else se_error i (put_engine e (c\<lparr>sess := if_flush i (sess c)\<rparr>)) }
     else in_event i alloc (put_engine (e\<lparr>en_pollin := True\<rparr>) c) }"

section \<open>Sending\<close>

text \<open>The argument \<open>k\<close> is what \<open>send\<close> returns: an error, or the number of bytes it would take.\<close>

definition se_write :: "nat option \<Rightarrow> stream_engine \<Rightarrow> 's conn \<Rightarrow> 's conn option" where
  "se_write k e c =
     (case k of
        None \<Rightarrow>
          let c = put_engine (e\<lparr>en_pollout := False\<rparr>) c in
          if en_terminating e then se_terminate c else Some c
      | Some k \<Rightarrow>
          let n = min k (length (en_out e));
              e' = e\<lparr>en_out := drop n (en_out e)\<rparr>;
              e' = (if en_handshaking e' \<and> en_out e' = [] then e'\<lparr>en_pollout := False\<rparr> else e');
              c = put_engine e' (c\<lparr>tx := tx c @ take n (en_out e)\<rparr>)
          in if en_terminating e' \<and> en_out e' = [] then se_terminate c else Some c)"

definition out_event :: "'s session_if \<Rightarrow> nat option \<Rightarrow> 's conn \<Rightarrow> 's conn option" where
  "out_event i k c = do {
     e \<leftarrow> engine c;
     if en_out e = [] then
       (case en_encoder e of
          None \<Rightarrow> if en_handshaking e then Some c else None
        | Some (pr, enc) \<Rightarrow>
            let (bs, _, enc, s) = get_data pr (Some (if_pull i)) None enc (sess c);
                c = c\<lparr>sess := s\<rparr>;
                e = e\<lparr>en_out := bs, en_encoder := Some (pr, enc)\<rparr>
            in if bs = [] then Some (put_engine (e\<lparr>en_pollout := False\<rparr>) c) else se_write k e c)
     else se_write k e c }"

definition activate_out :: "'s session_if \<Rightarrow> nat option \<Rightarrow> 's conn \<Rightarrow> 's conn option" where
  "activate_out i k c = do {
     e \<leftarrow> engine c;
     out_event i k (put_engine (e\<lparr>en_pollout := True\<rparr>) c) }"

section \<open>Start\<close>

definition greeting_head :: "unit options \<Rightarrow> bytes" where
  "greeting_head op = 0xff # put_uint64 (of_nat (length (own_identity op) + 1)) @ [0x7f]"

definition plug :: "'s session_if \<Rightarrow> (nat \<Rightarrow> bool) \<Rightarrow> 's conn \<Rightarrow> 's conn option" where
  "plug i alloc c = do {
     e \<leftarrow> engine c;
     if en_plugged e then None
     else in_event i alloc (put_engine (e\<lparr>en_plugged := True, en_io_enabled := True,
       en_out := en_out e @ greeting_head (en_options e), en_put := 10, en_pollin := True, en_pollout := True\<rparr>) c) }"

section \<open>Negotiation\<close>

text \<open>What the first bytes of the peer say about its protocol, once there are enough of them.\<close>

datatype verdict = Unversioned | Versioned proto

definition negotiate :: "bytes \<Rightarrow> verdict option" where
  "negotiate g =
     (if g = [] then None
      else if g ! 0 \<noteq> 0xff then Some Unversioned
      else if length g < 10 then None
      else if g ! 9 AND 1 = 0 then Some Unversioned
      else if length g < 12 then None
      else Some (Versioned (if g ! 10 = 0 then V0 else V1)))"

definition versioned :: "bytes \<Rightarrow> bool" where
  "versioned g \<longleftrightarrow> 10 \<le> length g \<and> g ! 0 = 0xff \<and> g ! 9 AND 1 \<noteq> 0"

lemma negotiate_append: "negotiate g = Some v \<Longrightarrow> negotiate (g @ z) = Some v"
  by (auto simp: negotiate_def nth_append split: if_splits)

definition greeting_ok :: "stream_engine \<Rightarrow> bool" where
  "greeting_ok e \<longleftrightarrow> negotiate (en_greeting e) = None \<and>
     en_put e = (if versioned (en_greeting e) then greeting_size else 10)"

lemma greeting_ok_short: "greeting_ok e \<Longrightarrow> length (en_greeting e) < greeting_size"
  by (auto simp: greeting_ok_def negotiate_def greeting_size_def split: if_splits)

text \<open>The changes the loop makes to the engine: the rest of the greeting is sent at most once.\<close>

definition answered :: "stream_engine \<Rightarrow> bytes \<Rightarrow> stream_engine \<Rightarrow> bool" where
  "answered e g e' \<longleftrightarrow> (\<exists>b. e' =
     (if versioned g \<and> en_put e \<noteq> greeting_size
      then e\<lparr>en_greeting := g, en_pollout := b,
        en_out := en_out e @ [1, of_int (type_code (socktype (en_options e)))], en_put := en_put e + 2\<rparr>
      else e\<lparr>en_greeting := g, en_pollout := b\<rparr>))"

lemma se_read_stream:
  assumes "se_read n c = (r, c')" "0 < n" "[] \<notin> set (rx c)"
  shows "c' = c\<lparr>rx := rx c'\<rparr>" "[] \<notin> set (rx c')"
    "concat (rx c) = (case r of Got bs \<Rightarrow> bs | _ \<Rightarrow> []) @ concat (rx c')"
    "r = Again \<Longrightarrow> rx c' = [] \<and> rx c = [] \<and> \<not> rx_closed c" "r = Closed \<Longrightarrow> rx c' = [] \<and> rx c = [] \<and> rx_closed c"
    "r = Got bs \<Longrightarrow> bs \<noteq> [] \<and> length bs \<le> n"
  using assms by (auto simp: se_read_def split: list.splits if_splits)

lemma answered_more:
  assumes "answered (greeting_answer (e\<lparr>en_greeting := g\<rparr>)) g' e'" "versioned g" "versioned g'"
    "en_put e = 10 \<or> en_put e = greeting_size"
  shows "answered e g' e'"
proof -
  let ?e = "greeting_answer (e\<lparr>en_greeting := g\<rparr>)"
  have "en_put ?e = greeting_size" using assms(4) by (auto simp: greeting_answer_def greeting_size_def)
  then obtain b where "e' = ?e\<lparr>en_greeting := g', en_pollout := b\<rparr>" using assms(1) by (auto simp: answered_def)
  then show ?thesis using assms(3) unfolding answered_def
    by (intro exI[of _ b]) (simp add: greeting_answer_def)
qed

lemma answered_greet:
  assumes "answered (e\<lparr>en_greeting := h\<rparr>) g e'"
  shows "answered e g e'"
proof -
  obtain b where "e' = (if versioned g \<and> en_put (e\<lparr>en_greeting := h\<rparr>) \<noteq> greeting_size
      then e\<lparr>en_greeting := h, en_greeting := g, en_pollout := b, en_out := en_out (e\<lparr>en_greeting := h\<rparr>) @
        [1, of_int (type_code (socktype (en_options (e\<lparr>en_greeting := h\<rparr>))))],
        en_put := en_put (e\<lparr>en_greeting := h\<rparr>) + 2\<rparr>
      else e\<lparr>en_greeting := h, en_greeting := g, en_pollout := b\<rparr>)"
    using assms unfolding answered_def by blast
  then show ?thesis unfolding answered_def by (intro exI[of _ b]) simp
qed

lemma versioned_append: "versioned g \<Longrightarrow> versioned (g @ t)"
  by (auto simp: versioned_def nth_append)

definition greet_post :: "stream_engine \<Rightarrow> 's conn \<Rightarrow> greeted \<Rightarrow> stream_engine \<Rightarrow> 's conn \<Rightarrow> bytes \<Rightarrow> bool" where
  "greet_post e c r e' c' g \<longleftrightarrow> c' = c\<lparr>rx := rx c'\<rparr> \<and> [] \<notin> set (rx c') \<and> answered e g e' \<and>
    g @ concat (rx c') = en_greeting e @ concat (rx c) \<and> (\<exists>t. g = en_greeting e @ t) \<and>
    (r = Decided \<longrightarrow> negotiate g \<noteq> None \<and> length g \<le> greeting_size \<and> (versioned g \<longrightarrow> length g = greeting_size)) \<and>
    (r \<noteq> Decided \<longrightarrow> negotiate g = None \<and> rx c' = [] \<and> (r = Failed \<longleftrightarrow> rx_closed c))"

lemma greet_post_read:
  assumes "greet_post e1 c1 r e' c' g" "c1 = c\<lparr>rx := rx c1\<rparr>" "concat (rx c) = bs @ concat (rx c1)"
    "en_greeting e1 = en_greeting e @ bs" "answered e1 g e' \<Longrightarrow> answered e g e'"
  shows "greet_post e c r e' c' g"
proof -
  obtain z where z: "c1 = c\<lparr>rx := z\<rparr>" using assms(2) by blast
  show ?thesis using assms(1,3-5) unfolding z greet_post_def by auto
qed

lemma greet_loop_result:
  assumes "[] \<notin> set (rx c)" "greeting_ok e \<or> length (en_greeting e) = greeting_size \<and> versioned (en_greeting e) \<and> en_put e = greeting_size"
  shows "\<exists>r e' c' g. greet_loop e c = Some (r, e', c') \<and> greet_post e c r e' c' g"
  using assms
proof (induction e c rule: greet_loop.induct)
  case (1 e c)
  have put: "en_put e = 10 \<or> en_put e = greeting_size" using 1(4) by (auto simp: greeting_ok_def split: if_splits)
  have self: "answered e (en_greeting e) e"
    using 1(4) by (auto simp: answered_def greeting_ok_def greeting_size_def intro!: exI[of _ "en_pollout e"])
  show ?case
  proof (cases "length (en_greeting e) < greeting_size")
    case False
    then have f: "versioned (en_greeting e)" "length (en_greeting e) = greeting_size" using 1(4) greeting_ok_short by auto
    then have "negotiate (en_greeting e) \<noteq> None" by (auto simp: negotiate_def versioned_def greeting_size_def)
    then show ?thesis using self f False 1(3)
      by (intro exI[of _ Decided] exI[of _ e] exI[of _ c] exI[of _ "en_greeting e"]) (simp add: greet_post_def greet_loop.simps[of e c])
  next
    case True
    then have ok: "negotiate (en_greeting e) = None" using 1(4) by (auto simp: greeting_ok_def)
    obtain r1 c1 where rd: "se_read (greeting_size - length (en_greeting e)) c = (r1, c1)" by fastforce
    have n0: "0 < greeting_size - length (en_greeting e)" using True by simp
    note sr = se_read_stream[OF rd n0 1(3)]
    show ?thesis
    proof (cases r1)
      case Again
      then show ?thesis using sr rd ok self True 1(3)
        by (intro exI[of _ Waiting] exI[of _ e] exI[of _ c1] exI[of _ "en_greeting e"]) (simp add: greet_post_def greet_loop.simps[of e c])
    next
      case Closed
      then show ?thesis using sr rd ok self True 1(3)
        by (intro exI[of _ Failed] exI[of _ e] exI[of _ c1] exI[of _ "en_greeting e"]) (simp add: greet_post_def greet_loop.simps[of e c])
    next
      case (Got bs)
      let ?g = "en_greeting e @ bs" and ?e = "e\<lparr>en_greeting := en_greeting e @ bs\<rparr>"
      have bs: "bs \<noteq> []" "length ?g \<le> greeting_size" "concat (rx c) = bs @ concat (rx c1)" using sr(3,6) Got True by auto
      have same: "answered e ?g ?e" if "\<not> versioned ?g"
        using that by (auto simp: answered_def intro!: exI[of _ "en_pollout e"])
      have nv: "\<not> versioned (en_greeting e)" if "length ?g < 10 \<or> ?g ! 9 AND 1 = 0"
        using that by (auto simp: versioned_def nth_append split: if_splits)
      consider (plain) "?g ! 0 \<noteq> 0xff" | (short) "?g ! 0 = 0xff" "length ?g < 10"
        | (ident) "?g ! 0 = 0xff" "10 \<le> length ?g" "?g ! 9 AND 1 = 0"
        | (vers) "?g ! 0 = 0xff" "10 \<le> length ?g" "?g ! 9 AND 1 \<noteq> 0" by linarith
      then show ?thesis
      proof cases
        case plain
        then have run: "greet_loop e c = Some (Decided, ?e, c1)" using rd Got True by (simp add: greet_loop.simps[of e c])
        have "negotiate ?g = Some Unversioned" "\<not> versioned ?g" using plain bs(1) by (auto simp: negotiate_def versioned_def)
        then show ?thesis using run same sr(1,2) bs
          by (intro exI[of _ Decided] exI[of _ ?e] exI[of _ c1] exI[of _ ?g]) (simp add: greet_post_def)
      next
        case ident
        then have run: "greet_loop e c = Some (Decided, ?e, c1)" using rd Got True by (simp add: greet_loop.simps[of e c])
        have "negotiate ?g = Some Unversioned" "\<not> versioned ?g" using ident bs(1) by (auto simp: negotiate_def versioned_def)
        then show ?thesis using run same sr(1,2) bs
          by (intro exI[of _ Decided] exI[of _ ?e] exI[of _ c1] exI[of _ ?g]) (simp add: greet_post_def)
      next
        case short
        then have run: "greet_loop e c = greet_loop ?e c1" using rd Got True by (simp add: greet_loop.simps[of e c])
        have "\<not> versioned ?g" "negotiate ?g = None" using short by (auto simp: versioned_def negotiate_def)
        then have "greeting_ok ?e" using 1(4) nv short True by (auto simp: greeting_ok_def)
        then obtain r e' c' g where ih: "greet_loop ?e c1 = Some (r, e', c')" "greet_post ?e c1 r e' c' g"
          using 1(1)[OF True rd[symmetric] Got refl] sr(2) short by auto
        have "greet_post e c r e' c' g" using ih(2) sr(1) bs(3) _ answered_greet by (rule greet_post_read) simp_all
        then show ?thesis using run ih(1) by auto
      next
        case vers
        let ?f = "greeting_answer ?e"
        have run: "greet_loop e c = greet_loop ?f c1" using vers rd Got True by (simp add: greet_loop.simps[of e c])
        have v: "versioned ?g" using vers by (simp add: versioned_def)
        have g: "en_greeting ?f = ?g" "en_put ?f = greeting_size"
          using put by (auto simp: greeting_answer_def greeting_size_def)
        have "greeting_ok ?f \<or> length (en_greeting ?f) = greeting_size \<and> versioned (en_greeting ?f) \<and> en_put ?f = greeting_size"
          using v g bs(2) vers by (auto simp: greeting_ok_def negotiate_def greeting_size_def)
        then obtain r e' c' h where ih: "greet_loop ?f c1 = Some (r, e', c')" "greet_post ?f c1 r e' c' h"
          using 1(2)[OF True rd[symmetric] Got refl] sr(2) vers by auto
        obtain t where "h = ?g @ t" using ih(2) g(1) by (auto simp: greet_post_def)
        then have "versioned h" using versioned_append[OF v, of t] by simp
        then have "answered ?f h e' \<Longrightarrow> answered e h e'" using answered_more v put by blast
        with ih(2) sr(1) bs(3) g(1) have "greet_post e c r e' c' h" by (rule greet_post_read)
        then show ?thesis using run ih(1) by auto
      qed
    qed
  qed
qed

text \<open>The first call of the encoder of the unversioned protocol yields the header of the identity.\<close>

lemma header_V0_length: "length (header V0 f) = (if length (fdata f) + 1 \<ge> 255 then 10 else 2)"
  by (simp add: header_def Let_def put_uint64_def)

lemma get_data_header:
  assumes "pull s = (Some f, s1)" "n = length (header V0 f)"
  shows "\<exists>o' enc. get_data V0 (Some pull) (Some n) (encoder_init m) s = (header V0 f, o', enc, s1) \<and>
    in_hand enc = fdata f \<and> e_next enc = E_size_ready \<and> e_pending enc = []"
proof -
  have n: "0 < n" using assms(2) by (simp add: header_V0_length)
  let ?e = "e_next_step (header V0 f) E_size_ready False ((encoder_init m)\<lparr>e_in_progress := f\<rparr>)"
  have nx: "enc_next V0 (Some pull) s (encoder_init m) = (True, ?e, s1)"
    using assms(1) by (simp add: enc_next_def e_message_ready_def encoder_init_def)
  have "enc_loop V0 (Some pull) True n [] (- 1) (encoder_init m) s =
      enc_loop V0 (Some pull) True n (header V0 f) 0 (?e\<lparr>e_pending := []\<rparr>) s1"
    using n nx assms(2) by (subst enc_loop.simps) (simp add: encoder_init_def e_next_step_def)
  also have "\<dots> = (header V0 f, 0, ?e\<lparr>e_pending := []\<rparr>, s1)" using assms(2) by (simp add: enc_loop.simps)
  finally show ?thesis by (auto simp: get_data_def in_hand_def e_next_step_def)
qed

definition type_byte :: "unit options \<Rightarrow> byte" where
  "type_byte op = of_int (type_code (socktype op))"

lemma answered_simps:
  assumes "answered e g e'" "greeting_ok e"
  shows "en_greeting e' = g" "en_options e' = en_options e" "en_in e' = en_in e" "en_handshaking e' = en_handshaking e"
    "en_plugged e' = en_plugged e" "en_terminating e' = en_terminating e" "en_io_enabled e' = en_io_enabled e"
    "en_diverted e' = en_diverted e"
    "en_out e' = en_out e @ (if versioned g \<and> \<not> versioned (en_greeting e) then [1, type_byte (en_options e)] else [])"
    "versioned (en_greeting e) \<longrightarrow> versioned g \<Longrightarrow> en_put e' = (if versioned g then greeting_size else 10)"
  using assms by (auto simp: answered_def greeting_ok_def greeting_size_def type_byte_def split: if_splits)

lemma negotiate_versioned:
  assumes "negotiate g = Some v"
  shows "versioned (g @ z) = versioned g" "v = Unversioned \<longleftrightarrow> g ! 0 \<noteq> 0xff \<or> g ! 9 AND 1 = 0"
    "v = Versioned pr \<Longrightarrow> pr = (if g ! 10 = 0 then V0 else V1)" "v = Versioned pr \<Longrightarrow> versioned g"
  using assms by (auto simp: negotiate_def versioned_def nth_append split: if_splits)

lemma own_header: "length (header V0 (frame_of 0 (own_identity op))) = (if length (own_identity op) + 1 \<ge> 255 then 10 else 2)"
  by (simp add: header_V0_length frame_of_def)

text \<open>The handshake after the greeting is decided.\<close>

lemma handshake_versioned:
  assumes "engine c = Some e" "en_handshaking e" "greeting_ok e" "greet_loop e c = Some (Decided, e1, c1)"
    "negotiate (en_greeting e1) = Some (Versioned pr)"
  shows "se_handshake i c = Some (True, put_engine (e1\<lparr>en_encoder := Some (pr, encoder_init out_batch_size),
    en_decoder := Some (pr, decoder_init pr in_batch_size (maxmsgsize (en_options e1))),
    en_pollout := en_pollout e1 \<or> en_out e1 = [], en_handshaking := False\<rparr>) c1)"
proof -
  note v = negotiate_versioned[OF assms(5)]
  have "\<not> (en_greeting e1 ! 0 \<noteq> 0xff \<or> en_greeting e1 ! 9 AND 1 = 0)" using v(2) by blast
  then show ?thesis using assms(1-4) greeting_ok_short[OF assms(3)] v(3)[OF refl] by (simp add: se_handshake_def)
qed

lemma handshake_unversioned:
  assumes "engine c = Some e" "en_handshaking e" "greeting_ok e" "greet_loop e c = Some (Decided, e1, c1)"
    "negotiate (en_greeting e1) = Some Unversioned"
    "if_pull i (sess c1) = (Some (frame_of 0 (own_identity (en_options e1))), s1)"
  shows "\<exists>enc. in_hand enc = own_identity (en_options e1) \<and>
    se_handshake i c = Some (True, put_engine (e1\<lparr>en_encoder := Some (V0, enc),
      en_decoder := Some (V0, decoder_init V0 in_batch_size (maxmsgsize (en_options e1))), en_in := en_greeting e1,
      en_diverted := (socktype (en_options e1) = PUB \<or> socktype (en_options e1) = XPUB),
      en_pollout := en_pollout e1 \<or> en_out e1 = [], en_handshaking := False\<rparr>) (c1\<lparr>sess := s1\<rparr>))"
proof -
  have u: "en_greeting e1 ! 0 \<noteq> 0xff \<or> en_greeting e1 ! 9 AND 1 = 0" using negotiate_versioned(2)[OF assms(5)] by blast
  let ?n = "if length (own_identity (en_options e1)) + 1 \<ge> 255 then 10 else 2"
  obtain ofs enc where g: "get_data V0 (Some (if_pull i)) (Some ?n) (encoder_init out_batch_size) (sess c1) =
      (header V0 (frame_of 0 (own_identity (en_options e1))), ofs, enc, s1)"
    "in_hand enc = own_identity (en_options e1)"
    using get_data_header[of "if_pull i" "sess c1" _ s1 ?n out_batch_size] assms(6) own_header[of "en_options e1"]
    by (fastforce simp: frame_of_def)
  have "se_handshake i c = Some (True, put_engine (e1\<lparr>en_encoder := Some (V0, enc),
      en_decoder := Some (V0, decoder_init V0 in_batch_size (maxmsgsize (en_options e1))), en_in := en_greeting e1,
      en_diverted := (socktype (en_options e1) = PUB \<or> socktype (en_options e1) = XPUB),
      en_pollout := en_pollout e1 \<or> en_out e1 = [], en_handshaking := False\<rparr>) (c1\<lparr>sess := s1\<rparr>))"
    unfolding se_handshake_def using assms(1-4) greeting_ok_short[OF assms(3)] u g(1) own_header[of "en_options e1"]
    by (simp add: Let_def not_less[symmetric] del: One_nat_def)
  then show ?thesis using g(2) by blast
qed

lemma handshake_waiting:
  assumes "engine c = Some e" "en_handshaking e" "greeting_ok e" "greet_loop e c = Some (Waiting, e1, c1)"
  shows "se_handshake i c = Some (False, put_engine e1 c1)"
  using assms greeting_ok_short[OF assms(3)] by (simp add: se_handshake_def)

section \<open>Receiving from the network\<close>

lemma dec_next_bufsize: "dec_next pr alloc snk d s = Some (b, d', s') \<Longrightarrow> d_bufsize d' = d_bufsize d"
  by (auto simp: dec_next_def d_message_ready_def dec_steps d_next_step_def d_init_size_def d_set_flags_def
      decoding_error_def Let_def bind_eq_Some split: option.splits dec_step.splits proto.splits if_splits prod.splits)

lemma settle_bufsize: "settle pr alloc snk d s = Some (r, d', s') \<Longrightarrow> d_bufsize d' = d_bufsize d"
  by (induction pr alloc snk d s rule: settle.induct)
    (subst (asm) (2) settle.simps, auto dest: dec_next_bufsize split: if_splits option.splits)

lemma dec_loop_bufsize: "dec_loop pr alloc snk pos data d s = Some (r, d', s') \<Longrightarrow> d_bufsize d' = d_bufsize d"
  by (induction pr alloc snk pos data d s rule: dec_loop.induct)
    (subst (asm) (2) dec_loop.simps, auto dest: settle_bufsize simp: Let_def split: if_splits option.splits)

lemma process_buffer_bufsize:
  "process_buffer pr alloc snk zc data d s = Some (r, d', s') \<Longrightarrow> d_bufsize d' = d_bufsize d"
  by (auto simp: process_buffer_def bind_eq_Some dest: settle_bufsize dec_loop_bufsize split: if_splits)

text \<open>
  What the engine needs of a session that receives messages: it is a sink, and a flush changes nothing
  that was accepted. Behind an engine that does not divert its messages the session is still a sink.
\<close>

locale engine_sink = msg_sink "if_push i" got inv
  for i :: "'s session_if" and got :: "'s \<Rightarrow> frame list" and inv :: "'s \<Rightarrow> bool" +
  assumes flush_keeps: "inv s \<Longrightarrow> inv (if_flush i s) \<and> got (if_flush i s) = got s"

sublocale engine_sink \<subseteq> es: msg_sink "se_push_msg i" "\<lambda>t. got (es_sess t)"
  "\<lambda>t. inv (es_sess t) \<and> \<not> es_diverted t \<and> \<not> es_failed t \<and> \<not> es_replaced t"
proof
  fix s s' :: "'s esink" and f fl e
  assume i: "inv (es_sess s) \<and> \<not> es_diverted s \<and> \<not> es_failed s \<and> \<not> es_replaced s"
  show "se_push_msg i f s = (None, fl, s') \<Longrightarrow>
      (inv (es_sess s') \<and> \<not> es_diverted s' \<and> \<not> es_failed s' \<and> \<not> es_replaced s') \<and> got (es_sess s') = got (es_sess s) @ [f]"
    using i push_accepted[of "es_sess s" f] by (auto simp: se_push_msg_def split: prod.splits)
  show "se_push_msg i f s = (Some e, fl, s') \<Longrightarrow> e = EAGAIN \<and> fl = fflags f \<and>
      (inv (es_sess s') \<and> \<not> es_diverted s' \<and> \<not> es_failed s' \<and> \<not> es_replaced s') \<and> got (es_sess s') = got (es_sess s)"
    using i push_refused[of "es_sess s" f] by (auto simp: se_push_msg_def split: prod.splits)
qed

context engine_sink
begin

definition tracks :: "proto \<Rightarrow> (nat \<Rightarrow> bool) \<Rightarrow> decoder \<Rightarrow> 's \<Rightarrow> bytes \<Rightarrow> frame list \<times> frame list \<Rightarrow> bool" where
  "tracks pr alloc d s bs msgs \<longleftrightarrow> 0 < d_bufsize d \<and>
     es.track pr alloc d \<lparr>es_sess = s, es_diverted = False, es_failed = False, es_replaced = False\<rparr> bs msgs"

lemma tracks_flush: "tracks pr alloc d s bs msgs \<Longrightarrow> tracks pr alloc d (if_flush i s) bs msgs"
  using flush_keeps[of s] by (auto simp: tracks_def es.track_def)

lemma track_sink:
  assumes "es.track pr alloc d t bs msgs"
  shows "t = \<lparr>es_sess = es_sess t, es_diverted = False, es_failed = False, es_replaced = False\<rparr>"
  using assms by (cases t) (simp add: es.track_def)

lemma process_step:
  assumes "en_decoder e = Some (pr, d)" "\<not> en_diverted e" "tracks pr alloc d (sess c) (data @ rest) msgs"
    "zc \<longrightarrow> length data \<le> d_to_read d"
  shows "\<exists>n d' s'. se_process i alloc zc data e c = Some (Some n, e\<lparr>en_decoder := Some (pr, d'), en_diverted := False\<rparr>, c\<lparr>sess := s'\<rparr>) \<and>
    n \<le> length data \<and> tracks pr alloc d' s' (drop n data @ rest) msgs"
proof -
  have e: "es_of e (sess c) = \<lparr>es_sess = sess c, es_diverted = False, es_failed = False, es_replaced = False\<rparr>"
    using assms(2) by (simp add: es_of_def)
  have "es.track pr alloc d (es_of e (sess c)) (data @ rest) msgs" using assms(3) e by (simp add: tracks_def)
  from es.track_process[OF this assms(4)] obtain n d' t where
    p: "process_buffer pr alloc (Some (se_push_msg i)) zc data d (es_of e (sess c)) = Some (Some n, d', t)" "n \<le> length data"
    and t: "es.track pr alloc d' t (drop n data @ rest) msgs" by (elim exE conjE) (rule that)
  obtain s' where s': "t = \<lparr>es_sess = s', es_diverted = False, es_failed = False, es_replaced = False\<rparr>" using track_sink[OF t] by blast
  have "tracks pr alloc d' s' (drop n data @ rest) msgs"
    using t assms(3) process_buffer_bufsize[OF p(1)] by (simp add: tracks_def s')
  then show ?thesis using p assms(1) by (intro exI[of _ n] exI[of _ d'] exI[of _ s']) (simp add: se_process_def se_store_def s')
qed

lemma stalled_step:
  assumes "en_decoder e = Some (pr, d)" "\<not> en_diverted e" "tracks pr alloc d (sess c) rest msgs"
  shows "\<exists>b d' s'. se_stalled i alloc e c = Some (b, e\<lparr>en_decoder := Some (pr, d'), en_diverted := False\<rparr>, c\<lparr>sess := s'\<rparr>) \<and>
    tracks pr alloc d' s' rest msgs \<and> (\<not> b \<longrightarrow> d_to_read d' \<noteq> 0)"
proof -
  have e: "es_of e (sess c) = \<lparr>es_sess = sess c, es_diverted = False, es_failed = False, es_replaced = False\<rparr>"
    using assms(2) by (simp add: es_of_def)
  have tr: "es.track pr alloc d (es_of e (sess c)) rest msgs" using assms(3) e by (simp add: tracks_def)
  then obtain y where live: "d_next d = Some y" using expects_live unfolding es.track_def by blast
  from es.track_settle[OF tr] obtain r d' t where
    p: "settle pr alloc (Some (se_push_msg i)) d (es_of e (sess c)) = Some (r, d', t)" "r \<noteq> Dead" "r = Ready \<longrightarrow> d_to_read d' \<noteq> 0"
    and t: "es.track pr alloc d' t rest msgs" by (elim exE conjE) (rule that)
  obtain s' where s': "t = \<lparr>es_sess = s', es_diverted = False, es_failed = False, es_replaced = False\<rparr>" using track_sink[OF t] by blast
  have "tracks pr alloc d' s' rest msgs" using t assms(3) settle_bufsize[OF p(1)] by (simp add: tracks_def s')
  moreover have "r \<noteq> Stalled \<longrightarrow> d_to_read d' \<noteq> 0" using p(2,3) by (cases r) auto
  ultimately show ?thesis using p(1) assms(1) live
    by (intro exI[of _ "r = Stalled"] exI[of _ d'] exI[of _ s']) (simp add: se_stalled_def stalled_def se_store_def s')
qed

text \<open>
  An engine after its handshake, at which the bytes of \<open>msgs\<close> arrive: those in its buffer, those in the buffer of
  the operating system, and later ones.
\<close>

definition receiving :: "proto \<Rightarrow> (nat \<Rightarrow> bool) \<Rightarrow> 's conn \<Rightarrow> bytes \<Rightarrow> frame list \<times> frame list \<Rightarrow> bool" where
  "receiving pr alloc c later msgs \<longleftrightarrow> [] \<notin> set (rx c) \<and>
     (\<exists>e d. engine c = Some e \<and> \<not> en_handshaking e \<and> \<not> en_diverted e \<and> en_plugged e \<and> en_io_enabled e \<and>
        en_decoder e = Some (pr, d) \<and> tracks pr alloc d (sess c) (en_in e @ concat (rx c) @ later) msgs)"

lemma receivingE:
  assumes "receiving pr alloc c later msgs"
  obtains e d where "engine c = Some e" "\<not> en_handshaking e" "\<not> en_diverted e" "en_plugged e" "en_io_enabled e"
    "en_decoder e = Some (pr, d)" "tracks pr alloc d (sess c) (en_in e @ concat (rx c) @ later) msgs" "[] \<notin> set (rx c)"
  using assms unfolding receiving_def by blast

text \<open>The input an event processes: the bytes in the buffer, or else those the socket yields.\<close>

lemma input_data:
  assumes "se_read (snd (get_buffer d)) c = (r, c')" "0 < d_bufsize d" "[] \<notin> set (rx c)"
  shows "fst (get_buffer d) \<Longrightarrow> r = Got bs \<Longrightarrow> length bs \<le> d_to_read d"
    "c' = c\<lparr>rx := rx c'\<rparr>" "[] \<notin> set (rx c')" "concat (rx c) = (case r of Got bs \<Rightarrow> bs | _ \<Rightarrow> []) @ concat (rx c')"
    "r = Closed \<longleftrightarrow> rx c = [] \<and> rx_closed c"
proof -
  have n: "0 < snd (get_buffer d)" using assms(2) by (auto simp: get_buffer_def)
  note sr = se_read_stream[OF assms(1) n assms(3)]
  show "fst (get_buffer d) \<Longrightarrow> r = Got bs \<Longrightarrow> length bs \<le> d_to_read d"
    using sr(6)[of bs] by (auto simp: get_buffer_def split: if_splits)
  show "c' = c\<lparr>rx := rx c'\<rparr>" "[] \<notin> set (rx c')" "concat (rx c) = (case r of Got bs \<Rightarrow> bs | _ \<Rightarrow> []) @ concat (rx c')"
    using sr by blast+
  show "r = Closed \<longleftrightarrow> rx c = [] \<and> rx_closed c"
    using assms(1) n assms(3) by (auto simp: se_read_def split: list.splits if_splits)
qed

text \<open>An input event on an engine that receives, in terms of the input it processes.\<close>

lemma in_event_input:
  assumes e: "engine c = Some e" "\<not> en_handshaking e" "\<not> en_diverted e" "en_decoder e = Some (pr, d)"
    "tracks pr alloc d (sess c) (en_in e @ concat (rx c) @ later) msgs" "[] \<notin> set (rx c)"
  obtains z e1 d1 s1 where
    "in_event i alloc c = (if en_in e = [] \<and> rx c = [] \<and> rx_closed c then do {
         (st, e, c) \<leftarrow> se_stalled i alloc e1 (c\<lparr>rx := z, sess := s1\<rparr>);
         if st then Some (put_engine (e\<lparr>en_io_enabled := False\<rparr>) c) else se_error i (put_engine e c) }
       else Some (put_engine e1 (c\<lparr>rx := z, sess := s1\<rparr>)))"
    "e1 = e\<lparr>en_decoder := Some (pr, d1), en_diverted := False, en_pollin := en_pollin e \<and> en_in e1 = [], en_in := en_in e1\<rparr>"
    "tracks pr alloc d1 s1 (en_in e1 @ concat z @ later) msgs" "[] \<notin> set z"
    "en_in e = [] \<and> rx c = [] \<longrightarrow> en_in e1 = [] \<and> z = []"
proof -
  define r where "r = fst (se_read (snd (get_buffer d)) c)"
  define c1 where "c1 = snd (se_read (snd (get_buffer d)) c)"
  define zc where "zc = (en_in e = [] \<and> fst (get_buffer d))"
  define data where "data = (if en_in e = [] then (case r of Got bs \<Rightarrow> bs | _ \<Rightarrow> []) else en_in e)"
  define z where "z = (if en_in e = [] then rx c1 else rx c)"
  have rd: "se_read (snd (get_buffer d)) c = (r, c1)" by (simp add: r_def c1_def)
  have "0 < d_bufsize d" using e(5) by (simp add: tracks_def)
  note sr = input_data[OF rd this e(6)]
  have c1: "(if en_in e = [] then c1 else c) = c\<lparr>rx := z\<rparr>" using sr(2) by (auto simp: z_def)
  have bytes: "en_in e @ concat (rx c) @ later = data @ concat z @ later" using sr(4) by (auto simp: data_def z_def)
  have zc: "zc \<longrightarrow> length data \<le> d_to_read d" using sr(1) by (cases r) (auto simp: zc_def data_def)
  have z: "[] \<notin> set z" using sr(3) e(6) by (auto simp: z_def)
  have tr: "tracks pr alloc d (sess (c\<lparr>rx := z\<rparr>)) (data @ concat z @ later) msgs" using e(5) bytes by simp
  from process_step[OF e(4,3) tr zc] obtain n d1 s1 where
    p: "se_process i alloc zc data e (c\<lparr>rx := z\<rparr>) =
      Some (Some n, e\<lparr>en_decoder := Some (pr, d1), en_diverted := False\<rparr>, c\<lparr>rx := z, sess := s1\<rparr>)"
    and n: "n \<le> length data" and t1: "tracks pr alloc d1 s1 (drop n data @ concat z @ later) msgs" by (elim exE conjE) (rule that)
  let ?e = "e\<lparr>en_decoder := Some (pr, d1), en_diverted := False, en_pollin := en_pollin e \<and> drop n data = [], en_in := drop n data\<rparr>"
  let ?c = "c\<lparr>rx := z, sess := if_flush i s1\<rparr>"
  have inp: "(if en_in e = [] then (let (zc, n) = get_buffer d in case se_read n c of
       (Again, c) \<Rightarrow> (zc, [], False, c) | (Closed, c) \<Rightarrow> (zc, [], True, c) | (Got bs, c) \<Rightarrow> (zc, bs, False, c))
     else (False, en_in e, False, c)) = (zc, data, en_in e = [] \<and> rx c = [] \<and> rx_closed c, c\<lparr>rx := z\<rparr>)"
    using rd c1 sr(5) by (cases r) (auto simp: zc_def data_def split_beta)
  have "in_event i alloc c = (if en_in e = [] \<and> rx c = [] \<and> rx_closed c then do {
         (st, e, c) \<leftarrow> se_stalled i alloc ?e ?c;
         if st then Some (put_engine (e\<lparr>en_io_enabled := False\<rparr>) c) else se_error i (put_engine e c) }
       else Some (put_engine ?e ?c))"
    unfolding in_event_def using e(1,2,4) p n by (simp add: inp not_less) (auto simp: Let_def)
  moreover have "en_in e = [] \<and> rx c = [] \<longrightarrow> drop n data = [] \<and> z = []"
    using sr(4) z sr(3) n by (cases "rx c1") (auto simp: z_def data_def)
  ultimately show ?thesis using that[of ?e "if_flush i s1" z d1] tracks_flush[OF t1] z by simp
qed

lemma in_event_step:
  assumes "receiving pr alloc c later msgs" "rx_closed c \<longrightarrow> rx c \<noteq> []"
  shows "\<exists>c'. in_event i alloc c = Some c' \<and> receiving pr alloc c' later msgs \<and> tx c' = tx c \<and> rx_closed c' = rx_closed c"
proof -
  obtain e d where e: "engine c = Some e" "\<not> en_handshaking e" "\<not> en_diverted e" "en_plugged e" "en_io_enabled e"
    "en_decoder e = Some (pr, d)" "tracks pr alloc d (sess c) (en_in e @ concat (rx c) @ later) msgs" "[] \<notin> set (rx c)"
    using assms(1) by (rule receivingE)
  obtain z e1 d1 s1 where r: "in_event i alloc c = (if en_in e = [] \<and> rx c = [] \<and> rx_closed c then do {
         (st, e, c) \<leftarrow> se_stalled i alloc e1 (c\<lparr>rx := z, sess := s1\<rparr>);
         if st then Some (put_engine (e\<lparr>en_io_enabled := False\<rparr>) c) else se_error i (put_engine e c) }
       else Some (put_engine e1 (c\<lparr>rx := z, sess := s1\<rparr>)))"
    and e1: "e1 = e\<lparr>en_decoder := Some (pr, d1), en_diverted := False, en_pollin := en_pollin e \<and> en_in e1 = [], en_in := en_in e1\<rparr>"
    and t: "tracks pr alloc d1 s1 (en_in e1 @ concat z @ later) msgs" "[] \<notin> set z"
    using e(1-3,6-8) by (rule in_event_input)
  obtain b x where "e1 = e\<lparr>en_decoder := Some (pr, d1), en_diverted := False, en_pollin := b, en_in := x\<rparr>" using e1 by blast
  then have "\<not> en_handshaking e1 \<and> \<not> en_diverted e1 \<and> en_plugged e1 \<and> en_io_enabled e1 \<and> en_decoder e1 = Some (pr, d1)"
    using e by simp
  then have "receiving pr alloc (put_engine e1 (c\<lparr>rx := z, sess := s1\<rparr>)) later msgs"
    using t by (simp add: receiving_def put_engine_def)
  moreover have "in_event i alloc c = Some (put_engine e1 (c\<lparr>rx := z, sess := s1\<rparr>))" using r assms(2) by auto
  ultimately show ?thesis by (simp add: put_engine_def)
qed

lemma activate_in_step:
  assumes "receiving pr alloc c later msgs" "rx_closed c \<longrightarrow> rx c \<noteq> []"
  shows "\<exists>c'. activate_in i alloc c = Some c' \<and> receiving pr alloc c' later msgs \<and> tx c' = tx c \<and> rx_closed c' = rx_closed c"
proof -
  obtain e d where e: "engine c = Some e" "\<not> en_handshaking e" "\<not> en_diverted e" "en_plugged e" "en_io_enabled e"
    "en_decoder e = Some (pr, d)" "tracks pr alloc d (sess c) (en_in e @ concat (rx c) @ later) msgs" "[] \<notin> set (rx c)"
    using assms(1) by (rule receivingE)
  let ?c = "put_engine (e\<lparr>en_pollin := True\<rparr>) c"
  have "receiving pr alloc ?c later msgs" using e by (simp add: receiving_def put_engine_def)
  from in_event_step[OF this] assms(2) e(1,5) show ?thesis by (simp add: activate_in_def put_engine_def)
qed

text \<open>Nothing is left once all bytes were read and the decoder waits for more.\<close>

lemma tracks_done: "tracks pr alloc d s [] msgs \<Longrightarrow> d_to_read d \<noteq> 0 \<Longrightarrow> inv s \<and> got s = fst msgs @ map sent (snd msgs)"
  using expects_nothing by (fastforce simp: tracks_def es.track_def)

lemma tracks_prefix: "tracks pr alloc d s bs msgs \<Longrightarrow> inv s \<and> (\<exists>k. got s = fst msgs @ map sent (take k (snd msgs)))"
proof -
  assume "tracks pr alloc d s bs msgs"
  then obtain del fs where "snd msgs = del @ fs" "got s = fst msgs @ map sent del" "inv s" by (auto simp: tracks_def es.track_def)
  then show ?thesis by (auto intro!: exI[of _ "length del"])
qed

text \<open>The connection ends at the latest when the session has accepted the last message.\<close>

definition postponed :: "proto \<Rightarrow> (nat \<Rightarrow> bool) \<Rightarrow> 's conn \<Rightarrow> frame list \<times> frame list \<Rightarrow> bool" where
  "postponed pr alloc c msgs \<longleftrightarrow>
     (\<exists>e d. engine c = Some e \<and> \<not> en_diverted e \<and> en_plugged e \<and> \<not> en_io_enabled e \<and>
        en_decoder e = Some (pr, d) \<and> tracks pr alloc d (sess c) [] msgs)"

lemma postponed_other:
  "postponed pr alloc c msgs \<Longrightarrow> inv s \<Longrightarrow> got s = got (sess c) \<Longrightarrow> postponed pr alloc (c\<lparr>sess := s\<rparr>) msgs"
  by (auto simp: postponed_def tracks_def es.track_def)

lemma in_event_closed:
  assumes "receiving pr alloc c [] msgs" "rx_closed c" "rx c = []" "engine c = Some e" "en_in e = []"
  shows "\<exists>c'. in_event i alloc c = Some c' \<and> (postponed pr alloc c' msgs \<or>
    engine c' = None \<and> (\<exists>s. sess c' = if_detach i s \<and> inv s \<and> got s = fst msgs @ map sent (snd msgs)))"
proof -
  obtain d where e: "\<not> en_handshaking e" "\<not> en_diverted e" "en_plugged e" "en_io_enabled e"
    "en_decoder e = Some (pr, d)" "tracks pr alloc d (sess c) (en_in e @ concat (rx c) @ []) msgs" "[] \<notin> set (rx c)"
    using assms(1,4) by (auto elim!: receivingE)
  obtain z e1 d1 s1 where r: "in_event i alloc c = (if en_in e = [] \<and> rx c = [] \<and> rx_closed c then do {
         (st, e, c) \<leftarrow> se_stalled i alloc e1 (c\<lparr>rx := z, sess := s1\<rparr>);
         if st then Some (put_engine (e\<lparr>en_io_enabled := False\<rparr>) c) else se_error i (put_engine e c) }
       else Some (put_engine e1 (c\<lparr>rx := z, sess := s1\<rparr>)))"
    and e1: "e1 = e\<lparr>en_decoder := Some (pr, d1), en_diverted := False, en_pollin := en_pollin e \<and> en_in e1 = [], en_in := en_in e1\<rparr>"
    and t: "tracks pr alloc d1 s1 (en_in e1 @ concat z @ []) msgs" "en_in e = [] \<and> rx c = [] \<longrightarrow> en_in e1 = [] \<and> z = []"
    using assms(4) e(1,2,5-7) by (rule in_event_input)
  obtain b x where "e1 = e\<lparr>en_decoder := Some (pr, d1), en_diverted := False, en_pollin := b, en_in := x\<rparr>" using e1 by blast
  then have f: "en_decoder e1 = Some (pr, d1)" "\<not> en_diverted e1" "en_plugged e1" using e by simp_all
  have "tracks pr alloc d1 (sess (c\<lparr>rx := z, sess := s1\<rparr>)) [] msgs" using t assms(3,5) by simp
  from stalled_step[OF f(1,2) this] obtain st d2 s2 where
    s: "se_stalled i alloc e1 (c\<lparr>rx := z, sess := s1\<rparr>) =
      Some (st, e1\<lparr>en_decoder := Some (pr, d2), en_diverted := False\<rparr>, c\<lparr>rx := z, sess := s1, sess := s2\<rparr>)"
    "tracks pr alloc d2 s2 [] msgs" "\<not> st \<longrightarrow> d_to_read d2 \<noteq> 0" by (elim exE conjE) (rule that)
  show ?thesis
  proof (cases st)
    case True
    then show ?thesis using r s(1,2) f assms(2,3,5) by (simp add: postponed_def put_engine_def)
  next
    case False
    then have "inv s2 \<and> got s2 = fst msgs @ map sent (snd msgs)" using s(2,3) tracks_done by blast
    then show ?thesis using False r s(1) f assms(2,3,5) by (auto simp: se_error_def unplug_def put_engine_def)
  qed
qed

lemma activate_in_postponed:
  assumes "postponed pr alloc c msgs" "activate_in i alloc c = Some c'"
  shows "engine c' = None \<and> (\<exists>s. sess c' = if_detach i s \<and> inv s \<and> got s = fst msgs @ map sent (snd msgs))"
proof -
  obtain e d where e: "engine c = Some e" "\<not> en_diverted e" "en_plugged e" "\<not> en_io_enabled e"
    "en_decoder e = Some (pr, d)" "tracks pr alloc d (sess c) ([] @ []) msgs" using assms(1) by (auto simp: postponed_def)
  from process_step[OF e(5,2,6), of False] obtain n d1 s1 where
    p: "se_process i alloc False [] e c = Some (Some n, e\<lparr>en_decoder := Some (pr, d1), en_diverted := False\<rparr>, c\<lparr>sess := s1\<rparr>)"
    "tracks pr alloc d1 s1 (drop n [] @ []) msgs" by auto
  let ?e = "e\<lparr>en_decoder := Some (pr, d1), en_diverted := False\<rparr>"
  have "tracks pr alloc d1 (sess (c\<lparr>sess := s1\<rparr>)) [] msgs" using p(2) by simp
  from stalled_step[OF _ _ this, of ?e] obtain st d2 s2 where
    s: "se_stalled i alloc ?e (c\<lparr>sess := s1\<rparr>) =
      Some (st, e\<lparr>en_decoder := Some (pr, d2), en_diverted := False\<rparr>, c\<lparr>sess := s2\<rparr>)"
    "tracks pr alloc d2 s2 [] msgs" "\<not> st \<longrightarrow> d_to_read d2 \<noteq> 0" by auto
  have st: "\<not> st" using assms(2) e p(1) s(1) by (auto simp: activate_in_def)
  then have "inv (if_flush i s2) \<and> got (if_flush i s2) = fst msgs @ map sent (snd msgs)"
    using s(2,3) tracks_done[OF tracks_flush] by blast
  moreover have "engine c' = None \<and> sess c' = if_detach i (if_flush i s2)"
    using st assms(2) e p(1) s(1) by (auto simp: activate_in_def se_error_def unplug_def put_engine_def)
  ultimately show ?thesis by blast
qed

text \<open>A session that accepts messages never stalls the decoder at the end of the stream.\<close>

lemma settle_accepted:
  assumes "settle pr alloc (Some push) d s = Some (r, d', s')" "\<forall>f. fst (push f s) = None"
  shows "r \<noteq> Stalled"
  using assms
proof (induction pr alloc "Some push" d s rule: settle.induct)
  case (1 pr alloc d s)
  show ?case
  proof (cases "d_to_read d = 0")
    case False
    then show ?thesis using 1(2) by (simp add: settle.simps[of pr alloc _ d s])
  next
    case True
    then obtain b d1 s1 where n: "dec_next pr alloc (Some push) d s = Some (b, d1, s1)"
      using 1(2) by (auto simp: settle.simps[of pr alloc _ d s] split: option.splits)
    show ?thesis
    proof (cases "d_next d = Some D_message_ready")
      case m: True
      obtain fl t where "push (frame_of (d_flags d) (d_acc d)) s = (None, fl, t)" using 1(3) by (metis prod_cases3 fst_conv)
      then have "b" "d_to_read d1 \<noteq> 0" using n m by (auto simp: dec_next_def d_message_ready_def d_next_step_def)
      then show ?thesis using 1(2) n True by (auto simp: settle.simps[of pr alloc _ d s] settle.simps[of pr alloc _ d1 s1])
    next
      case m: False
      then have s1: "s1 = s" "\<not> b \<Longrightarrow> d_next d1 = None" using n
        by (auto simp: dec_next_def dec_steps decoding_error_def Let_def bind_eq_Some
            split: option.splits dec_step.splits proto.splits if_splits)
      show ?thesis
      proof (cases b)
        case b: True
        then show ?thesis using 1(1)[OF _ n refl refl b] 1(2,3) True n s1 by (simp add: settle.simps[of pr alloc _ d s])
      next
        case False
        then show ?thesis using 1(2) True n s1 by (simp add: settle.simps[of pr alloc _ d s])
      qed
    qed
  qed
qed

lemma activate_in_accepted:
  assumes "postponed pr alloc c msgs" "\<forall>f. fst (if_push i f (sess c)) = None"
  shows "\<exists>c'. activate_in i alloc c = Some c'"
proof -
  obtain e d where e: "engine c = Some e" "\<not> en_diverted e" "en_plugged e" "\<not> en_io_enabled e"
    "en_decoder e = Some (pr, d)" "tracks pr alloc d (sess c) [] msgs" using assms(1) by (auto simp: postponed_def)
  let ?t = "\<lambda>s. \<lparr>es_sess = s, es_diverted = False, es_failed = False, es_replaced = False\<rparr>"
  have t: "es_of f s = ?t s" if "\<not> en_diverted f" for f s using that by (simp add: es_of_def)
  have tr: "es.track pr alloc d (?t (sess c)) [] msgs" using e(6) by (simp add: tracks_def)
  then obtain y where y: "d_next d = Some y" using expects_live unfolding es.track_def by blast
  obtain r d1 s1 where p: "settle pr alloc (Some (se_push_msg i)) d (?t (sess c)) = Some (r, d1, ?t s1)" "r \<noteq> Dead"
    and t1: "es.track pr alloc d1 (?t s1) [] msgs"
  proof -
    obtain r d1 t where "settle pr alloc (Some (se_push_msg i)) d (?t (sess c)) = Some (r, d1, t)" "r \<noteq> Dead"
      "es.track pr alloc d1 t [] msgs" using es.track_settle[OF tr] by (elim exE conjE) (rule that)
    then show thesis using that[of r d1 "es_sess t"] track_sink[of pr alloc d1 t "[]" msgs] by metis
  qed
  have "r \<noteq> Stalled" using settle_accepted[OF p(1)] assms(2) by (simp add: se_push_msg_def split_beta)
  then have "r = Ready" using p(2) by (cases r) auto
  then have rd: "d_to_read d1 \<noteq> 0" using settle_Ready[of pr alloc _ d] p(1) by simp
  have pb: "se_process i alloc False [] e c = Some (Some 0, e\<lparr>en_decoder := Some (pr, d1), en_diverted := False\<rparr>, c\<lparr>sess := s1\<rparr>)"
    using e(2,5) p y by (simp add: se_process_def t process_buffer_def dec_loop.simps[of pr alloc _ 0] se_store_def)
  have st: "se_stalled i alloc (e\<lparr>en_decoder := Some (pr, d1), en_diverted := False\<rparr>) (c\<lparr>sess := s1\<rparr>) =
      Some (False, e\<lparr>en_decoder := Some (pr, d1), en_diverted := False\<rparr>, c\<lparr>sess := s1\<rparr>)"
    using rd by (auto simp: se_stalled_def t stalled_def settle.simps[of pr alloc _ d1] se_store_def)
  show ?thesis using e(1,3,4) pb st by (simp add: activate_in_def se_error_def unplug_def put_engine_def)
qed

end

section \<open>Sending to the network\<close>

lemma enc_next_bufsize: "enc_next pr src s e = (b, e', s') \<Longrightarrow> e_bufsize e' = e_bufsize e"
  by (auto simp: enc_next_def e_size_ready_def e_message_ready_def e_next_step_def
      split: enc_step.splits option.splits prod.splits)

lemma enc_loop_bufsize: "enc_loop pr src b n bs k e s = (bs', k', e', s') \<Longrightarrow> e_bufsize e' = e_bufsize e"
proof (induction pr src b n bs k e s rule: enc_loop.induct)
  case (1 pr src b n bs k e s)
  obtain ok e1 s1 where nx: "(if e_pending e = [] then enc_next pr src s e else (True, e, s)) = (ok, e1, s1)"
    by (metis prod_cases3)
  then have "e_bufsize e1 = e_bufsize e" by (auto dest: enc_next_bufsize split: if_splits)
  then have e1: "e_bufsize (e1\<lparr>e_pending := x\<rparr>) = e_bufsize e" for x by simp
  define k1 where "k1 = (if e_pending e = [] \<and> e_beginning e \<and> k = -1 then int (length bs) else k)"
  define m where "m = min (length (e_pending e1)) (n - length bs)"
  have run: "enc_loop pr src b n bs k e s = (if length bs < n then
      if \<not> ok then (bs, k1, e1, s1)
      else if bs = [] \<and> \<not> b \<and> n \<le> length (e_pending e1) then (e_pending e1, k1, e1\<lparr>e_pending := []\<rparr>, s1)
      else enc_loop pr src b n (bs @ take m (e_pending e1)) k1 (e1\<lparr>e_pending := drop m (e_pending e1)\<rparr>) s1
    else (bs, k, e, s))"
    using nx by (subst enc_loop.simps) (simp add: k1_def m_def Let_def)
  consider "\<not> length bs < n" | "length bs < n" "\<not> ok" | "length bs < n" "ok" "bs = [] \<and> \<not> b \<and> n \<le> length (e_pending e1)"
    | "length bs < n" "ok" "\<not> (bs = [] \<and> \<not> b \<and> n \<le> length (e_pending e1))" by blast
  then show ?case
  proof cases
    case 4
    have "enc_loop pr src b n (bs @ take m (e_pending e1)) k1 (e1\<lparr>e_pending := drop m (e_pending e1)\<rparr>) s1 = (bs', k', e', s')"
      using 1(2) run 4 by simp
    with 1(1)[OF 4(1) k1_def nx[symmetric] refl refl _ 4(3) m_def] 4(2) e1 show ?thesis by simp
  qed (use 1(2) run e1[of "e_pending e1"] e1[of "[]"] in auto)
qed

locale engine_source = msg_source "if_pull i" avail inv
  for i :: "'s session_if" and avail :: "'s \<Rightarrow> frame list" and inv :: "'s \<Rightarrow> bool"
begin

text \<open>The bytes that were written, followed by those that are still to be written.\<close>

definition sending :: "proto \<Rightarrow> 's conn \<Rightarrow> bytes \<Rightarrow> bool \<Rightarrow> bool" where
  "sending pr c stream ok \<longleftrightarrow> inv (sess c) \<and> (\<exists>e enc. engine c = Some e \<and> \<not> en_handshaking e \<and> \<not> en_terminating e \<and>
     en_encoder e = Some (pr, enc) \<and> 0 < e_bufsize enc \<and>
     tx c @ en_out e @ in_hand enc @ wires pr (avail (sess c)) = stream \<and>
     (ok \<longrightarrow> en_pollout e \<or> en_out e = [] \<and> in_hand enc = [] \<and> avail (sess c) = []))"

lemma write_step:
  assumes "\<not> en_handshaking e" "\<not> en_terminating e"
  shows "\<exists>n b. se_write k e c = Some (put_engine (e\<lparr>en_out := drop n (en_out e), en_pollout := b\<rparr>) (c\<lparr>tx := tx c @ take n (en_out e)\<rparr>)) \<and>
    (k \<noteq> None \<longrightarrow> b = en_pollout e)"
proof (cases k)
  case None
  then show ?thesis using assms by (intro exI[of _ 0] exI[of _ False]) (simp add: se_write_def put_engine_def)
next
  case (Some n)
  then show ?thesis using assms
    by (intro exI[of _ "min n (length (en_out e))"] exI[of _ "en_pollout e"]) (simp add: se_write_def put_engine_def Let_def)
qed

lemma write_sending:
  assumes "sending pr (put_engine e c) stream ok"
  shows "\<exists>c'. se_write k e c = Some c' \<and> sending pr c' stream (ok \<and> k \<noteq> None)"
proof -
  have e: "\<not> en_handshaking e" "\<not> en_terminating e" using assms(1) by (auto simp: sending_def put_engine_def)
  obtain n b where w: "se_write k e c = Some (put_engine (e\<lparr>en_out := drop n (en_out e), en_pollout := b\<rparr>) (c\<lparr>tx := tx c @ take n (en_out e)\<rparr>))"
    "k \<noteq> None \<longrightarrow> b = en_pollout e" using write_step[OF e] by blast
  show ?thesis unfolding w(1) using assms w(2) by (auto simp: sending_def put_engine_def)
qed

lemma out_event_step:
  assumes "sending pr c stream ok"
  shows "\<exists>c'. out_event i k c = Some c' \<and> sending pr c' stream (ok \<and> k \<noteq> None)"
proof -
  obtain e enc where e: "engine c = Some e" "inv (sess c)" "\<not> en_handshaking e" "\<not> en_terminating e" "en_encoder e = Some (pr, enc)"
    "0 < e_bufsize enc" "tx c @ en_out e @ in_hand enc @ wires pr (avail (sess c)) = stream"
    "ok \<longrightarrow> en_pollout e \<or> en_out e = [] \<and> in_hand enc = [] \<and> avail (sess c) = []"
    using assms unfolding sending_def by blast
  show ?thesis
  proof (cases "en_out e = []")
    case False
    have "sending pr (put_engine e c) stream ok" using assms e(1) by (simp add: put_engine_def sending_def)
    then show ?thesis using write_sending False e(1) by (simp add: out_event_def)
  next
    case True
    obtain bs j enc1 s1 where g: "get_data pr (Some (if_pull i)) None enc (sess c) = (bs, j, enc1, s1)" by (metis prod_cases4)
    have st: "inv s1" "in_hand enc @ wires pr (avail (sess c)) = bs @ in_hand enc1 @ wires pr (avail s1)"
      "length bs < e_bufsize enc \<Longrightarrow> in_hand enc1 = [] \<and> avail s1 = []"
      using enc_loop_stream[OF e(2) _ g[unfolded get_data_def]] by auto
    have bz: "0 < e_bufsize enc1" using enc_loop_bufsize[OF g[unfolded get_data_def]] e(6) by simp
    let ?e = "e\<lparr>en_out := bs, en_encoder := Some (pr, enc1)\<rparr>" and ?c = "c\<lparr>sess := s1\<rparr>"
    show ?thesis
    proof (cases "bs = []")
      case b: True
      then have "sending pr (put_engine (?e\<lparr>en_pollout := False\<rparr>) ?c) stream (ok \<and> k \<noteq> None)"
        using st e True bz by (simp add: sending_def put_engine_def)
      then show ?thesis using e(1,5) True g b by (simp add: out_event_def)
    next
      case False
      then have "en_pollout e" if ok using that e(8) st(2) by auto
      then have "sending pr (put_engine ?e ?c) stream ok" using st e True bz by (auto simp: sending_def put_engine_def)
      then show ?thesis using write_sending[of pr ?e ?c stream ok k] e(1,5) True g False by (simp add: out_event_def)
    qed
  qed
qed

lemma activate_out_step:
  assumes "sending pr c stream ok"
  shows "\<exists>c'. activate_out i k c = Some c' \<and> sending pr c' stream (k \<noteq> None)"
proof -
  obtain e where e: "engine c = Some e" using assms by (auto simp: sending_def)
  have "sending pr (put_engine (e\<lparr>en_pollout := True\<rparr>) c) stream True" using assms e by (auto simp: sending_def put_engine_def)
  from out_event_step[OF this, of k] show ?thesis using e by (simp add: activate_out_def)
qed

end

section \<open>The engine of a session\<close>

text \<open>The session as its engine sees it; on the states considered below its operations do not abort.\<close>

definition session_iface :: "nat \<Rightarrow> session session_if" where
  "session_iface ch = \<lparr>if_pull = session_pull, if_push = session_push,
     if_flush = (\<lambda>s. case session_flush s of Some s' \<Rightarrow> s' | None \<Rightarrow> s),
     if_detach = (\<lambda>s. case detach ch s of Some s' \<Rightarrow> s' | None \<Rightarrow> s)\<rparr>"

lemma session_iface_simps [simp]:
  "if_pull (session_iface ch) = session_pull" "if_push (session_iface ch) = session_push"
  by (simp_all add: session_iface_def)

interpretation ssource: engine_source "session_iface ch" s_avail s_valid for ch
  unfolding engine_source_def by (simp add: ssrc.msg_source_axioms)

interpretation ssink: engine_sink "session_iface ch" s_out "\<lambda>s. s_valid s \<and> identity_received s" for ch
proof (unfold engine_sink_def engine_sink_axioms_def, intro conjI allI impI, goal_cases)
  case 1
  then show ?case by (simp add: ssnk.msg_sink_axioms)
next
  case (2 s)
  then show ?case using session_flush_law[of s] by (auto simp: session_iface_def)
next
  case (3 s)
  then show ?case using session_flush_law[of s] by (auto simp: session_iface_def)
next
  case (4 s)
  then show ?case using session_flush_law[of s] by (auto simp: session_iface_def)
qed

text \<open>Sequences of events: bytes arrive, the poller reports input or output, the session resumes the engine.\<close>

datatype in_step = Arrive bytes | Poll_in | Resume_in

fun receive_run :: "'s session_if \<Rightarrow> (nat \<Rightarrow> bool) \<Rightarrow> in_step list \<Rightarrow> 's conn \<Rightarrow> 's conn option" where
  "receive_run i alloc [] c = Some c"
| "receive_run i alloc (Arrive bs # xs) c = receive_run i alloc xs (c\<lparr>rx := rx c @ [bs]\<rparr>)"
| "receive_run i alloc (Poll_in # xs) c = do { c \<leftarrow> in_event i alloc c; receive_run i alloc xs c }"
| "receive_run i alloc (Resume_in # xs) c = do { c \<leftarrow> activate_in i alloc c; receive_run i alloc xs c }"

fun arrived :: "in_step list \<Rightarrow> bytes" where
  "arrived [] = []"
| "arrived (Arrive bs # xs) = bs @ arrived xs"
| "arrived (x # xs) = arrived xs"

datatype out_step = Poll_out "nat option" | Resume_out "nat option"

fun send_run :: "'s session_if \<Rightarrow> out_step list \<Rightarrow> 's conn \<Rightarrow> 's conn option" where
  "send_run i [] c = Some c"
| "send_run i (Poll_out k # xs) c = do { c \<leftarrow> out_event i k c; send_run i xs c }"
| "send_run i (Resume_out k # xs) c = do { c \<leftarrow> activate_out i k c; send_run i xs c }"

context engine_sink
begin

lemma receiving_arrive:
  "receiving pr alloc c (bs @ later) msgs \<Longrightarrow> bs \<noteq> [] \<Longrightarrow> receiving pr alloc (c\<lparr>rx := rx c @ [bs]\<rparr>) later msgs"
  by (auto simp: receiving_def)

lemma receive_run_receiving:
  assumes "receiving pr alloc c (arrived xs @ later) msgs" "Arrive [] \<notin> set xs" "\<not> rx_closed c"
  shows "\<exists>c'. receive_run i alloc xs c = Some c' \<and> receiving pr alloc c' later msgs \<and> tx c' = tx c"
  using assms
proof (induction xs arbitrary: c)
  case (Cons x xs)
  show ?case
  proof (cases x)
    case (Arrive bs)
    then show ?thesis using Cons.prems Cons.IH[OF receiving_arrive[of pr alloc c bs "arrived xs @ later" msgs]] by auto
  next
    case Poll_in
    then obtain c1 where "in_event i alloc c = Some c1" "receiving pr alloc c1 (arrived xs @ later) msgs" "tx c1 = tx c" "\<not> rx_closed c1"
      using in_event_step[of pr alloc c "arrived xs @ later" msgs] Cons.prems by auto
    then show ?thesis using Poll_in Cons.IH[of c1] Cons.prems by auto
  next
    case Resume_in
    then obtain c1 where "activate_in i alloc c = Some c1" "receiving pr alloc c1 (arrived xs @ later) msgs" "tx c1 = tx c" "\<not> rx_closed c1"
      using activate_in_step[of pr alloc c "arrived xs @ later" msgs] Cons.prems by auto
    then show ?thesis using Resume_in Cons.IH[of c1] Cons.prems by auto
  qed
qed simp

lemma tracks_start:
  assumes "dec_ok d" "0 < d_bufsize d" "expects pr d bs fs" "list_all (sendable alloc (d_maxmsgsize d)) fs" "inv s"
  shows "tracks pr alloc d s bs (got s, fs)"
  using assms by (auto simp: tracks_def es.track_def intro!: exI[of _ "[] :: frame list"])

end

context engine_source
begin

lemma send_run_sending:
  assumes "sending pr c stream ok"
  shows "\<exists>c'. send_run i xs c = Some c' \<and> sending pr c' stream (ok \<and> Poll_out None \<notin> set xs \<and> Resume_out None \<notin> set xs)"
  using assms
proof (induction xs arbitrary: c ok)
  case (Cons x xs)
  show ?case
  proof (cases x)
    case (Poll_out k)
    then obtain c1 where "out_event i k c = Some c1" "sending pr c1 stream (ok \<and> k \<noteq> None)"
      using out_event_step[OF Cons.prems] by blast
    then show ?thesis using Poll_out Cons.IH[of c1 "ok \<and> k \<noteq> None"] by (auto simp: sending_def)
  next
    case (Resume_out k)
    then obtain c1 where c1: "activate_out i k c = Some c1" "sending pr c1 stream (k \<noteq> None)"
      using activate_out_step[OF Cons.prems] by blast
    then have "sending pr c1 stream (ok \<and> k \<noteq> None)" by (auto simp: sending_def)
    then show ?thesis using c1 Resume_out Cons.IH[of c1 "ok \<and> k \<noteq> None"] by (auto simp: sending_def)
  qed
qed simp

end

text \<open>
  The greeting of an engine is recognised by its peer: the first ten bytes show that it is versioned, all of it
  selects the new protocol. The first message of an unversioned peer is never taken for a greeting.
\<close>

lemma greeting_head_versioned: "length (greeting_head op) = 10" "versioned (greeting_head op)"
  by (simp_all add: greeting_head_def versioned_def put_uint64_def)

lemma negotiate_greeting: "negotiate (greeting_head op @ [1, t] @ rest) = Some (Versioned V1)"
  by (simp add: negotiate_def greeting_head_def put_uint64_def)

lemma negotiate_wire: "negotiate (wire V0 (frame_of 0 x) @ rest) = Some Unversioned"
proof (cases "length x + 1 < 255")
  case True
  have "of_nat (length x + 1) \<noteq> (0xff :: byte)"
  proof
    assume "of_nat (length x + 1) = (0xff :: byte)"
    then have "unat (of_nat (length x + 1) :: byte) = unat (0xff :: byte)" by (rule arg_cong)
    then show False using True by (simp add: unat_of_nat del: of_nat_Suc of_nat_add)
  qed
  then show ?thesis using True by (simp add: negotiate_def wire_def header_def frame_of_def)
next
  case False
  then show ?thesis by (simp add: negotiate_def wire_def header_def frame_of_def put_uint64_def Let_def)
qed

text \<open>An engine that is terminated in the middle of a batch drops the bytes of the batch, unless the encoder has more.\<close>

lemma terminate_drops_batch:
  assumes "engine c = Some e" "en_plugged e" "en_encoder e = Some (pr, enc)" "\<not> has_data enc"
  shows "\<exists>c'. se_terminate c = Some c' \<and> engine c' = None \<and> tx c' = tx c"
  using assms by (simp add: se_terminate_def unplug_def put_engine_def)

section \<open>Properties\<close>

text \<open>
  C33: the outcome of the handshake depends only on the bytes the peer has sent, not on how they were
  cut into pieces. Without a decision the engine keeps everything it has read; a peer with the
  unversioned protocol is served by the old codec, which sees all bytes, after the header of the own
  identity was dropped, as it was sent already; with a versioned peer the twelve bytes of the greeting are
  consumed. The rest of the own greeting is sent once, as soon as the peer is known to be versioned.
\<close>

theorem handshake_outcome:
  assumes e: "engine c = Some e" "en_handshaking e" "greeting_ok e" and net: "[] \<notin> set (rx c)" "\<not> rx_closed c"
    and pull: "if_pull i (sess c) = (Some (frame_of 0 (own_identity (en_options e))), s1)"
    and all: "everything = en_greeting e @ concat (rx c)"
  shows "\<exists>c' e'. se_handshake i c = Some (negotiate everything \<noteq> None, c') \<and> engine c' = Some e' \<and> tx c' = tx c \<and>
    en_out e' = en_out e @ (if versioned everything \<and> \<not> versioned (en_greeting e) then [1, type_byte (en_options e)] else []) \<and>
    (case negotiate everything of
       None \<Rightarrow> en_handshaking e' \<and> greeting_ok e' \<and> en_greeting e' = everything \<and> rx c' = [] \<and> sess c' = sess c
     | Some Unversioned \<Rightarrow> \<not> en_handshaking e' \<and> en_in e' @ concat (rx c') = everything \<and> sess c' = s1 \<and>
         en_decoder e' = Some (V0, decoder_init V0 in_batch_size (maxmsgsize (en_options e))) \<and>
         (\<exists>enc. en_encoder e' = Some (V0, enc) \<and> in_hand enc = own_identity (en_options e))
     | Some (Versioned pr) \<Rightarrow> \<not> en_handshaking e' \<and> en_in e' = en_in e \<and> concat (rx c') = drop greeting_size everything \<and>
         sess c' = sess c \<and> en_decoder e' = Some (pr, decoder_init pr in_batch_size (maxmsgsize (en_options e))) \<and>
         en_encoder e' = Some (pr, encoder_init out_batch_size))"
proof -
  obtain r e1 c1 g where gl: "greet_loop e c = Some (r, e1, c1)" and post: "greet_post e c r e1 c1 g"
    using greet_loop_result[OF net(1)] e(3) by blast
  have po: "c1 = c\<lparr>rx := rx c1\<rparr>" "answered e g e1" "g @ concat (rx c1) = everything"
    "r = Decided \<Longrightarrow> negotiate g \<noteq> None \<and> (versioned g \<longrightarrow> length g = greeting_size)"
    "r \<noteq> Decided \<Longrightarrow> negotiate g = None \<and> rx c1 = [] \<and> r = Waiting"
    using post net(2) all greeted.exhaust[of r "r = Waiting"] by (auto simp: greet_post_def)
  obtain t where t: "g = en_greeting e @ t" using post by (auto simp: greet_post_def)
  note an = answered_simps[OF po(2) e(3)]
  have vg: "versioned (en_greeting e) \<longrightarrow> versioned g" using t versioned_append by blast
  have c1: "sess c1 = sess c" "tx c1 = tx c" by (subst po(1), simp)+
  show ?thesis
  proof (cases "negotiate g")
    case None
    then have "r \<noteq> Decided" using po(4) by blast
    then have r: "r = Waiting" "rx c1 = []" "g = everything" using po(3,5) by auto
    then have "negotiate everything = None" using None by simp
    then show ?thesis using handshake_waiting[OF e gl[unfolded r(1)]] an(1-9) an(10)[OF vg] r(2,3) c1 e(2)
      by (simp add: put_engine_def greeting_ok_def)
  next
    case (Some v)
    then have r: "r = Decided" "versioned g \<Longrightarrow> length g = greeting_size" using po(4,5) by auto
    have neg: "negotiate everything = Some v" using negotiate_append[OF Some] po(3) by metis
    have ver: "versioned everything = versioned g" using negotiate_versioned(1)[OF Some] po(3) by metis
    note gl = gl[unfolded r(1)]
    show ?thesis
    proof (cases v)
      case Unversioned
      have "negotiate (en_greeting e1) = Some Unversioned" using Some Unversioned an(1) by simp
      from handshake_unversioned[OF e gl this] obtain enc where "in_hand enc = own_identity (en_options e1)"
        "se_handshake i c = Some (True, put_engine (e1\<lparr>en_encoder := Some (V0, enc),
          en_decoder := Some (V0, decoder_init V0 in_batch_size (maxmsgsize (en_options e1))), en_in := en_greeting e1,
          en_diverted := (socktype (en_options e1) = PUB \<or> socktype (en_options e1) = XPUB),
          en_pollout := en_pollout e1 \<or> en_out e1 = [], en_handshaking := False\<rparr>) (c1\<lparr>sess := s1\<rparr>))"
        using pull c1(1) an(2) by auto
      then show ?thesis using neg Unversioned ver an c1 po(3) by (simp add: put_engine_def)
    next
      case (Versioned pr)
      have "drop greeting_size everything = concat (rx c1)" using po(3) r(2) negotiate_versioned(4)[OF Some Versioned] by auto
      moreover have "negotiate (en_greeting e1) = Some (Versioned pr)" using Some Versioned an(1) by simp
      ultimately show ?thesis using handshake_versioned[OF e gl, of pr i] neg Versioned ver an c1
        by (simp add: put_engine_def)
    qed
  qed
qed

definition demo_conn :: "bytes list \<Rightarrow> stream_engine \<Rightarrow> session conn" where
  "demo_conn bs e = \<lparr>engine = Some e, sess = demo_session, rx = bs, rx_closed = False, tx = []\<rparr>"

theorem handshake_outcome_witness:
  "\<exists>c' e'. se_handshake (session_iface 0) (demo_conn [[0xff, 0, 0], [0, 0, 0, 0, 0, 1, 0x7f, 1], [2, 9]]
     ((stream_engine_init options_init)\<lparr>en_put := 10\<rparr>)) = Some (True, c') \<and> engine c' = Some e' \<and>
     concat (rx c') = [9] \<and> en_encoder e' = Some (V1, encoder_init out_batch_size)"
proof -
  let ?e = "(stream_engine_init options_init)\<lparr>en_put := 10\<rparr>"
  let ?c = "demo_conn [[0xff, 0, 0], [0, 0, 0, 0, 0, 1, 0x7f, 1], [2, 9]] ?e"
  let ?all = "[0xff, 0, 0, 0, 0, 0, 0, 0, 1, 0x7f, 1, 2, 9] :: bytes"
  have e: "engine ?c = Some ?e" "en_handshaking ?e" "greeting_ok ?e" "[] \<notin> set (rx ?c)" "\<not> rx_closed ?c"
    by (simp_all add: demo_conn_def stream_engine_init_def greeting_ok_def negotiate_def versioned_def)
  have "if_pull (session_iface 0) (sess ?c) =
      (Some (frame_of 0 (own_identity (en_options ?e))), demo_session\<lparr>identity_sent := True, incomplete_in := False\<rparr>)"
    by (simp add: demo_conn_def demo_session_def session_pull_def pull_msg_def session_init_def stream_engine_init_def)
  moreover have "?all = en_greeting ?e @ concat (rx ?c)" by (simp add: demo_conn_def stream_engine_init_def)
  moreover have "negotiate ?all = Some (Versioned V1)" by (simp add: negotiate_def)
  ultimately show ?thesis using handshake_outcome[OF e, of "session_iface 0" _ ?all]
    by (auto simp: greeting_size_def demo_conn_def stream_engine_init_def)
qed


text \<open>
  C34: receiving. However the bytes of a stream of messages arrive and in whatever order input events and
  resumptions by the session occur, no assertion of the engine fails, the connection stays up, and the
  pipe of the session grows by the first of the messages; by all of them once every byte has been
  consumed and the decoder waits for more.
\<close>

theorem engine_receives:
  assumes e: "engine c = Some e" "\<not> en_handshaking e" "\<not> en_diverted e" "en_plugged e" "en_io_enabled e"
      "en_decoder e = Some (pr, d)" "rx c = []" "\<not> rx_closed c"
    and d: "dec_ok d" "0 < d_bufsize d" "expects pr d (en_in e @ arrived xs @ later) fs"
      "list_all (sendable alloc (d_maxmsgsize d)) fs" "Arrive [] \<notin> set xs"
    and s: "s_valid (sess c)" "identity_received (sess c)"
  shows "\<exists>c' e' d' k. receive_run (session_iface ch) alloc xs c = Some c' \<and> engine c' = Some e' \<and> tx c' = tx c \<and>
    en_decoder e' = Some (pr, d') \<and> s_valid (sess c') \<and> s_out (sess c') = s_out (sess c) @ map sent (take k fs) \<and>
    (later = [] \<and> en_in e' = [] \<and> rx c' = [] \<and> d_to_read d' \<noteq> 0 \<longrightarrow> s_out (sess c') = s_out (sess c) @ map sent fs)"
proof -
  have "ssink.tracks pr alloc d (sess c) (en_in e @ arrived xs @ later) (s_out (sess c), fs)"
    using d s by (intro ssink.tracks_start) auto
  then have "ssink.receiving pr alloc c (arrived xs @ later) (s_out (sess c), fs)"
    using e by (auto simp: ssink.receiving_def)
  from ssink.receive_run_receiving[OF this d(5) e(8)] obtain c' where
    c': "receive_run (session_iface ch) alloc xs c = Some c'" "tx c' = tx c"
    and r: "ssink.receiving pr alloc c' later (s_out (sess c), fs)" by blast
  from r obtain e' d' where e': "engine c' = Some e'" "en_decoder e' = Some (pr, d')"
    and t: "ssink.tracks pr alloc d' (sess c') (en_in e' @ concat (rx c') @ later) (s_out (sess c), fs)"
    by (rule ssink.receivingE)
  obtain k where k: "s_valid (sess c')" "s_out (sess c') = s_out (sess c) @ map sent (take k fs)"
    using ssink.tracks_prefix[OF t] by auto
  have "s_out (sess c') = s_out (sess c) @ map sent fs" if "later = [] \<and> en_in e' = [] \<and> rx c' = [] \<and> d_to_read d' \<noteq> 0"
    using ssink.tracks_done[of pr alloc d' "sess c'"] t that by simp
  then show ?thesis using c' e' k by blast
qed

definition demo_engine :: stream_engine where
  "demo_engine = (stream_engine_init options_init)\<lparr>en_handshaking := False, en_plugged := True, en_io_enabled := True,
     en_pollout := True, en_decoder := Some (V1, decoder_init V1 8192 (-1)), en_encoder := Some (V1, encoder_init 8192)\<rparr>"

lemma demo_engine_ok:
  "engine (demo_conn bs demo_engine) = Some demo_engine" "\<not> en_handshaking demo_engine" "\<not> en_diverted demo_engine"
  "en_plugged demo_engine" "en_io_enabled demo_engine" "en_decoder demo_engine = Some (V1, decoder_init V1 8192 (-1))"
  "en_in demo_engine = []" "s_valid (sess (demo_conn bs demo_engine))" "identity_received (sess (demo_conn bs demo_engine))"
  "dec_ok (decoder_init V1 8192 (-1))" "0 < d_bufsize (decoder_init V1 8192 (-1))" "en_encoder demo_engine = Some (V1, encoder_init 8192)"
  "\<not> en_terminating demo_engine" "0 < e_bufsize (encoder_init 8192)" "en_pollout demo_engine"
  using demo_session_ok
  by (simp_all add: demo_conn_def demo_engine_def stream_engine_init_def dec_ok_def region_def encoder_init_def)

theorem engine_receives_witness:
  "\<exists>c' k. receive_run (session_iface 0) (\<lambda>_. True) [Arrive [0], Poll_in, Arrive [1, 6], Resume_in] (demo_conn [] demo_engine) = Some c' \<and>
     s_out (sess c') = s_out demo_session @ map sent (take k [frame_of 0 [6]])"
proof -
  let ?xs = "[Arrive [0], Poll_in, Arrive [1, 6], Resume_in]" and ?c = "demo_conn [] demo_engine"
  have x: "expects V1 (decoder_init V1 8192 (-1)) (en_in demo_engine @ arrived ?xs @ []) [frame_of 0 [6]]"
    by (simp add: demo_engine_ok expects_def wires_def wire_def header_def frame_of_def)
  have l: "list_all (sendable (\<lambda>_. True) (d_maxmsgsize (decoder_init V1 8192 (-1)))) [frame_of 0 [6]]"
    by (simp add: sendable_def frame_of_def)
  have c: "rx ?c = []" "\<not> rx_closed ?c" "Arrive [] \<notin> set ?xs" by (simp_all add: demo_conn_def)
  from engine_receives[OF demo_engine_ok(1-6) c(1,2) demo_engine_ok(10,11) x l c(3) demo_engine_ok(8,9), of 0]
  obtain c' k where "receive_run (session_iface 0) (\<lambda>_. True) ?xs ?c = Some c'"
    "s_out (sess c') = s_out (sess ?c) @ map sent (take k [frame_of 0 [6]])" by blast
  moreover have "sess ?c = demo_session" by (simp add: demo_conn_def)
  ultimately show ?thesis by metis
qed

text \<open>
  C35: a connection that breaks loses no message that has arrived completely. When the peer has closed
  the connection and all input was read, the engine hands the session over only after it has accepted all
  messages. If it refuses the last one, the engine stays without input and ends when it is resumed by a session that
  accepts messages.
\<close>

theorem engine_disconnects:
  assumes e: "engine c = Some e" "\<not> en_handshaking e" "\<not> en_diverted e" "en_plugged e" "en_io_enabled e"
      "en_decoder e = Some (pr, d)" "rx c = []" "rx_closed c" "en_in e = []"
    and d: "dec_ok d" "0 < d_bufsize d" "expects pr d [] fs" "list_all (sendable alloc (d_maxmsgsize d)) fs"
    and s: "s_valid (sess c)" "identity_received (sess c)"
  shows "\<exists>c1. in_event (session_iface ch) alloc c = Some c1 \<and>
    (engine c1 = None \<longrightarrow> (\<exists>s. sess c1 = if_detach (session_iface ch) s \<and> s_out s = s_out (sess c) @ map sent fs)) \<and>
    (engine c1 \<noteq> None \<longrightarrow> (\<forall>s1 p. s_valid s1 \<and> identity_received s1 \<and> s_out s1 = s_out (sess c1) \<and>
        s_pipe s1 = Some p \<and> writable (wld s1) p \<longrightarrow>
      (\<exists>c2 s. activate_in (session_iface ch) alloc (c1\<lparr>sess := s1\<rparr>) = Some c2 \<and> engine c2 = None \<and>
        sess c2 = if_detach (session_iface ch) s \<and> s_out s = s_out (sess c) @ map sent fs)))"
proof -
  let ?m = "(s_out (sess c), fs)"
  have "ssink.tracks pr alloc d (sess c) [] ?m" using d s by (intro ssink.tracks_start) auto
  then have "ssink.receiving pr alloc c [] ?m" using e by (auto simp: ssink.receiving_def)
  from ssink.in_event_closed[OF this e(8,7,1,9), of ch] obtain c1 where c1: "in_event (session_iface ch) alloc c = Some c1"
    and r: "ssink.postponed pr alloc c1 ?m \<or> engine c1 = None \<and>
      (\<exists>s. sess c1 = if_detach (session_iface ch) s \<and> (s_valid s \<and> identity_received s) \<and> s_out s = s_out (sess c) @ map sent fs)"
    by auto
  have "\<exists>c2 s. activate_in (session_iface ch) alloc (c1\<lparr>sess := s1\<rparr>) = Some c2 \<and> engine c2 = None \<and>
        sess c2 = if_detach (session_iface ch) s \<and> s_out s = s_out (sess c) @ map sent fs"
    if "engine c1 \<noteq> None" and s1: "s_valid s1" "identity_received s1" "s_out s1 = s_out (sess c1)" "s_pipe s1 = Some p" "writable (wld s1) p" for s1 p
  proof -
    have "ssink.postponed pr alloc c1 ?m" using r that(1) by blast
    then have po: "ssink.postponed pr alloc (c1\<lparr>sess := s1\<rparr>) ?m"
      using s1(1-3) by (intro ssink.postponed_other) auto
    have "\<forall>f. fst (if_push (session_iface ch) f (sess (c1\<lparr>sess := s1\<rparr>))) = None"
    proof
      fix f show "fst (if_push (session_iface ch) f (sess (c1\<lparr>sess := s1\<rparr>))) = None"
        using push_msg_law[OF s1(1,2), of f] s1(4,5) by (auto simp: session_push_def)
    qed
    from ssink.activate_in_accepted[OF po this] obtain c2 where "activate_in (session_iface ch) alloc (c1\<lparr>sess := s1\<rparr>) = Some c2" by blast
    then show ?thesis using ssink.activate_in_postponed[OF po] by auto
  qed
  then show ?thesis using c1 r by (auto simp: ssink.postponed_def)
qed

theorem engine_disconnects_witness:
  "\<exists>c1. in_event (session_iface 0) (\<lambda>_. True) ((demo_conn [] demo_engine)\<lparr>rx_closed := True\<rparr>) = Some c1 \<and>
     (engine c1 = None \<longrightarrow> (\<exists>s. sess c1 = if_detach (session_iface 0) s \<and> s_out s = s_out demo_session))"
proof -
  let ?c = "(demo_conn [] demo_engine)\<lparr>rx_closed := True\<rparr>"
  have c: "engine ?c = Some demo_engine" "rx ?c = []" "rx_closed ?c" "sess ?c = demo_session" "s_valid (sess ?c)" "identity_received (sess ?c)"
    using demo_session_ok by (simp_all add: demo_conn_def)
  have "expects V1 (decoder_init V1 8192 (-1)) [] []" by (simp add: expects_def)
  from engine_disconnects[OF c(1) demo_engine_ok(2-6) c(2,3) demo_engine_ok(7,10,11) this _ c(5,6), of "\<lambda>_. True" 0] c(4)
  show ?thesis by auto
qed

text \<open>
  C36: sending. Whatever the operating system accepts of each write, the bytes the engine has written are
  a prefix of the stream of its messages: what was written, the rest of the batch, the rest of the message
  in the encoder and the messages in the pipe always make up the same stream. Unless a write fails, the engine
  stops waiting for output only when nothing is left.
\<close>

theorem engine_sends:
  assumes e: "engine c = Some e" "\<not> en_handshaking e" "\<not> en_terminating e" "en_encoder e = Some (pr, enc)" "0 < e_bufsize enc"
    and s: "s_valid (sess c)"
  shows "\<exists>c' e' enc'. send_run (session_iface ch) xs c = Some c' \<and> engine c' = Some e' \<and> en_encoder e' = Some (pr, enc') \<and>
    s_valid (sess c') \<and>
    tx c' @ en_out e' @ in_hand enc' @ wires pr (s_avail (sess c')) = tx c @ en_out e @ in_hand enc @ wires pr (s_avail (sess c)) \<and>
    (en_pollout e \<and> Poll_out None \<notin> set xs \<and> Resume_out None \<notin> set xs \<longrightarrow>
      en_pollout e' \<or> en_out e' = [] \<and> in_hand enc' = [] \<and> s_avail (sess c') = [])"
proof -
  let ?st = "tx c @ en_out e @ in_hand enc @ wires pr (s_avail (sess c))"
  have "ssource.sending pr c ?st (en_pollout e)" using e s by (auto simp: ssource.sending_def)
  from ssource.send_run_sending[OF this, of ch xs] show ?thesis unfolding ssource.sending_def
    by (elim exE conjE) (intro exI conjI; assumption?; blast)
qed

theorem engine_sends_witness:
  "\<exists>c' e' enc'. send_run (session_iface 0) [Poll_out (Some 3), Resume_out (Some 100)] (demo_conn [] demo_engine) = Some c' \<and>
     engine c' = Some e' \<and> en_encoder e' = Some (V1, enc') \<and>
     (en_pollout e' \<or> en_out e' = [] \<and> in_hand enc' = [] \<and> s_avail (sess c') = [])"
proof -
  from engine_sends[OF demo_engine_ok(1)[of "[]"] demo_engine_ok(2,13,12,14) demo_engine_ok(8)[of "[]"], of 0 "[Poll_out (Some 3), Resume_out (Some 100)]"] demo_engine_ok(15)
  show ?thesis by (auto simp del: send_run.simps)
qed

end
