(* ===== verification/Mailbox.thy ===== *)
theory Mailbox
  imports Ypipe
begin

text \<open>
  The mailbox of a thread: \<open>mailbox_t\<close> of \<open>mailbox.hpp\<close>, \<open>mailbox.cpp\<close> and \<open>signaler_t\<close> of \<open>signaler.cpp\<close>. Commands go
  through a lock-free pipe with any number of senders, which exclude each other by a mutex, and one
  receiver. A sender that finds the receiver asleep sends a signal through a file descriptor; the receiver
  keeps that signal until it finds the pipe empty again. The descriptor is the number of signals in it;
  \<open>ev\<close> tells whether it is an event counter (\<open>ZMQ_HAVE_EVENTFD\<close>), of which a read takes all signals at once,
  or a pair of sockets, from which one byte is read. A failed assertion is \<open>None\<close>.
\<close>

section \<open>The signaler\<close>

definition signaler_send :: "nat \<Rightarrow> nat" where
  "signaler_send n = n + 1"

datatype waited = Signalled | Timed_out | Interrupted

text \<open>\<open>intr\<close> tells that a system signal interrupts the call.\<close>

definition signaler_wait :: "bool \<Rightarrow> nat \<Rightarrow> waited" where
  "signaler_wait intr n = (if intr then Interrupted else if n = 0 then Timed_out else Signalled)"

definition signaler_recv :: "bool \<Rightarrow> nat \<Rightarrow> nat option" where
  "signaler_recv ev n =
     (if n = 0 then None
      else if ev then
        let (dummy, n) = (n, 0) in
        if dummy = 2 then Some (n + 1) else if dummy \<noteq> 1 then None else Some n
      else Some (n - 1))"

section \<open>The mailbox\<close>

record 'a mailbox =
  mb_pipe :: "'a ypipe_t"
  mb_signals :: nat
  mb_active :: bool

definition command_pipe_granularity :: nat where "command_pipe_granularity = 16"

definition mb_read :: "nat \<Rightarrow> 'a mailbox \<Rightarrow> ('a option \<times> 'a mailbox) option" where
  "mb_read N b = do { (p, v) \<leftarrow> yp_read N (mb_pipe b); Some (v, b\<lparr>mb_pipe := p\<rparr>) }"

definition mailbox_init :: "nat \<Rightarrow> nat \<Rightarrow> nat \<Rightarrow> 'a mailbox option" where
  "mailbox_init N a new = do {
     p \<leftarrow> yp_init N a new;
     (v, b) \<leftarrow> mb_read N \<lparr>mb_pipe = p, mb_signals = 0, mb_active = False\<rparr>;
     if v \<noteq> None then None else Some b }"

definition mailbox_send :: "nat \<Rightarrow> nat \<Rightarrow> 'a \<Rightarrow> 'a mailbox \<Rightarrow> 'a mailbox option" where
  "mailbox_send N new cmd b = do {
     p \<leftarrow> yp_write N new cmd False (mb_pipe b);
     let (p, ok) = yp_flush p;
     Some (b\<lparr>mb_pipe := p, mb_signals := (if ok then mb_signals b else signaler_send (mb_signals b))\<rparr>) }"

definition mb_passive :: "bool \<Rightarrow> 'a mailbox \<Rightarrow> 'a mailbox option" where
  "mb_passive ev b = do {
     n \<leftarrow> signaler_recv ev (mb_signals b);
     Some (b\<lparr>mb_active := False, mb_signals := n\<rparr>) }"

definition mb_wait :: "nat \<Rightarrow> bool \<Rightarrow> 'a mailbox \<Rightarrow> ((waited + 'a) \<times> 'a mailbox) option" where
  "mb_wait N intr b = (case signaler_wait intr (mb_signals b) of
     Signalled \<Rightarrow> do {
       (v, b) \<leftarrow> mb_read N (b\<lparr>mb_active := True\<rparr>);
       (case v of None \<Rightarrow> None | Some cmd \<Rightarrow> Some (Inr cmd, b)) }
   | err \<Rightarrow> Some (Inl err, b))"

definition mailbox_recv :: "nat \<Rightarrow> bool \<Rightarrow> bool \<Rightarrow> 'a mailbox \<Rightarrow> ((waited + 'a) \<times> 'a mailbox) option" where
  "mailbox_recv N ev intr b =
     (if mb_active b then do {
        (v, b) \<leftarrow> mb_read N b;
        (case v of
           Some cmd \<Rightarrow> Some (Inr cmd, b)
         | None \<Rightarrow> do { b \<leftarrow> mb_passive ev b; mb_wait N intr b }) }
      else mb_wait N intr b)"

section \<open>Threads\<close>

text \<open>
  The holder of the mutex has written its command (\<open>Written\<close>) or is between the two halves of \<open>flush\<close>
  (\<open>Publishing\<close>). \<open>po_signalling\<close> senders have left the mutex and are about to send a signal. The receiver is outside of
  \<open>recv\<close>, has found the pipe empty, waits for a signal, or has got one.
\<close>

datatype sender_pc = Unlocked | Written | Publishing

datatype receiver_pc = R_outside | R_empty | R_waiting | R_signalled

record 'a post =
  po_box :: "'a mailbox"
  po_lock :: sender_pc
  po_signalling :: nat
  po_pc :: receiver_pc
  po_sent :: "'a list"
  po_received :: "'a list"

inductive mb_step :: "nat \<Rightarrow> bool \<Rightarrow> 'a post \<Rightarrow> 'a post \<Rightarrow> bool" for N ev where
  s_write: "po_lock s = Unlocked \<Longrightarrow> heap (yp_queue (mb_pipe (po_box s))) new = None \<Longrightarrow>
    yp_write N new cmd False (mb_pipe (po_box s)) = Some p \<Longrightarrow>
    mb_step N ev s (s\<lparr>po_box := (po_box s)\<lparr>mb_pipe := p\<rparr>, po_lock := Written, po_sent := po_sent s @ [cmd]\<rparr>)"
| s_flush: "po_lock s = Written \<Longrightarrow> yp_flush_cas (mb_pipe (po_box s)) = (p, Some ok) \<Longrightarrow>
    mb_step N ev s (s\<lparr>po_box := (po_box s)\<lparr>mb_pipe := p\<rparr>, po_lock := Unlocked\<rparr>)"
| s_flush_cas: "po_lock s = Written \<Longrightarrow> yp_flush_cas (mb_pipe (po_box s)) = (p, None) \<Longrightarrow>
    mb_step N ev s (s\<lparr>po_box := (po_box s)\<lparr>mb_pipe := p\<rparr>, po_lock := Publishing\<rparr>)"
| s_flush_set: "po_lock s = Publishing \<Longrightarrow>
    mb_step N ev s (s\<lparr>po_box := (po_box s)\<lparr>mb_pipe := yp_flush_set (mb_pipe (po_box s))\<rparr>, po_lock := Unlocked,
      po_signalling := po_signalling s + 1\<rparr>)"
| s_signal: "0 < po_signalling s \<Longrightarrow>
    mb_step N ev s (s\<lparr>po_box := (po_box s)\<lparr>mb_signals := signaler_send (mb_signals (po_box s))\<rparr>,
      po_signalling := po_signalling s - 1\<rparr>)"
| r_read: "po_pc s = R_outside \<Longrightarrow> mb_active (po_box s) \<Longrightarrow> mb_read N (po_box s) = Some (Some cmd, b) \<Longrightarrow>
    mb_step N ev s (s\<lparr>po_box := b, po_received := po_received s @ [cmd]\<rparr>)"
| r_read_none: "po_pc s = R_outside \<Longrightarrow> mb_active (po_box s) \<Longrightarrow> mb_read N (po_box s) = Some (None, b) \<Longrightarrow>
    mb_step N ev s (s\<lparr>po_box := b, po_pc := R_empty\<rparr>)"
| r_passive: "po_pc s = R_empty \<Longrightarrow> mb_passive ev (po_box s) = Some b \<Longrightarrow>
    mb_step N ev s (s\<lparr>po_box := b, po_pc := R_waiting\<rparr>)"
| r_enter: "po_pc s = R_outside \<Longrightarrow> \<not> mb_active (po_box s) \<Longrightarrow> mb_step N ev s (s\<lparr>po_pc := R_waiting\<rparr>)"
| r_return: "po_pc s = R_waiting \<Longrightarrow> signaler_wait intr (mb_signals (po_box s)) \<noteq> Signalled \<Longrightarrow>
    mb_step N ev s (s\<lparr>po_pc := R_outside\<rparr>)"
| r_signalled: "po_pc s = R_waiting \<Longrightarrow> signaler_wait False (mb_signals (po_box s)) = Signalled \<Longrightarrow>
    mb_step N ev s (s\<lparr>po_box := (po_box s)\<lparr>mb_active := True\<rparr>, po_pc := R_signalled\<rparr>)"
| r_command: "po_pc s = R_signalled \<Longrightarrow> mb_read N (po_box s) = Some (Some cmd, b) \<Longrightarrow>
    mb_step N ev s (s\<lparr>po_box := b, po_pc := R_outside, po_received := po_received s @ [cmd]\<rparr>)"

inductive mb_reach :: "nat \<Rightarrow> bool \<Rightarrow> 'a post \<Rightarrow> bool" for N ev where
  start: "mailbox_init N a new = Some b \<Longrightarrow> a \<noteq> new \<Longrightarrow>
    mb_reach N ev \<lparr>po_box = b, po_lock = Unlocked, po_signalling = 0, po_pc = R_outside, po_sent = [], po_received = []\<rparr>"
| step: "mb_reach N ev s \<Longrightarrow> mb_step N ev s s' \<Longrightarrow> mb_reach N ev s'"

section \<open>Invariant\<close>

text \<open>
  The number of signals sent or about to be sent is one if the pipe is awake, and one more while the
  receiver has found the pipe empty but not yet taken the signal of its last wake-up.
\<close>

definition po_ok :: "nat \<Rightarrow> 'a post \<Rightarrow> 'a chan \<Rightarrow> bool" where
  "po_ok N s ch \<longleftrightarrow> yp_rel N (mb_pipe (po_box s)) ch \<and> partial ch = [] \<and> (asleep ch \<longrightarrow> readable ch = []) \<and>
     po_sent s = po_received s @ readable ch @ pending ch \<and>
     (po_lock s = Unlocked \<longleftrightarrow> pending ch = []) \<and> (po_lock s = Publishing \<longrightarrow> asleep ch) \<and>
     mb_signals (po_box s) + po_signalling s = (if asleep ch then 0 else 1) + (if po_pc s = R_empty then 1 else 0) \<and>
     (mb_active (po_box s) \<longrightarrow> po_pc s \<noteq> R_waiting \<and> 0 < mb_signals (po_box s)) \<and>
     (mb_active (po_box s) \<and> po_pc s \<noteq> R_empty \<longrightarrow> \<not> asleep ch) \<and>
     (po_pc s = R_empty \<or> po_pc s = R_signalled \<longrightarrow> mb_active (po_box s)) \<and>
     (po_pc s \<noteq> R_outside \<or> \<not> mb_active (po_box s) \<longrightarrow> \<not> asleep ch \<longrightarrow> readable ch \<noteq> [])"

lemma mb_read_rel:
  assumes "yp_rel N (mb_pipe b) ch"
  obtains p where "mb_read N b = Some (snd (chan_read ch), b\<lparr>mb_pipe := p\<rparr>)" "yp_rel N p (fst (chan_read ch))"
proof -
  obtain p where "yp_read N (mb_pipe b) = Some (p, snd (chan_read ch))" "yp_rel N p (fst (chan_read ch))"
    using assms by (rule yp_read_rel)
  then show ?thesis by (intro that[of p]) (simp_all add: mb_read_def)
qed

lemma signaler_recv_pred: "0 < n \<Longrightarrow> n \<le> 2 \<Longrightarrow> signaler_recv ev n = Some (n - 1)"
  by (auto simp: signaler_recv_def)

lemma po_ok_signals: "po_ok N s ch \<Longrightarrow> mb_signals (po_box s) \<le> 2"
  by (auto simp: po_ok_def split: if_splits)

lemma mb_step_ok:
  assumes "mb_step N ev s s'" "po_ok N s ch"
  shows "\<exists>ch'. po_ok N s' ch'"
  using assms
proof (induction rule: mb_step.induct)
  case (s_write s new cmd p)
  then have rel: "yp_rel N (mb_pipe (po_box s)) ch" by (simp add: po_ok_def)
  obtain p' where "yp_write N new cmd False (mb_pipe (po_box s)) = Some p'" "yp_rel N p' (chan_write cmd False ch)"
    using rel s_write(2) by (rule yp_write_rel)
  with s_write show ?case
    by (intro exI[of _ "chan_write cmd False ch"]) (auto simp: po_ok_def chan_write_def split: if_splits)
next
  case (s_flush s p ok)
  then show ?case using yp_flush_cas_rel[of N "mb_pipe (po_box s)" ch]
    by (intro exI[of _ "fst (chan_flush ch)"]) (auto simp: po_ok_def chan_flush_def split: if_splits)
next
  case (s_flush_cas s p)
  then show ?case using yp_flush_cas_rel[of N "mb_pipe (po_box s)" ch]
    by (intro exI[of _ ch]) (auto simp: po_ok_def split: if_splits)
next
  case (s_flush_set s)
  then show ?case using yp_flush_set_rel[of N "mb_pipe (po_box s)" ch]
    by (intro exI[of _ "fst (chan_flush ch)"]) (auto simp: po_ok_def chan_flush_def split: if_splits)
next
  case (s_signal s)
  then show ?case by (intro exI[of _ ch]) (auto simp: po_ok_def signaler_send_def split: if_splits)
next
  case (r_read s cmd b)
  then obtain p where "mb_read N (po_box s) = Some (snd (chan_read ch), (po_box s)\<lparr>mb_pipe := p\<rparr>)" "yp_rel N p (fst (chan_read ch))"
    using mb_read_rel[of N "po_box s" ch] by (auto simp: po_ok_def)
  with r_read show ?case by (intro exI[of _ "fst (chan_read ch)"]) (auto simp: po_ok_def chan_read_def neq_Nil_conv split: if_splits)
next
  case (r_read_none s b)
  then obtain p where "mb_read N (po_box s) = Some (snd (chan_read ch), (po_box s)\<lparr>mb_pipe := p\<rparr>)" "yp_rel N p (fst (chan_read ch))"
    using mb_read_rel[of N "po_box s" ch] by (auto simp: po_ok_def)
  with r_read_none show ?case by (intro exI[of _ "fst (chan_read ch)"]) (auto simp: po_ok_def chan_read_def split: if_splits)
next
  case (r_passive s b)
  then have "signaler_recv ev (mb_signals (po_box s)) = Some (mb_signals (po_box s) - 1)"
    using po_ok_signals by (intro signaler_recv_pred) (auto simp: po_ok_def)
  with r_passive show ?case by (intro exI[of _ ch]) (auto simp: po_ok_def mb_passive_def split: if_splits)
next
  case (r_enter s)
  then show ?case by (intro exI[of _ ch]) (auto simp: po_ok_def)
next
  case (r_return s intr)
  then show ?case by (intro exI[of _ ch]) (auto simp: po_ok_def)
next
  case (r_signalled s)
  then show ?case by (intro exI[of _ ch]) (auto simp: po_ok_def signaler_wait_def split: if_splits)
next
  case (r_command s cmd b)
  then obtain p where "mb_read N (po_box s) = Some (snd (chan_read ch), (po_box s)\<lparr>mb_pipe := p\<rparr>)" "yp_rel N p (fst (chan_read ch))"
    using mb_read_rel[of N "po_box s" ch] by (auto simp: po_ok_def)
  with r_command show ?case by (intro exI[of _ "fst (chan_read ch)"]) (auto simp: po_ok_def chan_read_def neq_Nil_conv split: if_splits)
qed

lemma mailbox_init_ok:
  assumes "0 < N" "a \<noteq> new"
  obtains b where "mailbox_init N a new = Some b" "yp_rel N (mb_pipe b) (chan_empty\<lparr>asleep := True\<rparr>)"
    "mb_signals b = 0" "\<not> mb_active b"
proof -
  obtain p :: "'a ypipe_t" where p: "yp_init N a new = Some p" "yp_rel N p chan_empty" using assms by (rule yp_init_rel)
  let ?b = "\<lparr>mb_pipe = p, mb_signals = 0, mb_active = False\<rparr>"
  obtain p' where "mb_read N ?b = Some (snd (chan_read chan_empty), ?b\<lparr>mb_pipe := p'\<rparr>)" "yp_rel N p' (fst (chan_read chan_empty))"
    using mb_read_rel[of N ?b chan_empty] p(2) by auto
  then show ?thesis using p(1) by (intro that[of "?b\<lparr>mb_pipe := p'\<rparr>"]) (auto simp: mailbox_init_def chan_read_def chan_empty_def)
qed

lemma mb_reach_ok:
  assumes "mb_reach N ev s" "0 < N"
  shows "\<exists>ch. po_ok N s ch"
  using assms(1)
proof (induction rule: mb_reach.induct)
  case (start a new b)
  obtain b' :: "'a mailbox" where "mailbox_init N a new = Some b'" "yp_rel N (mb_pipe b') (chan_empty\<lparr>asleep := True\<rparr>)"
    "mb_signals b' = 0" "\<not> mb_active b'" using assms(2) start(2) by (rule mailbox_init_ok)
  then show ?case using start(1)
    by (intro exI[of _ "chan_empty\<lparr>asleep := True\<rparr>"]) (auto simp: po_ok_def chan_empty_def)
next
  case (step s s')
  then show ?case using mb_step_ok by blast
qed

section \<open>Whole calls\<close>

lemma po_same:
  "po_pc s = R_outside \<Longrightarrow> s\<lparr>po_box := b, po_pc := R_outside, po_received := xs\<rparr> = s\<lparr>po_box := b, po_received := xs\<rparr>"
  by (cases s) simp

text \<open>Calls of \<open>send\<close> and \<open>recv\<close> that are not interrupted by other threads are sequences of the steps above.\<close>

lemma mailbox_send_steps:
  assumes "po_lock s = Unlocked" "heap (yp_queue (mb_pipe (po_box s))) new = None"
    and send: "mailbox_send N new cmd (po_box s) = Some b"
  shows "(mb_step N ev)\<^sup>*\<^sup>* s (s\<lparr>po_box := b, po_sent := po_sent s @ [cmd]\<rparr>)"
proof -
  obtain p where p: "yp_write N new cmd False (mb_pipe (po_box s)) = Some p" using send by (auto simp: mailbox_send_def bind_eq_Some)
  let ?s1 = "s\<lparr>po_box := (po_box s)\<lparr>mb_pipe := p\<rparr>, po_lock := Written, po_sent := po_sent s @ [cmd]\<rparr>"
  have w: "mb_step N ev s ?s1" using assms(1,2) p by (rule s_write)
  obtain q r where f: "yp_flush_cas p = (q, r)" by fastforce
  show ?thesis
  proof (cases r)
    case (Some ok)
    then have ok: "ok" using f by (auto simp: yp_flush_cas_def Let_def split: if_splits prod.splits)
    have b: "b = (po_box s)\<lparr>mb_pipe := q\<rparr>" using send p f Some ok by (auto simp: mailbox_send_def yp_flush_def)
    have "mb_step N ev ?s1 (?s1\<lparr>po_box := (po_box ?s1)\<lparr>mb_pipe := q\<rparr>, po_lock := Unlocked\<rparr>)"
      using f Some by (intro s_flush) auto
    moreover have "?s1\<lparr>po_box := (po_box ?s1)\<lparr>mb_pipe := q\<rparr>, po_lock := Unlocked\<rparr> = s\<lparr>po_box := b, po_sent := po_sent s @ [cmd]\<rparr>"
      using b assms(1) by (intro post.equality) simp_all
    ultimately have "mb_step N ev ?s1 (s\<lparr>po_box := b, po_sent := po_sent s @ [cmd]\<rparr>)" by metis
    then show ?thesis using w by (meson converse_rtranclp_into_rtranclp r_into_rtranclp)
  next
    case None
    let ?s2 = "?s1\<lparr>po_box := (po_box ?s1)\<lparr>mb_pipe := q\<rparr>, po_lock := Publishing\<rparr>"
    let ?s3 = "?s2\<lparr>po_box := (po_box ?s2)\<lparr>mb_pipe := yp_flush_set q\<rparr>, po_lock := Unlocked, po_signalling := po_signalling s + 1\<rparr>"
    have b: "b = (po_box s)\<lparr>mb_pipe := yp_flush_set q, mb_signals := signaler_send (mb_signals (po_box s))\<rparr>"
      using send p f None by (auto simp: mailbox_send_def yp_flush_def)
    have 1: "mb_step N ev ?s1 ?s2" using f None by (intro s_flush_cas) auto
    have 2: "mb_step N ev ?s2 ?s3" using s_flush_set[of ?s2 N ev] by simp
    have "?s3\<lparr>po_box := (po_box ?s3)\<lparr>mb_signals := signaler_send (mb_signals (po_box ?s3))\<rparr>, po_signalling := po_signalling ?s3 - 1\<rparr> =
        s\<lparr>po_box := b, po_sent := po_sent s @ [cmd]\<rparr>" using b assms(1) by (intro post.equality) simp_all
    moreover have "0 < po_signalling ?s3" by simp
    ultimately have 3: "mb_step N ev ?s3 (s\<lparr>po_box := b, po_sent := po_sent s @ [cmd]\<rparr>)" using s_signal[of ?s3 N ev] by metis
    show ?thesis using w 1 2 3 by (meson converse_rtranclp_into_rtranclp r_into_rtranclp)
  qed
qed

lemma mb_wait_steps:
  assumes "po_pc s = R_waiting" "mb_wait N intr (po_box s) = Some (r, b)"
  shows "(mb_step N ev)\<^sup>*\<^sup>* s (s\<lparr>po_box := b, po_pc := R_outside,
    po_received := po_received s @ (case r of Inl _ \<Rightarrow> [] | Inr cmd \<Rightarrow> [cmd])\<rparr>)"
proof (cases "signaler_wait intr (mb_signals (po_box s)) = Signalled")
  case False
  then have "b = po_box s" "\<exists>e. r = Inl e" using assms(2) by (auto simp: mb_wait_def split: waited.splits)
  then have "mb_step N ev s (s\<lparr>po_box := b, po_pc := R_outside,
    po_received := po_received s @ (case r of Inl _ \<Rightarrow> [] | Inr cmd \<Rightarrow> [cmd])\<rparr>)" using r_return[OF assms(1) False, of N ev] by auto
  then show ?thesis by blast
next
  case True
  then obtain cmd where r: "mb_read N ((po_box s)\<lparr>mb_active := True\<rparr>) = Some (Some cmd, b)" "r = Inr cmd"
    using assms(2) by (auto simp: mb_wait_def bind_eq_Some split: option.splits)
  let ?s1 = "s\<lparr>po_box := (po_box s)\<lparr>mb_active := True\<rparr>, po_pc := R_signalled\<rparr>"
  have 1: "mb_step N ev s ?s1" using True assms(1) by (intro r_signalled) (auto simp: signaler_wait_def split: if_splits)
  have 2: "mb_step N ev ?s1 (s\<lparr>po_box := b, po_pc := R_outside, po_received := po_received s @ [cmd]\<rparr>)"
    using r_command[of ?s1 N cmd b ev] r by simp
  have "(mb_step N ev)\<^sup>*\<^sup>* s (s\<lparr>po_box := b, po_pc := R_outside, po_received := po_received s @ [cmd]\<rparr>)"
    using 1 2 by (meson converse_rtranclp_into_rtranclp r_into_rtranclp)
  then show ?thesis using r(2) by simp
qed

lemma mailbox_recv_steps:
  assumes "po_pc s = R_outside" "mailbox_recv N ev intr (po_box s) = Some (r, b)"
  shows "(mb_step N ev)\<^sup>*\<^sup>* s (s\<lparr>po_box := b, po_received := po_received s @ (case r of Inl _ \<Rightarrow> [] | Inr cmd \<Rightarrow> [cmd])\<rparr>)"
proof (cases "mb_active (po_box s)")
  case False
  then have "mb_step N ev s (s\<lparr>po_pc := R_waiting\<rparr>)" using assms(1) by (intro r_enter)
  moreover have "(mb_step N ev)\<^sup>*\<^sup>* (s\<lparr>po_pc := R_waiting\<rparr>) (s\<lparr>po_box := b,
      po_received := po_received s @ (case r of Inl _ \<Rightarrow> [] | Inr cmd \<Rightarrow> [cmd])\<rparr>)"
    using mb_wait_steps[of "s\<lparr>po_pc := R_waiting\<rparr>" N intr r b ev] assms False by (simp add: mailbox_recv_def po_same)
  ultimately show ?thesis by (rule converse_rtranclp_into_rtranclp)
next
  case True
  then obtain v b1 where v: "mb_read N (po_box s) = Some (v, b1)" using assms(2) by (auto simp: mailbox_recv_def bind_eq_Some)
  show ?thesis
  proof (cases v)
    case (Some cmd)
    then have "r = Inr cmd" "b = b1" using v True assms(2) by (auto simp: mailbox_recv_def)
    then have "mb_step N ev s (s\<lparr>po_box := b, po_received := po_received s @ (case r of Inl _ \<Rightarrow> [] | Inr cmd \<Rightarrow> [cmd])\<rparr>)"
      using r_read[OF assms(1) True] v Some by simp
    then show ?thesis by blast
  next
    case None
    then obtain b2 where b2: "mb_passive ev b1 = Some b2" "mb_wait N intr b2 = Some (r, b)"
      using v True assms(2) by (auto simp: mailbox_recv_def bind_eq_Some)
    let ?s1 = "s\<lparr>po_box := b1, po_pc := R_empty\<rparr>" and ?s2 = "s\<lparr>po_box := b2, po_pc := R_waiting\<rparr>"
    have 1: "mb_step N ev s ?s1" using assms(1) True v None by (intro r_read_none) auto
    have 2: "mb_step N ev ?s1 ?s2" using r_passive[of ?s1 ev b2 N] b2(1) by simp
    have 3: "(mb_step N ev)\<^sup>*\<^sup>* ?s2 (s\<lparr>po_box := b, po_received := po_received s @ (case r of Inl _ \<Rightarrow> [] | Inr cmd \<Rightarrow> [cmd])\<rparr>)"
      using mb_wait_steps[of ?s2 N intr r b ev] assms(1) b2(2) by (simp add: po_same)
    show ?thesis using 1 2 3 by (meson converse_rtranclp_into_rtranclp)
  qed
qed

section \<open>Properties\<close>

lemma mb_wait_ok:
  assumes "yp_rel N (mb_pipe b) ch" "0 < mb_signals b \<longrightarrow> readable ch \<noteq> []"
  shows "\<exists>r b'. mb_wait N intr b = Some (r, b') \<and> (\<not> intr \<and> 0 < mb_signals b \<longrightarrow> r = Inr (hd (readable ch)))"
proof -
  have "yp_rel N (mb_pipe (b\<lparr>mb_active := True\<rparr>)) ch" using assms(1) by simp
  then obtain p where "mb_read N (b\<lparr>mb_active := True\<rparr>) = Some (snd (chan_read ch), b\<lparr>mb_active := True, mb_pipe := p\<rparr>)"
    by (rule mb_read_rel) auto
  then show ?thesis using assms(2) by (auto simp: mb_wait_def signaler_wait_def chan_read_def)
qed

text \<open>
  C37: the mailbox of a thread delivers. In every interleaving of any number of senders with the receiver, with both
  implementations of the signaler, no assertion of the mailbox and the signaler fails, in particular there is a
  command whenever a signal was received and at most two signals are ever in the descriptor; the commands arrive in order,
  each once; a receiver that waits while there is a command has been sent a signal or is about to be; and
  once the senders have finished, the next call of \<open>recv\<close> returns the oldest command.
\<close>

theorem mailbox_delivers:
  assumes "mb_reach N ev s" "0 < N"
  shows "\<exists>rest. po_sent s = po_received s @ rest \<and> mb_signals (po_box s) \<le> 2 \<and>
    (po_pc s = R_outside \<longrightarrow> (\<forall>intr. mailbox_recv N ev intr (po_box s) \<noteq> None)) \<and>
    (po_pc s = R_empty \<longrightarrow> mb_passive ev (po_box s) \<noteq> None) \<and>
    (po_pc s = R_signalled \<longrightarrow> (\<exists>cmd b. mb_read N (po_box s) = Some (Some cmd, b))) \<and>
    (po_lock s = Unlocked \<longrightarrow> (\<forall>new cmd. heap (yp_queue (mb_pipe (po_box s))) new = None \<longrightarrow>
      mailbox_send N new cmd (po_box s) \<noteq> None)) \<and>
    (po_lock s = Unlocked \<and> rest \<noteq> [] \<and> po_pc s = R_waiting \<longrightarrow> 0 < mb_signals (po_box s) + po_signalling s) \<and>
    (po_lock s = Unlocked \<and> po_signalling s = 0 \<and> rest \<noteq> [] \<and> po_pc s = R_outside \<longrightarrow>
      (\<exists>b. mailbox_recv N ev False (po_box s) = Some (Inr (hd rest), b)))"
proof -
  obtain ch where ok: "po_ok N s ch" using mb_reach_ok[OF assms] by blast
  then have rel: "yp_rel N (mb_pipe (po_box s)) ch" by (simp add: po_ok_def)
  obtain p where p: "mb_read N (po_box s) = Some (snd (chan_read ch), (po_box s)\<lparr>mb_pipe := p\<rparr>)" "yp_rel N p (fst (chan_read ch))"
    using rel by (rule mb_read_rel)
  let ?n = "mb_signals (po_box s)"
  have n: "?n \<le> 2" using ok by (rule po_ok_signals)
  have rp: "0 < k \<Longrightarrow> k \<le> 2 \<Longrightarrow> mb_passive ev (b\<lparr>mb_signals := k\<rparr>) = Some (b\<lparr>mb_signals := k - 1, mb_active := False\<rparr>)" for k b
    using signaler_recv_pred[of k ev] by (simp add: mb_passive_def)
  have recv: "\<exists>r b. mailbox_recv N ev intr (po_box s) = Some (r, b) \<and>
      (\<not> intr \<and> po_signalling s = 0 \<and> readable ch \<noteq> [] \<longrightarrow> r = Inr (hd (readable ch)))" if pc: "po_pc s = R_outside" for intr
  proof (cases "mb_active (po_box s)")
    case False
    have "0 < ?n \<longrightarrow> readable ch \<noteq> []" "po_signalling s = 0 \<and> readable ch \<noteq> [] \<longrightarrow> 0 < ?n"
      using ok pc False by (auto simp: po_ok_def split: if_splits)
    then show ?thesis using mb_wait_ok[OF rel, of intr] False by (auto simp: mailbox_recv_def)
  next
    case act: True
    show ?thesis
    proof (cases "readable ch = []")
      case False
      then show ?thesis using act p(1) by (simp add: mailbox_recv_def chan_read_def)
    next
      case True
      let ?b = "(po_box s)\<lparr>mb_pipe := p\<rparr>"
      have one: "?n = 1" using ok act pc by (auto simp: po_ok_def split: if_splits)
      then have "mb_passive ev ?b = Some (?b\<lparr>mb_signals := 0, mb_active := False\<rparr>)" using rp[of 1 ?b] by (simp add: mb_passive_def)
      moreover have "\<exists>r b'. mb_wait N intr (?b\<lparr>mb_signals := 0, mb_active := False\<rparr>) = Some (r, b')"
        by (auto simp: mb_wait_def signaler_wait_def)
      ultimately show ?thesis using act p(1) True by (auto simp: mailbox_recv_def chan_read_def)
    qed
  qed
  have pas: "mb_passive ev (po_box s) \<noteq> None" if "po_pc s = R_empty"
    using ok that n signaler_recv_pred[of ?n ev] by (auto simp: po_ok_def mb_passive_def)
  have sig: "\<exists>cmd b. mb_read N (po_box s) = Some (Some cmd, b)" if "po_pc s = R_signalled"
    using ok that p(1) by (auto simp: po_ok_def chan_read_def)
  have snd: "mailbox_send N new cmd (po_box s) \<noteq> None" if "heap (yp_queue (mb_pipe (po_box s))) new = None" for new cmd
    by (rule yp_write_rel[OF rel that, of cmd False]) (auto simp: mailbox_send_def split: prod.splits)
  have rest: "po_sent s = po_received s @ readable ch @ pending ch" "po_lock s = Unlocked \<longrightarrow> pending ch = []"
    "po_lock s = Unlocked \<and> readable ch \<noteq> [] \<and> po_pc s = R_waiting \<longrightarrow> 0 < ?n + po_signalling s"
    using ok by (auto simp: po_ok_def)
  show ?thesis
  proof (intro exI[of _ "readable ch @ pending ch"] conjI impI allI, goal_cases)
    case (3 intr)
    then show ?case using recv[of intr] by auto
  next
    case 8
    then have "pending ch = []" using rest(2) by blast
    with 8 recv[of False] show ?case by auto
  qed (use rest n pas sig snd in auto)
qed

theorem mailbox_delivers_witness:
  "\<exists>b b1 b2. mailbox_init 1 7 8 = Some b \<and> mailbox_send 1 9 (3 :: nat) b = Some b1 \<and>
     mailbox_recv 1 True False b1 = Some (Inr 3, b2)"
proof -
  obtain b :: "nat mailbox" where b: "mailbox_init 1 7 8 = Some b" by (rule mailbox_init_ok[of 1 7 8]) auto
  let ?s = "\<lparr>po_box = b, po_lock = Unlocked, po_signalling = 0, po_pc = R_outside, po_sent = [], po_received = []\<rparr>"
  have r: "mb_reach 1 True ?s" using b by (rule start) simp
  have h: "heap (yp_queue (mb_pipe b)) 9 = None" using b
    by (auto simp: mailbox_init_def mb_read_def yp_read_def yp_check_read_def yp_init_def yq_push_def yq_init_def
        yq_pop_def heap_simps bind_eq_Some Let_def ptr_cas_def split: if_splits prod.splits)
  have "\<exists>b1. mailbox_send 1 9 3 b = Some b1" using mailbox_delivers[OF r] h by simp
  then obtain b1 where b1: "mailbox_send 1 9 3 b = Some b1" by blast
  have "(mb_step 1 True)\<^sup>*\<^sup>* ?s (?s\<lparr>po_box := b1, po_sent := [3]\<rparr>)"
    using mailbox_send_steps[of ?s 9 1 3 b1 True] h b1 by simp
  then have "mb_reach 1 True (?s\<lparr>po_box := b1, po_sent := [3]\<rparr>)"
    by (induction rule: rtranclp_induct) (use r in \<open>auto intro: step\<close>)
  from mailbox_delivers[OF this] b b1 show ?thesis by auto
qed

end
