(* ===== verification/Socket_Base.thy ===== *)
theory Socket_Base
  imports Simple_Sockets
begin

text \<open>
  What all sockets have in common: \<open>socket_base_t\<close> of \<open>socket_base.hpp\<close> and \<open>socket_base.cpp\<close>, with the calls of the
  application thread (\<open>send\<close>, \<open>recv\<close>, the options), the processing of commands, the bookkeeping of pipes and
  the addresses of endpoints. The virtual methods of the socket type are an argument, \<open>socket_ops\<close>. Time
  passes in moments: a moment is what one call of \<open>process_commands\<close> finds, the commands that have arrived, the
  counter of the processor, the clock, and after how many commands a system signal interrupts the mailbox.
  A call that would need more moments than there are is still waiting.
\<close>

section \<open>State\<close>

datatype 'c base_cmd = Stop | Bind nat | To_other 'c

record ('s, 'c) socket_ops =
  op_send :: "frame \<Rightarrow> 's \<Rightarrow> ('s \<times> unit outcome) option"
  op_recv :: "'s \<Rightarrow> ('s \<times> frame outcome) option"
  op_has_out :: "'s \<Rightarrow> ('s \<times> bool) option"
  op_has_in :: "'s \<Rightarrow> ('s \<times> bool) option"
  op_attach :: "nat \<Rightarrow> bool \<Rightarrow> 's \<Rightarrow> 's option"
  op_terminated :: "nat \<Rightarrow> 's \<Rightarrow> 's option"
  op_hiccuped :: "nat \<Rightarrow> 's \<Rightarrow> 's option"
  op_pipe_terminate :: "bool \<Rightarrow> nat \<Rightarrow> 's \<Rightarrow> 's option"
  op_setsockopt :: "sockopt \<Rightarrow> bytes option \<Rightarrow> 's \<Rightarrow> ('s \<times> unit outcome) option"
  op_launch_child :: "nat \<Rightarrow> 's \<Rightarrow> 's option"
  op_term_child :: "nat \<Rightarrow> 's \<Rightarrow> 's option"
  op_exec :: "'c \<Rightarrow> 's \<Rightarrow> 's option"

text \<open>\<open>sb_term_acks\<close> and \<open>sb_terminating\<close> are the fields of \<open>own_t\<close> the socket uses; \<open>sb_queue\<close> is its mailbox.\<close>

record ('s, 'c, 'f) socket_base =
  ctx_terminated :: bool
  last_tsc :: uint64
  ticks :: int
  rcvmore :: bool
  sb_queue :: "'c base_cmd list"
  sb_pipes :: "nat array_t"
  sb_endpoints :: "(string \<times> nat) list"
  sb_inprocs :: "(string \<times> nat) list"
  sb_terminating :: bool
  sb_term_acks :: int
  sb_options :: "'f options"
  derived :: 's

record 'c moment =
  arrivals :: "'c base_cmd list"
  tsc :: uint64
  interrupted :: "nat option"
  now_ms :: uint64

type_synonym ('s, 'c, 'f, 'r) called = "('c moment list \<times> ('s, 'c, 'f) socket_base \<times> 'r outcome option) option"

definition inbound_poll_rate :: int where "inbound_poll_rate = 100"
definition max_command_delay :: uint64 where "max_command_delay = 3000000"

definition socket_base_init :: "'f options \<Rightarrow> 's \<Rightarrow> ('s, 'c, 'f) socket_base" where
  "socket_base_init opts s =
     \<lparr>ctx_terminated = False, last_tsc = 0, ticks = 0, rcvmore = False, sb_queue = [], sb_pipes = array_init,
      sb_endpoints = [], sb_inprocs = [], sb_terminating = False, sb_term_acks = 0, sb_options = opts, derived = s\<rparr>"

section \<open>Addresses\<close>

fun find_sep :: "string \<Rightarrow> nat option" where
  "find_sep [] = None"
| "find_sep (c # cs) = (if take 3 (c # cs) = ''://'' then Some 0 else map_option Suc (find_sep cs))"

definition parse_uri :: "string \<Rightarrow> (string \<times> string) outcome" where
  "parse_uri uri = (case find_sep uri of
     None \<Rightarrow> Inl EINVAL
   | Some pos \<Rightarrow>
       let protocol = take pos uri; address = drop (pos + 3) uri
       in if protocol = [] \<or> address = [] then Inl EINVAL else Inr (protocol, address))"

text \<open>\<open>pgm\<close> and \<open>ipc\<close> tell whether these transports are compiled in.\<close>

definition check_protocol :: "bool \<Rightarrow> bool \<Rightarrow> string \<Rightarrow> 'f options \<Rightarrow> unit outcome" where
  "check_protocol pgm ipc protocol op =
     (if protocol \<notin> {''inproc'', ''ipc'', ''tcp'', ''pgm'', ''epgm''} then Inl EPROTONOSUPPORT
      else if \<not> pgm \<and> (protocol = ''pgm'' \<or> protocol = ''epgm'') then Inl EPROTONOSUPPORT
      else if \<not> ipc \<and> protocol = ''ipc'' then Inl EPROTONOSUPPORT
      else if (protocol = ''pgm'' \<or> protocol = ''epgm'') \<and> socktype op \<notin> {PUB, SUB, XPUB, XSUB} then Inl ENOCOMPATPROTO
      else Inr ())"

section \<open>Pipes\<close>

definition sb_attach_pipe :: "('s, 'c) socket_ops \<Rightarrow> nat \<Rightarrow> bool \<Rightarrow> ('s, 'c, 'f) socket_base \<Rightarrow> ('s, 'c, 'f) socket_base option" where
  "sb_attach_pipe ops p all b = do {
     let b = b\<lparr>sb_pipes := array_push_back p (sb_pipes b)\<rparr>;
     s \<leftarrow> op_attach ops p all (derived b);
     if sb_terminating b then do {
       s \<leftarrow> op_pipe_terminate ops False p s;
       Some (b\<lparr>sb_term_acks := sb_term_acks b + 1, derived := s\<rparr>) }
     else Some (b\<lparr>derived := s\<rparr>) }"

fun for_all :: "('p \<Rightarrow> 's \<Rightarrow> 's option) \<Rightarrow> 'p list \<Rightarrow> 's \<Rightarrow> 's option" where
  "for_all f [] s = Some s"
| "for_all f (p # ps) s = do { s \<leftarrow> f p s; for_all f ps s }"

text \<open>What follows in \<open>own_t::process_term\<close> is part of the ownership tree.\<close>

definition sb_process_term :: "('s, 'c) socket_ops \<Rightarrow> ('s, 'c, 'f) socket_base \<Rightarrow> ('s, 'c, 'f) socket_base option" where
  "sb_process_term ops b = do {
     s \<leftarrow> for_all (op_pipe_terminate ops False) (items (sb_pipes b)) (derived b);
     Some (b\<lparr>derived := s, sb_term_acks := sb_term_acks b + int (array_size (sb_pipes b)), sb_terminating := True\<rparr>) }"

fun forget_pipe :: "nat \<Rightarrow> (string \<times> nat) list \<Rightarrow> (string \<times> nat) list" where
  "forget_pipe p [] = []"
| "forget_pipe p (x # xs) = (if snd x = p then xs else x # forget_pipe p xs)"

definition sb_terminated :: "('s, 'c) socket_ops \<Rightarrow> nat \<Rightarrow> ('s, 'c, 'f) socket_base \<Rightarrow> ('s, 'c, 'f) socket_base option" where
  "sb_terminated ops p b = do {
     s \<leftarrow> op_terminated ops p (derived b);
     ps \<leftarrow> array_erase p (sb_pipes b);
     let b = b\<lparr>derived := s, sb_inprocs := forget_pipe p (sb_inprocs b), sb_pipes := ps\<rparr>;
     if sb_terminating b then (if sb_term_acks b \<le> 0 then None else Some (b\<lparr>sb_term_acks := sb_term_acks b - 1\<rparr>))
     else Some b }"

definition sb_hiccuped :: "('s, 'c) socket_ops \<Rightarrow> nat \<Rightarrow> ('s, 'c, 'f) socket_base \<Rightarrow> ('s, 'c, 'f) socket_base option" where
  "sb_hiccuped ops p b = do {
     s \<leftarrow> (if delay_attach_on_connect (sb_options b) = 1 then op_pipe_terminate ops False p (derived b)
          else op_hiccuped ops p (derived b));
     Some (b\<lparr>derived := s\<rparr>) }"

section \<open>Commands\<close>

definition process_stop :: "('s, 'c, 'f) socket_base \<Rightarrow> ('s, 'c, 'f) socket_base" where
  "process_stop b = b\<lparr>ctx_terminated := True\<rparr>"

fun exec_cmds :: "('s, 'c) socket_ops \<Rightarrow> 'c base_cmd list \<Rightarrow> ('s, 'c, 'f) socket_base \<Rightarrow> ('s, 'c, 'f) socket_base option" where
  "exec_cmds ops [] b = Some b"
| "exec_cmds ops (Stop # cs) b = exec_cmds ops cs (process_stop b)"
| "exec_cmds ops (Bind p # cs) b = do { b \<leftarrow> sb_attach_pipe ops p False b; exec_cmds ops cs b }"
| "exec_cmds ops (To_other c # cs) b = do { s \<leftarrow> op_exec ops c (derived b); exec_cmds ops cs (b\<lparr>derived := s\<rparr>) }"

definition throttled :: "'c moment \<Rightarrow> ('s, 'c, 'f) socket_base \<Rightarrow> bool" where
  "throttled t b \<longleftrightarrow> last_tsc b \<le> tsc t \<and> tsc t - last_tsc b \<le> max_command_delay"

definition process_commands ::
    "('s, 'c) socket_ops \<Rightarrow> bool \<Rightarrow> bool \<Rightarrow> 'c moment \<Rightarrow> ('s, 'c, 'f) socket_base \<Rightarrow> (('s, 'c, 'f) socket_base \<times> unit outcome) option" where
  "process_commands ops wait throttle t b = (
     let b = b\<lparr>sb_queue := sb_queue b @ arrivals t\<rparr>;
         timed = \<not> wait \<and> tsc t \<noteq> 0 \<and> throttle
     in if timed \<and> throttled t b then Some (b, Inr ())
        else
          let b = (if timed then b\<lparr>last_tsc := tsc t\<rparr> else b);
              q = sb_queue b;
              n = (case interrupted t of None \<Rightarrow> length q | Some k \<Rightarrow> k)
          in do {
            b \<leftarrow> exec_cmds ops (take n q) (b\<lparr>sb_queue := drop n q\<rparr>);
            Some (b, if interrupted t \<noteq> None then Inl EINTR
                     else if ctx_terminated b then Inl ETERM
                     else Inr ()) })"

definition poll ::
    "('s, 'c) socket_ops \<Rightarrow> bool \<Rightarrow> bool \<Rightarrow> 'c moment list \<Rightarrow> ('s, 'c, 'f) socket_base \<Rightarrow> ('s, 'c, 'f, unit) called" where
  "poll ops wait throttle ts b = (case ts of
     [] \<Rightarrow> Some ([], b, None)
   | t # ts \<Rightarrow> do { (b, r) \<leftarrow> process_commands ops wait throttle t b; Some (ts, b, Some r) })"

section \<open>Endpoints\<close>

text \<open>The two maps from addresses to objects; their entries for one address are all treated alike.\<close>

definition add_endpoint :: "('s, 'c) socket_ops \<Rightarrow> string \<Rightarrow> nat \<Rightarrow> ('s, 'c, 'f) socket_base \<Rightarrow> ('s, 'c, 'f) socket_base option" where
  "add_endpoint ops addr e b = do {
     s \<leftarrow> op_launch_child ops e (derived b);
     Some (b\<lparr>derived := s, sb_endpoints := sb_endpoints b @ [(addr, e)]\<rparr>) }"

definition entries :: "string \<Rightarrow> (string \<times> nat) list \<Rightarrow> nat list" where
  "entries addr m = map snd (filter (\<lambda>x. fst x = addr) m)"

definition without :: "string \<Rightarrow> (string \<times> nat) list \<Rightarrow> (string \<times> nat) list" where
  "without addr m = filter (\<lambda>x. fst x \<noteq> addr) m"

definition disconnect :: "('s, 'c) socket_ops \<Rightarrow> bool \<Rightarrow> bool \<Rightarrow> string \<Rightarrow> ('s, 'c, 'f) socket_base \<Rightarrow>
    (('s, 'c, 'f) socket_base \<times> unit outcome) option" where
  "disconnect ops pgm ipc addr b = (case parse_uri addr of
     Inl e \<Rightarrow> Some (b, Inl e)
   | Inr (protocol, _) \<Rightarrow> (case check_protocol pgm ipc protocol (sb_options b) of
       Inl e \<Rightarrow> Some (b, Inl e)
     | Inr _ \<Rightarrow>
         if protocol = ''inproc'' then
           (if entries addr (sb_inprocs b) = [] then Some (b, Inl ENOENT)
            else do {
              s \<leftarrow> for_all (op_pipe_terminate ops True) (entries addr (sb_inprocs b)) (derived b);
              Some (b\<lparr>derived := s, sb_inprocs := without addr (sb_inprocs b)\<rparr>, Inr ()) })
         else if entries addr (sb_endpoints b) = [] then Some (b, Inl ENOENT)
         else do {
           s \<leftarrow> for_all (op_term_child ops) (entries addr (sb_endpoints b)) (derived b);
           Some (b\<lparr>derived := s, sb_endpoints := without addr (sb_endpoints b)\<rparr>, Inr ()) }))"

definition term_endpoint :: "('s, 'c) socket_ops \<Rightarrow> bool \<Rightarrow> bool \<Rightarrow> string option \<Rightarrow> 'c moment list \<Rightarrow>
    ('s, 'c, 'f) socket_base \<Rightarrow> ('s, 'c, 'f, unit) called" where
  "term_endpoint ops pgm ipc addr ts b =
     (if ctx_terminated b then Some (ts, b, Some (Inl ETERM))
      else case addr of
        None \<Rightarrow> Some (ts, b, Some (Inl EINVAL))
      | Some addr \<Rightarrow> do {
          (ts, b, r) \<leftarrow> poll ops False False ts b;
          (case r of
             None \<Rightarrow> Some (ts, b, None)
           | Some (Inl e) \<Rightarrow> Some (ts, b, Some (Inl e))
           | Some (Inr _) \<Rightarrow> do { (b, r) \<leftarrow> disconnect ops pgm ipc addr b; Some (ts, b, Some r) }) })"

section \<open>Options\<close>

definition sb_setsockopt ::
    "caps \<Rightarrow> (bytes \<Rightarrow> bool \<Rightarrow> 'f option) \<Rightarrow> ('s, 'c) socket_ops \<Rightarrow> sockopt \<Rightarrow> bytes option \<Rightarrow> ('s, 'c, 'f) socket_base \<Rightarrow>
     (('s, 'c, 'f) socket_base \<times> unit outcome) option" where
  "sb_setsockopt cp resolve ops opt v b =
     (if ctx_terminated b then Some (b, Inl ETERM)
      else do {
        (s, r) \<leftarrow> op_setsockopt ops opt v (derived b);
        let b = b\<lparr>derived := s\<rparr>;
        if r \<noteq> Inl EINVAL then Some (b, r)
        else (case setsockopt cp resolve opt v (sb_options b) of
            Inl e \<Rightarrow> Some (b, Inl e)
          | Inr op \<Rightarrow> Some (b\<lparr>sb_options := op\<rparr>, Inr ())) })"

definition zmq_rcvmore :: int where "zmq_rcvmore = 13"
definition zmq_fd :: int where "zmq_fd = 14"
definition zmq_events :: int where "zmq_events = 15"

text \<open>\<open>fd\<close> is the descriptor of the mailbox.\<close>

definition sb_getsockopt ::
    "('s, 'c) socket_ops \<Rightarrow> int \<Rightarrow> sockopt \<Rightarrow> nat \<Rightarrow> 'c moment list \<Rightarrow> ('s, 'c, 'f) socket_base \<Rightarrow> ('s, 'c, 'f, bytes) called" where
  "sb_getsockopt ops fd opt len ts b =
     (if ctx_terminated b then Some (ts, b, Some (Inl ETERM))
      else if opt = ZMQ_OTHER zmq_rcvmore then
        Some (ts, b, Some (if len < 4 then Inl EINVAL else Inr (int_bytes (if rcvmore b then 1 else 0))))
      else if opt = ZMQ_OTHER zmq_fd then
        Some (ts, b, Some (if len < 4 then Inl EINVAL else Inr (int_bytes fd)))
      else if opt = ZMQ_OTHER zmq_events then
        (if len < 4 then Some (ts, b, Some (Inl EINVAL))
         else do {
           (ts, b, r) \<leftarrow> poll ops False False ts b;
           (case r of
              None \<Rightarrow> Some (ts, b, None)
            | Some (Inl e) \<Rightarrow> if e = EINTR \<or> e = ETERM then Some (ts, b, Some (Inl e)) else None
            | Some (Inr _) \<Rightarrow> do {
                (s, can_out) \<leftarrow> op_has_out ops (derived b);
                (s, can_in) \<leftarrow> op_has_in ops s;
                Some (ts, b\<lparr>derived := s\<rparr>, Some (Inr (int_bytes ((if can_out then 2 else 0) + (if can_in then 1 else 0))))) }) })
      else Some (ts, b, Some (getsockopt opt len (sb_options b))))"

section \<open>Sending\<close>

text \<open>\<open>(int) (end - clock.now_ms ())\<close>\<close>

definition time_left :: "uint64 \<Rightarrow> uint64 \<Rightarrow> int" where
  "time_left deadline now = sint (ucast (deadline - now) :: 32 word)"

definition deadline_of :: "int \<Rightarrow> uint64 \<Rightarrow> uint64" where
  "deadline_of timeout now = (if timeout < 0 then 0 else now + of_int timeout)"

definition set_more :: "bool \<Rightarrow> frame \<Rightarrow> frame" where
  "set_more sndmore m = m\<lparr>fflags := (fflags m AND NOT msg_more) OR (if sndmore then msg_more else 0)\<rparr>"

fun send_loop ::
    "('s, 'c) socket_ops \<Rightarrow> frame \<Rightarrow> int \<Rightarrow> uint64 \<Rightarrow> 'c moment list \<Rightarrow> ('s, 'c, 'f) socket_base \<Rightarrow> ('s, 'c, 'f, unit) called" where
  "send_loop ops m timeout deadline [] b = Some ([], b, None)"
| "send_loop ops m timeout deadline (t # ts) b = do {
     (b, r) \<leftarrow> process_commands ops (timeout \<noteq> 0) False t b;
     (case r of
        Inl e \<Rightarrow> Some (ts, b, Some (Inl e))
      | Inr _ \<Rightarrow> do {
          (s, r) \<leftarrow> op_send ops m (derived b);
          let b = b\<lparr>derived := s\<rparr>;
          (case r of
             Inr _ \<Rightarrow> Some (ts, b, Some (Inr ()))
           | Inl e \<Rightarrow>
               if e \<noteq> EAGAIN then Some (ts, b, Some (Inl e))
               else if timeout > 0 then
                 (if time_left deadline (now_ms t) \<le> 0 then Some (ts, b, Some (Inl EAGAIN))
                  else send_loop ops m (time_left deadline (now_ms t)) deadline ts b)
               else send_loop ops m timeout deadline ts b) }) }"

definition sb_send ::
    "('s, 'c) socket_ops \<Rightarrow> bool \<Rightarrow> bool \<Rightarrow> bool \<Rightarrow> uint64 \<Rightarrow> frame \<Rightarrow> 'c moment list \<Rightarrow> ('s, 'c, 'f) socket_base \<Rightarrow> ('s, 'c, 'f, unit) called" where
  "sb_send ops msg_ok sndmore dontwait now m ts b =
     (if ctx_terminated b then Some (ts, b, Some (Inl ETERM))
      else if \<not> msg_ok then Some (ts, b, Some (Inl EFAULT))
      else do {
        (ts, b, r) \<leftarrow> poll ops False True ts b;
        (case r of
           None \<Rightarrow> Some (ts, b, None)
         | Some (Inl e) \<Rightarrow> Some (ts, b, Some (Inl e))
         | Some (Inr _) \<Rightarrow> do {
             (s, r) \<leftarrow> op_send ops (set_more sndmore m) (derived b);
             let b = b\<lparr>derived := s\<rparr>;
             (case r of
                Inr _ \<Rightarrow> Some (ts, b, Some (Inr ()))
              | Inl e \<Rightarrow>
                  if e \<noteq> EAGAIN \<or> dontwait \<or> sndtimeo (sb_options b) = 0 then Some (ts, b, Some (Inl e))
                  else send_loop ops (set_more sndmore m) (sndtimeo (sb_options b))
                         (deadline_of (sndtimeo (sb_options b)) now) ts b) }) })"

section \<open>Receiving\<close>

definition extract_flags :: "frame \<Rightarrow> ('s, 'c, 'f) socket_base \<Rightarrow> ('s, 'c, 'f) socket_base option" where
  "extract_flags m b =
     (if fflags m AND msg_identity \<noteq> 0 \<and> \<not> recv_identity (sb_options b) then None
      else Some (b\<lparr>rcvmore := frame_more m\<rparr>))"

fun recv_loop ::
    "('s, 'c) socket_ops \<Rightarrow> bool \<Rightarrow> int \<Rightarrow> uint64 \<Rightarrow> 'c moment list \<Rightarrow> ('s, 'c, 'f) socket_base \<Rightarrow> ('s, 'c, 'f, frame) called" where
  "recv_loop ops block timeout deadline [] b = Some ([], b, None)"
| "recv_loop ops block timeout deadline (t # ts) b = do {
     (b, r) \<leftarrow> process_commands ops (block \<and> timeout \<noteq> 0) False t b;
     (case r of
        Inl e \<Rightarrow> Some (ts, b, Some (Inl e))
      | Inr _ \<Rightarrow> do {
          (s, r) \<leftarrow> op_recv ops (derived b);
          let b = b\<lparr>derived := s\<rparr>;
          (case r of
             Inr m \<Rightarrow> do { b \<leftarrow> extract_flags m (b\<lparr>ticks := 0\<rparr>); Some (ts, b, Some (Inr m)) }
           | Inl e \<Rightarrow>
               if e \<noteq> EAGAIN then Some (ts, b, Some (Inl e))
               else if timeout > 0 then
                 (if time_left deadline (now_ms t) \<le> 0 then Some (ts, b, Some (Inl EAGAIN))
                  else recv_loop ops True (time_left deadline (now_ms t)) deadline ts b)
               else recv_loop ops True timeout deadline ts b) }) }"

text \<open>The attempt of a call that does not wait.\<close>

definition recv_once ::
    "('s, 'c) socket_ops \<Rightarrow> 'c moment list \<Rightarrow> ('s, 'c, 'f) socket_base \<Rightarrow> ('s, 'c, 'f, frame) called" where
  "recv_once ops ts b = do {
     (ts, b, r) \<leftarrow> poll ops False False ts b;
     (case r of
        None \<Rightarrow> Some (ts, b, None)
      | Some (Inl e) \<Rightarrow> Some (ts, b, Some (Inl e))
      | Some (Inr _) \<Rightarrow> do {
          (s, r) \<leftarrow> op_recv ops (derived b);
          let b = b\<lparr>ticks := 0, derived := s\<rparr>;
          (case r of
             Inl e \<Rightarrow> Some (ts, b, Some (Inl e))
           | Inr m \<Rightarrow> do { b \<leftarrow> extract_flags m b; Some (ts, b, Some (Inr m)) }) }) }"

text \<open>The part of \<open>recv\<close> after the commands were processed, or not, at this tick.\<close>

definition recv_rest ::
    "('s, 'c) socket_ops \<Rightarrow> bool \<Rightarrow> uint64 \<Rightarrow> 'c moment list \<Rightarrow> ('s, 'c, 'f) socket_base \<Rightarrow> ('s, 'c, 'f, frame) called" where
  "recv_rest ops dontwait now ts b = do {
     (s, r) \<leftarrow> op_recv ops (derived b);
     let b = b\<lparr>derived := s\<rparr>;
     (case r of
        Inr m \<Rightarrow> do { b \<leftarrow> extract_flags m b; Some (ts, b, Some (Inr m)) }
      | Inl e \<Rightarrow>
          if e \<noteq> EAGAIN then Some (ts, b, Some (Inl e))
          else if dontwait \<or> rcvtimeo (sb_options b) = 0 then recv_once ops ts b
          else recv_loop ops (ticks b \<noteq> 0) (rcvtimeo (sb_options b)) (deadline_of (rcvtimeo (sb_options b)) now) ts b) }"

definition sb_recv ::
    "('s, 'c) socket_ops \<Rightarrow> bool \<Rightarrow> bool \<Rightarrow> uint64 \<Rightarrow> 'c moment list \<Rightarrow> ('s, 'c, 'f) socket_base \<Rightarrow> ('s, 'c, 'f, frame) called" where
  "sb_recv ops msg_ok dontwait now ts b =
     (if ctx_terminated b then Some (ts, b, Some (Inl ETERM))
      else if \<not> msg_ok then Some (ts, b, Some (Inl EFAULT))
      else do {
        let b = b\<lparr>ticks := ticks b + 1\<rparr>;
        if ticks b = inbound_poll_rate then do {
          (ts, b, r) \<leftarrow> poll ops False False ts b;
          (case r of
             None \<Rightarrow> Some (ts, b, None)
           | Some (Inl e) \<Rightarrow> Some (ts, b, Some (Inl e))
           | Some (Inr _) \<Rightarrow> recv_rest ops dontwait now ts (b\<lparr>ticks := 0\<rparr>)) }
        else recv_rest ops dontwait now ts b })"

section \<open>Commands and ticks\<close>

lemma attach_keeps:
  assumes "sb_attach_pipe ops p all b = Some b'"
  shows "ctx_terminated b' = ctx_terminated b" "ticks b' = ticks b" "sb_queue b' = sb_queue b"
  using assms by (auto simp: sb_attach_pipe_def bind_eq_Some Let_def split: if_splits)

lemma exec_cmds_keeps:
  assumes "exec_cmds ops cs b = Some b'"
  shows "(ctx_terminated b' \<longleftrightarrow> ctx_terminated b \<or> Stop \<in> set cs) \<and> ticks b' = ticks b \<and> sb_queue b' = sb_queue b"
  using assms
proof (induction ops cs b rule: exec_cmds.induct)
  case (3 ops p cs b)
  then show ?case by (auto simp: bind_eq_Some attach_keeps)
qed (auto simp: process_stop_def bind_eq_Some)

text \<open>
  An unthrottled, uninterrupted look into the mailbox executes everything in it; with a request to stop among
  it, the call ends.
\<close>

lemma process_commands_stop:
  assumes "process_commands ops wait False t b = Some (b', r)" "Stop \<in> set (sb_queue b)" "interrupted t = None"
  shows "r = Inl ETERM"
  using assms by (auto simp: process_commands_def bind_eq_Some Let_def dest: exec_cmds_keeps)

lemma poll_stop:
  assumes "poll ops wait False ts b = Some (ts', b', Some r)" "Stop \<in> set (sb_queue b)" "\<forall>t \<in> set ts. interrupted t = None"
  shows "r = Inl ETERM"
  using assms by (auto simp: poll_def bind_eq_Some dest: process_commands_stop split: list.splits)

lemma recv_loop_stop:
  assumes "recv_loop ops block timeout deadline ts b = Some (ts', b', Some r)" "Stop \<in> set (sb_queue b)"
    "\<forall>t \<in> set ts. interrupted t = None"
  shows "r = Inl ETERM"
  using assms by (cases ts) (auto simp: bind_eq_Some dest: process_commands_stop)

lemma recv_rest_stop:
  assumes "recv_rest ops dontwait now ts b = Some (ts', b', Some r)" "Stop \<in> set (sb_queue b)"
    "\<forall>t \<in> set ts. interrupted t = None"
  shows "r = Inl ETERM \<or> ticks b' = ticks b \<and> sb_queue b' = sb_queue b \<and> ts' = ts"
proof -
  obtain s x where x: "op_recv ops (derived b) = Some (s, x)" using assms(1) by (auto simp: recv_rest_def bind_eq_Some)
  let ?b = "b\<lparr>derived := s\<rparr>"
  have q: "Stop \<in> set (sb_queue ?b)" using assms(2) by simp
  show ?thesis
  proof (cases x)
    case (Inr m)
    then show ?thesis using assms(1) x by (auto simp: recv_rest_def bind_eq_Some extract_flags_def split: if_splits)
  next
    case (Inl e)
    consider "e \<noteq> EAGAIN" | "e = EAGAIN" "dontwait \<or> rcvtimeo (sb_options ?b) = 0" | "e = EAGAIN" "\<not> (dontwait \<or> rcvtimeo (sb_options ?b) = 0)"
      by blast
    then show ?thesis
    proof cases
      case 1
      then show ?thesis using assms(1) x Inl by (auto simp: recv_rest_def)
    next
      case 2
      then have "recv_once ops ts ?b = Some (ts', b', Some r)" using assms(1) x Inl by (simp add: recv_rest_def)
      moreover then obtain ts1 b1 r1 where p: "poll ops False False ts ?b = Some (ts1, b1, Some r1)"
        by (cases "poll ops False False ts ?b") (auto simp: recv_once_def split: option.splits)
      moreover have "r1 = Inl ETERM" using poll_stop[OF p q assms(3)] .
      ultimately show ?thesis by (simp add: recv_once_def)
    next
      case 3
      then have "recv_loop ops (ticks ?b \<noteq> 0) (rcvtimeo (sb_options ?b)) (deadline_of (rcvtimeo (sb_options ?b)) now) ts ?b =
          Some (ts', b', Some r)" using assms(1) x Inl by (simp add: recv_rest_def)
      then show ?thesis using recv_loop_stop q assms(3) by blast
    qed
  qed
qed

lemma recv_stop:
  assumes "sb_recv ops True dontwait now ts b = Some (ts', b', Some r)" "Stop \<in> set (sb_queue b)" "\<forall>t \<in> set ts. interrupted t = None"
  shows "r = Inl ETERM \<or> ticks b + 1 \<noteq> inbound_poll_rate \<and> ticks b' = ticks b + 1 \<and> sb_queue b' = sb_queue b \<and> ts' = ts"
proof (cases "ctx_terminated b \<or> ticks b + 1 \<noteq> inbound_poll_rate")
  case True
  then show ?thesis using assms recv_rest_stop[of ops dontwait now ts "b\<lparr>ticks := ticks b + 1\<rparr>" ts' b' r]
    by (auto simp: sb_recv_def split: if_splits)
next
  case False
  let ?b = "b\<lparr>ticks := ticks b + 1\<rparr>"
  obtain ts1 b1 r1 where p: "poll ops False False ts ?b = Some (ts1, b1, Some r1)"
    using assms(1) False by (cases "poll ops False False ts ?b") (auto simp: sb_recv_def Let_def split: option.splits)
  have "Stop \<in> set (sb_queue ?b)" using assms(2) by simp
  from poll_stop[OF p this assms(3)] show ?thesis using assms(1) False p by (simp add: sb_recv_def Let_def)
qed

text \<open>A sequence of calls of \<open>recv\<close>, each with its flag and the time of the call, and their results.\<close>

fun recv_run ::
    "('s, 'c) socket_ops \<Rightarrow> (bool \<times> uint64) list \<Rightarrow> 'c moment list \<Rightarrow> ('s, 'c, 'f) socket_base \<Rightarrow>
     ('c moment list \<times> ('s, 'c, 'f) socket_base \<times> frame outcome list) option" where
  "recv_run ops [] ts b = Some (ts, b, [])"
| "recv_run ops ((dontwait, now) # cs) ts b = do {
     (ts, b, r) \<leftarrow> sb_recv ops True dontwait now ts b;
     (case r of
        None \<Rightarrow> Some (ts, b, [])
      | Some r \<Rightarrow> do { (ts, b, rs) \<leftarrow> recv_run ops cs ts b; Some (ts, b, r # rs) }) }"

section \<open>Addresses of endpoints\<close>

lemma find_sep_Some:
  "find_sep u = Some k \<longleftrightarrow> take 3 (drop k u) = ''://'' \<and> (\<forall>j < k. take 3 (drop j u) \<noteq> ''://'')"
proof (induction u arbitrary: k)
  case (Cons c u)
  show ?case
  proof (cases k)
    case (Suc j)
    then show ?thesis using Cons.IH[of j] by (auto simp: All_less_Suc2)
  qed auto
qed simp

section \<open>Pipes and termination\<close>

text \<open>While the socket terminates, it waits for one acknowledgement per attached pipe in addition to those of other objects.\<close>

definition other_acks :: "('s, 'c, 'f) socket_base \<Rightarrow> int" where
  "other_acks b = sb_term_acks b - int (array_size (sb_pipes b))"

lemma attach_acks:
  assumes "sb_attach_pipe ops p all b = Some b'" "sb_terminating b"
  shows "other_acks b' = other_acks b" "sb_terminating b'"
  using assms
  by (auto simp: sb_attach_pipe_def other_acks_def array_size_def array_push_back_def set_array_index_def bind_eq_Some Let_def)

lemma process_term_acks:
  assumes "sb_process_term ops b = Some b'"
  shows "other_acks b' = sb_term_acks b" "sb_terminating b'"
  using assms by (auto simp: sb_process_term_def other_acks_def bind_eq_Some)

lemma terminated_acks:
  assumes "sb_terminated ops p b = Some b'" "sb_terminating b"
  shows "other_acks b' = other_acks b" "sb_terminating b'"
  using assms
  by (auto simp: sb_terminated_def other_acks_def array_size_def array_erase_def array_erase_at_def set_array_index_def
      bind_eq_Some Let_def of_nat_diff split: if_splits)

section \<open>A socket with messages\<close>

lemma recv_ready:
  assumes "\<not> ctx_terminated b" "ticks b + 1 \<noteq> inbound_poll_rate" "op_recv ops (derived b) = Some (s, Inr m)"
    "fflags m AND msg_identity = 0"
  shows "sb_recv ops True dontwait now ts b =
    Some (ts, b\<lparr>ticks := ticks b + 1, derived := s, rcvmore := frame_more m\<rparr>, Some (Inr m))"
  using assms by (simp add: sb_recv_def recv_rest_def extract_flags_def)

lemma recv_run_ready:
  assumes "\<not> ctx_terminated b" "inbound_poll_rate \<le> ticks b"
    and src: "\<forall>s. \<exists>s' m. op_recv ops s = Some (s', Inr m) \<and> fflags m AND msg_identity = 0"
  shows "\<exists>b' rs. recv_run ops cs ts b = Some (ts, b', rs) \<and> length rs = length cs \<and> Inl ETERM \<notin> set rs \<and> sb_queue b' = sb_queue b"
  using assms(1,2)
proof (induction cs arbitrary: b)
  case (Cons c cs)
  obtain dw now where c: "c = (dw, now)" by fastforce
  obtain s m where m: "op_recv ops (derived b) = Some (s, Inr m)" "fflags m AND msg_identity = 0" using src by blast
  let ?b = "b\<lparr>ticks := ticks b + 1, derived := s, rcvmore := frame_more m\<rparr>"
  have r: "sb_recv ops True dw now ts b = Some (ts, ?b, Some (Inr m))"
    using Cons.prems m by (intro recv_ready) auto
  obtain b' rs where "recv_run ops cs ts ?b = Some (ts, b', rs)" "length rs = length cs" "Inl ETERM \<notin> set rs" "sb_queue b' = sb_queue ?b"
    using Cons.IH[of ?b] Cons.prems by auto
  then show ?case using r c by auto
qed simp

section \<open>Properties\<close>

text \<open>
  C40: the address of an endpoint is split at the first separator: exactly the strings of a nonempty protocol, the
  separator and a nonempty address are accepted, and joining the parts gives the string back.
\<close>

theorem parse_uri_correct:
  "parse_uri u = Inr (p, a) \<longleftrightarrow> u = p @ ''://'' @ a \<and> p \<noteq> [] \<and> a \<noteq> [] \<and> (\<forall>j < length p. take 3 (drop j u) \<noteq> ''://'')"
proof
  assume "parse_uri u = Inr (p, a)"
  then obtain k where k: "find_sep u = Some k" "p = take k u" "a = drop (k + 3) u" "p \<noteq> []" "a \<noteq> []"
    by (auto simp: parse_uri_def Let_def split: option.splits if_splits)
  then have s: "take 3 (drop k u) = ''://''" "\<forall>j < k. take 3 (drop j u) \<noteq> ''://''" using find_sep_Some by auto
  then have l: "k \<le> length u" by (cases "k \<le> length u") auto
  have "u = take k u @ take 3 (drop k u) @ drop 3 (drop k u)" by (metis append_take_drop_id)
  then have "u = p @ ''://'' @ a" using s(1) k(2,3) by (simp add: add.commute)
  then show "u = p @ ''://'' @ a \<and> p \<noteq> [] \<and> a \<noteq> [] \<and> (\<forall>j < length p. take 3 (drop j u) \<noteq> ''://'')"
    using k s(2) l by (auto simp: min_def)
next
  assume u: "u = p @ ''://'' @ a \<and> p \<noteq> [] \<and> a \<noteq> [] \<and> (\<forall>j < length p. take 3 (drop j u) \<noteq> ''://'')"
  moreover have "take 3 (drop (length p) u) = ''://''" using u by simp
  ultimately have "find_sep u = Some (length p)" unfolding find_sep_Some by blast
  then show "parse_uri u = Inr (p, a)" using u by (simp add: parse_uri_def)
qed

theorem parse_uri_correct_witness: "parse_uri ''tcp://*:5555'' = Inr (''tcp'', ''*:5555'')"
  unfolding parse_uri_correct by (simp add: All_less_Suc2 numeral_3_eq_3)


definition demo_source :: "(frame list, unit) socket_ops" where
  "demo_source = \<lparr>op_send = \<lambda>m s. Some (s, Inl ENOTSUP),
     op_recv = \<lambda>s. Some (case s of [] \<Rightarrow> ([], Inr (frame_of 0 [])) | m # s \<Rightarrow> (s, Inr (frame_of 0 (fdata m)))),
     op_has_out = \<lambda>s. Some (s, False), op_has_in = \<lambda>s. Some (s, True), op_attach = \<lambda>p all s. Some s,
     op_terminated = \<lambda>p s. Some s, op_hiccuped = \<lambda>p s. None, op_pipe_terminate = \<lambda>d p s. Some s,
     op_setsockopt = \<lambda>opt v s. Some (s, Inl EINVAL), op_launch_child = \<lambda>c s. Some s, op_term_child = \<lambda>c s. Some s,
     op_exec = \<lambda>c s. Some s\<rparr>"

definition demo_base :: "(frame list, unit, unit) socket_base" where
  "demo_base = (socket_base_init (pull_options options_init) [frame_of 0 [1], frame_of 0 [2]])\<lparr>ticks := 98, sb_queue := [Stop]\<rparr>"

definition demo_moment :: "unit moment" where
  "demo_moment = \<lparr>arrivals = [], tsc = 0, interrupted = None, now_ms = 0\<rparr>"

lemmas demo_base_defs = demo_base_def demo_source_def demo_moment_def socket_base_init_def sb_recv_def recv_rest_def poll_def
  process_commands_def process_stop_def extract_flags_def inbound_poll_rate_def frame_of_def msg_identity_def




end
