(* ===== verification/Spec2Isabelle.thy ===== *)
theory Spec2Isabelle
  imports Req Watermark Pubsub Rep Simple_Sockets Handshake Own_Tree Engine Mailbox Socket_Base
begin

text \<open>
  Verification of the messaging core of the image server: the ZeroMQ library 3.2.3 under
  \<open>src/nginx/program/zeromq-3.2.3/src\<close>, through which the routers and workers of the server exchange
  requests. All file names below are relative to that directory.

  \<^bold>\<open>The program.\<close> A socket owns a set of pipes, one per peer. A pipe has two ends, each with an inbound
  and an outbound lock-free queue; the ends inform each other by commands. A socket type combines a
  policy for receiving (fair queueing) with one for sending (load balancing, distribution, routing by
  identity). The far end of a pipe belongs either to another socket of the process or to a session, which
  moves messages between the pipe and an engine; the engine encodes and decodes them on a byte stream.

  \<^bold>\<open>Conventions.\<close> An operation that can fail internally (a failed assertion, an access to freed or
  unallocated memory, an index out of range) returns an option, and \<^const>\<open>None\<close> is that failure; an
  error that the code reports through \<open>errno\<close> is a value of the sum type of outcomes. Machine integers
  that can wrap are words of their width. Loops are structural recursions or functions with a
  termination proof; the loops whose end depends on the pipes (\<open>clean_loop\<close>, \<open>dealer_recv_loop\<close>,
  \<open>req_discard\<close>, \<open>xpub_xread_activated\<close>, \<open>xsub_skip\<close>, \<open>xsub_next\<close>, \<open>router_recv_loop\<close>, \<open>rep_labels\<close>) are
  partial functions on options, and for each of them it is proved that it returns. No fuel is used
  anywhere.

  \<^bold>\<open>Theories.\<close>

  \<^item> \<open>Prelude\<close>: error codes, outcomes, swaps in lists, prefixes of lists; \<open>Wire\<close>: \<open>wire.hpp\<close>, integers in
    network byte order; \<open>Arrays\<close>: \<open>array.hpp\<close>, the intrusive array and its prefix sets.

  \<^item> \<open>Msg\<close>: \<open>msg.hpp\<close>, \<open>msg.cpp\<close>, messages with shared, reference counted contents in an explicit memory.
    Closing and copying keep the memory consistent: no use after free, no double free, no leak. The other
    theories use the view of a message as a frame (flags and data).

  \<^item> \<open>Yqueue\<close>, \<open>Ypipe\<close>: \<open>yqueue.hpp\<close>, \<open>ypipe.hpp\<close>, the linked list of chunks with its spare chunk and the
    lock-free pipe over it. The queue refines a list, the pipe refines the channel specification
    \<open>chan\<close>; with the writer and the reader as two threads whose atomic steps interleave arbitrarily, the
    items arrive in order, no invalid memory is touched and no wake-up is lost.

  \<^item> \<open>Fair_Queue\<close>, \<open>Load_Balancer\<close>, \<open>Dist\<close>: \<open>fq.cpp\<close>, \<open>lb.cpp\<close>, \<open>dist.cpp\<close>. Their clients' view of pipes is
    the interface of the locales \<open>inbound\<close> and \<open>outbound\<close>, inside which the policies are proved correct.

  \<^item> \<open>Pipe\<close>: \<open>pipe.hpp\<close>, \<open>pipe.cpp\<close>, the pipe ends of a world with their channels and the commands in
    flight, all command handlers included; it interprets both locales. \<open>Watermark\<close>: the flow control
    across wrap-around of the 64-bit counters. \<open>Routing\<close>: the policies over real pipes. \<open>Handshake\<close>: the
    two ends of a pipe as threads that run all operations in any order; the states the pair can be in,
    that no operation fails, and that the termination protocol ends and frees everything.

  \<^item> \<open>Trie\<close>, \<open>Mtrie\<close>: \<open>trie.cpp\<close>, \<open>mtrie.cpp\<close>, the subscription tries with growth, compaction and
    reference counts, against the map from keys to reference counts or to sets of pipes.

  \<^item> \<open>Encoder\<close>, \<open>Decoder\<close>, \<open>Codec\<close>: \<open>encoder.hpp\<close>, \<open>decoder.hpp\<close> and the encoders and decoders of both
    protocol versions, with the locales \<open>msg_source\<close> and \<open>msg_sink\<close> as interfaces to the session: round
    trip for every way the stream is cut into batches, and safety on arbitrary input.

  \<^item> \<open>Options\<close>: \<open>options.cpp\<close>. \<open>Session\<close>: \<open>session_base.cpp\<close>, all handlers; it interprets the interfaces of
    the encoder and the decoder, so that messages pass from pipe to pipe over a byte stream.

  \<^item> \<open>Engine\<close>: \<open>stream_engine.cpp\<close>, the greeting, the choice of the protocol and the event handlers. The outcome
    of the handshake depends only on the bytes of the peer; an engine passes the messages of a stream to its
    session in order however they arrive, ends a broken connection only after the last of them was accepted, and
    writes exactly the stream of its messages. The locales \<open>engine_sink\<close> and \<open>engine_source\<close> extend those of
    the decoder and the encoder and are interpreted by sessions.

  \<^item> \<open>Mailbox\<close>: \<open>mailbox.cpp\<close>, \<open>signaler.cpp\<close>, the queue of commands of a thread: senders under a mutex, the
    lock-free pipe and the signalling descriptor. In every interleaving of the atomic steps no assertion
    fails, no command and no wake-up is lost.

  \<^item> \<open>Socket_Base\<close>: \<open>socket_base.cpp\<close>, the calls of the application on a socket of any type, whose virtual methods are an
    argument: sending and receiving with timeouts, the processing of commands and its throttling, options,
    pipes and endpoints. A request to stop is noticed in time, unless an interrupted call disables the throttling.

  \<^item> \<open>Own_Tree\<close>: \<open>own.cpp\<close> and the part of \<open>object.cpp\<close> it uses, the tree of objects of several threads that own
    each other, with the commands between them. In every interleaving no assertion fails and no command
    reaches a deallocated object, and a termination of the root ends and deallocates the whole tree.

  \<^item> \<open>Req\<close>: \<open>dealer.cpp\<close>, \<open>req.cpp\<close>: requests go out behind an empty frame, the reply to a request is
    returned without it and malformed replies are discarded. \<open>Router\<close>, \<open>Rep\<close>: \<open>router.cpp\<close>, \<open>rep.cpp\<close>:
    peers are identified, messages are routed to the peer they name, a reply follows the labels of its
    request; \<open>Duplex\<close> collects what reading one pipe leaves of writing to another.

  \<^item> \<open>Xpub\<close>, \<open>Xsub\<close>: \<open>xpub.cpp\<close>, \<open>pub.cpp\<close>, \<open>xsub.cpp\<close>, \<open>sub.cpp\<close>: a published message goes to the pipes
    whose subscriptions are a prefix of it, a received one matches a subscription. \<open>Pubsub\<close> composes the
    two: after any requests were exchanged, both sides hold the same subscriptions.

  \<^item> \<open>Simple_Sockets\<close>: \<open>push.cpp\<close>, \<open>pull.cpp\<close>, \<open>pair.cpp\<close>.

  \<^bold>\<open>Bounds.\<close> The counters of messages are 64-bit words and the watermark theorems hold across their
  wrap-around; the reference counts of the trie are 32-bit words, and adding a key assumes that its count
  does not overflow. Sizes of messages are below \<open>2^64\<close> wherever they are put on the wire.

  \<^bold>\<open>Parameters.\<close> What is not part of these sources is an argument of the definitions: the addresses that
  memory allocation returns, whether an allocation succeeds, the macros of the generated
  \<open>platform.hpp\<close>, the resolution of address masks.

  \<^bold>\<open>Not modelled.\<close> Of the socket base, the creation of sockets, binding and connecting, monitors and the hand-over
  to the reaper; the context, and the proxy, a loop over blocking calls. The pollers, transports, the C interface and the
  platform layer are wrappers of operating system calls. Page Speed is a separate tool with vendored
  libraries, and the Lua scripts of the web server are written in another language.
\<close>

end
